(* ===== verification/Prelude.thy ===== *)
theory Prelude
  imports Complex_Main "HOL-Library.AList" "HOL-Library.Log_Nat" "HOL-Library.Multiset"
begin

text \<open>
  Shared ground of the development: the fact collections, the JavaScript objects the
  gateway and the bridge use as tables (insertion-ordered association lists, with the
  store interface they satisfy), the string helpers of the JavaScript library that the
  modelled code calls, and generic list lemmas.

  Strings are \<^typ>\<open>string\<close>, a list of bytes; a JavaScript string stands for its UTF-8
  bytes. \<open>''''\<close> also stands for a string field that is absent, which the code never
  distinguishes from the empty string (it tests such fields by truthiness or reads them
  through \<^verbatim>\<open>x || fallback\<close>).
\<close>

named_theorems table_simps \<open>reading a table after a write\<close>
named_theorems js_defs \<open>unfolding JavaScript library operations\<close>
named_theorems js_num \<open>laws of rounded arithmetic\<close>
named_theorems gw_defs \<open>unfolding gateway operations\<close>

section \<open>Results\<close>

text \<open>
  An HTTP handler answers with a body or with an error status and message;
  \<open>Refused status reason\<close> is \<^verbatim>\<open>res.status(status).json({error: reason})\<close>. The messages are
  shortened to their fixed part where the code interpolates values into them. \<open>Uncaught\<close> is an
  exception that leaves an \<^verbatim>\<open>async\<close> handler with no \<^verbatim>\<open>try\<close> around it: Express 4 does not see
  the rejected promise, so no answer is sent.
\<close>

datatype refusal = Refused (status: nat) (reason: string) | Uncaught

type_synonym 'a answer = "refusal + 'a"

abbreviation refuse :: "nat \<Rightarrow> string \<Rightarrow> 'a answer" where
  "refuse s m \<equiv> Inl (Refused s m)"

section \<open>Tables\<close>

text \<open>
  A JavaScript object or \<^verbatim>\<open>Map\<close> used as a table: looked up by key, written in place when
  the key is present and at the end when it is not, and iterated in insertion order.
\<close>

type_synonym 'v table = "(string \<times> 'v) list"

abbreviation get :: "('k \<times> 'v) list \<Rightarrow> 'k \<Rightarrow> 'v option" where
  "get t k \<equiv> map_of t k"

abbreviation put :: "'k \<Rightarrow> 'v \<Rightarrow> ('k \<times> 'v) list \<Rightarrow> ('k \<times> 'v) list" where
  "put k v t \<equiv> AList.update k v t"

abbreviation del :: "'k \<Rightarrow> ('k \<times> 'v) list \<Rightarrow> ('k \<times> 'v) list" where
  "del k t \<equiv> AList.delete k t"

definition keyed :: "('k \<times> 'v) list \<Rightarrow> bool" where
  "keyed t \<longleftrightarrow> distinct (map fst t)"

definition map_rows :: "('k \<Rightarrow> 'v \<Rightarrow> 'v) \<Rightarrow> ('k \<times> 'v) list \<Rightarrow> ('k \<times> 'v) list" where
  "map_rows f t = map (\<lambda>(k, v). (k, f k v)) t"

locale store =
  fixes look :: "'s \<Rightarrow> 'k \<Rightarrow> 'v option"
    and upd :: "'k \<Rightarrow> 'v \<Rightarrow> 's \<Rightarrow> 's"
    and rem :: "'k \<Rightarrow> 's \<Rightarrow> 's"
    and wf :: "'s \<Rightarrow> bool"
  assumes look_upd: "look (upd k v s) = (look s)(k \<mapsto> v)"
    and look_rem: "look (rem k s) = (look s)(k := None)"
    and wf_upd: "wf s \<Longrightarrow> wf (upd k v s)"
    and wf_rem: "wf s \<Longrightarrow> wf (rem k s)"
begin

lemma look_upd_same: "look (upd k v s) k = Some v"
  by (simp add: look_upd)

lemma look_upd_other: "j \<noteq> k \<Longrightarrow> look (upd k v s) j = look s j"
  by (simp add: look_upd)

lemma look_rem_same: "look (rem k s) k = None"
  by (simp add: look_rem)

lemma look_rem_other: "j \<noteq> k \<Longrightarrow> look (rem k s) j = look s j"
  by (simp add: look_rem)

lemma upd_keeps_all:
  assumes "\<And>j w. look s j = Some w \<Longrightarrow> P j w" and "P k v"
  shows "look (upd k v s) j = Some w \<Longrightarrow> P j w"
  using assms by (cases "j = k") (auto simp: look_upd)

lemma rem_keeps_all:
  assumes "\<And>j w. look s j = Some w \<Longrightarrow> P j w"
  shows "look (rem k s) j = Some w \<Longrightarrow> P j w"
  using assms by (cases "j = k") (auto simp: look_rem)

end

interpretation tab: store "get :: ('k \<times> 'v) list \<Rightarrow> 'k \<Rightarrow> 'v option" put del keyed
  by unfold_locales
    (auto simp: update_conv' delete_conv' keyed_def distinct_update distinct_delete)

lemmas [table_simps] =
  tab.look_upd_same tab.look_upd_other tab.look_rem_same tab.look_rem_other

lemma keyed_Nil [simp]: "keyed []"
  by (simp add: keyed_def)

lemma keys_map_rows [simp]: "map fst (map_rows f t) = map fst t"
  by (induction t) (auto simp: map_rows_def)

lemma keyed_map_rows [simp]: "keyed (map_rows f t) = keyed t"
  by (simp add: keyed_def)

lemma get_map_rows [table_simps]: "get (map_rows f t) k = map_option (f k) (get t k)"
  by (induction t) (auto simp: map_rows_def)

lemma get_in_set: "get t k = Some v \<Longrightarrow> (k, v) \<in> set t"
  by (rule map_of_SomeD)

lemma keyed_get: "keyed t \<Longrightarrow> (k, v) \<in> set t \<Longrightarrow> get t k = Some v"
  by (simp add: keyed_def)

lemma put_absent: "get t k = None \<Longrightarrow> put k v t = t @ [(k, v)]"
  by (induction t) (auto split: if_splits)

lemma del_absent: "get t k = None \<Longrightarrow> del k t = t"
  by (induction t) (auto split: if_splits)

lemma mset_del:
  "keyed t \<Longrightarrow> get t k = Some v \<Longrightarrow> add_mset (k, v) (mset (del k t)) = mset t"
  by (induction t) (auto simp: keyed_def del_absent map_of_eq_None_iff split: if_splits)

lemma mset_put_same:
  "keyed t \<Longrightarrow> get t k = Some v \<Longrightarrow> f w = f v \<Longrightarrow>
   image_mset (f \<circ> snd) (mset (put k w t)) = image_mset (f \<circ> snd) (mset t)"
  by (induction t) (auto simp: keyed_def split: if_splits)

section \<open>Strings\<close>

definition is_space :: "char \<Rightarrow> bool" where
  "is_space c \<longleftrightarrow> c = CHR '' '' \<or> (9 \<le> (of_char c :: nat) \<and> (of_char c :: nat) \<le> 13)"

definition trim :: "string \<Rightarrow> string" where
  "trim s = rev (dropWhile is_space (rev (dropWhile is_space s)))"

definition starts_with :: "string \<Rightarrow> string \<Rightarrow> bool" where
  "starts_with s p \<longleftrightarrow> take (length p) s = p"

definition lower_char :: "char \<Rightarrow> char" where
  "lower_char c = (if 65 \<le> (of_char c :: nat) \<and> (of_char c :: nat) \<le> 90
                   then char_of ((of_char c :: nat) + 32) else c)"

definition to_lower :: "string \<Rightarrow> string" where
  "to_lower s = map lower_char s"

definition is_digit :: "char \<Rightarrow> bool" where
  "is_digit c \<longleftrightarrow> 48 \<le> (of_char c :: nat) \<and> (of_char c :: nat) \<le> 57"

definition or_else :: "string \<Rightarrow> string \<Rightarrow> string" where
  "or_else a b = (if a = '''' then b else a)"

lemma starts_with_append [simp]: "starts_with (p @ s) p"
  by (simp add: starts_with_def)

section \<open>Lists\<close>

lemma find_SomeD: "List.find P xs = Some x \<Longrightarrow> x \<in> set xs \<and> P x"
  by (induction xs) (auto split: if_splits)

lemma find_None: "List.find P xs = None \<longleftrightarrow> (\<forall>x \<in> set xs. \<not> P x)"
  by (induction xs) auto

text \<open>\<^verbatim>\<open>xs.slice(-n)\<close>: the last \<open>n\<close> elements.\<close>

definition slice_last :: "nat \<Rightarrow> 'a list \<Rightarrow> 'a list" where
  "slice_last n xs = drop (length xs - n) xs"

lemma length_slice_last: "length (slice_last n xs) = min n (length xs)"
  by (simp add: slice_last_def)

end
