(* ===== verification/JS_Number.thy ===== *)
theory JS_Number
  imports Prelude
begin

text \<open>
  The numbers of the modelled JavaScript. An IEEE double is a rational; \<open>fl\<close> is the
  rounding that every arithmetic operation applies: to nearest, ties to even, 53 significant
  bits, so \<^verbatim>\<open>a + b\<close> of the code is \<open>fl (a + b)\<close> here and the drift of repeated additions
  is in the model. The exponent is not bounded (no overflow to infinity, no subnormals) and
  \<open>-0\<close> is \<open>0\<close>. \<open>jsnum\<close> adds \<^verbatim>\<open>NaN\<close> and the infinities, which reach the code through
  \<^verbatim>\<open>Number(x)\<close> of a request field; \<open>jsval\<close> is such a field.

  The locale \<open>rounding\<close> states what the components use of \<open>fl\<close>; \<open>round6\<close> is the gateway's
  rounding to six decimals, and \<open>round6_micro_add\<close> the fact that makes a ledger kept in
  doubles agree with one kept in integer micro-units.
\<close>

section \<open>Rounding to double precision\<close>

text \<open>\<open>expo x\<close> is the binary exponent of \<open>x > 0\<close>; \<open>rne\<close> rounds to the nearest integer, ties to even.\<close>

definition expo :: "rat \<Rightarrow> int" where
  "expo x = (let (p, q) = quotient_of x; k = bitlen p - bitlen q
             in if 2 powi k \<le> x then k else k - 1)"

definition rne :: "rat \<Rightarrow> int" where
  "rne x = (let f = \<lfloor>x\<rfloor>; d = x - of_int f
            in if d < 1/2 then f else if 1/2 < d then f + 1 else if even f then f else f + 1)"

definition fl :: "rat \<Rightarrow> rat" where
  "fl x = (if x = 0 then 0
           else let u = 2 powi (expo \<bar>x\<bar> - 52) in of_int (rne (x / u)) * u)"

lemma pow2_pos [simp]: "0 < (2::rat) powi k"
  by (simp add: zero_less_power_int)

lemma pow2_le_iff [simp]: "(2::rat) powi a \<le> 2 powi b \<longleftrightarrow> a \<le> b"
  using power_int_increasing [of a b "2::rat"] power_int_strict_increasing [of b a "2::rat"]
  by (meson not_le one_le_numeral one_less_numeral_iff semiring_norm(76) le_less_linear)

lemma pow2_less_iff [simp]: "(2::rat) powi a < 2 powi b \<longleftrightarrow> a < b"
  using pow2_le_iff [of b a] by (meson not_le)

lemma pow2_add: "(2::rat) powi (a + b) = 2 powi a * 2 powi b"
  by (simp add: power_int_add)

lemma pow2_nat: "0 \<le> k \<Longrightarrow> (2::rat) ^ nat k = 2 powi k"
  by (simp add: power_int_def)

lemma bitlen_pow2_bounds:
  assumes "0 < p"
  shows "2 powi (bitlen p - 1) \<le> (of_int p :: rat)" and "(of_int p :: rat) < 2 powi bitlen p"
proof -
  have pos: "0 < bitlen p"
    using assms bitlen_nonneg [of p] bitlen_eq_zero_iff [of p] by linarith
  from bitlen_bounds [OF assms] have lo: "2 ^ nat (bitlen p - 1) \<le> p" and hi: "p < 2 ^ nat (bitlen p)"
    by auto
  from lo have "(of_int (2 ^ nat (bitlen p - 1)) :: rat) \<le> of_int p" by (simp only: of_int_le_iff)
  then show "2 powi (bitlen p - 1) \<le> (of_int p :: rat)" using pos by (simp add: pow2_nat)
  from hi have "(of_int p :: rat) < of_int (2 ^ nat (bitlen p))" by (simp only: of_int_less_iff)
  then show "(of_int p :: rat) < 2 powi bitlen p" using pos by (simp add: pow2_nat)
qed

lemma expo_bounds:
  assumes "0 < x"
  shows "2 powi expo x \<le> x" and "x < 2 powi (expo x + 1)"
proof -
  obtain p q where pq: "quotient_of x = (p, q)" by fastforce
  have q: "0 < q" and x: "x = of_int p / of_int q"
    using quotient_of_denom_pos [OF pq] quotient_of_div [OF pq] by auto
  have p: "0 < p" using assms q x by (simp add: zero_less_divide_iff)
  let ?P = "bitlen p" and ?Q = "bitlen q"
  have "x < 2 powi ?P / of_int q"
    using bitlen_pow2_bounds(2) [OF p] q x by (simp add: divide_strict_right_mono)
  also have "\<dots> \<le> 2 powi ?P / 2 powi (?Q - 1)"
    using bitlen_pow2_bounds(1) [OF q] by (intro divide_left_mono) (auto simp: q)
  also have "\<dots> = 2 powi (?P - ?Q + 1)"
    by (simp add: power_int_diff [symmetric] algebra_simps)
  finally have hi: "x < 2 powi (?P - ?Q + 1)" .
  have "2 powi (?P - ?Q - 1) = 2 powi (?P - 1) / (2::rat) powi ?Q"
    by (simp add: power_int_diff [symmetric] algebra_simps)
  also have "\<dots> \<le> of_int p / 2 powi ?Q"
    using bitlen_pow2_bounds(1) [OF p] by (simp add: divide_right_mono)
  also have "\<dots> \<le> x"
    using bitlen_pow2_bounds(2) [OF q] p q x by (simp add: frac_le)
  finally have lo: "2 powi (?P - ?Q - 1) \<le> x" .
  from lo hi show "2 powi expo x \<le> x" and "x < 2 powi (expo x + 1)"
    by (auto simp: expo_def pq Let_def)
qed

lemma expo_le: "0 < x \<Longrightarrow> x < 2 powi (k + 1) \<Longrightarrow> expo x \<le> k"
  using expo_bounds(1) [of x] by (metis le_less_trans pow2_less_iff zle_add1_eq_le)

lemma expo_ge: "0 < x \<Longrightarrow> 2 powi k \<le> x \<Longrightarrow> k \<le> expo x"
  using expo_bounds(2) [of x] by (metis le_less_trans pow2_less_iff zle_add1_eq_le)

lemma expo_mono: "0 < x \<Longrightarrow> x \<le> y \<Longrightarrow> expo x \<le> expo y"
  using expo_bounds(1) [of x] by (intro expo_ge) auto

lemma rne_error: "\<bar>of_int (rne x) - x\<bar> \<le> 1/2"
  by (auto simp: rne_def Let_def abs_if) linarith+

lemma rne_of_int [simp]: "rne (of_int n) = n"
  by (simp add: rne_def)

lemma rne_floor: "\<lfloor>x\<rfloor> \<le> rne x" "rne x \<le> \<lfloor>x\<rfloor> + 1"
  by (auto simp: rne_def Let_def)

lemma rne_mono: "x \<le> y \<Longrightarrow> rne x \<le> rne y"
proof (cases "\<lfloor>x\<rfloor> = \<lfloor>y\<rfloor>")
  case True
  then show "x \<le> y \<Longrightarrow> rne x \<le> rne y" by (auto simp: rne_def Let_def)
next
  case False
  assume "x \<le> y"
  then have "\<lfloor>x\<rfloor> + 1 \<le> \<lfloor>y\<rfloor>" using False floor_mono [of x y] by linarith
  then show "rne x \<le> rne y" using rne_floor(2) [of x] rne_floor(1) [of y] by linarith
qed

lemma rne_minus: "rne (- x) = - rne x"
proof (cases "x = of_int \<lfloor>x\<rfloor>")
  case True
  then show ?thesis by (metis of_int_minus rne_of_int)
next
  case False
  then have fl: "\<lfloor>- x\<rfloor> = - \<lfloor>x\<rfloor> - 1" by (intro floor_unique) (auto, linarith+)
  show ?thesis by (auto simp: rne_def Let_def fl)
qed

lemma fl_0 [simp]: "fl 0 = 0"
  by (simp add: fl_def)

lemma fl_minus: "fl (- x) = - fl x"
  by (simp add: fl_def Let_def rne_minus)

lemma fl_pos_eq: "0 < x \<Longrightarrow> fl x = of_int (rne (x / 2 powi (expo x - 52))) * 2 powi (expo x - 52)"
  by (simp add: fl_def Let_def)

lemma fl_binade:
  assumes "0 < x"
  shows "2 powi expo x \<le> fl x" and "fl x \<le> 2 powi (expo x + 1)"
proof -
  let ?e = "expo x" let ?u = "(2::rat) powi (?e - 52)"
  have "2 powi ?e / ?u \<le> x / ?u" using expo_bounds(1) [OF assms] by (intro divide_right_mono) auto
  then have "(of_int (2 ^ 52) :: rat) \<le> x / ?u" by (simp add: power_int_diff [symmetric])
  then have "2 ^ 52 \<le> rne (x / ?u)" using rne_mono rne_of_int by metis
  then have "(of_int (2 ^ 52) :: rat) \<le> of_int (rne (x / ?u))" by (simp only: of_int_le_iff)
  then have "of_int (2 ^ 52) * ?u \<le> fl x" using assms by (simp add: fl_pos_eq)
  then show "2 powi ?e \<le> fl x" by (simp add: power_int_diff)
  have "x / ?u \<le> 2 powi (?e + 1) / ?u"
    using expo_bounds(2) [OF assms] by (intro divide_right_mono) auto
  then have "x / ?u \<le> (of_int (2 ^ 53) :: rat)" by (simp add: power_int_diff [symmetric])
  then have "rne (x / ?u) \<le> 2 ^ 53" using rne_mono rne_of_int by metis
  then have "(of_int (rne (x / ?u)) :: rat) \<le> of_int (2 ^ 53)" by (simp only: of_int_le_iff)
  then have "fl x \<le> of_int (2 ^ 53) * ?u" using assms by (simp add: fl_pos_eq)
  then show "fl x \<le> 2 powi (?e + 1)" by (simp add: power_int_diff power_int_add)
qed

lemma fl_pos: "0 < x \<Longrightarrow> 0 < fl x"
  using fl_binade(1) [of x] by (meson less_le_trans pow2_pos)

lemma fl_mono_pos:
  assumes "0 < x" and "x \<le> y"
  shows "fl x \<le> fl y"
proof (cases "expo x = expo y")
  case True
  have "rne (x / 2 powi (expo y - 52)) \<le> rne (y / 2 powi (expo y - 52))"
    using assms by (intro rne_mono divide_right_mono) auto
  then show ?thesis using assms True by (simp add: fl_pos_eq)
next
  case False
  with expo_mono [OF assms] have "expo x + 1 \<le> expo y" by simp
  then have "(2::rat) powi (expo x + 1) \<le> 2 powi expo y" by simp
  then show ?thesis using fl_binade(2) [of x] fl_binade(1) [of y] assms by linarith
qed

lemma fl_mono: "x \<le> y \<Longrightarrow> fl x \<le> fl y"
proof -
  assume xy: "x \<le> y"
  consider "0 < x" | "x \<le> 0" "0 \<le> y" | "y < 0" by linarith
  then show ?thesis
  proof cases
    case 1 then show ?thesis using xy fl_mono_pos by simp
  next
    case 2
    have "fl x \<le> 0" using 2 fl_pos [of "- x"] by (cases "x = 0") (auto simp: fl_minus)
    moreover have "0 \<le> fl y" using 2 fl_pos [of y] by (cases "y = 0") auto
    ultimately show ?thesis by simp
  next
    case 3
    then have "fl (- y) \<le> fl (- x)" using xy by (intro fl_mono_pos) auto
    then show ?thesis by (simp add: fl_minus)
  qed
qed

lemma fl_exact_pos:
  assumes m: "0 < m" "m \<le> 2 ^ 53"
  shows "fl (of_int m * 2 powi k) = of_int m * 2 powi k" (is "fl ?x = ?x")
proof -
  have x: "0 < ?x" using m by simp
  let ?e = "expo ?x" let ?u = "(2::rat) powi (?e - 52)"
  have "(of_int m :: rat) \<le> of_int (2 ^ 53)" using m by (simp only: of_int_le_iff)
  then have ub: "?x \<le> 2 powi (53 + k)" by (simp add: power_int_add)
  have "2 powi ?e \<le> ?x" by (rule expo_bounds(1) [OF x])
  with ub have e: "?e \<le> 53 + k" by (metis order_trans pow2_le_iff)
  have "\<exists>n. ?x / ?u = of_int n"
  proof (cases "?e = 53 + k")
    case True
    then have "?x = 2 powi ?e" using ub \<open>2 powi ?e \<le> ?x\<close> by simp
    then have "?x / ?u = 2 powi ?e / ?u" by (rule arg_cong [where f = "\<lambda>z. z / ?u"])
    also have "\<dots> = of_int (2 ^ 52)" by (simp add: power_int_diff [symmetric])
    finally show ?thesis by blast
  next
    case False
    then have le: "?e - 52 \<le> k" using e by simp
    have "?x / ?u = of_int m * 2 powi (k - (?e - 52))"
      by (simp add: power_int_diff)
    also have "\<dots> = of_int (m * 2 ^ nat (k - (?e - 52)))" using le by (simp add: pow2_nat)
    finally show ?thesis by blast
  qed
  then obtain n where n: "?x / ?u = of_int n" by blast
  have "fl ?x = of_int n * ?u" by (simp only: fl_pos_eq [OF x] n rne_of_int)
  also have "\<dots> = ?x / ?u * ?u" by (simp only: n)
  also have "\<dots> = ?x" by simp
  finally show ?thesis .
qed

lemma fl_exact:
  assumes "\<bar>m\<bar> \<le> 2 ^ 53"
  shows "fl (of_int m * 2 powi k) = of_int m * 2 powi k"
proof -
  consider "m = 0" | "0 < m" | "m < 0" by linarith
  then show ?thesis
  proof cases
    case 3
    have "fl (of_int (- m) * 2 powi k) = of_int (- m) * 2 powi k"
      using assms 3 by (intro fl_exact_pos) auto
    then show ?thesis by (simp add: fl_minus)
  qed (use assms fl_exact_pos in auto)
qed

lemma fl_of_int: "\<bar>m\<bar> \<le> 2 ^ 53 \<Longrightarrow> fl (of_int m) = of_int m"
  using fl_exact [of m 0] by simp

lemma fl_repr: "\<exists>m k. \<bar>m\<bar> \<le> 2 ^ 53 \<and> fl x = of_int m * 2 powi k"
proof -
  have pos: "\<exists>m k. \<bar>m\<bar> \<le> 2 ^ 53 \<and> fl x = of_int m * 2 powi k" if x: "0 < x" for x
  proof -
    let ?m = "rne (x / 2 powi (expo x - 52))" let ?u = "(2::rat) powi (expo x - 52)"
    have eq: "fl x = of_int ?m * ?u" by (rule fl_pos_eq [OF x])
    have "of_int ?m * ?u \<le> 2 powi (expo x + 1)" using fl_binade(2) [OF x] eq by simp
    also have "\<dots> = of_int (2 ^ 53) * ?u" by (simp add: power_int_diff power_int_add)
    finally have "(of_int ?m :: rat) \<le> of_int (2 ^ 53)"
      using pow2_pos [of "expo x - 52"] by (simp only: mult_le_cancel_right)
    then have hi: "?m \<le> 2 ^ 53" by (simp only: of_int_le_iff)
    have "0 < of_int ?m * ?u" using fl_pos [OF x] eq by simp
    then have "0 < (of_int ?m :: rat)" by (rule zero_less_mult_pos2 [OF _ pow2_pos])
    then have "0 < ?m" by simp
    with hi have "\<bar>?m\<bar> \<le> 2 ^ 53" by simp
    with eq show ?thesis by blast
  qed
  consider "x = 0" | "0 < x" | "0 < - x" by linarith
  then show ?thesis
  proof cases
    case 1 then show ?thesis by (intro exI [of _ 0]) simp
  next
    case 2 then show ?thesis by (rule pos)
  next
    case 3
    then obtain m k where "\<bar>m\<bar> \<le> 2 ^ 53" "fl (- x) = of_int m * 2 powi k" using pos by blast
    then show ?thesis by (intro exI [of _ "- m"] exI [of _ k]) (simp add: fl_minus)
  qed
qed

lemma fl_idem [simp]: "fl (fl x) = fl x"
  using fl_repr [of x] fl_exact by auto

lemma fl_error: "\<bar>fl x - x\<bar> \<le> \<bar>x\<bar> / 2 ^ 53"
proof -
  have pos: "\<bar>fl x - x\<bar> \<le> x / 2 ^ 53" if x: "0 < x" for x
  proof -
    let ?u = "(2::rat) powi (expo x - 52)"
    have "fl x - x = (of_int (rne (x / ?u)) - x / ?u) * ?u"
      by (simp add: fl_pos_eq [OF x] left_diff_distrib)
    then have "\<bar>fl x - x\<bar> = \<bar>of_int (rne (x / ?u)) - x / ?u\<bar> * ?u" by (simp add: abs_mult)
    also have "\<dots> \<le> 1/2 * ?u" by (intro mult_right_mono rne_error) simp
    also have "\<dots> = 2 powi expo x / 2 ^ 53" by (simp add: power_int_diff)
    also have "\<dots> \<le> x / 2 ^ 53" using expo_bounds(1) [OF x] by (simp add: divide_right_mono)
    finally show ?thesis .
  qed
  consider "x = 0" | "0 < x" | "0 < - x" by linarith
  then show ?thesis
    by cases (use pos [of x] pos [of "- x"] in \<open>auto simp: fl_minus abs_minus_commute\<close>)
qed


section \<open>The interface of rounding\<close>

locale rounding =
  fixes rnd :: "rat \<Rightarrow> rat"
  assumes rnd_zero: "rnd 0 = 0"
    and rnd_mono: "x \<le> y \<Longrightarrow> rnd x \<le> rnd y"
    and rnd_idem: "rnd (rnd x) = rnd x"
begin

lemma nonneg: "0 \<le> x \<Longrightarrow> 0 \<le> rnd x"
  using rnd_mono [of 0 x] rnd_zero by simp

lemma nonpos: "x \<le> 0 \<Longrightarrow> rnd x \<le> 0"
  using rnd_mono [of x 0] rnd_zero by simp

lemma ge_fixed: "rnd a = a \<Longrightarrow> a \<le> x \<Longrightarrow> a \<le> rnd x"
  using rnd_mono [of a x] by simp

lemma le_fixed: "rnd a = a \<Longrightarrow> x \<le> a \<Longrightarrow> rnd x \<le> a"
  using rnd_mono [of x a] by simp

lemma add_grows: "rnd a = a \<Longrightarrow> 0 \<le> b \<Longrightarrow> a \<le> rnd (a + b)"
  by (rule ge_fixed) auto

lemma sub_shrinks: "rnd a = a \<Longrightarrow> 0 \<le> b \<Longrightarrow> rnd (a - b) \<le> a"
  by (rule le_fixed) auto

lemma sub_nonneg: "b \<le> a \<Longrightarrow> 0 \<le> rnd (a - b)"
  by (rule nonneg) auto

end

text \<open>A rounding with a relative error bound: what error analysis needs beyond monotonicity.\<close>

definition rel_within :: "nat \<Rightarrow> nat \<Rightarrow> rat \<Rightarrow> rat \<Rightarrow> bool" where
  "rel_within bits k x y \<longleftrightarrow> \<bar>x - y\<bar> \<le> \<bar>y\<bar> * ((1 + 1 / 2 ^ bits) ^ k - 1)"

lemma rel_within_refl: "rel_within bits 0 x x"
  by (simp add: rel_within_def)

lemma rel_within_mult:
  assumes "rel_within bits k x y" and "rel_within bits l x' y'"
  shows "rel_within bits (k + l) (x * x') (y * y')"
proof -
  let ?a = "(1 + 1 / 2 ^ bits :: rat) ^ k" and ?b = "(1 + 1 / 2 ^ bits :: rat) ^ l"
  have a: "\<bar>x - y\<bar> \<le> \<bar>y\<bar> * (?a - 1)" and b: "\<bar>x' - y'\<bar> \<le> \<bar>y'\<bar> * (?b - 1)"
    using assms by (simp_all add: rel_within_def)
  have "\<bar>x'\<bar> \<le> \<bar>y'\<bar> + \<bar>x' - y'\<bar>" by linarith
  also have "\<dots> \<le> \<bar>y'\<bar> * ?b" using b by (simp add: algebra_simps)
  finally have x': "\<bar>x'\<bar> \<le> \<bar>y'\<bar> * ?b" .
  have "x * x' - y * y' = (x - y) * x' + y * (x' - y')" by (simp add: algebra_simps)
  then have "\<bar>x * x' - y * y'\<bar> \<le> \<bar>x - y\<bar> * \<bar>x'\<bar> + \<bar>y\<bar> * \<bar>x' - y'\<bar>"
    by (metis abs_mult abs_triangle_ineq)
  also have "\<dots> \<le> (\<bar>y\<bar> * (?a - 1)) * (\<bar>y'\<bar> * ?b) + \<bar>y\<bar> * (\<bar>y'\<bar> * (?b - 1))"
    using a b x' by (intro add_mono mult_mono) auto
  also have "\<dots> = \<bar>y * y'\<bar> * (?a * ?b - 1)" by (simp add: abs_mult algebra_simps)
  finally show ?thesis by (simp add: rel_within_def power_add)
qed

locale accurate_rounding = rounding +
  fixes bits :: nat
  assumes rel_error: "\<bar>rnd x - x\<bar> \<le> \<bar>x\<bar> / 2 ^ bits"
begin

lemma within_rnd: "rel_within bits k x y \<Longrightarrow> rel_within bits (Suc k) (rnd x) y"
proof -
  let ?u = "1 / 2 ^ bits :: rat"
  let ?a = "(1 + ?u) ^ k"
  assume "rel_within bits k x y"
  then have a: "\<bar>x - y\<bar> \<le> \<bar>y\<bar> * (?a - 1)" by (simp add: rel_within_def)
  have "\<bar>x\<bar> \<le> \<bar>y\<bar> * ?a" using a abs_triangle_ineq [of "x - y" y] by (simp add: algebra_simps)
  then have "\<bar>x\<bar> * ?u \<le> \<bar>y\<bar> * ?a * ?u" by (intro mult_right_mono) auto
  moreover have "\<bar>rnd x - y\<bar> \<le> \<bar>x\<bar> * ?u + \<bar>x - y\<bar>" using rel_error [of x] by simp
  ultimately have "\<bar>rnd x - y\<bar> \<le> \<bar>y\<bar> * ?a * ?u + \<bar>y\<bar> * (?a - 1)" using a by linarith
  then show ?thesis by (simp add: rel_within_def algebra_simps)
qed

lemma near:
  assumes "\<bar>x - y\<bar> \<le> d" and "\<bar>x\<bar> \<le> b"
  shows "\<bar>rnd x - y\<bar> \<le> d + b / 2 ^ bits"
proof -
  have "\<bar>rnd x - x\<bar> \<le> b / 2 ^ bits"
    using rel_error [of x] assms(2) by (meson divide_right_mono order_trans zero_le_numeral zero_le_power)
  with assms(1) show ?thesis by linarith
qed

end

interpretation dbl: accurate_rounding fl 53
  by unfold_locales (fact fl_0, erule fl_mono, fact fl_idem, fact fl_error)

lemmas [js_num] = dbl.nonneg dbl.nonpos dbl.add_grows dbl.sub_shrinks dbl.sub_nonneg

text \<open>A rational that is a double, and the sum that \<^verbatim>\<open>xs.reduce((s, x) => s + x, 0)\<close> computes.\<close>

definition is_double :: "rat \<Rightarrow> bool" where
  "is_double x \<longleftrightarrow> fl x = x"

definition js_sum :: "rat list \<Rightarrow> rat" where
  "js_sum xs = foldl (\<lambda>s x. fl (s + x)) 0 xs"

lemma is_double_fl [simp]: "is_double (fl x)"
  by (simp add: is_double_def)

lemma is_double_0 [simp]: "is_double 0"
  by (simp add: is_double_def)

lemma is_double_int: "\<bar>m\<bar> \<le> 2 ^ 53 \<Longrightarrow> is_double (of_int m)"
  by (simp add: is_double_def fl_of_int)

lemma js_sum_from_grows:
  "is_double s \<Longrightarrow> \<forall>x \<in> set xs. 0 \<le> x \<Longrightarrow> s \<le> foldl (\<lambda>s x. fl (s + x)) s xs"
proof (induction xs arbitrary: s)
  case (Cons x xs)
  have "s \<le> fl (s + x)"
    using Cons.prems by (intro dbl.add_grows) (auto simp: is_double_def)
  also have "\<dots> \<le> foldl (\<lambda>s x. fl (s + x)) (fl (s + x)) xs"
    using Cons.IH [of "fl (s + x)"] Cons.prems by simp
  finally show ?case by simp
qed simp

lemma js_sum_nonneg: "\<forall>x \<in> set xs. 0 \<le> x \<Longrightarrow> 0 \<le> js_sum xs"
  using js_sum_from_grows [of 0 xs] by (simp add: js_sum_def)

lemma js_sum_Nil [simp]: "js_sum [] = 0"
  by (simp add: js_sum_def)

lemma js_sum_zeros: "\<forall>x \<in> set xs. x = 0 \<Longrightarrow> js_sum xs = 0"
  unfolding js_sum_def by (induction xs) simp_all

lemma rel_within_abs:
  assumes "rel_within bits k x y" and "\<bar>y\<bar> \<le> b"
  shows "\<bar>x - y\<bar> \<le> b * ((1 + 1 / 2 ^ bits) ^ k - 1)"
proof -
  have "(1::rat) \<le> (1 + 1 / 2 ^ bits) ^ k" by (intro one_le_power) simp
  then have "\<bar>y\<bar> * ((1 + 1 / 2 ^ bits) ^ k - 1) \<le> b * ((1 + 1 / 2 ^ bits) ^ k - 1)"
    using assms(2) by (intro mult_right_mono) auto
  with assms(1) show ?thesis by (simp add: rel_within_def)
qed

section \<open>Rounding to six decimals\<close>

text \<open>
  \<open>js_round\<close> is \<^verbatim>\<open>Math.round\<close> (nearest integer, ties up) and \<open>round6\<close> the gateway's
  \<^verbatim>\<open>Math.round(v * 1e6) / 1e6\<close>. \<open>micro k\<close> is the double that \<open>round6\<close> yields for \<open>k\<close>
  millionths.
\<close>

definition js_round :: "rat \<Rightarrow> int" where
  "js_round x = \<lfloor>x + 1/2\<rfloor>"

definition round6 :: "rat \<Rightarrow> rat" where
  "round6 v = fl (of_int (js_round (fl (v * 1000000))) / 1000000)"

definition micro :: "int \<Rightarrow> rat" where
  "micro k = fl (of_int k / 1000000)"

lemma js_round_near: "\<bar>x - of_int k\<bar> < 1/2 \<Longrightarrow> js_round x = k"
  unfolding js_round_def by (intro floor_unique) linarith+

lemma js_round_mono: "x \<le> y \<Longrightarrow> js_round x \<le> js_round y"
  by (simp add: js_round_def floor_mono)

lemma round6_mono: "x \<le> y \<Longrightarrow> round6 x \<le> round6 y"
  unfolding round6_def
  by (intro fl_mono divide_right_mono of_int_le_iff [THEN iffD2] js_round_mono mult_right_mono) auto

lemma round6_near:
  assumes v: "\<bar>v - of_int k / 1000000\<bar> \<le> 1/4000000" and k: "\<bar>k\<bar> \<le> 2 ^ 50"
  shows "round6 v = micro k"
proof -
  have near: "\<bar>v * 1000000 - of_int k\<bar> \<le> 1/4" using v by linarith
  have kb: "\<bar>(of_int k :: rat)\<bar> \<le> 2 ^ 50" using k by (simp flip: of_int_abs)
  with near have "\<bar>v * 1000000\<bar> \<le> 2 ^ 50 + 1/4" by linarith
  from dbl.near [OF near this] have "\<bar>fl (v * 1000000) - of_int k\<bar> < 1/2" by simp
  then show ?thesis by (simp add: round6_def micro_def js_round_near)
qed

lemma micro_near:
  assumes "\<bar>k\<bar> \<le> 2 ^ n" and "n \<le> 53"
  shows "\<bar>micro k - of_int k / 1000000\<bar> \<le> 1 / 2 ^ (53 - n) / 1000000"
proof -
  have kb: "\<bar>(of_int k :: rat)\<bar> \<le> 2 ^ n" using assms(1) by (simp flip: of_int_abs)
  have "\<bar>micro k - of_int k / 1000000\<bar> \<le> \<bar>of_int k\<bar> / 1000000 / 2 ^ 53"
    using fl_error [of "of_int k / 1000000"] by (simp add: micro_def)
  also have "\<dots> \<le> 2 ^ n / 1000000 / 2 ^ 53"
    using kb by (intro divide_right_mono) auto
  also have "\<dots> = 1 / 2 ^ (53 - n) / 1000000"
    using assms(2) by (simp add: power_diff field_simps)
  finally show ?thesis .
qed

lemma round6_micro: "\<bar>k\<bar> \<le> 2 ^ 50 \<Longrightarrow> round6 (micro k) = micro k"
  using micro_near [of k 50] by (intro round6_near) auto

lemma round6_micro_add:
  assumes a: "\<bar>a\<bar> \<le> 2 ^ 48" and ab: "\<bar>a + b\<bar> \<le> 2 ^ 48"
    and v: "\<bar>v - of_int b / 1000000\<bar> \<le> 1/8000000"
  shows "round6 (fl (micro a + v)) = micro (a + b)"
proof (rule round6_near)
  have m: "\<bar>micro a - of_int a / 1000000\<bar> \<le> 1/32000000" using micro_near [OF a] by simp
  have s: "\<bar>micro a + v - of_int (a + b) / 1000000\<bar> \<le> 1/32000000 + 1/8000000"
    unfolding of_int_add add_divide_distrib using m v by linarith
  have "\<bar>(of_int (a + b) :: rat)\<bar> \<le> 281474976710656"
    using ab by (simp flip: of_int_abs of_int_add)
  then have "\<bar>(of_int (a + b) / 1000000 :: rat)\<bar> \<le> 281474976710656 / 1000000" by simp
  with s have "\<bar>micro a + v\<bar> \<le> (1/32000000 + 1/8000000) + 281474976710656 / 1000000"
    using abs_triangle_ineq [of "micro a + v - of_int (a + b) / 1000000" "of_int (a + b) / 1000000"]
    by (simp only: diff_add_cancel)
  from dbl.near [OF s this]
  show "\<bar>fl (micro a + v) - of_int (a + b) / 1000000\<bar> \<le> 1/4000000" by simp
  show "\<bar>a + b\<bar> \<le> 2 ^ 50" using ab by simp
qed

end
