(* ===== verification/JS_Value.thy ===== *)
theory JS_Value
  imports JS_Number
begin

text \<open>
  Values that reach the code from outside: the primitive JSON values of a request field,
  and JavaScript's conversions on them (truthiness, \<^verbatim>\<open>x != null\<close>, \<^verbatim>\<open>Number(x)\<close>). Arrays and
  objects as field values are not modelled where the code expects a primitive.
\<close>

section \<open>Numbers with NaN and the infinities\<close>

datatype jsnum = Fin rat | PInf | NInf | NaN

fun num_le :: "jsnum \<Rightarrow> jsnum \<Rightarrow> bool" where
  "num_le NaN _ = False"
| "num_le _ NaN = False"
| "num_le (Fin a) (Fin b) = (a \<le> b)"
| "num_le NInf _ = True"
| "num_le _ PInf = True"
| "num_le _ _ = False"

fun num_less :: "jsnum \<Rightarrow> jsnum \<Rightarrow> bool" where
  "num_less NaN _ = False"
| "num_less _ NaN = False"
| "num_less (Fin a) (Fin b) = (a < b)"
| "num_less NInf x = (x \<noteq> NInf)"
| "num_less x PInf = (x \<noteq> PInf)"
| "num_less _ _ = False"

fun num_neg :: "jsnum \<Rightarrow> jsnum" where
  "num_neg (Fin a) = Fin (- a)"
| "num_neg PInf = NInf"
| "num_neg NInf = PInf"
| "num_neg NaN = NaN"

text \<open>\<^verbatim>\<open>Math.min\<close>: a \<^verbatim>\<open>NaN\<close> argument wins.\<close>

definition num_min :: "jsnum \<Rightarrow> jsnum \<Rightarrow> jsnum" where
  "num_min a b = (if a = NaN \<or> b = NaN then NaN else if num_le a b then a else b)"

fun is_fin :: "jsnum \<Rightarrow> bool" where
  "is_fin (Fin _) = True"
| "is_fin _ = False"

text \<open>\<^verbatim>\<open>JSON.stringify\<close> writes a number that is not finite as \<^verbatim>\<open>null\<close>.\<close>

fun json_number :: "jsnum \<Rightarrow> jsnum option" where
  "json_number (Fin a) = Some (Fin a)"
| "json_number _ = None"

section \<open>Number(string)\<close>

definition digit_val :: "char \<Rightarrow> nat" where
  "digit_val c = of_char c - 48"

definition digits_val :: "string \<Rightarrow> nat" where
  "digits_val s = foldl (\<lambda>n c. 10 * n + digit_val c) 0 s"

text \<open>
  The grammar of a decimal literal: digits, an optional fraction, an optional exponent, with a
  digit somewhere before the exponent. \<open>None\<close> is a string outside it.
\<close>

definition parse_exponent :: "string \<Rightarrow> int option" where
  "parse_exponent s =
     (case s of
        [] \<Rightarrow> Some 0
      | c # r \<Rightarrow>
          if c = CHR ''e'' \<or> c = CHR ''E'' then
            (let neg = (r \<noteq> [] \<and> hd r = CHR ''-'');
                 ds = (if r \<noteq> [] \<and> (hd r = CHR ''-'' \<or> hd r = CHR ''+'') then tl r else r)
             in if ds \<noteq> [] \<and> list_all is_digit ds
                then Some (if neg then - int (digits_val ds) else int (digits_val ds))
                else None)
          else None)"

definition parse_decimal :: "string \<Rightarrow> rat option" where
  "parse_decimal s =
     (let ip = takeWhile is_digit s; r = dropWhile is_digit s;
          fp = (if r \<noteq> [] \<and> hd r = CHR ''.'' then takeWhile is_digit (tl r) else []);
          r' = (if r \<noteq> [] \<and> hd r = CHR ''.'' then dropWhile is_digit (tl r) else r)
      in if ip = [] \<and> fp = [] then None
         else map_option
           (\<lambda>e. of_nat (digits_val (ip @ fp)) * 10 powi (e - int (length fp)))
           (parse_exponent r'))"

definition unsigned_number :: "string \<Rightarrow> jsnum" where
  "unsigned_number s =
     (if s = ''Infinity'' then PInf
      else case parse_decimal s of None \<Rightarrow> NaN | Some v \<Rightarrow> Fin (fl v))"

text \<open>Radix literals (\<^verbatim>\<open>0x\<close>, \<^verbatim>\<open>0o\<close>, \<^verbatim>\<open>0b\<close>) read as \<open>NaN\<close> here; no caller sends them.\<close>

definition string_number :: "string \<Rightarrow> jsnum" where
  "string_number s =
     (let t = trim s
      in if t = [] then Fin 0
         else if hd t = CHR ''-'' then num_neg (unsigned_number (tl t))
         else if hd t = CHR ''+'' then unsigned_number (tl t)
         else unsigned_number t)"

section \<open>Request fields\<close>

datatype jsval = Undef | Null | Bool bool | Num jsnum | Str string

fun truthy :: "jsval \<Rightarrow> bool" where
  "truthy Undef = False"
| "truthy Null = False"
| "truthy (Bool b) = b"
| "truthy (Num n) = (n \<noteq> NaN \<and> n \<noteq> Fin 0)"
| "truthy (Str s) = (s \<noteq> [])"

definition nullish :: "jsval \<Rightarrow> bool" where
  "nullish v \<longleftrightarrow> v = Undef \<or> v = Null"

fun to_number :: "jsval \<Rightarrow> jsnum" where
  "to_number Undef = NaN"
| "to_number Null = Fin 0"
| "to_number (Bool b) = Fin (if b then 1 else 0)"
| "to_number (Num n) = n"
| "to_number (Str s) = string_number s"

text \<open>\<^verbatim>\<open>Number(v) || 0\<close>: \<^verbatim>\<open>NaN\<close> reads as zero.\<close>

definition number_or_zero :: "jsnum \<Rightarrow> jsnum" where
  "number_or_zero n = (if n = NaN then Fin 0 else n)"

lemma num_le_Fin [simp]: "num_le (Fin a) (Fin b) = (a \<le> b)"
  by simp

lemma num_less_asym: "num_less a b \<Longrightarrow> \<not> num_less b a"
  by (cases a; cases b) auto

lemma num_min_le: "b \<noteq> NaN \<Longrightarrow> num_min a b = Fin m \<Longrightarrow> b = Fin c \<Longrightarrow> m \<le> c"
  by (cases a) (auto simp: num_min_def split: if_splits)

lemma json_number_fin: "json_number n = Some m \<longleftrightarrow> is_fin n \<and> m = n"
  by (cases n) auto

end
