(* ===== verification/Gateway_State.thy ===== *)
theory Gateway_State
  imports JS_Value
begin

text \<open>
  The settlement gateway's ledger (\<^verbatim>\<open>solana/staking-service/server.js\<close>): the rows it keeps in
  \<^verbatim>\<open>positions.json\<close>, the configuration it reads from the environment, and the storage layer
  (\<^verbatim>\<open>loadDB\<close>, \<^verbatim>\<open>saveDB\<close>, \<^verbatim>\<open>migrateHubVocabulary\<close>) over an explicit disk with three files.

  Times are whole seconds (\<^verbatim>\<open>nowSec()\<close>) except where the code uses \<^verbatim>\<open>Date.now()\<close> milliseconds.
  Amounts are doubles (see \<open>JS_Number\<close>). Reading an absent numeric field through
  \<^verbatim>\<open>x || 0\<close> gives \<open>0\<close>, so such fields hold \<open>0\<close> when absent. Table keys that name a property of
  every JavaScript object (\<^verbatim>\<open>constructor\<close>, \<^verbatim>\<open>__proto__\<close>) are outside the model.
\<close>

section \<open>Configuration\<close>

record config =
  APR :: rat
  REWARD_PER_UNIT :: rat
  GATEWAY_BONUS :: rat
  BRIDGE_UPTIME_PER_HOUR :: rat
  GATEWAY_UPTIME_PER_HOUR :: rat
  UPTIME_MAX_GAP_SEC :: rat
  MIN_OPERATOR_KVR :: rat
  MIN_CLAIM :: rat
  FAUCET_AMOUNT :: rat
  FAUCET_COOLDOWN_MS :: int
  FAUCET_NEW_ACCOUNT_BUDGET :: nat
  REQUEST_CONTENT_TTL_SEC :: int
  CREDIT_MIN_BALANCE :: rat
  DECIMALS :: nat
  HOST_OS :: string
  BRIDGE_SERVICE_TOKEN :: string
  TREASURY_OWNER :: string
  GENESIS_WALLET :: string
  VAULT_ATA :: string
  MINT :: string

definition default_config :: config where
  "default_config = \<lparr>
     APR = 0,
     REWARD_PER_UNIT = fl (1/100),
     GATEWAY_BONUS = 3/2,
     BRIDGE_UPTIME_PER_HOUR = 2,
     GATEWAY_UPTIME_PER_HOUR = 1,
     UPTIME_MAX_GAP_SEC = 120,
     MIN_OPERATOR_KVR = 0,
     MIN_CLAIM = 1,
     FAUCET_AMOUNT = 100,
     FAUCET_COOLDOWN_MS = 86400 * 1000,
     FAUCET_NEW_ACCOUNT_BUDGET = 500,
     REQUEST_CONTENT_TTL_SEC = 30 * 24 * 3600,
     CREDIT_MIN_BALANCE = 0,
     DECIMALS = 6,
     HOST_OS = ''linux'',
     BRIDGE_SERVICE_TOKEN = ''s3cret'',
     TREASURY_OWNER = ''treasury'',
     GENESIS_WALLET = ''genesis'',
     VAULT_ATA = ''vault'',
     MINT = ''kvr''\<rparr>"

text \<open>What the operator's numbers have to satisfy for the reward rules to make sense.\<close>

definition config_ok :: "config \<Rightarrow> bool" where
  "config_ok c \<longleftrightarrow> 0 \<le> APR c \<and> 0 \<le> REWARD_PER_UNIT c \<and> 0 \<le> GATEWAY_BONUS c
     \<and> 0 \<le> BRIDGE_UPTIME_PER_HOUR c \<and> 0 \<le> GATEWAY_UPTIME_PER_HOUR c
     \<and> 0 \<le> UPTIME_MAX_GAP_SEC c"

section \<open>Rows\<close>

record position =
  principal :: rat
  accruedRewards :: rat
  stakedAt :: int
  lastUpdate :: int

datatype used_sig =
    UsedStake (us_owner: string) (us_amount: rat) (us_at: int)
  | UsedPayment (us_request: string) (us_amount: rat) (us_at: int) (us_refunded: "bool option")
  | UsedDeposit (us_wallet: string) (us_amount: rat) (us_at: int)

text \<open>
  \<open>hostsHub\<close> is the field of rows written before the hub-to-bridge rename; \<open>hostsBridge\<close> is
  absent (\<open>None\<close>) on such rows. The code reads both through \<^verbatim>\<open>!!\<close>.
\<close>

record node_row =
  owner :: string
  contributedUnits :: rat
  effectiveUnits :: rat
  pendingRewards :: rat
  claimedTotal :: rat
  hostsGateway :: bool
  hostsBridge :: "bool option"
  hostsHub :: "bool option"
  uptimeRewards :: rat
  creditedUnits :: rat
  registeredAt :: int
  lastReport :: "int option"
  lastUptimeAt :: int
  os :: string
  deviceKind :: string
  accelerator :: string
  label :: string
  perfScore :: "jsnum option"
  backend :: "string option"
  node_mode :: "string option"
  tier :: string
  perfMultiplier :: rat

record price =
  basePrice :: rat
  perToken :: rat
  estOut :: rat

record price_patch =
  pp_base :: "rat option"
  pp_per :: "rat option"
  pp_est :: "rat option"

record pricing_row =
  pr_default :: price
  perModel :: "price_patch table"
  updatedAt :: int
  updatedBy :: "string option"

record usage_row =
  promptTokens :: rat
  completionTokens :: rat
  totalTokens :: rat
  costToken :: rat

record pay_request =
  rq_model :: string
  rq_name :: string
  bridgeUrl :: string
  cid :: string
  bridgeModel :: string
  rq_price :: price
  prompt :: "string option"
  priceToken :: rat
  recipient :: string
  paid :: bool
  createdAt :: int
  rq_signature :: string
  payer :: "string option"
  failed :: bool
  refunded :: bool
  refundSig :: "string option"
  rq_error :: string
  rq_result :: "string option"
  rq_usage :: "usage_row option"
  contentRedactedAt :: "int option"

record credit_account =
  balance :: rat
  granted :: rat
  deposited :: rat
  spent :: rat
  ca_createdAt :: int
  ca_updatedAt :: int

record api_key =
  ak_wallet :: string
  ak_label :: string
  ak_createdAt :: int
  revokedAt :: "int option"
  revokedBy :: string

datatype audit_kind = Debit | Grant | Deposit | WhitelistRegister | WhitelistAdd | WhitelistRemove

record credit_audit =
  au_at :: int
  au_wallet :: string
  au_kind :: audit_kind
  au_amount :: rat
  au_balance :: rat

record admin_auth =
  aa_secret :: string
  aa_backup :: "string list"
  aa_enabled :: bool

record pricing_change =
  pc_at :: int
  pc_by :: string
  pc_target :: string
  pc_prev :: price_patch
  pc_next :: price

record relay =
  relay_url :: string
  relay_secret :: string
  relay_label :: string
  relay_addedAt :: int
  relay_addedBy :: string

record db =
  positions :: "position table"
  usedSignatures :: "used_sig table"
  nodes :: "node_row table"
  requests :: "pay_request table"
  pricing :: "pricing_row option"
  faucet :: "int table"
  faucetAccountsOpened :: nat
  credits :: "credit_account table"
  apiKeys :: "api_key table"
  creditWhitelist :: "string list"
  creditAudit :: "credit_audit list"
  adminAuth :: "admin_auth table"
  pricingAudit :: "pricing_change list"
  pricingRelays :: "relay list"

definition empty_db :: db where
  "empty_db = \<lparr>positions = [], usedSignatures = [], nodes = [], requests = [], pricing = None,
     faucet = [], faucetAccountsOpened = 0, credits = [], apiKeys = [], creditWhitelist = [],
     creditAudit = [], adminAuth = [], pricingAudit = [], pricingRelays = []\<rparr>"

definition db_keyed :: "db \<Rightarrow> bool" where
  "db_keyed d \<longleftrightarrow> keyed (positions d) \<and> keyed (usedSignatures d) \<and> keyed (nodes d)
     \<and> keyed (requests d) \<and> keyed (faucet d) \<and> keyed (credits d) \<and> keyed (apiKeys d)
     \<and> keyed (adminAuth d)"

text \<open>The row an upsert starts from when the node is new.\<close>

definition fresh_node :: "string \<Rightarrow> int \<Rightarrow> node_row" where
  "fresh_node own now = \<lparr>owner = own, contributedUnits = 0, effectiveUnits = 0,
     pendingRewards = 0, claimedTotal = 0, hostsGateway = False, hostsBridge = Some False,
     hostsHub = None, uptimeRewards = 0, creditedUnits = 0, registeredAt = now,
     lastReport = None, lastUptimeAt = now, os = '''', deviceKind = '''', accelerator = '''',
     label = '''', perfScore = None, backend = None, node_mode = None, tier = '''',
     perfMultiplier = 0\<rparr>"

abbreviation bridge_host :: "node_row \<Rightarrow> bool" where
  "bridge_host n \<equiv> hostsBridge n = Some True"

section \<open>Renaming the hub vocabulary on load\<close>

definition hub_prefix :: string where "hub_prefix = ''infra-hub-''"

definition bridge_prefix :: string where "bridge_prefix = ''infra-bridge-''"

definition migrate_row :: "node_row \<Rightarrow> node_row" where
  "migrate_row n =
     (let n1 = (if hostsHub n \<noteq> None \<and> hostsBridge n = None
                then n\<lparr>hostsBridge := hostsHub n\<rparr> else n)
      in if deviceKind n1 = ''hub'' then n1\<lparr>deviceKind := ''bridge''\<rparr> else n1)"

definition migrate_entry :: "string \<times> node_row \<Rightarrow> node_row table \<Rightarrow> node_row table" where
  "migrate_entry e t =
     (let i = fst e; n = migrate_row (snd e); t1 = put i n t
      in if starts_with i hub_prefix then
           (let renamed = bridge_prefix @ drop (length hub_prefix) i
            in if get t1 renamed = None then del i (put renamed n t1) else t1)
         else t1)"

definition migrate_nodes :: "node_row table \<Rightarrow> node_row table" where
  "migrate_nodes t = fold migrate_entry t t"

definition migrateHubVocabulary :: "db \<Rightarrow> db" where
  "migrateHubVocabulary d = d\<lparr>nodes := migrate_nodes (nodes d)\<rparr>"

section \<open>Storage\<close>

text \<open>
  A file holds nothing, whitespace only, bytes that do not parse, or a stored ledger. The
  JSON text of a ledger parses back to it, but for a throughput that is not finite, which
  \<^verbatim>\<open>JSON.stringify\<close> writes as \<^verbatim>\<open>null\<close>: \<open>persist\<close> is what survives the round trip.
\<close>

datatype disk_file = Missing | Blank | Torn | Good db

record disk =
  db_file :: disk_file
  db_bak :: disk_file
  db_tmp :: disk_file

definition persist :: "db \<Rightarrow> db" where
  "persist d = d\<lparr>nodes := map_rows (\<lambda>_ n. n\<lparr>perfScore := Option.bind (perfScore n) json_number\<rparr>) (nodes d)\<rparr>"

fun loadDB_from :: "disk_file list \<Rightarrow> db" where
  "loadDB_from [] = empty_db"
| "loadDB_from (Good d # fs) = migrateHubVocabulary d"
| "loadDB_from (_ # fs) = loadDB_from fs"

definition loadDB :: "disk \<Rightarrow> db" where
  "loadDB k = loadDB_from [db_file k, db_bak k]"

text \<open>
  \<open>saveDB_trace d k\<close> lists the disk at every point where the process may die inside
  \<^verbatim>\<open>saveDB\<close>, in order: while and after the temporary file is written, while and after the
  backup is copied (only when the database file exists; a failing copy is ignored, which
  leaves one of the states listed), and after the rename. \<open>saveDB\<close> is the last of them.
\<close>

definition saveDB_trace :: "db \<Rightarrow> disk \<Rightarrow> disk list" where
  "saveDB_trace d k =
     (let k1 = k\<lparr>db_tmp := Torn\<rparr>;
          k2 = k\<lparr>db_tmp := Good (persist d)\<rparr>;
          backups = (if db_file k = Missing then []
                     else [k2\<lparr>db_bak := Torn\<rparr>, k2\<lparr>db_bak := db_file k\<rparr>]);
          k3 = (if backups = [] then k2 else last backups)
      in [k, k1, k2] @ backups @ [k3\<lparr>db_file := Good (persist d), db_tmp := Missing\<rparr>])"

definition saveDB :: "db \<Rightarrow> disk \<Rightarrow> disk" where
  "saveDB d k = last (saveDB_trace d k)"

section \<open>Properties of the storage layer\<close>

lemma migrate_row_balances [simp]:
  "pendingRewards (migrate_row n) = pendingRewards n"
  "claimedTotal (migrate_row n) = claimedTotal n"
  "uptimeRewards (migrate_row n) = uptimeRewards n"
  "owner (migrate_row n) = owner n"
  by (simp_all add: migrate_row_def Let_def)

lemma migrate_entry_step:
  assumes t: "keyed t" "get t i = Some n" and f: "\<And>m. f (migrate_row m) = f m"
  shows "keyed (migrate_entry (i, n) t)"
    and "image_mset (f \<circ> snd) (mset (migrate_entry (i, n) t)) = image_mset (f \<circ> snd) (mset t)"
    and "j \<noteq> i \<Longrightarrow> get t j = Some m \<Longrightarrow> get (migrate_entry (i, n) t) j = Some m"
proof -
  let ?n = "migrate_row n" and ?t1 = "put i (migrate_row n) t"
  let ?r = "bridge_prefix @ drop (length hub_prefix) i"
  have k1: "keyed ?t1" using t(1) by (rule tab.wf_upd)
  have m1: "image_mset (f \<circ> snd) (mset ?t1) = image_mset (f \<circ> snd) (mset t)"
    using t f by (intro mset_put_same)
  have k2: "keyed (del i (put ?r ?n ?t1))" by (rule tab.wf_rem [OF tab.wf_upd [OF k1]])
  have ri: "?r \<noteq> i" if "get ?t1 ?r = None" using that by (auto simp: tab.look_upd)
  have m2: "image_mset (f \<circ> snd) (mset (del i (put ?r ?n ?t1))) = image_mset (f \<circ> snd) (mset t)"
    if none: "get ?t1 ?r = None"
  proof -
    have "get (put ?r ?n ?t1) i = Some ?n" using ri [OF none] by (simp add: table_simps)
    from mset_del [OF tab.wf_upd [OF k1] this]
    have "add_mset (i, ?n) (mset (del i (put ?r ?n ?t1))) = add_mset (?r, ?n) (mset ?t1)"
      by (simp add: put_absent [OF none])
    then have "image_mset (f \<circ> snd) (add_mset (i, ?n) (mset (del i (put ?r ?n ?t1))))
        = image_mset (f \<circ> snd) (add_mset (?r, ?n) (mset ?t1))" by (rule arg_cong)
    then show ?thesis using m1 by simp
  qed
  show "keyed (migrate_entry (i, n) t)"
    using k1 k2 by (simp add: migrate_entry_def Let_def)
  show "image_mset (f \<circ> snd) (mset (migrate_entry (i, n) t)) = image_mset (f \<circ> snd) (mset t)"
    using m1 m2 by (simp add: migrate_entry_def Let_def)
  show "get (migrate_entry (i, n) t) j = Some m" if "j \<noteq> i" "get t j = Some m"
    using that by (auto simp: migrate_entry_def Let_def tab.look_upd tab.look_rem)
qed

lemma fold_migrate_entry:
  assumes "keyed t" and "distinct (map fst es)" and "\<forall>(i, n) \<in> set es. get t i = Some n"
    and f: "\<And>m. f (migrate_row m) = f m"
  shows "keyed (fold migrate_entry es t)
    \<and> image_mset (f \<circ> snd) (mset (fold migrate_entry es t)) = image_mset (f \<circ> snd) (mset t)"
  using assms(1-3)
proof (induction es arbitrary: t)
  case (Cons e es)
  obtain i n where e: "e = (i, n)" by fastforce
  with Cons.prems have gi: "get t i = Some n" by simp
  note step = migrate_entry_step [OF Cons.prems(1) gi, of f, OF f]
  have "\<forall>(j, m) \<in> set es. get (migrate_entry (i, n) t) j = Some m"
  proof clarify
    fix j m assume jm: "(j, m) \<in> set es"
    then have "j \<noteq> i" using Cons.prems(2) e by force
    moreover have "get t j = Some m" using jm Cons.prems(3) by auto
    ultimately show "get (migrate_entry (i, n) t) j = Some m" by (rule step(3))
  qed
  with Cons.IH [OF step(1)] Cons.prems(2) step(2) show ?case by (simp add: e comp_def)
qed simp

lemma migrate_nodes_values:
  assumes "keyed t" and "\<And>m. f (migrate_row m) = f m"
  shows "keyed (migrate_nodes t)"
    and "image_mset (f \<circ> snd) (mset (migrate_nodes t)) = image_mset (f \<circ> snd) (mset t)"
  using fold_migrate_entry [of t t f] assms by (auto simp: migrate_nodes_def keyed_def)

lemma loadDB_good [simp]: "db_file k = Good d \<Longrightarrow> loadDB k = migrateHubVocabulary d"
  by (simp add: loadDB_def)

lemma saveDB_file [simp]: "db_file (saveDB d k) = Good (persist d)"
  by (simp add: saveDB_def saveDB_trace_def Let_def)

lemma saveDB_trace_cases:
  assumes "s \<in> set (saveDB_trace d k)"
  shows "db_file s = db_file k \<or> db_file s = Good (persist d)"
  using assms by (auto simp: saveDB_trace_def Let_def split: if_splits)


text \<open>
  Renaming the hub vocabulary on load neither loses nor duplicates a row: the pending
  balances, the claimed totals and the owners of all rows are the same collection before and
  after, and the node ids stay distinct.
\<close>

theorem migrate_keeps_balances:
  assumes "keyed (nodes d)"
  shows "image_mset (\<lambda>(i, n). (owner n, pendingRewards n, claimedTotal n, uptimeRewards n))
           (mset (nodes (migrateHubVocabulary d)))
       = image_mset (\<lambda>(i, n). (owner n, pendingRewards n, claimedTotal n, uptimeRewards n))
           (mset (nodes d))
     \<and> keyed (nodes (migrateHubVocabulary d))"
proof -
  let ?f = "\<lambda>n. (owner n, pendingRewards n, claimedTotal n, uptimeRewards n)"
  have eq: "(\<lambda>(i :: string, n). ?f n) = ?f \<circ> snd" by (auto simp: fun_eq_iff)
  show ?thesis
    unfolding eq using migrate_nodes_values [OF assms, of ?f] by (simp add: migrateHubVocabulary_def)
qed

text \<open>Concrete ledgers for the witnesses.\<close>

definition sample_node :: node_row where
  "sample_node = (fresh_node ''alice'' 1000)\<lparr>hostsBridge := None, hostsHub := Some True,
     deviceKind := ''hub'', pendingRewards := 5\<rparr>"

definition sample_db :: db where
  "sample_db = empty_db\<lparr>nodes := [(''infra-hub-1'', sample_node), (''phone'', fresh_node ''bob'' 1000)]\<rparr>"


theorem migrate_keeps_balances_witness:
  "keyed (nodes sample_db) \<and> keyed (nodes (migrateHubVocabulary sample_db))
   \<and> map fst (nodes (migrateHubVocabulary sample_db)) = [''phone'', ''infra-bridge-1'']"
proof -
  have k: "keyed (nodes sample_db)" by code_simp
  moreover have "map fst (nodes (migrateHubVocabulary sample_db)) = [''phone'', ''infra-bridge-1'']"
    by code_simp
  ultimately show ?thesis using migrate_keeps_balances [OF k] by simp
qed

text \<open>
  The backup is not always a good copy. \<^verbatim>\<open>saveDB\<close> copies the database file over the backup
  without looking at it, so when the ledger was read from the backup because the database
  file does not parse, there is a point inside the next save at which a crash leaves neither
  file readable and the next load starts from the empty ledger.
\<close>

theorem saveDB_can_lose_backup:
  assumes "db_file k = Torn"
  shows "\<exists>s \<in> set (saveDB_trace d k). loadDB s = empty_db"
proof (rule bexI)
  show "k\<lparr>db_tmp := Good (persist d), db_bak := Torn\<rparr> \<in> set (saveDB_trace d k)"
    using assms by (simp add: saveDB_trace_def Let_def)
  show "loadDB (k\<lparr>db_tmp := Good (persist d), db_bak := Torn\<rparr>) = empty_db"
    using assms by (simp add: loadDB_def)
qed

theorem saveDB_can_lose_backup_witness:
  "(let k = \<lparr>db_file = Torn, db_bak = Good sample_db, db_tmp = Missing\<rparr>
    in nodes (loadDB k) \<noteq> []
       \<and> (\<exists>s \<in> set (saveDB_trace sample_db k). loadDB s = empty_db))"
proof -
  let ?k = "\<lparr>db_file = Torn, db_bak = Good sample_db, db_tmp = Missing\<rparr>"
  have "nodes (loadDB ?k) \<noteq> []" by code_simp
  then show ?thesis using saveDB_can_lose_backup [of ?k sample_db] by (simp add: Let_def)
qed

end
