(* ===== verification/JS_String.thy ===== *)
theory JS_String
  imports JS_Value
begin

text \<open>
  The string operations of the JavaScript library that the modelled code uses:
  \<^verbatim>\<open>slice\<close>, \<^verbatim>\<open>indexOf\<close>, \<^verbatim>\<open>lastIndexOf\<close>, \<^verbatim>\<open>split\<close>, the decimal text of a natural number and
  \<^verbatim>\<open>decodeURIComponent\<close>, with the facts the token formats need.
\<close>

section \<open>Positions and slices\<close>

definition js_slice :: "string \<Rightarrow> int \<Rightarrow> int \<Rightarrow> string" where
  "js_slice s a b =
     (let n = int (length s);
          norm = (\<lambda>x. if x < 0 then max 0 (n + x) else min x n);
          i = nat (norm a); j = nat (norm b)
      in take (j - i) (drop i s))"

definition slice_from :: "string \<Rightarrow> int \<Rightarrow> string" where
  "slice_from s a = js_slice s a (int (length s))"

definition last_index_of :: "char \<Rightarrow> string \<Rightarrow> int \<Rightarrow> int" where
  "last_index_of c s from =
     (let hits = filter (\<lambda>i. s ! i = c) [0..<min (Suc (nat (max 0 from))) (length s)]
      in if hits = [] then -1 else int (last hits))"

fun index_of :: "char \<Rightarrow> string \<Rightarrow> int" where
  "index_of c [] = -1"
| "index_of c (x # xs) = (if x = c then 0 else let i = index_of c xs in if i < 0 then -1 else i + 1)"

fun split_on :: "char \<Rightarrow> string \<Rightarrow> string list" where
  "split_on c [] = [[]]"
| "split_on c (x # xs) =
     (if x = c then [] # split_on c xs
      else case split_on c xs of [] \<Rightarrow> [[x]] | p # ps \<Rightarrow> (x # p) # ps)"

section \<open>Decimal text\<close>

fun show_nat :: "nat \<Rightarrow> string" where
  "show_nat n = (if n < 10 then [char_of (48 + n)] else show_nat (n div 10) @ [char_of (48 + n mod 10)])"

declare show_nat.simps [simp del]

definition pad_start :: "nat \<Rightarrow> char \<Rightarrow> string \<Rightarrow> string" where
  "pad_start n c s = replicate (n - length s) c @ s"

section \<open>Percent decoding\<close>

datatype uri_token = Lit char | Esc nat | Bad

definition hex_val :: "char \<Rightarrow> nat option" where
  "hex_val c =
     (let v = (of_char c :: nat)
      in if 48 \<le> v \<and> v \<le> 57 then Some (v - 48)
         else if 97 \<le> v \<and> v \<le> 102 then Some (v - 87)
         else if 65 \<le> v \<and> v \<le> 70 then Some (v - 55)
         else None)"

definition escape_of :: "char \<Rightarrow> char \<Rightarrow> uri_token" where
  "escape_of a b = (case (hex_val a, hex_val b) of (Some x, Some y) \<Rightarrow> Esc (16 * x + y) | _ \<Rightarrow> Bad)"

fun uri_tokens :: "string \<Rightarrow> uri_token list" where
  "uri_tokens [] = []"
| "uri_tokens [c] = (if c = CHR ''%'' then [Bad] else [Lit c])"
| "uri_tokens [c, d] = (if c = CHR ''%'' then [Bad] else Lit c # uri_tokens [d])"
| "uri_tokens (c # d # e # r) =
     (if c = CHR ''%'' then escape_of d e # uri_tokens r else Lit c # uri_tokens (d # e # r))"

definition cont :: "nat \<Rightarrow> bool" where
  "cont b \<longleftrightarrow> 128 \<le> b \<and> b < 192"

text \<open>
  Escaped bytes must spell UTF-8 text; anything else makes \<^verbatim>\<open>decodeURIComponent\<close> throw, which
  is \<open>None\<close>.
\<close>

fun decode_tokens :: "uri_token list \<Rightarrow> string option" where
  "decode_tokens [] = Some []"
| "decode_tokens (Bad # ts) = None"
| "decode_tokens (Lit c # ts) = map_option ((#) c) (decode_tokens ts)"
| "decode_tokens (Esc a # ts) =
     (if a < 128 then map_option ((#) (char_of a)) (decode_tokens ts)
      else if 194 \<le> a \<and> a < 224 then
        (case ts of Esc b # ts' \<Rightarrow>
           if cont b then map_option (\<lambda>s. char_of a # char_of b # s) (decode_tokens ts') else None
         | _ \<Rightarrow> None)
      else if 224 \<le> a \<and> a < 240 then
        (case ts of Esc b # Esc c # ts' \<Rightarrow>
           if cont b \<and> cont c \<and> (a = 224 \<longrightarrow> 160 \<le> b) \<and> (a = 237 \<longrightarrow> b < 160)
           then map_option (\<lambda>s. char_of a # char_of b # char_of c # s) (decode_tokens ts') else None
         | _ \<Rightarrow> None)
      else if 240 \<le> a \<and> a < 245 then
        (case ts of Esc b # Esc c # Esc d # ts' \<Rightarrow>
           if cont b \<and> cont c \<and> cont d \<and> (a = 240 \<longrightarrow> 144 \<le> b) \<and> (a = 244 \<longrightarrow> b < 144)
           then map_option (\<lambda>s. char_of a # char_of b # char_of c # char_of d # s) (decode_tokens ts')
           else None
         | _ \<Rightarrow> None)
      else None)"

definition decodeURIComponent :: "string \<Rightarrow> string option" where
  "decodeURIComponent s = decode_tokens (uri_tokens s)"

section \<open>Facts\<close>

lemma last_index_of_eq:
  assumes "i < length s" and "s ! i = c" and "int i \<le> from"
    and later: "\<And>j. i < j \<Longrightarrow> j < length s \<Longrightarrow> int j \<le> from \<Longrightarrow> s ! j \<noteq> c"
  shows "last_index_of c s from = int i"
proof -
  let ?m = "min (Suc (nat (max 0 from))) (length s)"
  have "i < ?m" using assms(1,3) by linarith
  then have "[0..<?m] = [0..<i] @ [i] @ [Suc i..<?m]"
    using upt_add_eq_append [of 0 i "?m - i"] upt_conv_Cons [of i ?m] by simp
  moreover have "s ! j \<noteq> c" if "j \<in> set [Suc i..<?m]" for j
  proof (rule later)
    show "i < j" "j < length s" using that by auto
    have "j < Suc (nat (max 0 from))" using that by simp
    then show "int j \<le> from" using assms(3) by linarith
  qed
  then have "filter (\<lambda>j. s ! j = c) [Suc i..<?m] = []" by (simp add: filter_empty_conv)
  ultimately have "filter (\<lambda>j. s ! j = c) [0..<?m] = filter (\<lambda>j. s ! j = c) [0..<i] @ [i]"
    using assms(2) by simp
  then show ?thesis by (simp add: last_index_of_def Let_def)
qed

lemma js_slice_nonneg:
  "0 \<le> a \<Longrightarrow> a \<le> b \<Longrightarrow> b \<le> int (length s) \<Longrightarrow> js_slice s a b = take (nat (b - a)) (drop (nat a) s)"
  by (simp add: js_slice_def Let_def nat_diff_distrib)

lemma split_on_nonempty [simp]: "split_on c s \<noteq> []"
  by (induction s) (auto split: list.splits)

lemma split_on_absent: "c \<notin> set s \<Longrightarrow> split_on c s = [s]"
  by (induction s) auto

lemma split_on_sep: "c \<notin> set s \<Longrightarrow> split_on c (s @ c # t) = s # split_on c t"
  by (induction s) auto

lemma digit_of: "n < 10 \<Longrightarrow> (of_char (char_of (48 + n) :: char) :: nat) = 48 + n"
  by simp

lemma show_nat_digits: "list_all is_digit (show_nat n)"
proof (induction n rule: show_nat.induct)
  case (1 n)
  show ?case
  proof (cases "n < 10")
    case True
    then show ?thesis by (subst show_nat.simps) (simp add: is_digit_def)
  next
    case False
    have "n mod 10 < 10" by simp
    then have "is_digit (char_of (48 + n mod 10))" by (simp add: is_digit_def)
    with False 1 show ?thesis by (subst show_nat.simps) simp
  qed
qed

lemma show_nat_nonempty [simp]: "show_nat n \<noteq> []"
  by (subst show_nat.simps) simp

lemma digits_val_append: "digits_val (s @ [c]) = 10 * digits_val s + digit_val c"
  by (simp add: digits_val_def)

lemma digits_val_show_nat: "digits_val (show_nat n) = n"
proof (induction n rule: show_nat.induct)
  case (1 n)
  show ?case
  proof (cases "n < 10")
    case True
    then show ?thesis by (subst show_nat.simps) (simp add: digits_val_def digit_val_def)
  next
    case False
    have "n mod 10 < 10" by simp
    with False 1 show ?thesis
      by (subst show_nat.simps) (simp add: digits_val_append digit_val_def)
  qed
qed

lemma takeWhile_all_digits: "list_all is_digit s \<Longrightarrow> takeWhile is_digit s = s"
  and dropWhile_all_digits: "list_all is_digit s \<Longrightarrow> dropWhile is_digit s = []"
  by (auto simp: list_all_iff takeWhile_eq_all_conv dropWhile_eq_Nil_conv)

lemma parse_decimal_digits:
  "list_all is_digit s \<Longrightarrow> s \<noteq> [] \<Longrightarrow> parse_decimal s = Some (of_nat (digits_val s))"
  by (simp add: parse_decimal_def Let_def takeWhile_all_digits dropWhile_all_digits parse_exponent_def)

lemma digit_not_space: "is_digit c \<Longrightarrow> \<not> is_space c"
  by (auto simp: is_digit_def is_space_def)

lemma dropWhile_none: "list_all (\<lambda>c. \<not> P c) s \<Longrightarrow> dropWhile P s = s"
  by (cases s) auto

lemma trim_no_space: "list_all (\<lambda>c. \<not> is_space c) s \<Longrightarrow> trim s = s"
  by (simp add: trim_def dropWhile_none list_all_rev)

lemma string_number_show_nat: "string_number (show_nat n) = Fin (fl (of_nat n))"
proof -
  let ?s = "show_nat n"
  have d: "list_all is_digit ?s" by (rule show_nat_digits)
  then have "list_all (\<lambda>c. \<not> is_space c) ?s" using digit_not_space by (auto simp: list_all_iff)
  then have t: "trim ?s = ?s" by (rule trim_no_space)
  have "is_digit (hd ?s)" using d by (cases ?s) auto
  then have h: "hd ?s \<noteq> CHR ''-''" "hd ?s \<noteq> CHR ''+''" "?s \<noteq> ''Infinity''"
    by (auto simp: is_digit_def)
  show ?thesis
    using h by (simp add: string_number_def Let_def t unsigned_number_def
        parse_decimal_digits [OF d] digits_val_show_nat)
qed

lemma show_nat_no: "\<not> is_digit c \<Longrightarrow> c \<notin> set (show_nat n)"
  using show_nat_digits [of n] by (auto simp: list_all_iff)

end
