(* ===== verification/Base58.thy ===== *)
theory Base58
  imports JS_String
begin

text \<open>
  Solana addresses are base58 text. The repository decodes them in three places: the gateway with a
  byte array that is multiplied in place (\<open>b58decode\<close>, \<^verbatim>\<open>staking-service/gatewayAuth.js\<close>) and the
  bridge with one big integer (\<open>base58Decode\<close>, \<^verbatim>\<open>p4bridge/nodeauth.js\<close>). Both are modelled as
  written, and compared; the third, the tunnel relay's, is at the end.
\<close>

section \<open>The two decoders\<close>

definition B58 :: string where
  "B58 = ''123456789ABCDEFGHJKLMNPQRSTUVWXYZabcdefghijkmnopqrstuvwxyz''"

definition b58_digit :: "char \<Rightarrow> nat option" where
  "b58_digit c = (let i = index_of c B58 in if i < 0 then None else Some (nat i))"

text \<open>The inner loop of the gateway's decoder: \<open>bytes := 58 * bytes + carry\<close>, least significant byte first.\<close>

fun b58_scale :: "nat list \<Rightarrow> nat \<Rightarrow> nat list \<times> nat" where
  "b58_scale [] carry = ([], carry)"
| "b58_scale (b # bs) carry =
     (let t = carry + b * 58; (bs', c') = b58_scale bs (t div 256) in (t mod 256 # bs', c'))"

fun b58_spill :: "nat \<Rightarrow> nat list" where
  "b58_spill carry = (if carry = 0 then [] else carry mod 256 # b58_spill (carry div 256))"

declare b58_spill.simps [simp del]

definition b58_push :: "nat list \<Rightarrow> nat \<Rightarrow> nat list" where
  "b58_push bytes val = (let (bs, c) = b58_scale bytes val in bs @ b58_spill c)"

fun b58_loop :: "string \<Rightarrow> nat list \<Rightarrow> nat list option" where
  "b58_loop [] bytes = Some bytes"
| "b58_loop (ch # str) bytes =
     (case b58_digit ch of None \<Rightarrow> None | Some val \<Rightarrow> b58_loop str (b58_push bytes val))"

definition leading_ones :: "string \<Rightarrow> nat" where
  "leading_ones s = length (takeWhile (\<lambda>c. c = CHR ''1'') s)"

definition b58decode :: "string \<Rightarrow> nat list option" where
  "b58decode str = map_option (\<lambda>bytes. rev (bytes @ replicate (leading_ones str) 0)) (b58_loop str [0])"

fun b58_big :: "string \<Rightarrow> nat \<Rightarrow> nat option" where
  "b58_big [] big = Some big"
| "b58_big (ch # str) big =
     (case b58_digit ch of None \<Rightarrow> None | Some d \<Rightarrow> b58_big str (big * 58 + d))"

fun unshift_bytes :: "nat \<Rightarrow> nat list \<Rightarrow> nat list" where
  "unshift_bytes big bytes =
     (if big = 0 then bytes else unshift_bytes (big div 256) (big mod 256 # bytes))"

declare unshift_bytes.simps [simp del]

definition base58Decode :: "string \<Rightarrow> nat list option" where
  "base58Decode value =
     (if length value = 0 \<or> 64 < length value then None
      else map_option (\<lambda>big. replicate (leading_ones value) 0 @ unshift_bytes big []) (b58_big value 0))"

section \<open>Byte strings as numbers\<close>

fun le_num :: "nat list \<Rightarrow> nat" where
  "le_num [] = 0"
| "le_num (b # bs) = b + 256 * le_num bs"

text \<open>\<open>bs\<close> is the array that stands for \<open>n\<close>: a lone zero byte, or no zero byte at the top.\<close>

definition canon :: "nat list \<Rightarrow> nat \<Rightarrow> bool" where
  "canon bs n \<longleftrightarrow> le_num bs = n \<and> (\<forall>b \<in> set bs. b < 256) \<and> bs \<noteq> []
     \<and> (if n = 0 then bs = [0] else last bs \<noteq> 0)"

lemma le_num_append: "le_num (xs @ ys) = le_num xs + 256 ^ length xs * le_num ys"
  by (induction xs) (auto simp: algebra_simps)

lemma le_num_bound: "\<forall>b \<in> set bs. b < 256 \<Longrightarrow> le_num bs < 256 ^ length bs"
proof (induction bs)
  case (Cons b bs)
  then have "le_num bs + 1 \<le> 256 ^ length bs" by simp
  then have "256 * (le_num bs + 1) \<le> 256 * 256 ^ length bs" by (rule mult_le_mono2)
  then show ?case using Cons.prems by simp
qed simp

lemma b58_scale_correct:
  "\<forall>b \<in> set bs. b < 256 \<Longrightarrow> b58_scale bs c = (bs', c') \<Longrightarrow>
   length bs' = length bs \<and> (\<forall>b \<in> set bs'. b < 256)
   \<and> le_num bs' + 256 ^ length bs * c' = 58 * le_num bs + c"
proof (induction bs arbitrary: c bs' c')
  case (Cons b bs)
  obtain r d where r: "b58_scale bs ((c + b * 58) div 256) = (r, d)" by fastforce
  with Cons.IH [OF _ r] Cons.prems(1)
  have IH: "length r = length bs" "\<forall>b \<in> set r. b < 256"
    "le_num r + 256 ^ length bs * d = 58 * le_num bs + (c + b * 58) div 256" by auto
  from Cons.prems(2) r have eq: "bs' = (c + b * 58) mod 256 # r" "c' = d" by (auto simp: Let_def)
  have "le_num bs' + 256 ^ length (b # bs) * c'
      = (c + b * 58) mod 256 + 256 * (le_num r + 256 ^ length bs * d)"
    by (simp add: eq algebra_simps)
  also have "\<dots> = (c + b * 58) mod 256 + 256 * (58 * le_num bs + (c + b * 58) div 256)"
    by (simp only: IH(3))
  also have "\<dots> = 58 * le_num (b # bs) + c"
    using mod_mult_div_eq [of "c + b * 58" 256] by (simp add: algebra_simps)
  finally show ?case using IH eq by simp
qed simp

lemma b58_spill_correct:
  "le_num (b58_spill c) = c \<and> (\<forall>b \<in> set (b58_spill c). b < 256) \<and> (c \<noteq> 0 \<longrightarrow> b58_spill c \<noteq> [] \<and> last (b58_spill c) \<noteq> 0)"
proof (induction c rule: b58_spill.induct)
  case (1 c)
  show ?case
  proof (cases "c = 0")
    case True
    then show ?thesis by (simp add: b58_spill.simps)
  next
    case False
    with 1 have IH: "le_num (b58_spill (c div 256)) = c div 256"
      "\<forall>b \<in> set (b58_spill (c div 256)). b < 256"
      "c div 256 \<noteq> 0 \<longrightarrow> b58_spill (c div 256) \<noteq> [] \<and> last (b58_spill (c div 256)) \<noteq> 0" by auto
    have last: "last (c mod 256 # b58_spill (c div 256)) \<noteq> 0"
    proof (cases "c div 256 = 0")
      case True
      then show ?thesis using False by (simp add: b58_spill.simps [of 0])
    next
      case False
      then show ?thesis using IH(3) by simp
    qed
    show ?thesis
      unfolding b58_spill.simps [of c] using False IH last by simp
  qed
qed

lemma top_byte_nonzero:
  assumes "bs \<noteq> []" and "\<forall>b \<in> set bs. b < 256" and "256 ^ (length bs - 1) \<le> le_num bs"
  shows "last bs \<noteq> 0"
proof
  assume z: "last bs = 0"
  obtain xs where bs: "bs = xs @ [0]" using assms(1) z by (metis append_butlast_last_id)
  then have "le_num bs = le_num xs" "length bs - 1 = length xs" by (simp_all add: le_num_append)
  moreover have "le_num xs < 256 ^ length xs" using assms(2) bs by (intro le_num_bound) auto
  ultimately show False using assms(3) by simp
qed

lemma canon_low:
  assumes "canon bs n" and "n \<noteq> 0"
  shows "256 ^ (length bs - 1) \<le> n"
proof -
  obtain xs t where bs: "bs = xs @ [t]" using assms(1) by (metis canon_def rev_exhaust)
  with assms have "1 \<le> t" by (simp add: canon_def)
  then have "256 ^ length xs * 1 \<le> 256 ^ length xs * t" by (rule mult_le_mono2)
  also have "\<dots> \<le> n" using assms(1) bs by (auto simp: canon_def le_num_append)
  finally show ?thesis using bs by simp
qed

lemma canon_push:
  assumes c: "canon bs n" and v: "v < 58"
  shows "canon (b58_push bs v) (n * 58 + v)"
proof -
  obtain r d where r: "b58_scale bs v = (r, d)" by fastforce
  from c have cb: "\<forall>b \<in> set bs. b < 256" "le_num bs = n" "bs \<noteq> []" by (auto simp: canon_def)
  from b58_scale_correct [OF cb(1) r]
  have sc: "length r = length bs" "\<forall>b \<in> set r. b < 256" "le_num r + 256 ^ length bs * d = 58 * n + v"
    using cb(2) by auto
  note sp = b58_spill_correct [of d]
  have eq: "b58_push bs v = r @ b58_spill d" by (simp add: b58_push_def r)
  have val: "le_num (b58_push bs v) = n * 58 + v"
    using sc sp by (simp add: eq le_num_append algebra_simps)
  have small: "\<forall>b \<in> set (b58_push bs v). b < 256" using sc(2) sp eq by auto
  have ne: "b58_push bs v \<noteq> []" using sc(1) cb(3) eq by auto
  have top: "last (b58_push bs v) \<noteq> 0" if pos: "n * 58 + v \<noteq> 0"
  proof (cases "d = 0")
    case False
    then show ?thesis using sp eq by simp
  next
    case True
    then have r_eq: "b58_push bs v = r" by (simp add: eq b58_spill.simps)
    have "256 ^ (length r - 1) \<le> n * 58 + v"
    proof (cases "n = 0")
      case True
      then have "length r = 1" using c sc(1) by (simp add: canon_def)
      moreover have "1 \<le> n * 58 + v" using pos by linarith
      ultimately show ?thesis by (simp only: diff_self_eq_0 power_0)
    next
      case False
      then show ?thesis using canon_low [OF c] sc(1) by simp
    qed
    then show ?thesis using top_byte_nonzero [of r] sc(2) ne r_eq val by simp
  qed
  have zero: "b58_push bs v = [0]" if "n * 58 + v = 0"
    using that c by (simp add: canon_def b58_push_def b58_spill.simps)
  show ?thesis using val small ne top zero by (auto simp: canon_def)
qed

lemma b58_digit_less: "b58_digit c = Some d \<Longrightarrow> d < 58"
proof -
  have "index_of c s < int (length s)" for s by (induction s) (auto simp: Let_def)
  from this [of B58] show "b58_digit c = Some d \<Longrightarrow> d < 58"
    by (auto simp: b58_digit_def B58_def Let_def split: if_splits)
qed

lemma b58_loop_big:
  "canon bs n \<Longrightarrow>
   (case b58_big s n of None \<Rightarrow> b58_loop s bs = None
    | Some m \<Rightarrow> \<exists>bs'. b58_loop s bs = Some bs' \<and> canon bs' m)"
proof (induction s arbitrary: bs n)
  case (Cons ch s)
  show ?case
  proof (cases "b58_digit ch")
    case (Some d)
    then show ?thesis
      using Cons.IH [OF canon_push [OF Cons.prems b58_digit_less [OF Some]]]
      by (simp split: option.splits)
  qed simp
qed simp

lemma le_num_zero: "le_num bs = 0 \<Longrightarrow> b \<in> set bs \<Longrightarrow> b = 0"
  by (induction bs) auto

text \<open>Little-endian digits with a nonzero top byte are determined by their value.\<close>

lemma unshift_canon:
  "\<forall>b \<in> set bs. b < 256 \<Longrightarrow> bs = [] \<or> last bs \<noteq> 0 \<Longrightarrow> unshift_bytes (le_num bs) acc = rev bs @ acc"
proof (induction bs arbitrary: acc)
  case Nil
  then show ?case by (simp add: unshift_bytes.simps)
next
  case (Cons b bs)
  have nz: "le_num (b # bs) \<noteq> 0"
  proof (cases "bs = []")
    case True
    with Cons.prems show ?thesis by simp
  next
    case False
    with Cons.prems have "le_num bs \<noteq> 0" using le_num_zero [of bs "last bs"] by auto
    then show ?thesis by simp
  qed
  have dm: "le_num (b # bs) div 256 = le_num bs" "le_num (b # bs) mod 256 = b"
    using Cons.prems(1) by auto
  have "unshift_bytes (le_num (b # bs)) acc = unshift_bytes (le_num bs) (b # acc)"
    using nz by (subst unshift_bytes.simps) (simp only: dm if_False)
  also have "\<dots> = rev bs @ b # acc" using Cons.prems by (intro Cons.IH) (auto split: if_splits)
  finally show ?case by simp
qed

lemma canon_unshift:
  assumes "canon bs n"
  shows "rev bs = (if n = 0 then [0] else unshift_bytes n [])"
  using assms unshift_canon [of bs "[]"] by (auto simp: canon_def split: if_splits)

section \<open>Comparison\<close>

lemma b58decode_eq:
  "b58decode s = map_option
     (\<lambda>n. replicate (leading_ones s) 0 @ (if n = 0 then [0] else unshift_bytes n [])) (b58_big s 0)"
proof -
  have "canon [0] 0" by (simp add: canon_def)
  from b58_loop_big [OF this, of s] show ?thesis
    by (auto simp: b58decode_def dest!: canon_unshift split: option.splits)
qed

lemma b58_digit_zero: "b58_digit c = Some 0 \<Longrightarrow> c = CHR ''1''"
  by (auto simp: b58_digit_def B58_def Let_def split: if_splits)

lemma b58_big_zero: "b58_big s n = Some 0 \<Longrightarrow> n = 0 \<and> (\<forall>c \<in> set s. c = CHR ''1'')"
  by (induction s arbitrary: n) (fastforce split: option.splits dest: b58_digit_zero)+

text \<open>
  On every text of at most 64 base58 characters that is not all \<open>'1'\<close> the two decoders
  give the same bytes, and they reject the same texts.
\<close>

theorem b58_decoders_agree:
  assumes "length s \<le> 64" and "\<exists>c \<in> set s. c \<noteq> CHR ''1''"
  shows "b58decode s = base58Decode s"
proof -
  have "b58_big s 0 \<noteq> Some 0" using assms(2) b58_big_zero by blast
  moreover have "s \<noteq> []" using assms(2) by auto
  ultimately show ?thesis
    using assms(1) by (cases "b58_big s 0") (auto simp: b58decode_eq base58Decode_def)
qed

theorem b58_decoders_agree_witness:
  "b58decode ''1Kvasir'' = base58Decode ''1Kvasir'' \<and> base58Decode ''1Kvasir'' \<noteq> None"
proof -
  have "base58Decode ''1Kvasir'' \<noteq> None"
    by (simp add: base58Decode_def b58_digit_def B58_def Let_def)
  then show ?thesis using b58_decoders_agree [of "''1Kvasir''"] by simp
qed

text \<open>
  On a text of \<open>'1'\<close> only, the gateway's decoder yields one zero byte more than the
  bridge's, because its byte array starts as a zero byte that no digit ever overwrites. An
  address of 32 \<open>'1'\<close> (the system program's) is 32 bytes to the bridge and 33 to the gateway,
  whose \<^verbatim>\<open>verifyLogin\<close> then rejects it as not a key.
\<close>

theorem b58_all_ones_extra_byte:
  assumes "0 < n" and "n \<le> 64"
  shows "base58Decode (replicate n CHR ''1'') = Some (replicate n 0)
    \<and> b58decode (replicate n CHR ''1'') = Some (replicate (Suc n) 0)"
proof -
  have one: "b58_digit CHR ''1'' = Some 0" by code_simp
  have big: "b58_big (replicate n CHR ''1'') 0 = Some 0"
    by (induction n) (simp_all only: replicate.simps b58_big.simps one option.case mult_0 add_0)
  have lead: "leading_ones (replicate n CHR ''1'') = n" by (simp add: leading_ones_def)
  show ?thesis
    using assms big lead
    by (simp add: b58decode_eq base58Decode_def unshift_bytes.simps replicate_append_same)
qed

theorem b58_all_ones_extra_byte_witness:
  "base58Decode (replicate 32 CHR ''1'') = Some (replicate 32 0)
   \<and> b58decode (replicate 32 CHR ''1'') = Some (replicate 33 0)"
  using b58_all_ones_extra_byte [of 32] by simp

section \<open>The tunnel relay's decoder\<close>

text \<open>
  \<^verbatim>\<open>tools/p4-relay/auth.mjs\<close> has a third decoder, the gateway's loop started from an empty array: it has
  no spare zero byte.
\<close>

definition relay_b58decode :: "string \<Rightarrow> nat list option" where
  "relay_b58decode str = map_option (\<lambda>bytes. rev (bytes @ replicate (leading_ones str) 0)) (b58_loop str [])"

definition trimmed :: "nat list \<Rightarrow> nat \<Rightarrow> bool" where
  "trimmed bs n \<longleftrightarrow> (if n = 0 then bs = [] else canon bs n)"

lemma trimmed_push:
  assumes "trimmed bs n" and "v < 58"
  shows "trimmed (b58_push bs v) (n * 58 + v)"
proof (cases "n = 0")
  case True
  then have "b58_push bs v = b58_spill v" using assms(1) by (simp add: trimmed_def b58_push_def)
  then show ?thesis
    using True b58_spill_correct [of v] by (auto simp: trimmed_def canon_def b58_spill.simps [of 0])
next
  case False
  then show ?thesis using assms canon_push [of bs n v] by (simp add: trimmed_def)
qed

lemma b58_loop_trimmed:
  "trimmed bs n \<Longrightarrow>
   (case b58_big s n of None \<Rightarrow> b58_loop s bs = None
    | Some m \<Rightarrow> \<exists>bs'. b58_loop s bs = Some bs' \<and> trimmed bs' m)"
proof (induction s arbitrary: bs n)
  case (Cons ch s)
  show ?case
  proof (cases "b58_digit ch")
    case (Some d)
    then show ?thesis
      using Cons.IH [OF trimmed_push [OF Cons.prems b58_digit_less [OF Some]]]
      by (simp split: option.splits)
  qed simp
qed simp

text \<open>
  The tunnel relay's byte-array decoder and the bridge's big-integer decoder agree on every text of
  1 to 64 characters: they give the same bytes and reject the same texts.
\<close>

theorem relay_decoder_agrees:
  assumes "0 < length s" and "length s \<le> 64"
  shows "relay_b58decode s = base58Decode s"
proof -
  have "rev bs = unshift_bytes n []" if "trimmed bs n" for bs n
    using that canon_unshift [of bs n] by (auto simp: trimmed_def unshift_bytes.simps [of 0] split: if_splits)
  moreover have "trimmed [] 0" by (simp add: trimmed_def)
  ultimately show ?thesis
    using b58_loop_trimmed [of "[]" 0 s] assms
    by (auto simp: relay_b58decode_def base58Decode_def split: option.splits)
qed

theorem relay_decoder_agrees_witness:
  "relay_b58decode ''11Kv'' = base58Decode ''11Kv'' \<and> base58Decode ''11Kv'' \<noteq> None"
proof -
  have "base58Decode ''11Kv'' \<noteq> None"
    by (simp add: base58Decode_def b58_digit_def B58_def Let_def)
  then show ?thesis using relay_decoder_agrees [of "''11Kv''"] by simp
qed

end
