(* ===== verification/Gateway_Auth.thy ===== *)
theory Gateway_Auth
  imports Base58
begin

text \<open>
  The gateway's admin authentication (\<^verbatim>\<open>staking-service/gatewayAuth.js\<close>): the allowlist,
  sign-in challenges and their signatures, session cookies and scoped tokens, TOTP codes and
  backup codes, cookie parsing.

  Cryptography is a parameter: \<open>crypto\<close> holds the functions the code calls in \<^verbatim>\<open>node:crypto\<close>,
  in \<^verbatim>\<open>tweetnacl\<close> and in \<^verbatim>\<open>Buffer\<close> (HMAC-SHA256 and SHA-256 as hex text, HMAC-SHA1 as bytes, the
  base64 codecs, the detached ed25519 check). Where a property needs one of their laws it is a
  hypothesis, e.g. that base64url text decodes to what was encoded. Random values (nonces,
  secrets) are arguments of the operations that draw them, and so is the clock: milliseconds
  for challenges, seconds for tokens and codes.
\<close>

record crypto =
  hmac_sha256 :: "string \<Rightarrow> string \<Rightarrow> string"
  hmac_sha1 :: "nat list \<Rightarrow> nat list \<Rightarrow> nat list"
  sha256 :: "string \<Rightarrow> string"
  b64url :: "string \<Rightarrow> string"
  unb64url :: "string \<Rightarrow> string"
  unb64 :: "string \<Rightarrow> nat list"
  ed25519_verify :: "nat list \<Rightarrow> string \<Rightarrow> nat list \<Rightarrow> bool"

record auth_env =
  ADMIN_WALLETS :: "string list"
  SECRET :: string
  crypt :: crypto

section \<open>Allowlist\<close>

definition authEnabled :: "auth_env \<Rightarrow> bool" where
  "authEnabled e \<longleftrightarrow> ADMIN_WALLETS e \<noteq> []"

definition isAdmin :: "auth_env \<Rightarrow> string \<Rightarrow> bool" where
  "isAdmin e wallet \<longleftrightarrow> trim wallet \<in> set (ADMIN_WALLETS e)"

section \<open>Challenges\<close>

type_synonym nonces = "(string \<times> (string \<times> int)) list"

definition NONCE_TTL_MS :: int where
  "NONCE_TTL_MS = 300 * 1000"

definition newline :: char where
  "newline = char_of (10 :: nat)"

definition signInMessage :: "string \<Rightarrow> string \<Rightarrow> string" where
  "signInMessage wallet nonce =
     ''Kvasir gateway admin sign-in'' @ [newline] @ ''wallet: '' @ wallet @ [newline] @ ''nonce: '' @ nonce"

definition newChallenge :: "nonces \<Rightarrow> string \<Rightarrow> string \<Rightarrow> int \<Rightarrow> nonces \<times> string \<times> string" where
  "newChallenge ns wallet nonce now_ms =
     (put nonce (wallet, now_ms + NONCE_TTL_MS) ns, nonce, signInMessage wallet nonce)"

definition consumeChallenge :: "nonces \<Rightarrow> string \<Rightarrow> int \<Rightarrow> string option \<times> nonces" where
  "consumeChallenge ns nonce now_ms =
     (case get ns nonce of
        None \<Rightarrow> (None, ns)
      | Some (wallet, expiry) \<Rightarrow>
          (if expiry < now_ms then (None, del nonce ns) else (Some wallet, del nonce ns)))"

definition verifyLogin ::
  "crypto \<Rightarrow> nonces \<Rightarrow> string \<Rightarrow> string \<Rightarrow> string \<Rightarrow> int \<Rightarrow> bool \<times> nonces" where
  "verifyLogin cr ns wallet nonce signatureB64 now_ms =
     (let w = trim wallet; (owner, ns') = consumeChallenge ns (trim nonce) now_ms
      in case owner of
           None \<Rightarrow> (False, ns')
         | Some ow \<Rightarrow>
             if ow = '''' \<or> ow \<noteq> w then (False, ns')
             else let sig = unb64 cr signatureB64
                  in if length sig \<noteq> 64 then (False, ns')
                     else case b58decode w of
                            None \<Rightarrow> (False, ns')
                          | Some pub \<Rightarrow>
                              if length pub \<noteq> 32 then (False, ns')
                              else (ed25519_verify cr sig (signInMessage w nonce) pub, ns'))"

section \<open>Sessions and scoped tokens\<close>

abbreviation bar :: char where "bar \<equiv> CHR ''|''"

definition makeSession :: "auth_env \<Rightarrow> string \<Rightarrow> nat \<Rightarrow> nat \<Rightarrow> string" where
  "makeSession e wallet now ttlSec =
     (let payload = wallet @ [bar] @ show_nat (now + ttlSec);
          sig = hmac_sha256 (crypt e) (SECRET e) payload
      in b64url (crypt e) (payload @ [bar] @ sig))"

definition verifySession :: "auth_env \<Rightarrow> string \<Rightarrow> nat \<Rightarrow> string option" where
  "verifySession e token now =
     (let raw = unb64url (crypt e) token;
          i2 = last_index_of bar raw (int (length raw));
          i1 = last_index_of bar raw (i2 - 1);
          wallet = js_slice raw 0 i1;
          expT = js_slice raw (i1 + 1) i2;
          sig = slice_from raw (i2 + 1);
          good = hmac_sha256 (crypt e) (SECRET e) (wallet @ [bar] @ expT)
      in if good \<noteq> sig then None
         else if num_less (string_number expT) (Fin (of_nat now)) then None
         else Some wallet)"

definition makeToken :: "auth_env \<Rightarrow> string \<Rightarrow> string \<Rightarrow> nat \<Rightarrow> nat \<Rightarrow> string" where
  "makeToken e wallet scope now ttlSec =
     (let payload = scope @ [bar] @ wallet @ [bar] @ show_nat (now + ttlSec);
          sig = hmac_sha256 (crypt e) (SECRET e) payload
      in b64url (crypt e) (payload @ [bar] @ sig))"

definition verifyToken :: "auth_env \<Rightarrow> string \<Rightarrow> string \<Rightarrow> nat \<Rightarrow> string option" where
  "verifyToken e token scope now =
     (case split_on bar (unb64url (crypt e) token) of
        [sc, wallet, expT, sig] \<Rightarrow>
          if sc \<noteq> scope then None
          else if hmac_sha256 (crypt e) (SECRET e) (sc @ [bar] @ wallet @ [bar] @ expT) \<noteq> sig then None
          else if num_less (string_number expT) (Fin (of_nat now)) then None
          else Some wallet
      | _ \<Rightarrow> None)"

section \<open>TOTP\<close>

definition B32 :: string where
  "B32 = ''ABCDEFGHIJKLMNOPQRSTUVWXYZ234567''"

definition upper_char :: "char \<Rightarrow> char" where
  "upper_char c = (if 97 \<le> (of_char c :: nat) \<and> (of_char c :: nat) \<le> 122
                   then char_of ((of_char c :: nat) - 32) else c)"

fun bits_of :: "nat \<Rightarrow> nat \<Rightarrow> bool list" where
  "bits_of 0 v = []"
| "bits_of (Suc k) v = bits_of k (v div 2) @ [odd v]"

definition bits_val :: "bool list \<Rightarrow> nat" where
  "bits_val bs = foldl (\<lambda>n b. 2 * n + (if b then 1 else 0)) 0 bs"

fun octets :: "bool list \<Rightarrow> nat list" where
  "octets (a # b # c # d # e # f # g # h # r) = bits_val [a, b, c, d, e, f, g, h] # octets r"
| "octets _ = []"

fun b32_bits :: "string \<Rightarrow> bool list option" where
  "b32_bits [] = Some []"
| "b32_bits (ch # s) =
     (let i = index_of ch B32
      in if i < 0 then None else map_option ((@) (bits_of 5 (nat i))) (b32_bits s))"

definition b32_clean :: "string \<Rightarrow> string" where
  "b32_clean s = map upper_char (filter (\<lambda>c. \<not> is_space c) (rev (dropWhile (\<lambda>c. c = CHR ''='') (rev s))))"

definition b32decode :: "string \<Rightarrow> nat list option" where
  "b32decode s = map_option octets (b32_bits (b32_clean s))"

definition be64 :: "nat \<Rightarrow> nat list" where
  "be64 n = map (\<lambda>i. n div 256 ^ (7 - i) mod 256) [0..<8]"

text \<open>
  \<open>hotp\<close> is \<open>None\<close> where the code throws: a secret that is not base32, a negative counter, or an
  HMAC too short for the dynamic offset (HMAC-SHA1 has 20 bytes, so that case needs a broken
  \<open>hmac_sha1\<close>).
\<close>

definition hotp :: "crypto \<Rightarrow> string \<Rightarrow> int \<Rightarrow> nat \<Rightarrow> string option" where
  "hotp cr secretB32 counter digits =
     (case b32decode secretB32 of
        None \<Rightarrow> None
      | Some key \<Rightarrow>
          if counter < 0 \<or> 2 ^ 64 \<le> counter then None
          else let h = hmac_sha1 cr key (be64 (nat counter));
                   off = last h mod 16
               in if h = [] \<or> length h < off + 4 then None
                  else let word = ((h ! off * 256 + h ! (off + 1)) * 256 + h ! (off + 2)) * 256 + h ! (off + 3);
                           code = (word mod 2 ^ 31) mod 10 ^ digits
                       in Some (pad_start digits CHR ''0'' (show_nat code)))"

text \<open>\<open>verifyCode\<close> with its defaults: step 30 s, 6 digits, one step of drift either way.\<close>

fun code_in_window :: "crypto \<Rightarrow> string \<Rightarrow> int list \<Rightarrow> string \<Rightarrow> bool option" where
  "code_in_window cr secret [] c = Some False"
| "code_in_window cr secret (k # ks) c =
     (case hotp cr secret k 6 of
        None \<Rightarrow> None
      | Some good \<Rightarrow> if good = c then Some True else code_in_window cr secret ks c)"

definition verifyCode :: "crypto \<Rightarrow> string \<Rightarrow> string \<Rightarrow> nat \<Rightarrow> bool option" where
  "verifyCode cr secretB32 code now =
     (let c = trim code; counter = int (now div 30)
      in if c = [] \<or> \<not> list_all is_digit c \<or> length c \<noteq> 6 then Some False
         else code_in_window cr secretB32 [counter - 1, counter, counter + 1] c)"

section \<open>Backup codes\<close>

definition hashBackup :: "crypto \<Rightarrow> string \<Rightarrow> string" where
  "hashBackup cr code = sha256 cr (filter (\<lambda>c. c \<noteq> CHR ''-'') (to_lower (trim code)))"

fun consume_backup :: "string list \<Rightarrow> string \<Rightarrow> string list option" where
  "consume_backup [] h = None"
| "consume_backup (x # xs) h = (if x = h then Some xs else map_option ((#) x) (consume_backup xs h))"

definition verifyAndConsumeBackup :: "crypto \<Rightarrow> string list \<Rightarrow> string \<Rightarrow> string list option" where
  "verifyAndConsumeBackup cr hashes code = consume_backup hashes (hashBackup cr code)"

section \<open>Cookies\<close>

text \<open>\<open>None\<close> is the exception of \<^verbatim>\<open>decodeURIComponent\<close> on a malformed value, which nothing here catches.\<close>

fun cookie_parts :: "string list \<Rightarrow> string table \<Rightarrow> string table option" where
  "cookie_parts [] out = Some out"
| "cookie_parts (part # parts) out =
     (let i = index_of CHR ''='' part
      in if i < 0 then cookie_parts parts out
         else case decodeURIComponent (trim (slice_from part (i + 1))) of
                None \<Rightarrow> None
              | Some v \<Rightarrow> cookie_parts parts (put (trim (js_slice part 0 i)) v out))"

definition parseCookies :: "string \<Rightarrow> string table option" where
  "parseCookies raw = cookie_parts (split_on CHR '';'' raw) []"

text \<open>\<open>adminWallet\<close> of \<^verbatim>\<open>server.js\<close>: the wallet whose valid session rides in the cookie, if allowlisted.\<close>

definition ADMIN_COOKIE :: string where
  "ADMIN_COOKIE = ''kvr_admin_session''"

definition adminWallet :: "auth_env \<Rightarrow> string \<Rightarrow> nat \<Rightarrow> string option option" where
  "adminWallet e cookie now =
     (case parseCookies cookie of
        None \<Rightarrow> None
      | Some cs \<Rightarrow>
          (let tok = (case get cs ADMIN_COOKIE of None \<Rightarrow> '''' | Some t \<Rightarrow> t);
               w = (if tok = '''' then None else verifySession e tok now)
           in Some (case w of None \<Rightarrow> None | Some x \<Rightarrow> if x \<noteq> '''' \<and> isAdmin e x then Some x else None)))"

section \<open>Properties\<close>

lemma bar_not_digit: "\<not> is_digit bar"
  by (simp add: is_digit_def)

lemma last_bars:
  fixes w x g :: string
  assumes "bar \<notin> set x" and "bar \<notin> set g"
  defines "raw \<equiv> w @ [bar] @ x @ [bar] @ g"
  shows "last_index_of bar raw (int (length raw)) = int (length w + 1 + length x)"
    and "last_index_of bar raw (int (length w + 1 + length x) - 1) = int (length w)"
proof -
  have at: "raw ! (length w + 1 + length x) = bar" "raw ! length w = bar"
    by (simp_all add: raw_def nth_append)
  show "last_index_of bar raw (int (length raw)) = int (length w + 1 + length x)"
  proof (rule last_index_of_eq)
    fix j assume j: "length w + 1 + length x < j" "j < length raw"
    have "raw = (w @ [bar] @ x @ [bar]) @ g" by (simp add: raw_def)
    moreover have "length (w @ [bar] @ x @ [bar]) = length w + 1 + length x + 1" by simp
    ultimately have "raw ! j = g ! (j - (length w + 1 + length x + 1))"
      using j(1) nth_append [of "w @ [bar] @ x @ [bar]" g j] by simp
    moreover have "j - (length w + 1 + length x + 1) < length g" using j by (simp add: raw_def)
    ultimately show "raw ! j \<noteq> bar" using assms(2) nth_mem by metis
  qed (use at in \<open>simp_all add: raw_def\<close>)
  show "last_index_of bar raw (int (length w + 1 + length x) - 1) = int (length w)"
  proof (rule last_index_of_eq)
    fix j assume j: "length w < j" "int j \<le> int (length w + 1 + length x) - 1"
    then have "raw ! j = x ! (j - (length w + 1))" by (auto simp: raw_def nth_append)
    moreover have "j - (length w + 1) < length x" using j by linarith
    ultimately show "raw ! j \<noteq> bar" using assms(1) nth_mem by metis
  qed (use at in \<open>simp_all add: raw_def\<close>)
qed

lemma verifySession_raw:
  assumes dec: "unb64url (crypt e) tok = w @ [bar] @ x @ [bar] @ g"
    and bars: "bar \<notin> set x" "bar \<notin> set g"
  shows "verifySession e tok now =
    (if hmac_sha256 (crypt e) (SECRET e) (w @ [bar] @ x) \<noteq> g then None
     else if num_less (string_number x) (Fin (of_nat now)) then None else Some w)"
proof -
  let ?raw = "w @ [bar] @ x @ [bar] @ g"
  have "js_slice ?raw 0 (int (length w)) = w"
    by (subst js_slice_nonneg) auto
  moreover have "js_slice ?raw (int (length w) + 1) (int (length w + 1 + length x)) = x"
    by (subst js_slice_nonneg) (auto simp: nat_add_distrib)
  moreover have "slice_from ?raw (int (length w + 1 + length x) + 1) = g"
    unfolding slice_from_def by (subst js_slice_nonneg) (auto simp: nat_add_distrib)
  ultimately show ?thesis
    unfolding verifySession_def Let_def dec last_bars [OF bars] by simp
qed

lemma expired_iff:
  "n \<le> 2 ^ 53 \<Longrightarrow> num_less (string_number (show_nat n)) (Fin (of_nat now)) \<longleftrightarrow> n < now"
  using fl_of_int [of "int n"] by (simp add: string_number_show_nat)

lemma verify_made_session:
  assumes "\<And>s. unb64url (crypt e) (b64url (crypt e) s) = s"
    and "\<And>k s. bar \<notin> set (hmac_sha256 (crypt e) k s)"
    and "now + ttl \<le> 2 ^ 53"
  shows "verifySession e (makeSession e w now ttl) now' = (if now' \<le> now + ttl then Some w else None)"
proof -
  let ?x = "show_nat (now + ttl)"
  have dec: "unb64url (crypt e) (makeSession e w now ttl)
      = w @ [bar] @ ?x @ [bar] @ hmac_sha256 (crypt e) (SECRET e) (w @ [bar] @ ?x)"
    by (simp add: makeSession_def Let_def assms(1))
  show ?thesis
    unfolding verifySession_raw [OF dec show_nat_no [OF bar_not_digit] assms(2)]
      expired_iff [OF assms(3)] by simp
qed

lemma verify_made_token:
  assumes "\<And>s. unb64url (crypt e) (b64url (crypt e) s) = s"
    and "\<And>k s. bar \<notin> set (hmac_sha256 (crypt e) k s)"
    and "now + ttl \<le> 2 ^ 53" and "bar \<notin> set w" "bar \<notin> set sc"
  shows "verifyToken e (makeToken e w sc now ttl) sc now' = (if now' \<le> now + ttl then Some w else None)"
proof -
  let ?x = "show_nat (now + ttl)"
  let ?g = "hmac_sha256 (crypt e) (SECRET e) (sc @ [bar] @ w @ [bar] @ ?x)"
  have "bar \<notin> set ?x" by (rule show_nat_no [OF bar_not_digit])
  then have "split_on bar (sc @ [bar] @ w @ [bar] @ ?x @ [bar] @ ?g) = [sc, w, ?x, ?g]"
    using assms(2,4,5) by (simp add: split_on_sep split_on_absent)
  then have "split_on bar (unb64url (crypt e) (makeToken e w sc now ttl)) = [sc, w, ?x, ?g]"
    by (simp add: makeToken_def Let_def assms(1))
  then show ?thesis using expired_iff [OF assms(3), of now'] by (simp add: verifyToken_def)
qed

text \<open>
  A session cookie round trip. Up to its expiry a session made for a wallet verifies to
  that wallet, and after it to nothing; the wallet may itself contain the separator. The laws
  used of the parameters: base64url decodes what it encoded, and an HMAC is hex text.
\<close>

theorem session_roundtrip:
  assumes "\<And>s. unb64url (crypt e) (b64url (crypt e) s) = s"
    and "\<And>k s. bar \<notin> set (hmac_sha256 (crypt e) k s)"
    and "now + ttl \<le> 2 ^ 53"
  shows "verifySession e (makeSession e w now ttl) now' = (if now' \<le> now + ttl then Some w else None)"
  using assms by (rule verify_made_session)

text \<open>
  The token that says "wallet verified, second factor pending" is not a session. It carries
  a valid MAC of the same form, and \<^verbatim>\<open>verifySession\<close> does read it, as a session of the wallet
  \<open>pre2fa|w\<close>; but no such wallet passes the allowlist, so it opens no admin route, before or
  after its expiry, as long as no allowlisted wallet contains the separator.
\<close>

theorem pre2fa_token_is_no_session:
  assumes "\<And>s. unb64url (crypt e) (b64url (crypt e) s) = s"
    and "\<And>k s. bar \<notin> set (hmac_sha256 (crypt e) k s)"
    and "now + ttl \<le> 2 ^ 53"
    and "\<forall>a \<in> set (ADMIN_WALLETS e). bar \<notin> set a"
    and "parseCookies cookie = Some cs"
    and "get cs ADMIN_COOKIE = Some (makeToken e w ''pre2fa'' now ttl)"
  shows "adminWallet e cookie now' = Some None"
proof -
  let ?x = "show_nat (now + ttl)" and ?w = "''pre2fa'' @ [bar] @ w"
  let ?tok = "makeToken e w ''pre2fa'' now ttl"
  have dec: "unb64url (crypt e) ?tok
      = ?w @ [bar] @ ?x @ [bar] @ hmac_sha256 (crypt e) (SECRET e) (?w @ [bar] @ ?x)"
    by (simp add: makeToken_def Let_def assms(1))
  have v: "verifySession e ?tok now' = None \<or> verifySession e ?tok now' = Some ?w"
    unfolding verifySession_raw [OF dec show_nat_no [OF bar_not_digit] assms(2)] by simp
  have "bar \<in> set (trim ?w)"
  proof -
    have "\<not> is_space (CHR ''p'')" by (simp add: is_space_def)
    then have "trim ?w = rev (dropWhile is_space (rev ?w))" by (simp add: trim_def)
    moreover have "rev ?w = rev w @ [bar] @ rev ''pre2fa''" by simp
    moreover have "bar \<in> set (dropWhile is_space (ys @ [bar] @ zs))" for ys zs
      by (induction ys) (auto simp: is_space_def)
    ultimately show ?thesis by (metis set_rev)
  qed
  then have "\<not> isAdmin e ?w" using assms(4) by (auto simp: isAdmin_def)
  with v show ?thesis
    using assms(5,6) by (auto simp: adminWallet_def Let_def)
qed

lemma consumeChallenge_gone: "get (snd (consumeChallenge ns nonce now)) nonce = None"
  by (auto simp: consumeChallenge_def table_simps split: option.splits)

lemma verifyLogin_nonces: "snd (verifyLogin cr ns w nonce sig now) = snd (consumeChallenge ns (trim nonce) now)"
  by (auto simp: verifyLogin_def Let_def split: prod.splits option.splits)

lemma verifyLogin_unknown: "get ns (trim nonce) = None \<Longrightarrow> \<not> fst (verifyLogin cr ns w nonce sig now)"
  by (simp add: verifyLogin_def consumeChallenge_def)

text \<open>
  A sign-in succeeds only on a challenge that was issued to that wallet, has not expired,
  and whose text, naming the wallet, is signed by the key that the wallet address names.
\<close>

theorem verifyLogin_sound:
  assumes "fst (verifyLogin cr ns wallet nonce sig now)"
  shows "\<exists>expiry pub. get ns (trim nonce) = Some (trim wallet, expiry) \<and> now \<le> expiry
    \<and> b58decode (trim wallet) = Some pub \<and> length pub = 32
    \<and> ed25519_verify cr (unb64 cr sig) (signInMessage (trim wallet) nonce) pub"
  using assms
  by (auto simp: verifyLogin_def consumeChallenge_def Let_def
      split: prod.splits option.splits if_splits)

text \<open>
  A challenge is single use. After any sign-in attempt with a nonce, successful or not and
  by whomever, no attempt with that nonce succeeds until it is issued again.
\<close>

theorem challenge_single_use:
  "\<not> fst (verifyLogin cr (snd (verifyLogin cr ns wallet nonce sig now)) wallet' nonce sig' now')"
  by (intro verifyLogin_unknown) (simp add: verifyLogin_nonces consumeChallenge_gone)

text \<open>
  A backup code is spent by use: accepting one removes exactly one stored hash, the hash
  of that code, and keeps the others in order; a code whose hash is not stored is refused.
\<close>

theorem backup_code_spent:
  "(case verifyAndConsumeBackup cr hashes code of
      None \<Rightarrow> hashBackup cr code \<notin> set hashes
    | Some rest \<Rightarrow> \<exists>xs ys. hashes = xs @ hashBackup cr code # ys \<and> rest = xs @ ys
                      \<and> hashBackup cr code \<notin> set xs)"
proof -
  have "(case consume_backup hs h of None \<Rightarrow> h \<notin> set hs
         | Some rest \<Rightarrow> \<exists>xs ys. hs = xs @ h # ys \<and> rest = xs @ ys \<and> h \<notin> set xs)" for hs h
  proof (induction hs)
    case (Cons x hs)
    show ?case
    proof (cases "x = h")
      case False
      show ?thesis
      proof (cases "consume_backup hs h")
        case (Some rest)
        then obtain xs ys where "hs = xs @ h # ys" "rest = xs @ ys" "h \<notin> set xs"
          using Cons.IH by auto
        then have "x # hs = (x # xs) @ h # ys \<and> x # rest = (x # xs) @ ys \<and> h \<notin> set (x # xs)"
          using False by simp
        then have "\<exists>xs ys. x # hs = xs @ h # ys \<and> x # rest = xs @ ys \<and> h \<notin> set xs" by blast
        then show ?thesis using False Some by simp
      qed (use False Cons.IH in simp)
    qed force
  qed simp
  then show ?thesis by (simp add: verifyAndConsumeBackup_def)
qed

section \<open>Witnesses\<close>

text \<open>A toy instance of the parameters: the identity codec, a hex-like MAC, every signature valid.\<close>

definition toy_crypto :: crypto where
  "toy_crypto = \<lparr>hmac_sha256 = (\<lambda>k s. if k = s then ''00'' else ''ff''),
     hmac_sha1 = (\<lambda>k s. replicate 20 0), sha256 = (\<lambda>s. s), b64url = (\<lambda>s. s), unb64url = (\<lambda>s. s),
     unb64 = (\<lambda>s. replicate 64 0), ed25519_verify = (\<lambda>s m p. True)\<rparr>"

definition toy_env :: auth_env where
  "toy_env = \<lparr>ADMIN_WALLETS = [''adm''], SECRET = ''k'', crypt = toy_crypto\<rparr>"

lemma toy_laws:
  "unb64url (crypt toy_env) (b64url (crypt toy_env) s) = s"
  "bar \<notin> set (hmac_sha256 (crypt toy_env) k s)"
  by (simp_all add: toy_env_def toy_crypto_def)

theorem session_roundtrip_witness:
  "verifySession toy_env (makeSession toy_env ''adm'' 1000 86400) 2000 = Some ''adm''
   \<and> verifySession toy_env (makeSession toy_env ''adm'' 1000 86400) 90000 = None"
  using session_roundtrip [of toy_env 1000 86400 "''adm''" 2000, OF toy_laws]
    session_roundtrip [of toy_env 1000 86400 "''adm''" 90000, OF toy_laws] by simp

definition toy_cookie :: string where
  "toy_cookie = ADMIN_COOKIE @ ''='' @ makeToken toy_env ''adm'' ''pre2fa'' 1000 300"

theorem pre2fa_token_is_no_session_witness:
  "(\<exists>cs. parseCookies toy_cookie = Some cs
      \<and> get cs ADMIN_COOKIE = Some (makeToken toy_env ''adm'' ''pre2fa'' 1000 300))
   \<and> adminWallet toy_env toy_cookie 1100 = Some None"
proof -
  have pc: "parseCookies toy_cookie
      = Some [(ADMIN_COOKIE, makeToken toy_env ''adm'' ''pre2fa'' 1000 300)]" by code_simp
  have adm: "\<forall>a \<in> set (ADMIN_WALLETS toy_env). bar \<notin> set a" by (simp add: toy_env_def)
  show ?thesis
    using pre2fa_token_is_no_session [of toy_env 1000 300 toy_cookie _ "''adm''" 1100,
        OF toy_laws _ adm pc] pc by simp
qed

theorem verifyLogin_sound_witness:
  "(let w = replicate 31 CHR ''1'' @ ''2''; n = ''abcd'' in
    fst (verifyLogin toy_crypto [(n, (w, 300000))] w n ''sig'' 5)
    \<and> (\<exists>expiry pub. get [(n, (w, 300000 :: int))] n = Some (w, expiry) \<and> 5 \<le> expiry
        \<and> b58decode w = Some pub \<and> length pub = 32))"
proof -
  let ?w = "replicate 31 CHR ''1'' @ ''2''" and ?n = "''abcd''"
  have ok: "fst (verifyLogin toy_crypto [(?n, (?w, 300000))] ?w ?n ''sig'' 5)" by code_simp
  have "trim ?w = ?w" "trim ?n = ?n" by code_simp+
  with verifyLogin_sound [OF ok] ok show ?thesis by (auto simp: Let_def)
qed

end
