(* ===== verification/Gateway_Rewards.thy ===== *)
theory Gateway_Rewards
  imports Gateway_State Gateway_Auth
begin

text \<open>
  Node operator rewards (\<^verbatim>\<open>staking-service/server.js\<close>): the performance tiers, uptime and
  contribution credit, the node routes (register, heartbeat, remove, contribution, rewards,
  status, claim), the faucet, and the in-process reporters.

  A route is a function from the ledger it loads to its answer and the ledger it saves; where
  it refuses it saves nothing and the ledger is returned as it was. The answer of a route that
  returns a node is the row itself: the JSON body is a projection of it and of the
  configuration. What comes from the chain (a token balance, whether an account exists,
  whether a payout went through) is an argument.
\<close>

section \<open>Performance tiers\<close>

record perf_tier =
  pt_tier :: string
  minTps :: rat
  mult :: rat

definition PERF_TIERS :: "perf_tier list" where
  "PERF_TIERS = [\<lparr>pt_tier = ''S'', minTps = 90, mult = 3/2\<rparr>,
                 \<lparr>pt_tier = ''A'', minTps = 60, mult = 5/4\<rparr>,
                 \<lparr>pt_tier = ''B'', minTps = 30, mult = 1\<rparr>,
                 \<lparr>pt_tier = ''C'', minTps = 0, mult = fl (7/10)\<rparr>]"

definition perfTier :: "jsnum \<Rightarrow> perf_tier" where
  "perfTier tps =
     (let t = number_or_zero tps
      in case List.find (\<lambda>x. num_le (Fin (minTps x)) t) PERF_TIERS of
           Some x \<Rightarrow> x
         | None \<Rightarrow> last PERF_TIERS)"

definition UNMEASURED :: perf_tier where
  "UNMEASURED = \<lparr>pt_tier = ''unrated'', minTps = 0, mult = 1\<rparr>"

definition tierFor :: "node_row \<Rightarrow> perf_tier" where
  "tierFor n = (case perfScore n of None \<Rightarrow> UNMEASURED | Some s \<Rightarrow> perfTier s)"

definition with_tier :: "node_row \<Rightarrow> node_row" where
  "with_tier n = n\<lparr>tier := pt_tier (tierFor n), perfMultiplier := mult (tierFor n)\<rparr>"

section \<open>Uptime and contribution credit\<close>

definition uptime_elapsed :: "config \<Rightarrow> node_row \<Rightarrow> int \<Rightarrow> rat" where
  "uptime_elapsed c n now =
     (let last = (if lastUptimeAt n = 0 then now else lastUptimeAt n)
      in max 0 (min (of_int (now - last)) (UPTIME_MAX_GAP_SEC c)))"

definition uptime_credit :: "config \<Rightarrow> node_row \<Rightarrow> int \<Rightarrow> rat" where
  "uptime_credit c n now =
     (let elapsed = uptime_elapsed c n now;
          c1 = (if bridge_host n then fl (elapsed * fl (BRIDGE_UPTIME_PER_HOUR c / 3600)) else 0)
      in if hostsGateway n then fl (c1 + fl (elapsed * fl (GATEWAY_UPTIME_PER_HOUR c / 3600))) else c1)"

definition accrueUptime :: "config \<Rightarrow> node_row \<Rightarrow> int \<Rightarrow> node_row" where
  "accrueUptime c n now =
     (let credit = uptime_credit c n now;
          n1 = (if 0 < credit
                then n\<lparr>uptimeRewards := fl (uptimeRewards n + credit),
                       pendingRewards := fl (pendingRewards n + credit)\<rparr>
                else n)
      in n1\<lparr>lastUptimeAt := now\<rparr>)"

record credit_info =
  ci_raw :: rat
  ci_effective :: rat
  ci_multiplier :: rat
  ci_gatewayBonus :: rat

definition creditContribution :: "config \<Rightarrow> node_row \<Rightarrow> jsnum \<Rightarrow> int \<Rightarrow> credit_info \<times> node_row" where
  "creditContribution c n rawUnits t_at =
     (case rawUnits of
        Fin raw \<Rightarrow>
          if raw \<le> 0 then (\<lparr>ci_raw = 0, ci_effective = 0, ci_multiplier = 1, ci_gatewayBonus = 1\<rparr>, n)
          else
            let multiplier = mult (tierFor n);
                gatewayBonus = (if hostsGateway n then GATEWAY_BONUS c else 1);
                effective = fl (fl (raw * multiplier) * gatewayBonus)
            in (\<lparr>ci_raw = raw, ci_effective = effective, ci_multiplier = multiplier,
                 ci_gatewayBonus = gatewayBonus\<rparr>,
                n\<lparr>contributedUnits := round6 (fl (contributedUnits n + raw)),
                  effectiveUnits := round6 (fl (effectiveUnits n + effective)),
                  pendingRewards := round6 (fl (pendingRewards n + fl (effective * REWARD_PER_UNIT c))),
                  lastReport := Some t_at\<rparr>)
      | _ \<Rightarrow> (\<lparr>ci_raw = 0, ci_effective = 0, ci_multiplier = 1, ci_gatewayBonus = 1\<rparr>, n))"

section \<open>Who may assert reward-affecting facts\<close>

record caller =
  service_token :: "string option"
  cookie :: string

definition ctEq :: "string option \<Rightarrow> string option \<Rightarrow> bool" where
  "ctEq a b \<longleftrightarrow> (case a of None \<Rightarrow> '''' | Some x \<Rightarrow> x) = (case b of None \<Rightarrow> '''' | Some x \<Rightarrow> x)"

definition service_caller :: "config \<Rightarrow> caller \<Rightarrow> bool" where
  "service_caller c q \<longleftrightarrow> BRIDGE_SERVICE_TOKEN c \<noteq> ''''
     \<and> ctEq (service_token q) (Some (BRIDGE_SERVICE_TOKEN c))"

text \<open>\<open>None\<close>: the cookie header does not decode and the code throws.\<close>

definition trustedReporter :: "config \<Rightarrow> auth_env \<Rightarrow> caller \<Rightarrow> int \<Rightarrow> bool option" where
  "trustedReporter c e q now =
     (if service_caller c q then Some True
      else map_option (\<lambda>w. w \<noteq> None) (adminWallet e (cookie q) (nat now)))"

section \<open>Node routes\<close>

definition normOs :: "string \<Rightarrow> string" where
  "normOs v = (if to_lower v \<in> set [''macos'', ''ios'', ''android'', ''windows'', ''linux'', ''unknown'']
               then to_lower v else ''unknown'')"

definition normAccel :: "string \<Rightarrow> string" where
  "normAccel v = (if to_lower v \<in> set [''cpu'', ''gpu'', ''npu''] then to_lower v else ''cpu'')"

record register_body =
  rb_nodeId :: string
  rb_owner :: string
  rb_os :: "string option"
  rb_deviceKind :: string
  rb_accelerator :: "string option"
  rb_label :: string
  rb_perfScore :: jsval
  rb_backend :: "string option"
  rb_mode :: "string option"
  rb_hostsGateway :: jsval
  rb_hostsBridge :: jsval

definition holds_value :: "node_row \<Rightarrow> bool" where
  "holds_value n \<longleftrightarrow> 0 < pendingRewards n \<or> bridge_host n \<or> hostsGateway n"

definition register_profile :: "register_body \<Rightarrow> node_row \<Rightarrow> node_row" where
  "register_profile b n = n\<lparr>owner := rb_owner b,
     os := normOs (case rb_os b of Some v \<Rightarrow> v | None \<Rightarrow> os n),
     deviceKind := or_else (or_else (rb_deviceKind b) (deviceKind n)) ''unknown'',
     accelerator := normAccel (case rb_accelerator b of Some v \<Rightarrow> v | None \<Rightarrow> accelerator n),
     label := or_else (or_else (rb_label b) (label n)) (rb_nodeId b)\<rparr>"

definition set_roles :: "jsval \<Rightarrow> jsval \<Rightarrow> node_row \<Rightarrow> node_row" where
  "set_roles gw br n =
     (let n1 = (if nullish gw then n else n\<lparr>hostsGateway := truthy gw\<rparr>)
      in if nullish br then n1 else n1\<lparr>hostsBridge := Some (truthy br)\<rparr>)"

definition register_row :: "config \<Rightarrow> bool \<Rightarrow> register_body \<Rightarrow> int \<Rightarrow> node_row \<Rightarrow> node_row" where
  "register_row c trusted b now n0 =
     (let n1 = register_profile b n0;
          n2 = (if trusted \<and> \<not> nullish (rb_perfScore b)
                then n1\<lparr>perfScore := Some (to_number (rb_perfScore b))\<rparr> else n1);
          n3 = (case rb_backend b of None \<Rightarrow> n2 | Some v \<Rightarrow> n2\<lparr>backend := Some v\<rparr>);
          n4 = (case rb_mode b of None \<Rightarrow> n3 | Some v \<Rightarrow> n3\<lparr>node_mode := Some v\<rparr>);
          n5 = (if trusted then set_roles (rb_hostsGateway b) (rb_hostsBridge b) (accrueUptime c n4 now)
                else n4)
      in with_tier n5)"

text \<open>
  \<open>bal\<close> is what \<^verbatim>\<open>kvrBalance\<close> returned. The handler is \<^verbatim>\<open>async\<close> with no \<^verbatim>\<open>try\<close>, so an exception in
  \<^verbatim>\<open>trustedReporter\<close> is \<open>Uncaught\<close>.
\<close>

definition post_register ::
  "config \<Rightarrow> auth_env \<Rightarrow> caller \<Rightarrow> rat \<Rightarrow> register_body \<Rightarrow> int \<Rightarrow> db \<Rightarrow> node_row answer \<times> db" where
  "post_register c e q bal b now d =
     (if rb_nodeId b = '''' \<or> rb_owner b = '''' then (refuse 400 ''nodeId, owner required'', d)
      else if 0 < MIN_OPERATOR_KVR c \<and> bal < MIN_OPERATOR_KVR c
        then (refuse 403 ''operator wallet needs more KVR to run a node'', d)
      else case trustedReporter c e q now of
        None \<Rightarrow> (Inl Uncaught, d)
      | Some trusted \<Rightarrow>
          let existing = get (nodes d) (rb_nodeId b);
              taken = (case existing of
                         None \<Rightarrow> False
                       | Some x \<Rightarrow> owner x \<noteq> '''' \<and> owner x \<noteq> rb_owner b \<and> \<not> trusted \<and> holds_value x)
          in if taken then (refuse 403 ''nodeId is registered to another owner'', d)
             else let n0 = (case existing of Some x \<Rightarrow> x | None \<Rightarrow> fresh_node (rb_owner b) now);
                      n = register_row c trusted b now n0
                  in (Inr n, d\<lparr>nodes := put (rb_nodeId b) n (nodes d)\<rparr>))"

definition post_heartbeat ::
  "config \<Rightarrow> auth_env \<Rightarrow> caller \<Rightarrow> string \<Rightarrow> jsval \<Rightarrow> jsval \<Rightarrow> int \<Rightarrow> db \<Rightarrow> node_row answer \<times> db" where
  "post_heartbeat c e q nodeId gw br now d =
     (if nodeId = '''' then (refuse 400 ''nodeId required'', d)
      else case get (nodes d) nodeId of
        None \<Rightarrow> (refuse 404 ''node not registered'', d)
      | Some n \<Rightarrow>
          (case trustedReporter c e q now of
             None \<Rightarrow> (refuse 500 ''URI malformed'', d)
           | Some trusted \<Rightarrow>
               let n1 = (if trusted then set_roles gw br (accrueUptime c n now) else n);
                   n2 = n1\<lparr>lastReport := Some now\<rparr>
               in (Inr n2, d\<lparr>nodes := put nodeId n2 (nodes d)\<rparr>)))"

definition post_remove :: "string \<Rightarrow> string \<Rightarrow> db \<Rightarrow> string answer \<times> db" where
  "post_remove nodeId own d =
     (if nodeId = '''' \<or> own = '''' then (refuse 400 ''nodeId, owner required'', d)
      else case get (nodes d) nodeId of
        None \<Rightarrow> (refuse 404 ''node not found'', d)
      | Some n \<Rightarrow>
          if owner n \<noteq> own then (refuse 403 ''not owner of this node'', d)
          else (Inr nodeId, d\<lparr>nodes := del nodeId (nodes d)\<rparr>))"

definition post_contribution ::
  "config \<Rightarrow> auth_env \<Rightarrow> caller \<Rightarrow> string \<Rightarrow> jsval \<Rightarrow> int \<Rightarrow> db \<Rightarrow> (credit_info \<times> node_row) answer \<times> db" where
  "post_contribution c e q nodeId units now d =
     (case trustedReporter c e q now of
        None \<Rightarrow> (refuse 500 ''URI malformed'', d)
      | Some trusted \<Rightarrow>
          if \<not> trusted then (refuse 401 ''service token or admin required'', d)
          else if nodeId = '''' \<or> nullish units then (refuse 400 ''nodeId, units required'', d)
          else case get (nodes d) nodeId of
            None \<Rightarrow> (refuse 404 ''node not registered'', d)
          | Some n \<Rightarrow>
              let (i, n') = creditContribution c (accrueUptime c n now) (to_number units) now
              in (Inr (i, n'), d\<lparr>nodes := put nodeId n' (nodes d)\<rparr>))"

section \<open>Reading rewards and claiming them\<close>

definition owned :: "db \<Rightarrow> string \<Rightarrow> node_row table" where
  "owned d own = filter (\<lambda>(i, n). owner n = own) (nodes d)"

definition operatorRewards :: "db \<Rightarrow> string \<Rightarrow> rat" where
  "operatorRewards d own = js_sum (map (\<lambda>(i, n). pendingRewards n) (owned d own))"

definition NODE_ONLINE_SEC :: int where
  "NODE_ONLINE_SEC = 300"

definition ownerHasOnlineNode :: "db \<Rightarrow> string \<Rightarrow> int \<Rightarrow> bool" where
  "ownerHasOnlineNode d own now \<longleftrightarrow>
     list_ex (\<lambda>(i, n). owner n = own
        \<and> (case lastReport n of None \<Rightarrow> False | Some t \<Rightarrow> now - t < NODE_ONLINE_SEC)) (nodes d)"

datatype node_status = Registered | Online | Idle | Offline

definition node_status_of :: "node_row \<Rightarrow> int \<Rightarrow> node_status" where
  "node_status_of n now =
     (case lastReport n of
        None \<Rightarrow> Registered
      | Some t \<Rightarrow> if now - t < 300 then Online else if now - t < 3600 then Idle else Offline)"

record status_totals =
  st_nodes :: nat
  st_online :: nat
  st_contributed :: rat
  st_effective :: rat
  st_pending :: rat
  st_claimed :: rat
  st_lifetime :: rat

definition get_status :: "db \<Rightarrow> string \<Rightarrow> int \<Rightarrow> status_totals \<times> (string \<times> node_status) list" where
  "get_status d own now =
     (let rows = owned d own; ns = map snd rows
      in (\<lparr>st_nodes = length rows,
           st_online = length (filter (\<lambda>n. node_status_of n now = Online) ns),
           st_contributed = js_sum (map contributedUnits ns),
           st_effective = js_sum (map effectiveUnits ns),
           st_pending = js_sum (map pendingRewards ns),
           st_claimed = js_sum (map claimedTotal ns),
           st_lifetime = foldl (\<lambda>s n. fl (fl (s + pendingRewards n) + claimedTotal n)) 0 ns\<rparr>,
          map (\<lambda>(i, n). (i, node_status_of n now)) rows))"

definition settle_row :: "string \<Rightarrow> node_row \<Rightarrow> node_row" where
  "settle_row own n =
     (if owner n = own
      then n\<lparr>claimedTotal := fl (claimedTotal n + pendingRewards n), pendingRewards := 0\<rparr> else n)"

definition settle_claim :: "string \<Rightarrow> db \<Rightarrow> db" where
  "settle_claim own d = d\<lparr>nodes := map_rows (\<lambda>_. settle_row own) (nodes d)\<rparr>"

text \<open>
  A claim: \<open>sig\<close> is what the on-chain payout returned, \<open>None\<close> when it threw. The answer holds the
  signature and the amount paid.
\<close>

definition post_claim ::
  "config \<Rightarrow> string \<Rightarrow> (string \<Rightarrow> rat \<Rightarrow> string option) \<Rightarrow> db \<Rightarrow> (string \<times> rat) answer \<times> db" where
  "post_claim c own pay d =
     (if own = '''' then (refuse 400 ''owner required'', d)
      else let pending = operatorRewards d own
           in if pending \<le> fl (1 / 10 ^ 9) then (refuse 400 ''no rewards to claim'', d)
              else if pending < MIN_CLAIM c then (refuse 400 ''below the minimum claim'', d)
              else case pay own pending of
                None \<Rightarrow> (refuse 400 ''payout failed'', d)
              | Some sig \<Rightarrow> (Inr (sig, pending), settle_claim own d))"

section \<open>Faucet\<close>

text \<open>
  \<open>canonical\<close> is \<^verbatim>\<open>new PublicKey(s).toBase58()\<close> (\<open>None\<close> when it throws); \<open>exists\<close> whether the address
  already has a token account.
\<close>

definition post_faucet ::
  "config \<Rightarrow> (string \<Rightarrow> string option) \<Rightarrow> (string \<Rightarrow> bool) \<Rightarrow> (string \<Rightarrow> rat \<Rightarrow> string option)
   \<Rightarrow> string \<Rightarrow> int \<Rightarrow> db \<Rightarrow> (string \<times> rat \<times> string) answer \<times> db" where
  "post_faucet c canonical exists pay address now_ms d =
     (if address = '''' then (refuse 400 ''address required'', d)
      else case canonical (trim address) of
        None \<Rightarrow> (refuse 400 ''invalid Solana address'', d)
      | Some addr \<Rightarrow>
          let lastT = (case get (faucet d) addr of None \<Rightarrow> 0 | Some t \<Rightarrow> t);
              wait = lastT + FAUCET_COOLDOWN_MS c - now_ms
          in if 0 < wait then (refuse 429 ''rate limited'', d)
             else if \<not> exists addr \<and> FAUCET_NEW_ACCOUNT_BUDGET c \<le> faucetAccountsOpened d
               then (refuse 429 ''the faucet has opened as many accounts as it is funded to open'', d)
             else case pay addr (FAUCET_AMOUNT c) of
               None \<Rightarrow> (refuse 400 ''payout failed'', d)
             | Some sig \<Rightarrow>
                 (Inr (addr, FAUCET_AMOUNT c, sig),
                  d\<lparr>faucetAccountsOpened := faucetAccountsOpened d + (if exists addr then 0 else 1),
                    faucet := put addr now_ms (faucet d)\<rparr>))"

section \<open>In-process reporters\<close>

definition upsertInfraNode ::
  "config \<Rightarrow> string \<Rightarrow> string \<Rightarrow> bool \<Rightarrow> bool \<Rightarrow> string \<Rightarrow> string \<Rightarrow> int \<Rightarrow> db \<Rightarrow> db" where
  "upsertInfraNode c nodeId own gw br lbl kind now d =
     (if own = '''' then d
      else let n0 = (case get (nodes d) nodeId of Some x \<Rightarrow> x | None \<Rightarrow> fresh_node own now);
               n1 = n0\<lparr>owner := own, deviceKind := kind, label := lbl,
                       os := or_else (os n0) (HOST_OS c),
                       accelerator := or_else (accelerator n0) ''cpu''\<rparr>;
               n2 = (accrueUptime c n1 now)\<lparr>hostsGateway := gw, hostsBridge := Some br\<rparr>;
               n3 = (with_tier n2)\<lparr>lastReport := Some now\<rparr>
           in d\<lparr>nodes := put nodeId n3 (nodes d)\<rparr>)"

record contribution_info =
  in_units :: jsval
  in_backend :: "string option"
  in_os :: string
  in_accelerator :: string
  in_deviceKind :: string
  in_perfScore :: jsval

text \<open>
  The cumulative count is stored through JSON: a value that is not finite is saved as \<^verbatim>\<open>null\<close> and
  read back as zero (\<^verbatim>\<open>n.creditedUnits || 0\<close>).
\<close>

definition units_delta :: "jsnum \<Rightarrow> rat \<Rightarrow> jsnum" where
  "units_delta cumulative stored =
     (case cumulative of
        Fin u \<Rightarrow> (let credited = (if u < stored then 0 else stored) in Fin (max 0 (fl (u - credited))))
      | PInf \<Rightarrow> PInf
      | NInf \<Rightarrow> Fin 0
      | NaN \<Rightarrow> NaN)"

definition upsert_units :: "config \<Rightarrow> jsval \<Rightarrow> int \<Rightarrow> node_row \<Rightarrow> node_row" where
  "upsert_units c units now n =
     (let cumulative = (if truthy units then to_number units else Fin 0);
          delta = units_delta cumulative (creditedUnits n);
          n1 = (if num_less (Fin 0) delta then snd (creditContribution c n delta now) else n)
      in n1\<lparr>creditedUnits := (case cumulative of Fin u \<Rightarrow> u | _ \<Rightarrow> 0)\<rparr>)"

definition upsertInferenceNode ::
  "config \<Rightarrow> string \<Rightarrow> string \<Rightarrow> string \<Rightarrow> contribution_info \<Rightarrow> int \<Rightarrow> db \<Rightarrow> db" where
  "upsertInferenceNode c nodeId own lbl info now d =
     (let n0 = (case get (nodes d) nodeId of Some x \<Rightarrow> x | None \<Rightarrow> fresh_node own now);
          n1 = n0\<lparr>owner := own, label := or_else (or_else lbl (label n0)) nodeId,
                  deviceKind := or_else (or_else (in_deviceKind info) (deviceKind n0)) ''node'',
                  os := or_else (or_else (in_os info) (os n0)) (HOST_OS c),
                  accelerator := or_else (or_else (in_accelerator info) (accelerator n0)) ''gpu''\<rparr>;
          n2 = (case in_backend info of None \<Rightarrow> n1 | Some v \<Rightarrow> n1\<lparr>backend := Some v\<rparr>);
          n3 = (if nullish (in_perfScore info) then n2
                else n2\<lparr>perfScore := Some (to_number (in_perfScore info))\<rparr>);
          n4 = upsert_units c (in_units info) now (with_tier n3)
      in d\<lparr>nodes := put nodeId n4 (nodes d)\<rparr>)"

section \<open>Tiers\<close>

lemma PERF_TIERS_sorted: "sorted_wrt (\<lambda>x y. minTps y < minTps x \<and> mult y \<le> mult x) PERF_TIERS"
  by code_simp

lemma find_tier_mono:
  assumes "sorted_wrt (\<lambda>x y. minTps y < minTps x \<and> mult y \<le> mult x) ts" and "ts \<noteq> []"
    and "num_le s t" "s \<noteq> NaN" "t \<noteq> NaN"
  shows "mult (case List.find (\<lambda>x. num_le (Fin (minTps x)) s) ts of Some x \<Rightarrow> x | None \<Rightarrow> last ts)
       \<le> mult (case List.find (\<lambda>x. num_le (Fin (minTps x)) t) ts of Some x \<Rightarrow> x | None \<Rightarrow> last ts)"
  using assms
proof (induction ts)
  case (Cons y ys)
  have le: "mult (case List.find (\<lambda>x. num_le (Fin (minTps x)) s) ys of Some x \<Rightarrow> x | None \<Rightarrow> last (y # ys)) \<le> mult y"
    using Cons.prems(1) by (auto split: option.splits dest!: find_SomeD simp: last_in_set)
  have up: "num_le (Fin (minTps y)) t" if "num_le (Fin (minTps y)) s"
    using that Cons.prems(3-5) by (cases s; cases t) auto
  show ?case
    using le up Cons by (cases ys) (auto split: option.splits)
qed simp

text \<open>
  A faster node is never paid at a lower multiplier: \<^verbatim>\<open>perfTier\<close> is monotone in the measured
  throughput, infinities included, and a throughput that is not a number is graded like zero.
\<close>

theorem perfTier_mono:
  assumes "num_le s t"
  shows "mult (perfTier s) \<le> mult (perfTier t) \<and> perfTier NaN = perfTier (Fin 0)"
proof -
  have st: "s \<noteq> NaN" "t \<noteq> NaN" using assms by (cases s; cases t; simp)+
  have "PERF_TIERS \<noteq> []" by (simp add: PERF_TIERS_def)
  from find_tier_mono [OF PERF_TIERS_sorted this assms st] show ?thesis
    using st by (simp add: perfTier_def number_or_zero_def)
qed

lemma perfTier_mult_pos: "0 < mult (perfTier s)" "mult (perfTier s) \<le> 3/2"
proof -
  have a: "list_all (\<lambda>x. 0 < mult x \<and> mult x \<le> 3/2) PERF_TIERS" by code_simp
  have "perfTier s \<in> set PERF_TIERS"
    by (auto simp: perfTier_def Let_def split: option.splits dest: find_SomeD)
      (auto simp: PERF_TIERS_def)
  then show "0 < mult (perfTier s)" "mult (perfTier s) \<le> 3/2" using a by (auto simp: list_all_iff)
qed

lemma tierFor_mult: "0 < mult (tierFor n)" "mult (tierFor n) \<le> 3/2"
  using perfTier_mult_pos by (auto simp: tierFor_def UNMEASURED_def split: option.splits)

section \<open>Uptime\<close>

lemma uptime_elapsed_nonneg: "0 \<le> uptime_elapsed c n now"
  by (simp add: uptime_elapsed_def Let_def)

lemma uptime_credit_nonneg: "config_ok c \<Longrightarrow> 0 \<le> uptime_credit c n now"
  using uptime_elapsed_nonneg
  by (auto simp: uptime_credit_def Let_def config_ok_def intro!: js_num mult_nonneg_nonneg add_nonneg_nonneg)

lemma accrueUptime_frame [simp]:
  "hostsGateway (accrueUptime c n now) = hostsGateway n"
  "hostsBridge (accrueUptime c n now) = hostsBridge n"
  "lastUptimeAt (accrueUptime c n now) = now"
  "owner (accrueUptime c n now) = owner n"
  "perfScore (accrueUptime c n now) = perfScore n"
  "claimedTotal (accrueUptime c n now) = claimedTotal n"
  "creditedUnits (accrueUptime c n now) = creditedUnits n"
  "contributedUnits (accrueUptime c n now) = contributedUnits n"
  by (simp_all add: accrueUptime_def Let_def)

text \<open>The seconds that a sequence of reports at the given times is paid for.\<close>

fun elapsed_run :: "config \<Rightarrow> node_row \<Rightarrow> int list \<Rightarrow> rat" where
  "elapsed_run c n [] = 0"
| "elapsed_run c n (t # ts) = uptime_elapsed c n t + elapsed_run c (accrueUptime c n t) ts"

lemma uptime_elapsed_gap: "0 \<le> UPTIME_MAX_GAP_SEC c \<Longrightarrow> uptime_elapsed c n t \<le> UPTIME_MAX_GAP_SEC c"
  by (auto simp: uptime_elapsed_def Let_def)

lemma elapsed_run_gap:
  "0 \<le> UPTIME_MAX_GAP_SEC c \<Longrightarrow> elapsed_run c n ts \<le> of_nat (length ts) * UPTIME_MAX_GAP_SEC c"
proof (induction ts arbitrary: n)
  case (Cons t ts)
  from Cons.IH [OF Cons.prems, of "accrueUptime c n t"] uptime_elapsed_gap [OF Cons.prems, of n t]
  show ?case by (simp add: algebra_simps)
qed simp

text \<open>
  Uptime is paid at most once and never for a gap. Whatever the times of the reports, the
  seconds credited are at most one \<^verbatim>\<open>UPTIME_MAX_GAP_SEC\<close> per report; when the times do not go
  backwards they are also at most the time that passed since the last accrual.
\<close>

theorem uptime_never_paid_twice:
  assumes "0 \<le> UPTIME_MAX_GAP_SEC c" and "0 < lastUptimeAt n"
  shows "elapsed_run c n ts \<le> of_nat (length ts) * UPTIME_MAX_GAP_SEC c
    \<and> (sorted (lastUptimeAt n # ts) \<longrightarrow>
         elapsed_run c n ts \<le> of_int (last (lastUptimeAt n # ts) - lastUptimeAt n))"
proof (intro conjI impI)
  show "elapsed_run c n ts \<le> of_int (last (lastUptimeAt n # ts) - lastUptimeAt n)"
    if "sorted (lastUptimeAt n # ts)"
    using assms(2) that
  proof (induction ts arbitrary: n)
    case (Cons t ts)
    have "uptime_elapsed c n t \<le> of_int (t - lastUptimeAt n)"
      using Cons.prems by (auto simp: uptime_elapsed_def Let_def)
    moreover have "elapsed_run c (accrueUptime c n t) ts \<le> of_int (last (t # ts) - t)"
      using Cons.IH [of "accrueUptime c n t"] Cons.prems by auto
    ultimately show ?case by (auto simp: algebra_simps)
  qed simp
qed (rule elapsed_run_gap [OF assms(1)])

section \<open>The ledger of contributions\<close>

definition effective_of :: "config \<Rightarrow> node_row \<Rightarrow> rat \<Rightarrow> rat" where
  "effective_of c n raw = fl (fl (raw * mult (tierFor n)) * (if hostsGateway n then GATEWAY_BONUS c else 1))"

lemma creditContribution_Fin:
  "0 < raw \<Longrightarrow> snd (creditContribution c n (Fin raw) t) =
    n\<lparr>contributedUnits := round6 (fl (contributedUnits n + raw)),
      effectiveUnits := round6 (fl (effectiveUnits n + effective_of c n raw)),
      pendingRewards := round6 (fl (pendingRewards n + fl (effective_of c n raw * REWARD_PER_UNIT c))),
      lastReport := Some t\<rparr>"
  unfolding effective_of_def creditContribution_def Let_def by simp

lemma creditContribution_frame [simp]:
  "owner (snd (creditContribution c n u t)) = owner n"
  "hostsGateway (snd (creditContribution c n u t)) = hostsGateway n"
  "hostsBridge (snd (creditContribution c n u t)) = hostsBridge n"
  "perfScore (snd (creditContribution c n u t)) = perfScore n"
  "claimedTotal (snd (creditContribution c n u t)) = claimedTotal n"
  "uptimeRewards (snd (creditContribution c n u t)) = uptimeRewards n"
  "creditedUnits (snd (creditContribution c n u t)) = creditedUnits n"
  "lastUptimeAt (snd (creditContribution c n u t)) = lastUptimeAt n"
  by (cases u; simp add: creditContribution_def Let_def)+

text \<open>
  The ledger the code means: three counters in millionths. \<open>micro_row n u e p\<close> says that the row's
  doubles are the ones nearest to these counts; \<open>pays c n m g r\<close> that \<open>m\<close>, \<open>g\<close> and \<open>r\<close> are the
  decimals behind the tier multiplier, the gateway bonus and the rate per unit that apply to
  the node.
\<close>

definition micro_row :: "node_row \<Rightarrow> int \<Rightarrow> int \<Rightarrow> int \<Rightarrow> bool" where
  "micro_row n u e p \<longleftrightarrow> contributedUnits n = micro u \<and> effectiveUnits n = micro e \<and> pendingRewards n = micro p"

definition pays :: "config \<Rightarrow> node_row \<Rightarrow> rat \<Rightarrow> rat \<Rightarrow> rat \<Rightarrow> bool" where
  "pays c n m g r \<longleftrightarrow> mult (tierFor n) = fl m \<and> (if hostsGateway n then GATEWAY_BONUS c else 1) = fl g
     \<and> REWARD_PER_UNIT c = fl r"

text \<open>A report of \<open>du\<close> millionths of a unit is worth \<open>de\<close> effective and \<open>dp\<close> of reward, in millionths.\<close>

definition worth :: "rat \<Rightarrow> rat \<Rightarrow> rat \<Rightarrow> int \<Rightarrow> int \<Rightarrow> int \<Rightarrow> bool" where
  "worth m g r du de dp \<longleftrightarrow> of_int de = of_int du * m * g \<and> of_int dp = of_int du * m * g * r
     \<and> 0 < du \<and> du \<le> 10 ^ 14 \<and> \<bar>de\<bar> \<le> 10 ^ 14 \<and> \<bar>dp\<bar> \<le> 10 ^ 14"

lemma within7:
  assumes "rel_within 53 k x (of_int b / 1000000)" "k \<le> 7" and b: "\<bar>b\<bar> \<le> 10 ^ 14"
  shows "\<bar>x - of_int b / 1000000\<bar> \<le> 1 / 8000000"
proof -
  have "\<bar>(of_int b :: rat)\<bar> \<le> of_int (10 ^ 14)" using b by (simp only: of_int_abs [symmetric] of_int_le_iff)
  then have "\<bar>(of_int b :: rat) / 1000000\<bar> \<le> 10 ^ 8" by simp
  from rel_within_abs [OF assms(1) this]
  have "\<bar>x - of_int b / 1000000\<bar> \<le> 10 ^ 8 * ((1 + 1 / 2 ^ 53) ^ k - 1)" .
  also have "\<dots> \<le> 10 ^ 8 * ((1 + 1 / 2 ^ 53) ^ 7 - 1)"
    using assms(2) by (intro mult_left_mono diff_right_mono power_increasing) auto
  also have "\<dots> \<le> 1 / 8000000" by (simp add: power_divide)
  finally show ?thesis .
qed

lemma effective_within:
  assumes "pays c n m g r"
  shows "rel_within 53 5 (effective_of c n (micro du)) (of_int du / 1000000 * m * g)"
proof -
  have one: "rel_within 53 1 (fl x) x" for x
    using dbl.within_rnd [OF rel_within_refl] by simp
  have "rel_within 53 (1 + 1) (micro du * fl m) (of_int du / 1000000 * m)"
    unfolding micro_def by (intro rel_within_mult one)
  from dbl.within_rnd [OF rel_within_mult [OF dbl.within_rnd [OF this] one [of g]]]
  have "rel_within 53 5 (fl (fl (micro du * fl m) * fl g)) (of_int du / 1000000 * m * g)"
    by (simp add: numeral_eq_Suc)
  then show ?thesis using assms unfolding pays_def effective_of_def by presburger
qed

lemma reward_within:
  assumes "pays c n m g r"
  shows "rel_within 53 7 (fl (effective_of c n (micro du) * REWARD_PER_UNIT c)) (of_int du / 1000000 * m * g * r)"
proof -
  have "rel_within 53 1 (REWARD_PER_UNIT c) r"
    using dbl.within_rnd [OF rel_within_refl] assms by (simp add: pays_def)
  from dbl.within_rnd [OF rel_within_mult [OF effective_within [OF assms] this]] show ?thesis
    by (simp add: numeral_eq_Suc)
qed

lemma credit_micro_step:
  assumes n: "micro_row n u e p" and c: "pays c n m g r" and w: "worth m g r du de dp"
    and b: "\<bar>u\<bar> \<le> 10 ^ 14" "\<bar>e\<bar> \<le> 10 ^ 14" "\<bar>p\<bar> \<le> 10 ^ 14"
  shows "micro_row (snd (creditContribution c n (Fin (micro du)) t)) (u + du) (e + de) (p + dp)"
proof -
  have du: "0 < du" "\<bar>du\<bar> \<le> 10 ^ 14" "\<bar>de\<bar> \<le> 10 ^ 14" "\<bar>dp\<bar> \<le> 10 ^ 14" using w by (auto simp: worth_def)
  have pos: "0 < micro du" using du(1) by (simp add: micro_def fl_pos)
  have e': "of_int du / 1000000 * m * g = of_int de / 1000000"
    and p': "of_int du / 1000000 * m * g * r = of_int dp / 1000000" using w by (simp_all add: worth_def)
  have v1: "\<bar>micro du - of_int du / 1000000\<bar> \<le> 1 / 8000000"
    using dbl.within_rnd [OF rel_within_refl] du(2) by (intro within7 [of 1]) (auto simp: micro_def)
  note v2 = within7 [OF effective_within [OF c, of du, unfolded e'] _ du(3)]
    and v3 = within7 [OF reward_within [OF c, of du, unfolded p'] _ du(4)]
  have "round6 (fl (micro u + micro du)) = micro (u + du)"
    and "round6 (fl (micro e + effective_of c n (micro du))) = micro (e + de)"
    and "round6 (fl (micro p + fl (effective_of c n (micro du) * REWARD_PER_UNIT c))) = micro (p + dp)"
    using b du by (auto intro!: round6_micro_add v1 v2 v3)
  then show ?thesis
    using n by (simp add: creditContribution_Fin [OF pos] micro_row_def)
qed

lemma credit_shape:
  "0 < raw \<Longrightarrow> \<exists>a b d. snd (creditContribution c n (Fin raw) t)
     = n\<lparr>contributedUnits := a, effectiveUnits := b, pendingRewards := d, lastReport := Some t\<rparr>"
  unfolding creditContribution_Fin by blast

lemma same_counters:
  assumes "\<exists>a b d. x = n\<lparr>contributedUnits := a, effectiveUnits := b, pendingRewards := d, lastReport := l\<rparr>"
    and "\<exists>a b d. y = x\<lparr>contributedUnits := a, effectiveUnits := b, pendingRewards := d, lastReport := l\<rparr>"
    and "\<exists>a b d. z = n\<lparr>contributedUnits := a, effectiveUnits := b, pendingRewards := d, lastReport := l\<rparr>"
    and "micro_row y u e p" and "micro_row z u e p"
  shows "y = z"
  using assms by (auto simp: micro_row_def)

lemma pays_credit: "pays c (snd (creditContribution c n x t)) m g r = pays c n m g r"
  by (simp add: pays_def tierFor_def)

lemma worth_nonneg:
  assumes "worth m g r du de dp" and "0 \<le> m" "0 \<le> g" "0 \<le> r"
  shows "0 \<le> du \<and> 0 \<le> de \<and> 0 \<le> dp"
proof -
  have "(0::rat) \<le> of_int de" "(0::rat) \<le> of_int dp" "0 \<le> du"
    using assms by (simp_all add: worth_def)
  then show ?thesis by (simp_all only: of_int_0_le_iff)
qed

lemma worth_sums:
  assumes "\<forall>(du, de, dp) \<in> set xs. worth m g r du de dp" and "0 \<le> m" "0 \<le> g" "0 \<le> r"
  shows "0 \<le> (\<Sum>x\<leftarrow>xs. fst x) \<and> 0 \<le> (\<Sum>x\<leftarrow>xs. fst (snd x)) \<and> 0 \<le> (\<Sum>x\<leftarrow>xs. snd (snd x))"
  using assms(1)
proof (induction xs)
  case (Cons x xs)
  obtain du de dp where "x = (du, de, dp)" by (cases x)
  with Cons worth_nonneg [OF _ assms(2-4), of du de dp] show ?case by simp
qed simp

fun credit_reports :: "config \<Rightarrow> node_row \<Rightarrow> int \<Rightarrow> int list \<Rightarrow> node_row" where
  "credit_reports c n t [] = n"
| "credit_reports c n t (du # dus) = credit_reports c (snd (creditContribution c n (Fin (micro du)) t)) t dus"


text \<open>
  How work is reported does not change what is paid. Crediting two reports leaves exactly
  the row that one report of their sum leaves (the comment on \<^verbatim>\<open>creditContribution\<close> gives ten
  units against two times five).
\<close>

theorem split_reports_pay_the_same:
  assumes "micro_row n u e p" and "pays c n m g r"
    and "worth m g r a a' a''" and "worth m g r b b' b''" and "worth m g r (a + b) (a' + b') (a'' + b'')"
    and "\<bar>u\<bar> \<le> 10 ^ 13" "\<bar>e\<bar> \<le> 10 ^ 13" "\<bar>p\<bar> \<le> 10 ^ 13" "a \<le> 10 ^ 13" "\<bar>a'\<bar> \<le> 10 ^ 13" "\<bar>a''\<bar> \<le> 10 ^ 13"
  shows "snd (creditContribution c (snd (creditContribution c n (Fin (micro a)) t)) (Fin (micro b)) t)
       = snd (creditContribution c n (Fin (micro (a + b))) t)"
proof -
  let ?x = "snd (creditContribution c n (Fin (micro a)) t)"
  let ?y = "snd (creditContribution c ?x (Fin (micro b)) t)"
  let ?z = "snd (creditContribution c n (Fin (micro (a + b))) t)"
  have pos: "0 < a" "0 < b" using assms(3,4) by (auto simp: worth_def)
  then have m: "0 < micro a" "0 < micro b" "0 < micro (a + b)" by (auto simp: micro_def fl_pos)
  have x: "micro_row ?x (u + a) (e + a') (p + a'')"
    using assms by (intro credit_micro_step) auto
  have y: "micro_row ?y (u + a + b) (e + a' + b') (p + a'' + b'')"
    using assms pos by (intro credit_micro_step [OF x]) (auto simp: pays_credit)
  have z: "micro_row ?z (u + (a + b)) (e + (a' + b')) (p + (a'' + b''))"
    using assms by (intro credit_micro_step) auto
  show ?thesis
    using m y z by (intro same_counters [OF credit_shape credit_shape credit_shape]) (simp_all add: add.assoc)
qed

section \<open>Polling a bridge's cumulative counter\<close>

definition poll_units :: "config \<Rightarrow> (int \<times> int) \<Rightarrow> node_row \<Rightarrow> node_row" where
  "poll_units c p n = upsert_units c (Num (Fin (of_int (fst p)))) (snd p) n"

text \<open>What a cumulative counter says was done, where a smaller value means that it was reset.\<close>

fun counter_total :: "int \<Rightarrow> int list \<Rightarrow> int" where
  "counter_total k [] = 0"
| "counter_total k (u # us) = (if u < k then u else u - k) + counter_total u us"

lemma counter_total_nonneg: "\<forall>u \<in> set us. 0 \<le> u \<Longrightarrow> 0 \<le> counter_total k us"
  by (induction us arbitrary: k) auto

lemma counter_total_sorted: "sorted (k # us) \<Longrightarrow> counter_total k us = last (k # us) - k"
  by (induction us arbitrary: k) auto

lemma credit_whole_units:
  assumes "contributedUnits n = micro a" and "0 < v" and "0 \<le> a" "a + 1000000 * v \<le> 10 ^ 14"
  shows "contributedUnits (snd (creditContribution c n (Fin (of_int v)) t)) = micro (a + 1000000 * v)"
  using assms round6_micro_add [of a "1000000 * v" "of_int v"]
  by (simp add: creditContribution_Fin)

lemma poll_units_step:
  assumes "contributedUnits n = micro a" and "creditedUnits n = of_int k" and "0 \<le> a"
    and u: "0 \<le> u" "u \<le> 2 ^ 53" and k: "0 \<le> k" "k \<le> 2 ^ 53"
    and b: "a + 1000000 * (if u < k then u else u - k) \<le> 10 ^ 14"
  shows "contributedUnits (poll_units c (u, t) n) = micro (a + 1000000 * (if u < k then u else u - k))"
    and "creditedUnits (poll_units c (u, t) n) = of_int u"
proof -
  let ?v = "if u < k then u else u - k"
  have cum: "(if truthy (Num (Fin (of_int u))) then to_number (Num (Fin (of_int u))) else Fin 0) = Fin (of_int u)"
    by simp
  have "fl (of_int (u - k)) = of_int (u - k)" "fl (of_int u) = of_int u"
    using u k by (auto simp del: of_int_diff intro!: fl_of_int)
  then have delta: "units_delta (Fin (of_int u)) (creditedUnits n) = Fin (of_int ?v)"
    using assms(2) u by (auto simp: units_delta_def Let_def)
  have v: "0 \<le> ?v" using u by simp
  show "creditedUnits (poll_units c (u, t) n) = of_int u"
    unfolding poll_units_def upsert_units_def Let_def by simp
  show "contributedUnits (poll_units c (u, t) n) = micro (a + 1000000 * ?v)"
  proof (cases "?v = 0")
    case True
    then show ?thesis using assms(1)
      unfolding poll_units_def upsert_units_def Let_def fst_conv snd_conv cum delta by simp
  next
    case False
    then have "0 < ?v" using v by linarith
    from credit_whole_units [OF assms(1) this assms(3) b] this show ?thesis
      unfolding poll_units_def upsert_units_def Let_def fst_conv snd_conv cum delta by simp
  qed
qed

text \<open>
  Polling credits exactly what the bridge's counter says. After any sequence of polls of a
  cumulative whole-unit counter the node has been credited the sum of the increases, a reset
  counting from zero; while the counter does not go back this is the last value less the value
  credited before, however often it was polled.
\<close>

theorem polls_credit_the_counter:
  assumes "contributedUnits n = micro a" and "creditedUnits n = of_int k" and "0 \<le> a"
    and "0 \<le> k" "k \<le> 2 ^ 53" and "\<forall>u \<in> set (map fst ps). 0 \<le> u \<and> u \<le> 2 ^ 53"
    and "a + 1000000 * counter_total k (map fst ps) \<le> 10 ^ 14"
  shows "contributedUnits (fold (poll_units c) ps n) = micro (a + 1000000 * counter_total k (map fst ps))
    \<and> creditedUnits (fold (poll_units c) ps n) = of_int (last (k # map fst ps))
    \<and> (sorted (k # map fst ps) \<longrightarrow> counter_total k (map fst ps) = last (k # map fst ps) - k)"
proof -
  have "contributedUnits (fold (poll_units c) ps n) = micro (a + 1000000 * counter_total k (map fst ps))
      \<and> creditedUnits (fold (poll_units c) ps n) = of_int (last (k # map fst ps))"
    using assms
  proof (induction ps arbitrary: n a k)
    case (Cons p ps)
    obtain u t where p: "p = (u, t)" by (cases p)
    define v where "v = (if u < k then u else u - k)"
    have v: "0 \<le> v" and u: "0 \<le> u" "u \<le> 2 ^ 53" using Cons.prems(6) p by (auto simp: v_def)
    have tot: "counter_total k (map fst (p # ps)) = v + counter_total u (map fst ps)" using p by (simp add: v_def)
    have rest: "0 \<le> counter_total u (map fst ps)"
      using Cons.prems(6) by (intro counter_total_nonneg) auto
    have b: "a + 1000000 * v \<le> 10 ^ 14" using Cons.prems(7) rest unfolding tot by (simp add: algebra_simps)
    note step = poll_units_step [OF Cons.prems(1,2,3) u Cons.prems(4,5) b [unfolded v_def], folded v_def, of c t]
    have "contributedUnits (fold (poll_units c) ps (poll_units c (u, t) n))
          = micro (a + 1000000 * v + 1000000 * counter_total u (map fst ps))
        \<and> creditedUnits (fold (poll_units c) ps (poll_units c (u, t) n)) = of_int (last (u # map fst ps))"
    proof (rule Cons.IH [OF step _ u])
      show "0 \<le> a + 1000000 * v" using v Cons.prems(3) by linarith
      show "\<forall>u \<in> set (map fst ps). 0 \<le> u \<and> u \<le> 2 ^ 53" using Cons.prems(6) by simp
      show "a + 1000000 * v + 1000000 * counter_total u (map fst ps) \<le> 10 ^ 14"
        using Cons.prems(7) unfolding tot by (simp add: algebra_simps)
    qed
    then show ?case unfolding tot by (simp add: p distrib_left add.assoc)
  qed simp
  then show ?thesis using counter_total_sorted by blast
qed

section \<open>Authority\<close>

definition reward_view ::
  "node_row \<Rightarrow> (rat \<times> rat \<times> rat \<times> rat \<times> rat \<times> rat) \<times> jsnum option \<times> bool \<times> bool option \<times> int" where
  "reward_view n = ((pendingRewards n, uptimeRewards n, claimedTotal n, contributedUnits n,
     effectiveUnits n, creditedUnits n), perfScore n, hostsGateway n, hostsBridge n, lastUptimeAt n)"

lemma register_row_untrusted:
  "reward_view (register_row c False b now n) = reward_view n" "owner (register_row c False b now n) = rb_owner b"
  by (auto simp: register_row_def register_profile_def with_tier_def reward_view_def Let_def split: option.splits)

lemma fresh_holds_nothing:
  "reward_view n = reward_view (fresh_node own t) \<Longrightarrow> pendingRewards n = 0 \<and> \<not> holds_value n"
  by (auto simp: reward_view_def fresh_node_def holds_value_def)

text \<open>
  C3: nobody but the service-token holder and an admin can move rewards. Whatever an untrusted
  caller posts to register, heartbeat or contribution, every existing row keeps its balances,
  counters, measured score, roles and accrual time; its owner changes only when it holds
  nothing of value; and a row that is new holds nothing.
\<close>

theorem untrusted_cannot_move_rewards:
  assumes "trustedReporter c e q now = Some False"
    and "d' \<in> {snd (post_register c e q bal b now d), snd (post_heartbeat c e q i gw br now d),
               snd (post_contribution c e q i units now d)}"
  shows "(\<forall>x. get (nodes d) j = Some x \<longrightarrow>
            (\<exists>y. get (nodes d') j = Some y \<and> reward_view y = reward_view x
               \<and> (owner y = owner x \<or> owner x = '''' \<or> \<not> holds_value x)))
       \<and> (\<forall>y. get (nodes d) j = None \<longrightarrow> get (nodes d') j = Some y \<longrightarrow> pendingRewards y = 0 \<and> \<not> holds_value y)"
proof -
  have contribution: "snd (post_contribution c e q i units now d) = d"
    using assms(1) by (simp add: post_contribution_def)
  have heartbeat: "get (nodes d') j = (case get (nodes d) j of None \<Rightarrow> None
      | Some x \<Rightarrow> Some (if j = i \<and> i \<noteq> '''' then x\<lparr>lastReport := Some now\<rparr> else x))"
    if "d' = snd (post_heartbeat c e q i gw br now d)"
    using that assms(1) by (auto simp: post_heartbeat_def Let_def tab.look_upd split: option.splits)
  have register: "nodes d' = nodes d \<or>
      (\<exists>n0. nodes d' = put (rb_nodeId b) (register_row c False b now n0) (nodes d)
         \<and> (case get (nodes d) (rb_nodeId b) of None \<Rightarrow> n0 = fresh_node (rb_owner b) now
            | Some x \<Rightarrow> n0 = x \<and> (owner x = rb_owner b \<or> owner x = '''' \<or> \<not> holds_value x)))"
    if "d' = snd (post_register c e q bal b now d)"
    using that assms(1) by (auto simp: post_register_def Let_def split: option.splits)
  consider "d' = snd (post_register c e q bal b now d)" | "d' = snd (post_heartbeat c e q i gw br now d)"
    | "d' = d" using assms(2) contribution by auto
  then show ?thesis
  proof cases
    case 1
    have "pendingRewards (register_row c False b now (fresh_node (rb_owner b) now)) = 0
        \<and> \<not> holds_value (register_row c False b now (fresh_node (rb_owner b) now))"
      by (rule fresh_holds_nothing [OF register_row_untrusted(1)])
    with register [OF 1] show ?thesis
      by (cases "j = rb_nodeId b") (auto simp: tab.look_upd register_row_untrusted split: option.splits)
  next
    case 2
    show ?thesis unfolding heartbeat [OF 2] by (auto simp: reward_view_def split: option.splits)
  qed simp
qed

section \<open>Claims\<close>

lemma get_settle: "get (nodes (settle_claim own d)) j = map_option (settle_row own) (get (nodes d) j)"
  by (simp add: settle_claim_def get_map_rows)

lemma settled_pending: "operatorRewards (settle_claim own d) own = 0"
proof -
  have "\<forall>x \<in> set (map (\<lambda>(i, n). pendingRewards n)
      (filter (\<lambda>(i, n). owner n = own) (map (\<lambda>(k, v). (k, settle_row own v)) t))). x = 0"
    for t :: "node_row table"
    by (induction t) (auto simp: settle_row_def)
  from js_sum_zeros [OF this] show ?thesis
    by (simp add: operatorRewards_def owned_def settle_claim_def map_rows_def)
qed

lemma other_owned:
  "own' \<noteq> own \<Longrightarrow> owned (settle_claim own d) own' = owned d own'"
proof -
  assume ne: "own' \<noteq> own"
  have "filter (\<lambda>(i, n). owner n = own') (map (\<lambda>(k, v). (k, settle_row own v)) t)
      = filter (\<lambda>(i, n). owner n = own') t" for t :: "node_row table"
    using ne by (induction t) (auto simp: settle_row_def)
  then show ?thesis by (simp add: owned_def settle_claim_def map_rows_def)
qed

text \<open>
  C4: a claim pays exactly what was pending, once. When it succeeds, the amount paid on chain is
  the operator's pending total, at least the minimum claim and positive; every row of the
  operator moves its pending balance into its claimed total; the rows of other owners and their
  pending totals are untouched; nothing is left to claim, so claiming again is refused. When it
  is refused, the payout failing included, the ledger is what it was.
\<close>

theorem claim_pays_pending_once:
  "case post_claim c own pay d of
     (Inl _, d') \<Rightarrow> d' = d
   | (Inr (sig, amount), d') \<Rightarrow>
       pay own amount = Some sig \<and> amount = operatorRewards d own \<and> 0 < amount \<and> MIN_CLAIM c \<le> amount
       \<and> (\<forall>j. get (nodes d') j = map_option (settle_row own) (get (nodes d) j))
       \<and> (\<forall>own'. own' \<noteq> own \<longrightarrow> operatorRewards d' own' = operatorRewards d own')
       \<and> post_claim c own pay d' = (refuse 400 ''no rewards to claim'', d')"
proof -
  have eps: "0 < fl (1 / 10 ^ 9 :: rat)" by (rule fl_pos) simp
  show ?thesis
    using eps settled_pending [of own d] other_owned [of _ own d] get_settle
    by (auto simp: post_claim_def Let_def operatorRewards_def split: option.splits)
qed

section \<open>Faucet\<close>

type_synonym faucet_request = "string \<times> bool \<times> int"

text \<open>A run of faucet requests (address, whether its token account exists, the time) and what was dispensed.\<close>

fun faucet_run ::
  "config \<Rightarrow> (string \<Rightarrow> string option) \<Rightarrow> (string \<Rightarrow> rat \<Rightarrow> string option) \<Rightarrow> faucet_request list \<Rightarrow> db
   \<Rightarrow> faucet_request list" where
  "faucet_run c canonical pay [] d = []"
| "faucet_run c canonical pay ((address, exists, now) # rs) d =
     (case post_faucet c canonical (\<lambda>_. exists) pay address now d of
        (Inl _, d') \<Rightarrow> faucet_run c canonical pay rs d'
      | (Inr (addr, amount, sig), d') \<Rightarrow> (addr, exists, now) # faucet_run c canonical pay rs d')"

definition last_funded :: "db \<Rightarrow> string \<Rightarrow> int" where
  "last_funded d a = (case get (faucet d) a of None \<Rightarrow> 0 | Some t \<Rightarrow> t)"

lemma post_faucet_cases:
  "case post_faucet c canonical exists pay address now d of
     (Inl _, d') \<Rightarrow> d' = d
   | (Inr (addr, amount, sig), d') \<Rightarrow>
       canonical (trim address) = Some addr \<and> amount = FAUCET_AMOUNT c \<and> pay addr amount = Some sig
       \<and> last_funded d addr + FAUCET_COOLDOWN_MS c \<le> now
       \<and> (exists addr \<or> faucetAccountsOpened d < FAUCET_NEW_ACCOUNT_BUDGET c)
       \<and> d' = d\<lparr>faucetAccountsOpened := faucetAccountsOpened d + (if exists addr then 0 else 1),
                 faucet := put addr now (faucet d)\<rparr>"
  by (auto simp: post_faucet_def last_funded_def Let_def split: option.splits)

lemma last_funded_put:
  "last_funded (d\<lparr>faucetAccountsOpened := k, faucet := put addr now (faucet d)\<rparr>) a
     = (if a = addr then now else last_funded d a)"
  by (simp add: last_funded_def tab.look_upd)

lemma faucet_step:
  obtains (refused) "faucet_run c canonical pay ((address, exists, now) # rs) d = faucet_run c canonical pay rs d"
  | (paid) addr where
      "faucet_run c canonical pay ((address, exists, now) # rs) d
         = (addr, exists, now) # faucet_run c canonical pay rs
             (d\<lparr>faucetAccountsOpened := faucetAccountsOpened d + (if exists then 0 else 1),
                faucet := put addr now (faucet d)\<rparr>)"
      "exists \<or> faucetAccountsOpened d < FAUCET_NEW_ACCOUNT_BUDGET c"
      "last_funded d addr + FAUCET_COOLDOWN_MS c \<le> now"
proof -
  let ?p = "post_faucet c canonical (\<lambda>_. exists) pay address now d"
  note cases = post_faucet_cases [where c = c and canonical = canonical and exists = "\<lambda>_. exists"
      and pay = pay and address = address and now = now and d = d]
  show thesis
  proof (cases "fst ?p")
    case (Inl _)
    then show ?thesis using cases by (intro refused) (auto split: prod.splits)
  next
    case (Inr ok)
    obtain addr amount sig where "ok = (addr, amount, sig)" by (cases ok)
    then show ?thesis using cases Inr by (intro paid [of addr]) (auto split: prod.splits)
  qed
qed

lemma faucet_run_after:
  assumes "0 \<le> FAUCET_COOLDOWN_MS c"
  shows "(a, x, t) \<in> set (faucet_run c canonical pay rs d) \<Longrightarrow> last_funded d a + FAUCET_COOLDOWN_MS c \<le> t"
proof (induction rs arbitrary: d)
  case (Cons r rs)
  obtain address exists now where r: "r = (address, exists, now)" by (cases r)
  show ?case
  proof (cases rule: faucet_step [of c canonical pay address exists now rs d])
    case refused
    then show ?thesis using Cons r by simp
  next
    case (paid addr)
    let ?d = "d\<lparr>faucetAccountsOpened := faucetAccountsOpened d + (if exists then 0 else 1),
                faucet := put addr now (faucet d)\<rparr>"
    consider "a = addr" "t = now" | "(a, x, t) \<in> set (faucet_run c canonical pay rs ?d)"
      using Cons.prems unfolding r paid(1) by auto
    then show ?thesis
    proof cases
      case 2
      from Cons.IH [OF this] paid(3) assms show ?thesis by (auto simp: last_funded_put split: if_splits)
    qed (use paid(3) in simp)
  qed
qed simp

text \<open>
  The faucet keeps its limits. Over any run of requests, two payments to the same address
  are at least the cooldown apart, and the payments that open a token account, together with
  the accounts opened before, stay within the budget.
\<close>

theorem faucet_limits:
  assumes "0 \<le> FAUCET_COOLDOWN_MS c"
  shows "sorted_wrt (\<lambda>(a, _, t) (b, _, u). a = b \<longrightarrow> t + FAUCET_COOLDOWN_MS c \<le> u)
           (faucet_run c canonical pay rs d)
    \<and> faucetAccountsOpened d + length (filter (\<lambda>(a, exists, t). \<not> exists) (faucet_run c canonical pay rs d))
        \<le> max (faucetAccountsOpened d) (FAUCET_NEW_ACCOUNT_BUDGET c)"
proof (induction rs arbitrary: d)
  case (Cons r rs)
  obtain address exists now where r: "r = (address, exists, now)" by (cases r)
  show ?case
  proof (cases rule: faucet_step [of c canonical pay address exists now rs d])
    case refused
    then show ?thesis using Cons r by simp
  next
    case (paid addr)
    let ?d = "d\<lparr>faucetAccountsOpened := faucetAccountsOpened d + (if exists then 0 else 1),
                faucet := put addr now (faucet d)\<rparr>"
    have "now + FAUCET_COOLDOWN_MS c \<le> t" if "(addr, x, t) \<in> set (faucet_run c canonical pay rs ?d)" for x t
      using faucet_run_after [OF assms that] by (simp add: last_funded_put)
    then show ?thesis using Cons [of ?d] paid(2) unfolding r paid(1) by (auto split: if_splits)
  qed
qed simp

section \<open>Witnesses\<close>

text \<open>A node measured at 10 tok/s that hosts the gateway, and a caller with no credentials.\<close>

definition gateway_node :: node_row where
  "gateway_node = (fresh_node ''alice'' 1000)\<lparr>hostsGateway := True, perfScore := Some (Fin 10)\<rparr>"

definition stranger :: caller where
  "stranger = \<lparr>service_token = None, cookie = ''''\<rparr>"

definition takeover :: register_body where
  "takeover = \<lparr>rb_nodeId = ''n1'', rb_owner = ''mallory'', rb_os = None, rb_deviceKind = '''',
     rb_accelerator = None, rb_label = '''', rb_perfScore = Num (Fin 900), rb_backend = None, rb_mode = None,
     rb_hostsGateway = Bool True, rb_hostsBridge = Bool True\<rparr>"

theorem perfTier_mono_witness:
  "num_le (Fin 45) PInf \<and> mult (perfTier (Fin 45)) \<le> mult (perfTier PInf) \<and> mult (perfTier PInf) = 3/2"
proof -
  have "mult (perfTier PInf) = 3/2" by code_simp
  then show ?thesis using perfTier_mono [of "Fin 45" PInf] by simp
qed

theorem uptime_never_paid_twice_witness:
  "elapsed_run default_config gateway_node [1030, 1030, 5000] \<le> 360
   \<and> elapsed_run default_config gateway_node [1030, 1030, 5000] = 150"
proof -
  have "elapsed_run default_config gateway_node [1030, 1030, 5000] = 150" by code_simp
  then show ?thesis
    using uptime_never_paid_twice [of default_config gateway_node "[1030, 1030, 5000]"]
    by (simp add: default_config_def gateway_node_def fresh_node_def)
qed

lemma gateway_node_pays:
  "pays default_config gateway_node (7/10) (3/2) (1/100)" "micro_row gateway_node 0 0 0"
  by code_simp+


theorem split_reports_pay_the_same_witness:
  "snd (creditContribution default_config
        (snd (creditContribution default_config gateway_node (Fin (micro 5000000)) 2000)) (Fin (micro 5000000)) 2000)
   = snd (creditContribution default_config gateway_node (Fin (micro 10000000)) 2000)"
proof -
  have w: "worth (7/10) (3/2) (1/100) 5000000 5250000 52500"
    "worth (7/10) (3/2) (1/100) (5000000 + 5000000) (5250000 + 5250000) (52500 + 52500)" by code_simp+
  show ?thesis
    using split_reports_pay_the_same [OF gateway_node_pays(2,1) w(1) w(1) w(2), of 2000] by simp
qed

theorem polls_credit_the_counter_witness:
  "contributedUnits (fold (poll_units default_config) [(3, 1010), (3, 1040), (8, 1070), (2, 1100)] gateway_node)
     = micro 10000000"
proof -
  have "contributedUnits gateway_node = micro 0" "creditedUnits gateway_node = of_int 0" by code_simp+
  from polls_credit_the_counter [OF this, of "[(3, 1010), (3, 1040), (8, 1070), (2, 1100)]" default_config]
  show ?thesis by simp
qed

theorem untrusted_cannot_move_rewards_witness:
  "(let d = empty_db\<lparr>nodes := [(''n1'', gateway_node)]\<rparr> in
    trustedReporter default_config toy_env stranger 2000 = Some False
    \<and> (\<exists>y. get (nodes (snd (post_register default_config toy_env stranger 0 takeover 2000 d))) ''n1'' = Some y
         \<and> reward_view y = reward_view gateway_node \<and> owner y = ''alice''))"
proof -
  let ?d = "empty_db\<lparr>nodes := [(''n1'', gateway_node)]\<rparr>"
  have u: "trustedReporter default_config toy_env stranger 2000 = Some False" by code_simp
  have v: "get (nodes ?d) ''n1'' = Some gateway_node" "holds_value gateway_node" "owner gateway_node = ''alice''"
    by (simp_all add: gateway_node_def holds_value_def fresh_node_def)
  from untrusted_cannot_move_rewards [OF u, of _ 0 takeover ?d _ _ _ _ "''n1''"] u v
  show ?thesis by (auto simp: Let_def)
qed

theorem faucet_limits_witness:
  "(let rs = [(''a'', False, 1700000000000), (''a'', False, 1700000000001), (''a'', True, 1700086400000)] in
    faucet_run default_config Some (\<lambda>a x. Some ''sig'') rs empty_db
      = [(''a'', False, 1700000000000), (''a'', True, 1700086400000)]
    \<and> sorted_wrt (\<lambda>(a, _, t) (b, _, u). a = b \<longrightarrow> t + FAUCET_COOLDOWN_MS default_config \<le> u)
        (faucet_run default_config Some (\<lambda>a x. Some ''sig'') rs empty_db))"
proof -
  let ?rs = "[(''a'', False, 1700000000000), (''a'', False, 1700000000001), (''a'', True, 1700086400000)]"
  have "faucet_run default_config Some (\<lambda>a x. Some ''sig'') ?rs empty_db
      = [(''a'', False, 1700000000000), (''a'', True, 1700086400000)]" by code_simp
  then show ?thesis
    using faucet_limits [of default_config Some "\<lambda>a x. Some ''sig''" ?rs empty_db]
    by (simp add: Let_def default_config_def)
qed

theorem claim_pays_pending_once_witness:
  "(let d = empty_db\<lparr>nodes := [(''n1'', gateway_node\<lparr>pendingRewards := 5\<rparr>), (''n2'', fresh_node ''bob'' 1)]\<rparr>;
        pay = (\<lambda>a x. Some ''sig'')
    in fst (post_claim default_config ''alice'' pay d) = Inr (''sig'', 5)
     \<and> operatorRewards (snd (post_claim default_config ''alice'' pay d)) ''bob'' = operatorRewards d ''bob''
     \<and> post_claim default_config ''alice'' pay (snd (post_claim default_config ''alice'' pay d))
       = (refuse 400 ''no rewards to claim'', snd (post_claim default_config ''alice'' pay d)))"
proof -
  let ?d = "empty_db\<lparr>nodes := [(''n1'', gateway_node\<lparr>pendingRewards := 5\<rparr>), (''n2'', fresh_node ''bob'' 1)]\<rparr>"
  have "fst (post_claim default_config ''alice'' (\<lambda>a x. Some ''sig'') ?d) = Inr (''sig'', 5)" by code_simp
  then show ?thesis
    using claim_pays_pending_once [where c = default_config and own = "''alice''"
        and pay = "\<lambda>a x. Some ''sig''" and d = ?d]
    by (auto simp: Let_def split: prod.splits)
qed

end
