(* ===== verification/Gateway_Staking.thy ===== *)
theory Gateway_Staking
  imports Gateway_Rewards
begin

text \<open>
  Staking (\<^verbatim>\<open>staking-service/server.js\<close>): the conversion between whole tokens and base units,
  the check of an on-chain transfer (\<^verbatim>\<open>verifyStakeTransfer\<close>), the accrual of a position, and the
  routes that read a position, stake and unstake.

  The chain is a parameter: \<open>rpc k\<close> is what the \<open>k\<close>-th poll of \<^verbatim>\<open>getParsedTransaction\<close> returned for
  the signature (\<open>None\<close> for \<^verbatim>\<open>null\<close>), and \<open>pay\<close> whether a payout went through.
\<close>

section \<open>Base units\<close>

text \<open>\<open>None\<close> is the exception of \<^verbatim>\<open>BigInt\<close> on a number that is not finite.\<close>

definition toBase :: "config \<Rightarrow> jsnum \<Rightarrow> int option" where
  "toBase c whole = (case whole of Fin w \<Rightarrow> Some (js_round (fl (w * 10 ^ DECIMALS c))) | _ \<Rightarrow> None)"

definition toWhole :: "config \<Rightarrow> int \<Rightarrow> rat" where
  "toWhole c base = fl (fl (of_int base) / 10 ^ DECIMALS c)"

section \<open>On-chain verification\<close>

record token_balance =
  accountIndex :: nat
  tb_mint :: string
  tb_owner :: string
  tb_amount :: int

record parsed_tx =
  tx_err :: bool
  accountKeys :: "string list"
  preTokenBalances :: "token_balance list"
  postTokenBalances :: "token_balance list"

fun poll_tx :: "(nat \<Rightarrow> parsed_tx option) \<Rightarrow> nat list \<Rightarrow> parsed_tx option" where
  "poll_tx rpc [] = None"
| "poll_tx rpc (k # ks) = (case rpc k of Some tx \<Rightarrow> Some tx | None \<Rightarrow> poll_tx rpc ks)"

definition key_at :: "string list \<Rightarrow> nat \<Rightarrow> string option" where
  "key_at keys i = (if i < length keys then Some (keys ! i) else None)"

definition balAt :: "config \<Rightarrow> string list \<Rightarrow> token_balance list \<Rightarrow> int" where
  "balAt c keys bs =
     (case List.find (\<lambda>x. tb_mint x = MINT c \<and> key_at keys (accountIndex x) = Some (VAULT_ATA c)) bs of
        Some b \<Rightarrow> tb_amount b
      | None \<Rightarrow> 0)"

definition amtAt :: "config \<Rightarrow> token_balance list \<Rightarrow> nat \<Rightarrow> int" where
  "amtAt c bs idx =
     (case List.find (\<lambda>x. accountIndex x = idx \<and> tb_mint x = MINT c) bs of
        Some b \<Rightarrow> tb_amount b
      | None \<Rightarrow> 0)"

text \<open>A JavaScript \<^verbatim>\<open>Set\<close> filled in order: the first occurrence of each index.\<close>

definition ownedIdx :: "config \<Rightarrow> string \<Rightarrow> token_balance list \<Rightarrow> nat list" where
  "ownedIdx c own bs =
     rev (remdups (rev (map accountIndex (filter (\<lambda>b. tb_mint b = MINT c \<and> tb_owner b = own) bs))))"

definition sent_by :: "config \<Rightarrow> parsed_tx \<Rightarrow> string \<Rightarrow> int" where
  "sent_by c tx own =
     foldl (\<lambda>sent idx. let d = amtAt c (preTokenBalances tx) idx - amtAt c (postTokenBalances tx) idx
                       in if 0 < d then sent + d else sent) 0
       (ownedIdx c own (preTokenBalances tx @ postTokenBalances tx))"

definition idxOwner :: "config \<Rightarrow> token_balance list \<Rightarrow> (nat \<times> string) list" where
  "idxOwner c bs =
     foldl (\<lambda>t b. if tb_mint b = MINT c \<and> tb_owner b \<noteq> '''' then put (accountIndex b) (tb_owner b) t else t) [] bs"

definition tx_payer :: "config \<Rightarrow> parsed_tx \<Rightarrow> string option" where
  "tx_payer c tx =
     fst (foldl (\<lambda>(payer, maxDebit) (idx, own).
            let d = amtAt c (preTokenBalances tx) idx - amtAt c (postTokenBalances tx) idx
            in if maxDebit < d then (Some own, d) else (payer, maxDebit)) (None, 0)
          (idxOwner c (preTokenBalances tx @ postTokenBalances tx)))"

definition vault_delta :: "config \<Rightarrow> parsed_tx \<Rightarrow> int" where
  "vault_delta c tx = balAt c (accountKeys tx) (postTokenBalances tx) - balAt c (accountKeys tx) (preTokenBalances tx)"

text \<open>The answer is the payer, when one can be derived.\<close>

definition verifyStakeTransfer ::
  "config \<Rightarrow> (nat \<Rightarrow> parsed_tx option) \<Rightarrow> string \<Rightarrow> jsnum \<Rightarrow> string option answer" where
  "verifyStakeTransfer c rpc ownerStr amountWhole =
     (case poll_tx rpc [0..<8] of
        None \<Rightarrow> refuse 400 ''transaction not found (not yet confirmed?)''
      | Some tx \<Rightarrow>
          if tx_err tx then refuse 400 ''transaction failed on-chain''
          else case toBase c amountWhole of
            None \<Rightarrow> refuse 400 ''not an integer''
          | Some need \<Rightarrow>
              if vault_delta c tx < need then refuse 400 ''vault received less than expected''
              else if ownerStr \<noteq> '''' \<and> sent_by c tx ownerStr < need
                then refuse 400 ''payment was not sent by the owner''
              else Inr (tx_payer c tx))"

section \<open>Positions\<close>

definition SECONDS_PER_YEAR :: rat where
  "SECONDS_PER_YEAR = 365 * 24 * 60 * 60"

definition accrue :: "config \<Rightarrow> position \<Rightarrow> int \<Rightarrow> position" where
  "accrue c pos now =
     (let lastU = (if lastUpdate pos = 0 then now else lastUpdate pos);
          dt = max 0 (of_int (now - lastU))
      in pos\<lparr>accruedRewards :=
               fl (accruedRewards pos + fl (fl (fl (principal pos * APR c) * dt) / SECONDS_PER_YEAR)),
             lastUpdate := now\<rparr>)"

definition emptyPosition :: "int \<Rightarrow> position" where
  "emptyPosition now = \<lparr>principal = 0, accruedRewards = 0, stakedAt = now, lastUpdate = now\<rparr>"

record position_view =
  pv_owner :: string
  pv_principal :: rat
  pv_rewards :: rat
  pv_total :: rat
  pv_stakedAt :: int

definition positionView :: "string \<Rightarrow> position \<Rightarrow> position_view" where
  "positionView own pos = \<lparr>pv_owner = own, pv_principal = principal pos, pv_rewards = accruedRewards pos,
     pv_total = fl (principal pos + accruedRewards pos), pv_stakedAt = stakedAt pos\<rparr>"

definition get_position :: "config \<Rightarrow> string \<Rightarrow> int \<Rightarrow> db \<Rightarrow> position_view \<times> db" where
  "get_position c own now d =
     (case get (positions d) own of
        None \<Rightarrow> (positionView own (emptyPosition now), d)
      | Some pos \<Rightarrow>
          (let pos' = accrue c pos now
           in (positionView own pos', d\<lparr>positions := put own pos' (positions d)\<rparr>)))"

definition post_stake ::
  "config \<Rightarrow> (nat \<Rightarrow> parsed_tx option) \<Rightarrow> string \<Rightarrow> jsval \<Rightarrow> string \<Rightarrow> int \<Rightarrow> db \<Rightarrow> position_view answer \<times> db" where
  "post_stake c rpc own amount signature now d =
     (if own = '''' \<or> \<not> truthy amount \<or> signature = '''' then (refuse 400 ''owner, amount, signature required'', d)
      else if num_le (to_number amount) (Fin 0) then (refuse 400 ''amount must be > 0'', d)
      else if get (usedSignatures d) signature \<noteq> None then (refuse 409 ''signature already used'', d)
      else case verifyStakeTransfer c rpc own (to_number amount) of
        Inl r \<Rightarrow> (Inl r, d)
      | Inr _ \<Rightarrow>
          if \<not> ownerHasOnlineNode d own now then (refuse 403 ''staking requires an online node'', d)
          else case to_number amount of
            Fin a \<Rightarrow>
              (let pos0 = (case get (positions d) own of Some p \<Rightarrow> p | None \<Rightarrow> emptyPosition now);
                   pos1 = accrue c pos0 now;
                   pos2 = pos1\<lparr>principal := fl (principal pos1 + a)\<rparr>
               in (Inr (positionView own pos2),
                   d\<lparr>positions := put own pos2 (positions d),
                     usedSignatures := put signature (UsedStake own a now) (usedSignatures d)\<rparr>))
          | _ \<Rightarrow> (refuse 400 ''not an integer'', d))"

record unstake_answer =
  un_signature :: string
  principalReturned :: rat
  rewardsPaid :: rat
  un_total :: rat

text \<open>
  \<open>pay\<close> is \<^verbatim>\<open>payout\<close>: it converts the amount with \<^verbatim>\<open>toBase\<close> (which throws on a value that is not
  finite) and transfers. The amount asked for may be any number: \<^verbatim>\<open>Math.min\<close> bounds it above.
\<close>

definition post_unstake ::
  "config \<Rightarrow> (string \<Rightarrow> rat \<Rightarrow> string option) \<Rightarrow> string \<Rightarrow> jsval \<Rightarrow> int \<Rightarrow> db \<Rightarrow> unstake_answer answer \<times> db" where
  "post_unstake c pay own amount now d =
     (if own = '''' then (refuse 400 ''owner required'', d)
      else case get (positions d) own of
        None \<Rightarrow> (refuse 400 ''no active stake'', d)
      | Some pos0 \<Rightarrow>
          if principal pos0 \<le> 0 then (refuse 400 ''no active stake'', d)
          else
            let pos = accrue c pos0 now;
                principalOut = (if truthy amount then num_min (to_number amount) (Fin (principal pos))
                                else Fin (principal pos))
            in case principalOut of
                 Fin out \<Rightarrow>
                   (let frac = (if 0 < principal pos then fl (out / principal pos) else 1);
                        rewardsOut = fl (accruedRewards pos * frac);
                        total = fl (out + rewardsOut)
                    in case pay own total of
                         None \<Rightarrow> (refuse 400 ''payout failed'', d)
                       | Some sig \<Rightarrow>
                           (let pos' = pos\<lparr>principal := fl (principal pos - out),
                                           accruedRewards := fl (accruedRewards pos - rewardsOut)\<rparr>
                            in (Inr \<lparr>un_signature = sig, principalReturned = out, rewardsPaid = rewardsOut,
                                     un_total = total\<rparr>,
                                d\<lparr>positions := (if principal pos' \<le> fl (1 / 10 ^ 9) then del own (positions d)
                                                else put own pos' (positions d))\<rparr>)))
               | _ \<Rightarrow> (refuse 400 ''not an integer'', d))"

section \<open>What an accepted transfer proves\<close>

lemma sent_by_sum:
  "sent_by c tx own = (\<Sum>i \<in> set (ownedIdx c own (preTokenBalances tx @ postTokenBalances tx)).
      max 0 (amtAt c (preTokenBalances tx) i - amtAt c (postTokenBalances tx) i))"
proof -
  let ?f = "\<lambda>i. amtAt c (preTokenBalances tx) i - amtAt c (postTokenBalances tx) i"
  have fold: "foldl (\<lambda>s i. let d = ?f i in if 0 < d then s + d else s) s js = s + (\<Sum>i\<leftarrow>js. max 0 (?f i))" for s js
    by (induction js arbitrary: s) (auto simp: Let_def)
  have "distinct (ownedIdx c own bs)" for bs by (simp add: ownedIdx_def)
  then show ?thesis unfolding sent_by_def fold by (simp add: sum_list_distinct_conv_sum_set)
qed

lemma set_ownedIdx:
  "set (ownedIdx c own bs) = accountIndex ` {b \<in> set bs. tb_mint b = MINT c \<and> tb_owner b = own}"
  by (auto simp: ownedIdx_def)

lemma poll_tx_Some: "poll_tx rpc ks = Some tx \<Longrightarrow> \<exists>k \<in> set ks. rpc k = Some tx"
  by (induction ks) (auto split: option.splits)

text \<open>
  C9: what an accepted transfer proves. If \<^verbatim>\<open>verifyStakeTransfer\<close> accepts a signature for an owner
  and an amount, then one of the polls returned a transaction that did not fail, in which the
  vault gained at least the amount in base units and the token accounts of that owner, each
  counted once, were debited at least the amount.
\<close>

theorem verified_transfer_moved_funds:
  assumes "verifyStakeTransfer c rpc own (Fin w) = Inr from_wallet" and "own \<noteq> ''''"
  shows "\<exists>k tx. k < 8 \<and> rpc k = Some tx \<and> \<not> tx_err tx
    \<and> js_round (fl (w * 10 ^ DECIMALS c)) \<le> vault_delta c tx
    \<and> js_round (fl (w * 10 ^ DECIMALS c)) \<le>
        (\<Sum>i \<in> accountIndex ` {b \<in> set (preTokenBalances tx @ postTokenBalances tx). tb_mint b = MINT c \<and> tb_owner b = own}.
           max 0 (amtAt c (preTokenBalances tx) i - amtAt c (postTokenBalances tx) i))"
proof -
  from assms obtain tx where p: "poll_tx rpc [0..<8] = Some tx" and ok: "\<not> tx_err tx"
    "js_round (fl (w * 10 ^ DECIMALS c)) \<le> vault_delta c tx"
    "js_round (fl (w * 10 ^ DECIMALS c)) \<le> sent_by c tx own"
    by (auto simp: verifyStakeTransfer_def toBase_def split: option.splits if_splits)
  from poll_tx_Some [OF p] obtain k where "k < 8" "rpc k = Some tx" by auto
  with ok show ?thesis by (auto simp: sent_by_sum set_ownedIdx)
qed

section \<open>Staking and unstaking\<close>

lemma accrue_frame [simp]:
  "principal (accrue c pos now) = principal pos" "stakedAt (accrue c pos now) = stakedAt pos"
  by (simp_all add: accrue_def Let_def)

lemma accrue_grows:
  assumes "0 \<le> APR c" "0 \<le> principal pos" "is_double (accruedRewards pos)"
  shows "accruedRewards pos \<le> accruedRewards (accrue c pos now)"
proof -
  let ?r = "fl (fl (fl (principal pos * APR c) * max 0 (of_int (now - (if lastUpdate pos = 0 then now else lastUpdate pos))))
              / SECONDS_PER_YEAR)"
  have "0 \<le> ?r"
    using assms(1,2) by (intro dbl.nonneg divide_nonneg_nonneg mult_nonneg_nonneg) (auto simp: SECONDS_PER_YEAR_def)
  from dbl.add_grows [OF _ this] assms(3) show ?thesis
    by (simp add: accrue_def Let_def is_double_def)
qed

text \<open>
  C10: staking credits a verified transfer once. When \<^verbatim>\<open>/api/stake\<close> succeeds the signature was
  unused and is recorded, the transfer was verified as sent by the owner for that amount, the
  owner has a node online, the owner's principal grew by exactly the (rounded) amount and no
  other position changed; offering the same signature again, for any owner or amount, is refused
  with nothing changed. When it is refused, nothing changed.
\<close>

theorem stake_credits_once:
  "case post_stake c rpc own amount signature now d of
     (Inl _, d') \<Rightarrow> d' = d
   | (Inr v, d') \<Rightarrow>
       \<exists>a payer. to_number amount = Fin a \<and> 0 < a
         \<and> get (usedSignatures d) signature = None
         \<and> get (usedSignatures d') signature = Some (UsedStake own a now)
         \<and> verifyStakeTransfer c rpc own (Fin a) = Inr payer
         \<and> ownerHasOnlineNode d own now
         \<and> pv_principal v = fl ((case get (positions d) own of Some p \<Rightarrow> principal p | None \<Rightarrow> 0) + a)
         \<and> map_option principal (get (positions d') own) = Some (pv_principal v)
         \<and> (\<forall>own'. own' \<noteq> own \<longrightarrow> get (positions d') own' = get (positions d) own')
         \<and> nodes d' = nodes d
         \<and> (\<forall>rpc' own' amount' now'. snd (post_stake c rpc' own' amount' signature now' d') = d'
              \<and> isl (fst (post_stake c rpc' own' amount' signature now' d')))"
proof (cases "fst (post_stake c rpc own amount signature now d)")
  case (Inl r)
  then show ?thesis
    by (auto simp: post_stake_def Let_def split: if_splits sum.splits jsnum.splits prod.splits)
next
  case (Inr v)
  then obtain a pp where a: "to_number amount = Fin a" "\<not> a \<le> 0"
    and u: "get (usedSignatures d) signature = None"
    and ver: "verifyStakeTransfer c rpc own (Fin a) = Inr pp" and on: "ownerHasOnlineNode d own now"
    and sig: "own \<noteq> ''''" "truthy amount" "signature \<noteq> ''''"
    by (auto simp: post_stake_def Let_def split: if_splits sum.splits jsnum.splits)
  let ?old = "case get (positions d) own of Some p \<Rightarrow> p | None \<Rightarrow> emptyPosition now"
  let ?p = "(accrue c ?old now)\<lparr>principal := fl (principal ?old + a)\<rparr>"
  let ?d = "d\<lparr>positions := put own ?p (positions d),
              usedSignatures := put signature (UsedStake own a now) (usedSignatures d)\<rparr>"
  have eq: "post_stake c rpc own amount signature now d = (Inr (positionView own ?p), ?d)"
    using a u ver on sig by (simp add: post_stake_def Let_def)
  have used: "get (usedSignatures ?d) signature = Some (UsedStake own a now)" by (simp add: table_simps)
  have pr: "principal ?old = (case get (positions d) own of Some p \<Rightarrow> principal p | None \<Rightarrow> 0)"
    by (simp add: emptyPosition_def split: option.splits)
  have again: "snd (post_stake c rpc' own' amount' signature now' ?d) = ?d
      \<and> isl (fst (post_stake c rpc' own' amount' signature now' ?d))" for rpc' own' amount' now'
    using used by (simp add: post_stake_def)
  show ?thesis
    unfolding eq using a u ver on again used
    by (simp add: positionView_def pr table_simps tab.look_upd)
qed

lemma num_min_principal:
  assumes "num_min (to_number v) (Fin p) = Fin out"
  shows "out \<le> p"
  using assms by (cases "to_number v") (auto simp: num_min_def split: if_splits)

text \<open>
  C11: unstaking conserves value, for a request that asks for nothing negative. It pays out at
  most the principal and at most the accrued rewards; what remains is the difference, rounded
  once, and never negative; asking for everything (no amount) pays the whole principal and all
  rewards and closes the position. The amount paid on chain is the sum of the two parts. Other
  positions do not change.
\<close>

theorem unstake_conserves:
  assumes "post_unstake c pay own amount now d = (Inr u, d')"
    and "get (positions d) own = Some pos" and "is_double (principal pos)"
    and "0 \<le> accruedRewards (accrue c pos now)"
    and "\<not> truthy amount \<or> num_le (Fin 0) (to_number amount)"
  shows "0 \<le> principalReturned u \<and> principalReturned u \<le> principal pos
    \<and> 0 \<le> rewardsPaid u \<and> rewardsPaid u \<le> accruedRewards (accrue c pos now)
    \<and> un_total u = fl (principalReturned u + rewardsPaid u) \<and> pay own (un_total u) = Some (un_signature u)
    \<and> (\<not> truthy amount \<longrightarrow> principalReturned u = principal pos
          \<and> rewardsPaid u = accruedRewards (accrue c pos now) \<and> get (positions d') own = None)
    \<and> (\<forall>pos'. get (positions d') own = Some pos' \<longrightarrow>
          principal pos' = fl (principal pos - principalReturned u) \<and> 0 < principal pos'
          \<and> accruedRewards pos' = fl (accruedRewards (accrue c pos now) - rewardsPaid u) \<and> 0 \<le> accruedRewards pos')
    \<and> (\<forall>own'. own' \<noteq> own \<longrightarrow> get (positions d') own' = get (positions d) own')"
proof -
  let ?acc = "accruedRewards (accrue c pos now)"
  have p: "0 < principal pos" using assms(1,2) by (auto simp: post_unstake_def split: if_splits)
  obtain out where out: "(if truthy amount then num_min (to_number amount) (Fin (principal pos))
      else Fin (principal pos)) = Fin out"
    and eq: "u = \<lparr>un_signature = un_signature u, principalReturned = out,
        rewardsPaid = fl (?acc * fl (out / principal pos)),
        un_total = fl (out + fl (?acc * fl (out / principal pos)))\<rparr>"
    and paid: "pay own (un_total u) = Some (un_signature u)"
    and d': "d' = d\<lparr>positions := (if fl (principal pos - out) \<le> fl (1 / 10 ^ 9) then del own (positions d)
        else put own ((accrue c pos now)\<lparr>principal := fl (principal pos - out),
          accruedRewards := fl (?acc - fl (?acc * fl (out / principal pos)))\<rparr>) (positions d))\<rparr>"
    using assms(1,2) p by (auto simp: post_unstake_def Let_def split: if_splits jsnum.splits option.splits)
  have range: "0 \<le> out" "out \<le> principal pos" "\<not> truthy amount \<Longrightarrow> out = principal pos"
    using out assms(5) p num_min_principal [of amount "principal pos" out]
    by (auto simp: num_min_def split: if_splits; cases "to_number amount"; auto)+
  have frac: "0 \<le> fl (out / principal pos)" "fl (out / principal pos) \<le> 1"
    using range p fl_of_int [of 1] by (auto intro!: dbl.nonneg dbl.le_fixed)
  have acc: "fl ?acc = ?acc" by (simp add: accrue_def Let_def)
  have rw: "0 \<le> fl (?acc * fl (out / principal pos))" "fl (?acc * fl (out / principal pos)) \<le> ?acc"
    using frac assms(4) by (auto intro!: dbl.nonneg dbl.le_fixed acc mult_left_le)
  have one: "fl (principal pos / principal pos) = 1" using p fl_of_int [of 1] by simp
  have eps: "0 < fl (1 / 10 ^ 9 :: rat)" by (rule fl_pos) simp
  have all: "\<not> truthy amount \<Longrightarrow> fl (?acc * fl (out / principal pos)) = ?acc"
    using range(3) one acc by simp
  have rest: "0 \<le> fl (?acc - fl (?acc * fl (out / principal pos)))" using rw by (intro dbl.nonneg) simp
  have fields: "principalReturned u = out" "rewardsPaid u = fl (?acc * fl (out / principal pos))"
    "un_total u = fl (out + fl (?acc * fl (out / principal pos)))"
    by (subst eq, simp)+
  show ?thesis
    unfolding fields using range rw all rest paid eps by (auto simp: d' fields table_simps tab.look_upd tab.look_rem)
qed

text \<open>
  The route has no lower bound on the amount. When a stake of \<open>p\<close> is unstaked with a negative
  amount \<open>-k\<close> and the payout call returns, the position's principal becomes \<open>p + k\<close>: nothing in
  the handler but the token library stands between such a request and a credit that no transfer
  backs.
\<close>

theorem unstake_negative_amount_credits:
  assumes "get (positions d) own = Some pos" and "0 < principal pos" and "own \<noteq> ''''" and "0 < k"
    and "pay own (fl (- k + fl (accruedRewards (accrue c pos now) * fl (- k / principal pos)))) = Some sig"
    and "fl (1 / 10 ^ 9) < fl (principal pos + k)"
  shows "map_option principal (get (positions (snd (post_unstake c pay own (Num (Fin (- k))) now d))) own)
         = Some (fl (principal pos + k))"
  using assms by (simp add: post_unstake_def num_min_def Let_def table_simps)

section \<open>Witnesses\<close>

text \<open>A transfer of five tokens from alice to the vault, found on the second poll, and a ledger where alice is online.\<close>

definition sample_tx :: parsed_tx where
  "sample_tx = \<lparr>tx_err = False, accountKeys = [''alice-ata'', ''vault''],
     preTokenBalances = [\<lparr>accountIndex = 0, tb_mint = ''kvr'', tb_owner = ''alice'', tb_amount = 9000000\<rparr>],
     postTokenBalances = [\<lparr>accountIndex = 0, tb_mint = ''kvr'', tb_owner = ''alice'', tb_amount = 4000000\<rparr>,
       \<lparr>accountIndex = 1, tb_mint = ''kvr'', tb_owner = ''treasury'', tb_amount = 5000000\<rparr>]\<rparr>"

definition sample_rpc :: "nat \<Rightarrow> parsed_tx option" where
  "sample_rpc k = (if k = 0 then None else Some sample_tx)"

definition staking_db :: db where
  "staking_db = empty_db\<lparr>nodes := [(''n1'', gateway_node\<lparr>lastReport := Some 1900\<rparr>)]\<rparr>"

definition staked_db :: db where
  "staked_db = staking_db\<lparr>positions := [(''alice'', \<lparr>principal = 5, accruedRewards = 1, stakedAt = 1500, lastUpdate = 1500\<rparr>)]\<rparr>"

theorem verified_transfer_moved_funds_witness:
  "verifyStakeTransfer default_config sample_rpc ''alice'' (Fin 5) = Inr (Some ''alice'')
   \<and> (\<exists>k tx. k < 8 \<and> sample_rpc k = Some tx \<and> \<not> tx_err tx)"
proof -
  have v: "verifyStakeTransfer default_config sample_rpc ''alice'' (Fin 5) = Inr (Some ''alice'')" by code_simp
  from verified_transfer_moved_funds [OF v] v show ?thesis by auto
qed

theorem stake_credits_once_witness:
  "(let r = post_stake default_config sample_rpc ''alice'' (Str ''5'') ''sig'' 2000 staking_db in
    \<not> isl (fst r) \<and> map_option principal (get (positions (snd r)) ''alice'') = Some 5
    \<and> isl (fst (post_stake default_config sample_rpc ''bob'' (Str ''5'') ''sig'' 2100 (snd r))))"
proof -
  let ?r = "post_stake default_config sample_rpc ''alice'' (Str ''5'') ''sig'' 2000 staking_db"
  have ok: "\<not> isl (fst ?r)" "map_option principal (get (positions (snd ?r)) ''alice'') = Some 5" by code_simp+
  then obtain v d' where r: "?r = (Inr v, d')" by (cases ?r; cases "fst ?r") auto
  with stake_credits_once [where c = default_config and rpc = sample_rpc and own = "''alice''"
      and amount = "Str ''5''" and signature = "''sig''" and now = 2000 and d = staking_db]
  have "isl (fst (post_stake default_config sample_rpc ''bob'' (Str ''5'') ''sig'' 2100 (snd ?r)))" by auto
  with ok show ?thesis by (simp add: Let_def)
qed

theorem unstake_conserves_witness:
  "(case post_unstake default_config (\<lambda>a x. Some ''out'') ''alice'' Undef 2000 staked_db of
     (Inr u, d') \<Rightarrow> un_total u = 6 \<and> principalReturned u = 5 \<and> rewardsPaid u = 1 \<and> get (positions d') ''alice'' = None
   | (Inl _, _) \<Rightarrow> False)"
proof -
  let ?pos = "\<lparr>principal = 5, accruedRewards = 1, stakedAt = 1500, lastUpdate = 1500\<rparr>"
  let ?r = "post_unstake default_config (\<lambda>a x. Some ''out'') ''alice'' Undef 2000 staked_db"
  have ok: "\<not> isl (fst ?r)" "accruedRewards (accrue default_config ?pos 2000) = 1"
    "is_double (principal ?pos)" "get (positions staked_db) ''alice'' = Some ?pos" "fl 6 = (6::rat)"
    by code_simp+
  then obtain u d' where r: "?r = (Inr u, d')" by (cases ?r; cases "fst ?r") auto
  from unstake_conserves [OF r ok(4,3)] ok(2,5) r show ?thesis by simp
qed

theorem unstake_negative_amount_credits_witness:
  "map_option principal (get (positions (snd (post_unstake default_config (\<lambda>a x. Some ''out'') ''alice''
     (Num (Fin (- 100))) 2000 staked_db))) ''alice'') = Some 105"
proof -
  have f: "get (positions staked_db) ''alice'' = Some \<lparr>principal = 5, accruedRewards = 1, stakedAt = 1500, lastUpdate = 1500\<rparr>"
    "fl (5 + 100) = (105::rat)" "fl (1 / 10 ^ 9) < (105::rat)" by code_simp+
  from unstake_negative_amount_credits [OF f(1), of 100 "\<lambda>a x. Some ''out''" default_config 2000 "''out''"] f(2,3)
  show ?thesis by simp
qed

end
