(* ===== verification/Gateway_Pay.thy ===== *)
theory Gateway_Pay
  imports Gateway_Staking
begin

text \<open>
  Pay-per-call inference (\<^verbatim>\<open>staking-service/server.js\<close>): governed pricing and its propagation to
  relays and followers, the registry of bridges, the model pool, quotes, the retention sweep, and
  the paid inference route with its refunds.

  The bridges are a parameter: what a bridge lists as controllers, and what it answers to a
  prompt (an error, or a text with the token counts it reports, if it does). The UTF-16 length
  that \<^verbatim>\<open>estimateTokens\<close> uses is computed from the bytes of the text.
\<close>

section \<open>Pricing\<close>

definition DEFAULT_PRICING :: price where
  "DEFAULT_PRICING = \<lparr>basePrice = 1/2, perToken = fl (1/100), estOut = 256\<rparr>"

definition loadPricing :: "db \<Rightarrow> pricing_row" where
  "loadPricing d = (case pricing d of
     None \<Rightarrow> \<lparr>pr_default = DEFAULT_PRICING, perModel = [], updatedAt = 0, updatedBy = None\<rparr>
   | Some p \<Rightarrow> p)"

text \<open>\<^verbatim>\<open>{...price, ...patch}\<close>.\<close>

definition merge_price :: "price \<Rightarrow> price_patch \<Rightarrow> price" where
  "merge_price p q = \<lparr>basePrice = (case pp_base q of Some v \<Rightarrow> v | None \<Rightarrow> basePrice p),
                      perToken = (case pp_per q of Some v \<Rightarrow> v | None \<Rightarrow> perToken p),
                      estOut = (case pp_est q of Some v \<Rightarrow> v | None \<Rightarrow> estOut p)\<rparr>"

definition no_patch :: price_patch where
  "no_patch = \<lparr>pp_base = None, pp_per = None, pp_est = None\<rparr>"

definition full_patch :: "price \<Rightarrow> price_patch" where
  "full_patch p = \<lparr>pp_base = Some (basePrice p), pp_per = Some (perToken p), pp_est = Some (estOut p)\<rparr>"

definition pricingFrom :: "pricing_row \<Rightarrow> string \<Rightarrow> price" where
  "pricingFrom p modelId =
     merge_price (pr_default p)
       (if modelId = '''' then no_patch else case get (perModel p) modelId of Some q \<Rightarrow> q | None \<Rightarrow> no_patch)"

definition pricingFor :: "db \<Rightarrow> string \<Rightarrow> price" where
  "pricingFor d modelId = pricingFrom (loadPricing d) modelId"

text \<open>What travels between gateways: the body of \<^verbatim>\<open>GET /api/pay/pricing\<close> and of a push.\<close>

record pricing_msg =
  pm_default :: "price_patch option"
  pm_perModel :: "price_patch table option"
  pm_updatedAt :: int
  pm_genesis :: string

definition pricing_body :: "config \<Rightarrow> db \<Rightarrow> pricing_msg" where
  "pricing_body c d = (let p = loadPricing d in
     \<lparr>pm_default = Some (full_patch (pr_default p)), pm_perModel = Some (perModel p),
      pm_updatedAt = updatedAt p, pm_genesis = GENESIS_WALLET c\<rparr>)"

definition adopt_pricing :: "price_patch \<Rightarrow> price_patch table option \<Rightarrow> int \<Rightarrow> string \<Rightarrow> db \<Rightarrow> db" where
  "adopt_pricing q pm at_sec by_whom d =
     (let local = loadPricing d
      in d\<lparr>pricing := Some \<lparr>pr_default = merge_price (pr_default local) q,
             perModel = (case pm of Some t \<Rightarrow> t | None \<Rightarrow> []), updatedAt = at_sec, updatedBy = Some by_whom\<rparr>\<rparr>)"

text \<open>A follower's poll: \<open>remote\<close> is the answer of the relay, \<open>None\<close> when the request failed.\<close>

definition syncPricingFromGenesis :: "string \<Rightarrow> pricing_msg option \<Rightarrow> db \<Rightarrow> db" where
  "syncPricingFromGenesis url remote d =
     (if url = '''' then d
      else case remote of
        None \<Rightarrow> d
      | Some m \<Rightarrow>
          (case pm_default m of
             None \<Rightarrow> d
           | Some q \<Rightarrow>
               if pm_updatedAt m \<le> updatedAt (loadPricing d) then d
               else adopt_pricing q (pm_perModel m) (pm_updatedAt m) (''genesis-sync:'' @ url) d))"

definition post_pricing_push ::
  "config \<Rightarrow> string \<Rightarrow> string \<Rightarrow> pricing_msg \<Rightarrow> db \<Rightarrow> bool answer \<times> db" where
  "post_pricing_push c push_secret key m d =
     (if push_secret = '''' then (refuse 404 ''this gateway does not accept pricing pushes'', d)
      else if key \<noteq> push_secret then (refuse 401 ''bad push key'', d)
      else case pm_default m of
        None \<Rightarrow> (refuse 400 ''missing default pricing'', d)
      | Some q \<Rightarrow>
          if pm_genesis m \<noteq> '''' \<and> pm_genesis m \<noteq> GENESIS_WALLET c then (refuse 409 ''genesis wallet mismatch'', d)
          else if pm_updatedAt m \<le> updatedAt (loadPricing d) then (Inr False, d)
          else (Inr True, adopt_pricing q (pm_perModel m) (pm_updatedAt m) ''genesis-push'' d))"

section \<open>Bridges and the model pool\<close>

record bridge_entry =
  br_name :: string
  br_expiresAt :: int

fun live_urls :: "bridge_entry table \<Rightarrow> int \<Rightarrow> string list \<Rightarrow> string list" where
  "live_urls [] now urls = urls"
| "live_urls ((url, h) # hs) now urls =
     live_urls hs now (if now < br_expiresAt h \<and> url \<notin> set urls then urls @ [url] else urls)"

definition activeBridgeUrls :: "string \<Rightarrow> int \<Rightarrow> bridge_entry table \<Rightarrow> string list \<times> bridge_entry table" where
  "activeBridgeUrls bridge_url now reg =
     (live_urls reg now (if bridge_url = '''' then [] else [bridge_url]),
      filter (\<lambda>(url, h). now < br_expiresAt h) reg)"

definition strip_slashes :: "string \<Rightarrow> string" where
  "strip_slashes s = rev (dropWhile (\<lambda>c. c = CHR ''/'') (rev s))"

definition is_http :: "string \<Rightarrow> bool" where
  "is_http s \<longleftrightarrow> starts_with (to_lower s) ''http://'' \<or> starts_with (to_lower s) ''https://''"

definition adminOrServiceToken :: "config \<Rightarrow> auth_env \<Rightarrow> caller \<Rightarrow> int \<Rightarrow> bool option" where
  "adminOrServiceToken c e q now =
     (if \<not> authEnabled e then Some True
      else if service_caller c q then Some True
      else map_option (\<lambda>w. w \<noteq> None) (adminWallet e (cookie q) (nat now)))"

definition post_bridge_register ::
  "config \<Rightarrow> auth_env \<Rightarrow> caller \<Rightarrow> int \<Rightarrow> string \<Rightarrow> string \<Rightarrow> int \<Rightarrow> int \<Rightarrow> bridge_entry table
   \<Rightarrow> string answer \<times> bridge_entry table" where
  "post_bridge_register c e q ttl_ms url0 nm now_sec now_ms reg =
     (case adminOrServiceToken c e q now_sec of
        None \<Rightarrow> (refuse 500 ''URI malformed'', reg)
      | Some ok \<Rightarrow>
          if \<not> ok then (refuse 401 ''admin or service token required'', reg)
          else if url0 = '''' \<or> \<not> is_http url0 then (refuse 400 ''bridgeUrl (http/https) required'', reg)
          else let url = strip_slashes url0;
                   reg1 = put url \<lparr>br_name = nm, br_expiresAt = now_ms + ttl_ms\<rparr> reg
               in (Inr url, snd (activeBridgeUrls '''' now_ms reg1)))"

record model =
  md_id :: string
  md_name :: string
  md_url :: string
  md_cid :: string
  md_bridgeModel :: string
  md_price :: price

record controller =
  ct_id :: string
  ct_name :: string
  ct_runtime_loaded :: bool
  ct_serving :: string
  ct_active_model :: string

definition drop_gguf :: "string \<Rightarrow> string" where
  "drop_gguf s = (let k = length s - 5 in
     if 5 \<le> length s \<and> to_lower (drop k s) = ''.gguf'' then take k s else s)"

text \<open>\<open>key\<close> stands for \<^verbatim>\<open>bridgeKey\<close>, the first eight hex digits of the SHA-1 of the URL.\<close>

definition fetchModelsFromBridge :: "(string \<Rightarrow> string) \<Rightarrow> db \<Rightarrow> string \<Rightarrow> controller list \<Rightarrow> model list" where
  "fetchModelsFromBridge key d url ctrls =
     map (\<lambda>ct. let i = key url @ '':'' @ ct_id ct in
            \<lparr>md_id = i,
             md_name = drop_gguf (or_else (or_else (ct_name ct) (ct_active_model ct)) (ct_serving ct)),
             md_url = url, md_cid = ct_id ct,
             md_bridgeModel = or_else (ct_active_model ct) (ct_serving ct),
             md_price = pricingFrom (loadPricing d) i\<rparr>)
       (filter (\<lambda>ct. ct_runtime_loaded ct \<and> (ct_serving ct \<noteq> '''' \<or> ct_active_model ct \<noteq> '''')) ctrls)"

definition fetchBridgeModels :: "(string \<Rightarrow> string) \<Rightarrow> db \<Rightarrow> (string \<Rightarrow> controller list) \<Rightarrow> string list \<Rightarrow> model list" where
  "fetchBridgeModels key d listing urls = concat (map (\<lambda>u. fetchModelsFromBridge key d u (listing u)) urls)"

section \<open>Quotes\<close>

definition utf16_units :: "char \<Rightarrow> nat" where
  "utf16_units c = (let b = (of_char c :: nat) in
     if 128 \<le> b \<and> b < 192 then 0 else if 240 \<le> b then 2 else 1)"

definition js_length :: "string \<Rightarrow> nat" where
  "js_length s = sum_list (map utf16_units s)"

definition estimateTokens :: "string option \<Rightarrow> rat" where
  "estimateTokens text =
     (let n = (case text of None \<Rightarrow> 0 | Some t \<Rightarrow> js_length t) in of_nat (max 1 ((n + 3) div 4)))"

definition quote_price :: "price \<Rightarrow> rat \<Rightarrow> rat" where
  "quote_price p tokens = round6 (fl (basePrice p + fl (tokens * perToken p)))"

definition quoteFor :: "price \<Rightarrow> string \<Rightarrow> rat" where
  "quoteFor p text = quote_price p (fl (estimateTokens (Some text) + estOut p))"

section \<open>Retention\<close>

definition sweep_row :: "config \<Rightarrow> int \<Rightarrow> pay_request \<Rightarrow> pay_request" where
  "sweep_row c now r =
     (if createdAt r = 0 \<or> now - createdAt r < REQUEST_CONTENT_TTL_SEC c then r
      else if prompt r = None \<and> rq_result r = None then r
      else r\<lparr>prompt := None, rq_result := None, contentRedactedAt := Some now\<rparr>)"

definition sweepRequestContent :: "config \<Rightarrow> int \<Rightarrow> db \<Rightarrow> db" where
  "sweepRequestContent c now d =
     (if REQUEST_CONTENT_TTL_SEC c = 0 then d
      else d\<lparr>requests := map_rows (\<lambda>_. sweep_row c now) (requests d)\<rparr>)"

section \<open>Quoting and paying\<close>

definition new_request :: "config \<Rightarrow> model \<Rightarrow> string \<Rightarrow> int \<Rightarrow> pay_request" where
  "new_request c m text now =
     \<lparr>rq_model = md_id m, rq_name = md_name m, bridgeUrl = md_url m, cid = md_cid m,
      bridgeModel = md_bridgeModel m, rq_price = md_price m, prompt = Some text,
      priceToken = quoteFor (md_price m) text, recipient = TREASURY_OWNER c, paid = False, createdAt = now,
      rq_signature = '''', payer = None, failed = False, refunded = False, refundSig = None, rq_error = '''',
      rq_result = None, rq_usage = None, contentRedactedAt = None\<rparr>"

definition post_quote ::
  "config \<Rightarrow> model list \<Rightarrow> string \<Rightarrow> string \<Rightarrow> string option \<Rightarrow> int \<Rightarrow> db \<Rightarrow> pay_request answer \<times> db" where
  "post_quote c pool requestId md text now d =
     (case text of
        None \<Rightarrow> (refuse 400 ''model, prompt required'', d)
      | Some t \<Rightarrow>
          if md = '''' then (refuse 400 ''model, prompt required'', d)
          else case List.find (\<lambda>x. md_id x = md) pool of
            None \<Rightarrow> (refuse 400 ''unknown model'', d)
          | Some m \<Rightarrow>
              (let d1 = sweepRequestContent c now d; r = new_request c m t now
               in (Inr r, d1\<lparr>requests := put requestId r (requests d1)\<rparr>)))"

record completion =
  co_content :: string
  co_prompt_tokens :: "rat option"
  co_completion_tokens :: "rat option"

definition usage_of :: "pay_request \<Rightarrow> completion \<Rightarrow> usage_row" where
  "usage_of r k =
     (let pt = (case co_prompt_tokens k of Some v \<Rightarrow> v | None \<Rightarrow> estimateTokens (prompt r));
          ct = (case co_completion_tokens k of Some v \<Rightarrow> v | None \<Rightarrow> estimateTokens (Some (co_content k)))
      in \<lparr>promptTokens = pt, completionTokens = ct, totalTokens = fl (pt + ct),
          costToken = quote_price (rq_price r) (fl (pt + ct))\<rparr>)"

text \<open>The branch that gives the money back: the refund signature is \<open>None\<close> when no payout was made.\<close>

definition refund_request ::
  "(string \<Rightarrow> rat \<Rightarrow> string option) \<Rightarrow> string \<Rightarrow> string \<Rightarrow> string \<Rightarrow> pay_request \<Rightarrow> int \<Rightarrow> db \<Rightarrow> pay_request answer \<times> db" where
  "refund_request pay requestId signature err r now d =
     (let sig = (case payer r of None \<Rightarrow> None | Some w \<Rightarrow> if w = '''' then None else pay w (priceToken r));
          r' = r\<lparr>failed := True, refunded := (sig \<noteq> None), refundSig := sig, rq_error := err\<rparr>
      in (refuse 502 (if sig \<noteq> None then ''inference failed; refunded'' else ''inference failed; refund could not be issued''),
          d\<lparr>usedSignatures := put signature (UsedPayment requestId (priceToken r) now (Some (sig \<noteq> None))) (usedSignatures d),
            requests := put requestId r' (requests d)\<rparr>))"

text \<open>From the verified payment on: run the model, or refund.\<close>

definition run_request ::
  "(string option \<Rightarrow> string + completion) \<Rightarrow> (string \<Rightarrow> rat \<Rightarrow> string option)
   \<Rightarrow> string \<Rightarrow> string \<Rightarrow> string option \<Rightarrow> pay_request \<Rightarrow> int \<Rightarrow> db \<Rightarrow> pay_request answer \<times> db" where
  "run_request infer pay requestId signature from_wallet r now d =
     (let r1 = r\<lparr>paid := True, rq_signature := signature, payer := from_wallet\<rparr>
      in if bridgeUrl r = '''' \<or> cid r = ''''
         then refund_request pay requestId signature ''model is not served by any bridge'' r1 now d
         else case infer (prompt r) of
           Inl err \<Rightarrow> refund_request pay requestId signature err r1 now d
         | Inr k \<Rightarrow>
             (let r2 = r1\<lparr>rq_result := Some (co_content k), rq_usage := Some (usage_of r1 k)\<rparr>
              in (Inr r2,
                  d\<lparr>usedSignatures := put signature (UsedPayment requestId (priceToken r) now None) (usedSignatures d),
                    requests := put requestId r2 (requests d)\<rparr>)))"

definition post_inference ::
  "config \<Rightarrow> (nat \<Rightarrow> parsed_tx option) \<Rightarrow> (string option \<Rightarrow> string + completion) \<Rightarrow> (string \<Rightarrow> rat \<Rightarrow> string option)
   \<Rightarrow> string \<Rightarrow> string \<Rightarrow> int \<Rightarrow> db \<Rightarrow> pay_request answer \<times> db" where
  "post_inference c rpc infer pay requestId signature now d =
     (if requestId = '''' \<or> signature = '''' then (refuse 400 ''requestId, signature required'', d)
      else case get (requests d) requestId of
        None \<Rightarrow> (refuse 404 ''unknown requestId'', d)
      | Some r \<Rightarrow>
          if paid r then
            (if failed r then (refuse 502 (if refunded r then ''inference failed; refunded'' else ''inference failed; refund pending''), d)
             else (Inr r, d))
          else if get (usedSignatures d) signature \<noteq> None then (refuse 409 ''signature already used'', d)
          else case verifyStakeTransfer c rpc '''' (Fin (priceToken r)) of
            Inl e \<Rightarrow> (Inl e, d)
          | Inr from_wallet \<Rightarrow> run_request infer pay requestId signature from_wallet r now d)"

text \<open>\<^verbatim>\<open>bridgeInfer\<close>'s reading of the bridge's answer: an empty text is an error.\<close>

definition read_completion :: "string \<Rightarrow> string \<Rightarrow> rat option \<Rightarrow> rat option \<Rightarrow> string + completion" where
  "read_completion content reasoning pt ct =
     (let text = or_else content reasoning
      in if trim text = '''' then Inl ''bridge returned empty content (thinking overflow?)''
         else Inr \<lparr>co_content = text, co_prompt_tokens = pt, co_completion_tokens = ct\<rparr>)"

section \<open>Paying for an inference\<close>

lemma run_request_settles:
  assumes "run_request infer pay rid sig w r now d = (a, d')" and "\<not> failed r"
  shows "\<exists>r'. get (requests d') rid = Some r' \<and> paid r' \<and> rq_signature r' = sig \<and> priceToken r' = priceToken r
    \<and> payer r' = w \<and> get (usedSignatures d') sig \<noteq> None \<and> (a = Inr r' \<and> \<not> failed r' \<or> failed r' \<and> isl a)
    \<and> (failed r' \<longrightarrow> refundSig r' = (case w of None \<Rightarrow> None | Some x \<Rightarrow> if x = '''' then None else pay x (priceToken r))
        \<and> refunded r' = (refundSig r' \<noteq> None))"
proof -
  let ?r1 = "r\<lparr>paid := True, rq_signature := sig, payer := w\<rparr>"
  have refund: ?thesis if "(a, d') = refund_request pay rid sig err ?r1 now d" for err
    using that by (cases w) (auto simp: refund_request_def Let_def table_simps)
  consider (served) k where "bridgeUrl r \<noteq> '''' \<and> cid r \<noteq> ''''" "infer (prompt r) = Inr k"
    | (unserved) "bridgeUrl r = '''' \<or> cid r = ''''"
    | (error) err where "bridgeUrl r \<noteq> '''' \<and> cid r \<noteq> ''''" "infer (prompt r) = Inl err"
    by (cases "infer (prompt r)") blast+
  then show ?thesis
  proof cases
    case served
    with assms show ?thesis by (auto simp: run_request_def Let_def table_simps)
  next
    case unserved
    with assms(1) show ?thesis
      by (intro refund [of "''model is not served by any bridge''"]) (simp add: run_request_def Let_def)
  next
    case error
    with assms(1) show ?thesis by (intro refund [of err]) (simp add: run_request_def Let_def)
  qed
qed

lemma post_inference_cases:
  obtains (unchanged) "snd (post_inference c rpc infer pay rid sig now d) = d"
  | (settled) r w where "get (requests d) rid = Some r" "\<not> paid r" "get (usedSignatures d) sig = None"
      "rid \<noteq> ''''" "verifyStakeTransfer c rpc '''' (Fin (priceToken r)) = Inr w"
      "post_inference c rpc infer pay rid sig now d = run_request infer pay rid sig w r now d"
proof (cases "snd (post_inference c rpc infer pay rid sig now d) = d")
  case False
  show thesis
    using False settled by (auto simp: post_inference_def split: if_splits option.splits sum.splits)
qed (rule unchanged)


text \<open>
  C8: a failed inference gives the price back. When a call settles a request as failed, the
  payer derived from the chain, if there is one, is paid exactly the quoted price, once, and
  the request is marked refunded exactly when that payout went through.
\<close>

theorem failed_inference_refunds_price:
  assumes "\<not> failed r" and "get (requests d) rid = Some r" and "\<not> paid r"
    and "get (requests (snd (post_inference c rpc infer pay rid sig now d))) rid = Some r'" and "failed r'"
  shows "\<exists>w. verifyStakeTransfer c rpc '''' (Fin (priceToken r)) = Inr w \<and> payer r' = w
    \<and> refundSig r' = (case w of None \<Rightarrow> None | Some x \<Rightarrow> if x = '''' then None else pay x (priceToken r))
    \<and> refunded r' = (refundSig r' \<noteq> None)"
proof (cases rule: post_inference_cases [of c rpc infer pay rid sig now d])
  case unchanged
  then show ?thesis using assms by simp
next
  case (settled x w)
  obtain a d' where ad: "run_request infer pay rid sig w r now d = (a, d')" by fastforce
  from run_request_settles [OF ad assms(1)] settled assms ad show ?thesis by auto
qed

section \<open>Retention\<close>

text \<open>What a request row says about money.\<close>

definition billing :: "pay_request \<Rightarrow> rat \<times> price \<times> string \<times> bool \<times> string \<times> string option \<times> bool \<times> bool \<times> string option \<times> usage_row option" where
  "billing r = (priceToken r, rq_price r, recipient r, paid r, rq_signature r, payer r, failed r, refunded r,
     refundSig r, rq_usage r)"

lemma get_sweep:
  "get (requests (sweepRequestContent c now d)) i
   = (if REQUEST_CONTENT_TTL_SEC c = 0 then get (requests d) i else map_option (sweep_row c now) (get (requests d) i))"
  by (simp add: sweepRequestContent_def get_map_rows)

text \<open>
  The retention sweep drops content and keeps the books. No request appears or disappears;
  every row keeps its billing record; a row past the window has neither prompt nor answer left
  and a younger row is untouched; sweeping again at the same time changes nothing.
\<close>

theorem sweep_keeps_billing:
  assumes "get (requests d) i = Some r"
  shows "\<exists>r'. get (requests (sweepRequestContent c now d)) i = Some r' \<and> billing r' = billing r
    \<and> (REQUEST_CONTENT_TTL_SEC c \<noteq> 0 \<and> createdAt r \<noteq> 0 \<and> REQUEST_CONTENT_TTL_SEC c \<le> now - createdAt r \<longrightarrow>
         prompt r' = None \<and> rq_result r' = None)
    \<and> (now - createdAt r < REQUEST_CONTENT_TTL_SEC c \<longrightarrow> r' = r)
    \<and> map fst (requests (sweepRequestContent c now d)) = map fst (requests d)
    \<and> sweepRequestContent c now (sweepRequestContent c now d) = sweepRequestContent c now d"
proof -
  have twice: "sweep_row c now (sweep_row c now x) = sweep_row c now x" for x
    by (simp add: sweep_row_def)
  have "map_rows (\<lambda>_. sweep_row c now) (map_rows (\<lambda>_. sweep_row c now) t) = map_rows (\<lambda>_. sweep_row c now) t"
    for t :: "pay_request table" by (auto simp: map_rows_def twice)
  then have idem: "sweepRequestContent c now (sweepRequestContent c now d) = sweepRequestContent c now d"
    by (simp add: sweepRequestContent_def)
  have keys: "map fst (requests (sweepRequestContent c now d)) = map fst (requests d)"
    by (simp add: sweepRequestContent_def)
  show ?thesis
    unfolding get_sweep assms using idem keys by (auto simp: sweep_row_def billing_def)
qed

section \<open>Pricing propagation\<close>

lemma loadPricing_adopt:
  "loadPricing (adopt_pricing q pm t w d)
   = \<lparr>pr_default = merge_price (pr_default (loadPricing d)) q, perModel = (case pm of Some x \<Rightarrow> x | None \<Rightarrow> []),
      updatedAt = t, updatedBy = Some w\<rparr>"
  by (simp add: adopt_pricing_def Let_def loadPricing_def)

lemma merge_full [simp]: "merge_price p (full_patch q) = q"
  by (simp add: merge_price_def full_patch_def)

lemma pricing_body_fields [simp]:
  "pm_default (pricing_body c d) = Some (full_patch (pr_default (loadPricing d)))"
  "pm_perModel (pricing_body c d) = Some (perModel (loadPricing d))"
  "pm_updatedAt (pricing_body c d) = updatedAt (loadPricing d)"
  "pm_genesis (pricing_body c d) = GENESIS_WALLET c"
  by (simp_all add: pricing_body_def Let_def)

lemma pricingFor_eq:
  "pr_default (loadPricing a) = pr_default (loadPricing b) \<Longrightarrow> perModel (loadPricing a) = perModel (loadPricing b)
   \<Longrightarrow> pricingFor a m = pricingFor b m"
  by (simp add: pricingFor_def pricingFrom_def)

text \<open>
  Prices reach every gateway. When the source's prices are newer than the relay's and
  newer than the follower's, one push to the relay and one poll of the relay by the follower
  leave all three gateways with the same price for every model; repeating the push or the poll
  changes nothing.
\<close>

theorem pricing_propagates:
  assumes "secret \<noteq> ''''" and "url \<noteq> ''''"
    and "updatedAt (loadPricing rel) < updatedAt (loadPricing src)"
    and "updatedAt (loadPricing fol) < updatedAt (loadPricing src)"
    and rel'_def: "rel' = snd (post_pricing_push c secret secret (pricing_body c src) rel)"
    and fol'_def: "fol' = syncPricingFromGenesis url (Some (pricing_body c rel')) fol"
  shows "pricingFor rel' m = pricingFor src m \<and> pricingFor fol' m = pricingFor src m
    \<and> post_pricing_push c secret secret (pricing_body c src) rel' = (Inr False, rel')
    \<and> syncPricingFromGenesis url (Some (pricing_body c rel')) fol' = fol'"
proof -
  have rel': "rel' = adopt_pricing (full_patch (pr_default (loadPricing src))) (Some (perModel (loadPricing src)))
      (updatedAt (loadPricing src)) ''genesis-push'' rel"
    using assms(1,3) by (simp add: rel'_def post_pricing_push_def)
  then have lr: "pr_default (loadPricing rel') = pr_default (loadPricing src)"
    "perModel (loadPricing rel') = perModel (loadPricing src)" "updatedAt (loadPricing rel') = updatedAt (loadPricing src)"
    by (simp_all add: loadPricing_adopt)
  then have fol': "fol' = adopt_pricing (full_patch (pr_default (loadPricing src))) (Some (perModel (loadPricing src)))
      (updatedAt (loadPricing src)) (''genesis-sync:'' @ url) fol"
    using assms(2,4) by (simp add: fol'_def syncPricingFromGenesis_def)
  then have lf: "pr_default (loadPricing fol') = pr_default (loadPricing src)"
    "perModel (loadPricing fol') = perModel (loadPricing src)" "updatedAt (loadPricing fol') = updatedAt (loadPricing src)"
    by (simp_all add: loadPricing_adopt)
  have "post_pricing_push c secret secret (pricing_body c src) rel' = (Inr False, rel')"
    using lr(3) assms(1) by (simp add: post_pricing_push_def)
  moreover have "syncPricingFromGenesis url (Some (pricing_body c rel')) fol' = fol'"
    using lr(3) lf(3) by (simp add: syncPricingFromGenesis_def)
  ultimately show ?thesis using lr lf pricingFor_eq by blast
qed

text \<open>
  Nobody can roll prices back by replaying an old message. Whatever is pushed with whatever
  key, and whatever a poll returns, the age stamp of the stored prices never decreases, it
  changes only together with the prices, and a push with a wrong key, a missing price or another
  genesis wallet changes nothing.
\<close>

theorem pricing_never_rolls_back:
  "updatedAt (loadPricing d) \<le> updatedAt (loadPricing (snd (post_pricing_push c secret key m d)))
   \<and> updatedAt (loadPricing d) \<le> updatedAt (loadPricing (syncPricingFromGenesis url remote d))
   \<and> (updatedAt (loadPricing (snd (post_pricing_push c secret key m d))) = updatedAt (loadPricing d)
        \<longrightarrow> snd (post_pricing_push c secret key m d) = d)
   \<and> (key \<noteq> secret \<or> secret = '''' \<or> pm_default m = None \<or> pm_genesis m \<notin> {'''', GENESIS_WALLET c}
        \<longrightarrow> snd (post_pricing_push c secret key m d) = d)"
  by (auto simp: post_pricing_push_def syncPricingFromGenesis_def loadPricing_adopt split: option.splits)

section \<open>Quotes, bridges, models\<close>

lemma quote_price_mono:
  "0 \<le> perToken p \<Longrightarrow> s \<le> t \<Longrightarrow> quote_price p s \<le> quote_price p t"
  unfolding quote_price_def by (intro round6_mono fl_mono add_left_mono mult_right_mono)

lemma estimateTokens_mono: "js_length s \<le> js_length t \<Longrightarrow> estimateTokens (Some s) \<le> estimateTokens (Some t)"
  by (auto simp: estimateTokens_def Let_def intro!: div_le_mono max.mono)

text \<open>
  A longer prompt is never quoted cheaper, and a call that used no more tokens than the
  quote estimated never costs more than the quoted price.
\<close>

theorem quote_bounds_cost:
  assumes "0 \<le> perToken (md_price m)"
  shows "(js_length s \<le> js_length t \<longrightarrow> quoteFor (md_price m) s \<le> quoteFor (md_price m) t)
    \<and> (totalTokens (usage_of (new_request c m s now) k) \<le> fl (estimateTokens (Some s) + estOut (md_price m)) \<longrightarrow>
         costToken (usage_of (new_request c m s now) k) \<le> priceToken (new_request c m s now))"
proof (intro conjI impI)
  assume "js_length s \<le> js_length t"
  from estimateTokens_mono [OF this] show "quoteFor (md_price m) s \<le> quoteFor (md_price m) t"
    unfolding quoteFor_def by (intro quote_price_mono fl_mono add_right_mono assms)
next
  let ?u = "usage_of (new_request c m s now) k"
  assume le: "totalTokens ?u \<le> fl (estimateTokens (Some s) + estOut (md_price m))"
  have "costToken ?u = quote_price (md_price m) (totalTokens ?u)"
    by (simp add: usage_of_def Let_def new_request_def)
  with quote_price_mono [OF assms le] show "costToken ?u \<le> priceToken (new_request c m s now)"
    by (simp add: new_request_def quoteFor_def)
qed

lemma live_urls_spec:
  "set (live_urls reg now urls) = set urls \<union> {u. \<exists>h. (u, h) \<in> set reg \<and> now < br_expiresAt h}
   \<and> (distinct urls \<longrightarrow> distinct (live_urls reg now urls))"
proof (induction reg arbitrary: urls)
  case (Cons p reg)
  obtain u h where "p = (u, h)" by (cases p)
  with Cons [of "if now < br_expiresAt h \<and> u \<notin> set urls then urls @ [u] else urls"] show ?case
    by (cases "now < br_expiresAt h \<and> u \<notin> set urls") auto
qed simp

text \<open>
  The list of active bridges is exactly the configured bridge and the registered ones whose
  heartbeat has not expired, without repetition; a bridge that registers successfully is on the
  list until its time to live has passed, and only the service token or an admin can register
  one when admin authentication is configured.
\<close>

theorem active_bridges_exact:
  assumes "keyed reg"
  shows "set (fst (activeBridgeUrls url now reg))
      = {u. u = url \<and> url \<noteq> ''''} \<union> {u. \<exists>h. get reg u = Some h \<and> now < br_expiresAt h}
    \<and> distinct (fst (activeBridgeUrls url now reg))
    \<and> (\<forall>c e q ttl url0 nm now_sec now_ms u reg' t.
         post_bridge_register c e q ttl url0 nm now_sec now_ms reg = (Inr u, reg') \<and> 0 < ttl \<longrightarrow>
           (t < now_ms + ttl \<longrightarrow> u \<in> set (fst (activeBridgeUrls url t reg')))
           \<and> (authEnabled e \<longrightarrow> service_caller c q \<or> (\<exists>w. adminWallet e (cookie q) (nat now_sec) = Some (Some w))))"
proof (intro conjI allI impI)
  have k: "(\<exists>h. (u, h) \<in> set reg \<and> now < br_expiresAt h) = (\<exists>h. get reg u = Some h \<and> now < br_expiresAt h)" for u
    using assms keyed_get get_in_set by fastforce
  show "set (fst (activeBridgeUrls url now reg))
      = {u. u = url \<and> url \<noteq> ''''} \<union> {u. \<exists>h. get reg u = Some h \<and> now < br_expiresAt h}"
    using live_urls_spec [of reg now] k by (auto simp: activeBridgeUrls_def)
  show "distinct (fst (activeBridgeUrls url now reg))"
    using live_urls_spec [of reg now] by (simp add: activeBridgeUrls_def)
next
  fix c e q ttl url0 nm now_sec now_ms u reg' t
  assume ok: "post_bridge_register c e q ttl url0 nm now_sec now_ms reg = (Inr u, reg') \<and> 0 < ttl" and "t < now_ms + ttl"
  then have "(u, \<lparr>br_name = nm, br_expiresAt = now_ms + ttl\<rparr>) \<in> set reg'"
    using get_in_set [OF tab.look_upd_same]
    by (auto simp: post_bridge_register_def activeBridgeUrls_def Let_def split: option.splits if_splits)
  with \<open>t < now_ms + ttl\<close> live_urls_spec [of reg' t] show "u \<in> set (fst (activeBridgeUrls url t reg'))"
    by (auto simp: activeBridgeUrls_def)
next
  fix c e q ttl url0 nm now_sec now_ms u reg' t
  assume "post_bridge_register c e q ttl url0 nm now_sec now_ms reg = (Inr u, reg') \<and> 0 < ttl" and "authEnabled e"
  then show "service_caller c q \<or> (\<exists>w. adminWallet e (cookie q) (nat now_sec) = Some (Some w))"
    by (auto simp: post_bridge_register_def adminOrServiceToken_def split: option.splits if_splits)
qed

lemma fetch_ids: "map md_id (fetchModelsFromBridge key d u cts)
  = map (\<lambda>ct. key u @ '':'' @ ct_id ct)
      (filter (\<lambda>ct. ct_runtime_loaded ct \<and> (ct_serving ct \<noteq> '''' \<or> ct_active_model ct \<noteq> '''')) cts)"
  by (simp add: fetchModelsFromBridge_def Let_def comp_def)

text \<open>
  A model id names one bridge and one controller. When the bridge keys are eight characters
  long and tell the active bridges apart, and each bridge lists distinct controllers, the ids in
  the aggregated pool are distinct, so looking a pool entry up by its id, as the quote does,
  finds that entry, and every entry routes to a bridge and controller that serve it.
\<close>

theorem model_ids_route:
  assumes "distinct urls" and "inj_on key (set urls)" and "\<forall>u. length (key u) = 8"
    and "\<forall>u \<in> set urls. distinct (map ct_id (listing u))"
  shows "distinct (map md_id (fetchBridgeModels key d listing urls))
    \<and> (\<forall>x \<in> set (fetchBridgeModels key d listing urls).
         List.find (\<lambda>y. md_id y = md_id x) (fetchBridgeModels key d listing urls) = Some x
         \<and> md_url x \<in> set urls \<and> md_cid x \<in> set (map ct_id (listing (md_url x))))"
proof -
  have "distinct (map md_id (fetchBridgeModels key d listing urls))
      \<and> set (map md_id (fetchBridgeModels key d listing urls)) \<subseteq> {i. take 8 i \<in> key ` set urls}"
    using assms(1,2,4)
  proof (induction urls)
    case (Cons u us)
    let ?here = "map md_id (fetchModelsFromBridge key d u (listing u))"
    have here: "\<forall>i \<in> set ?here. take 8 i = key u"
      unfolding fetch_ids using assms(3) by auto
    have "distinct (map ct_id (listing u))" using Cons.prems by simp
    then have "distinct ?here"
      unfolding fetch_ids by (auto simp: distinct_map intro!: inj_onI dest: inj_onD)
    moreover have key: "key u \<notin> key ` set us" using Cons.prems(1,2) by (auto simp: inj_on_def)
    let ?rest = "map md_id (fetchBridgeModels key d listing us)"
    have rest: "distinct ?rest" "set ?rest \<subseteq> {i. take 8 i \<in> key ` set us}"
      using Cons by (auto simp: inj_on_def)
    moreover have "set ?here \<inter> set ?rest = {}"
    proof (rule ccontr)
      assume "set ?here \<inter> set ?rest \<noteq> {}"
      then obtain i where "i \<in> set ?here" "i \<in> set ?rest" by blast
      then show False using here rest(2) key by (metis (no_types, lifting) mem_Collect_eq subsetD)
    qed
    moreover have "map md_id (fetchBridgeModels key d listing (u # us)) = ?here @ ?rest"
      by (simp add: fetchBridgeModels_def)
    moreover have "set ?here \<subseteq> {i. take 8 i \<in> key ` set (u # us)}" using here by auto
    ultimately show ?case by (simp only: distinct_append set_append) auto
  qed (simp add: fetchBridgeModels_def)
  then have dist: "distinct (map md_id (fetchBridgeModels key d listing urls))" by simp
  have find: "x \<in> set xs \<Longrightarrow> distinct (map md_id xs) \<Longrightarrow> List.find (\<lambda>y. md_id y = md_id x) xs = Some x" for x xs
    by (induction xs) (auto simp: image_iff)
  have route: "md_url x \<in> set urls \<and> md_cid x \<in> set (map ct_id (listing (md_url x)))"
    if "x \<in> set (fetchBridgeModels key d listing urls)" for x
    using that by (auto simp: fetchBridgeModels_def fetchModelsFromBridge_def Let_def)
  show ?thesis using dist find route by blast
qed

section \<open>Witnesses\<close>

text \<open>A model served by one bridge, a quote for it, and the transfer of five tokens from the staking examples.\<close>

definition sample_price :: price where
  "sample_price = \<lparr>basePrice = 1, perToken = 1/64, estOut = 64\<rparr>"

definition sample_model :: model where
  "sample_model = \<lparr>md_id = ''0123abcd:ring'', md_name = ''m'', md_url = ''http://b'', md_cid = ''ring'',
     md_bridgeModel = ''m.gguf'', md_price = sample_price\<rparr>"

definition quoted_db :: db where
  "quoted_db = empty_db\<lparr>requests := [(''req'', new_request default_config sample_model ''hi'' 1000)]\<rparr>"

definition answering :: "string option \<Rightarrow> string + completion" where
  "answering p = Inr \<lparr>co_content = ''hello'', co_prompt_tokens = Some 3, co_completion_tokens = Some 5\<rparr>"


theorem failed_inference_refunds_price_witness:
  "(let d' = snd (post_inference default_config sample_rpc (\<lambda>p. Inl ''down'') (\<lambda>w x. Some (w @ ''-refund'')) ''req'' ''sig'' 2000 quoted_db) in
    map_option refundSig (get (requests d') ''req'') = Some (Some ''alice-refund''))"
proof -
  let ?r = "new_request default_config sample_model ''hi'' 1000"
  let ?d = "snd (post_inference default_config sample_rpc (\<lambda>p. Inl ''down'') (\<lambda>w x. Some (w @ ''-refund'')) ''req'' ''sig'' 2000 quoted_db)"
  have v: "map_option failed (get (requests ?d) ''req'') = Some True"
    "verifyStakeTransfer default_config sample_rpc '''' (Fin (priceToken ?r)) = Inr (Some ''alice'')" by code_simp+
  then obtain r' where r': "get (requests ?d) ''req'' = Some r'" "failed r'" by auto
  have r: "\<not> failed ?r" "get (requests quoted_db) ''req'' = Some ?r" "\<not> paid ?r"
    by (simp_all add: quoted_db_def new_request_def)
  from failed_inference_refunds_price [OF r r'] v(2) r'(1) show ?thesis by (auto simp: Let_def)
qed

theorem sweep_keeps_billing_witness:
  "(let d' = sweepRequestContent default_config 9000000 quoted_db in
    \<exists>r'. get (requests d') ''req'' = Some r' \<and> prompt r' = None
      \<and> billing r' = billing (new_request default_config sample_model ''hi'' 1000))"
  using sweep_keeps_billing [of quoted_db "''req''" "new_request default_config sample_model ''hi'' 1000" default_config 9000000]
  by (auto simp: quoted_db_def new_request_def default_config_def)

theorem pricing_propagates_witness:
  "(let src = empty_db\<lparr>pricing := Some \<lparr>pr_default = sample_price, perModel = [], updatedAt = 50, updatedBy = None\<rparr>\<rparr> in
    pricingFor (snd (post_pricing_push default_config ''k'' ''k'' (pricing_body default_config src) empty_db)) ''m'' = sample_price)"
proof -
  let ?src = "empty_db\<lparr>pricing := Some \<lparr>pr_default = sample_price, perModel = [], updatedAt = 50, updatedBy = None\<rparr>\<rparr>"
  have age: "updatedAt (loadPricing empty_db) < updatedAt (loadPricing ?src)" "pricingFor ?src ''m'' = sample_price"
    by code_simp+
  from pricing_propagates [of "''k''" "''u''" empty_db ?src empty_db _ default_config _ "''m''", OF _ _ age(1) age(1) refl refl] age(2)
  show ?thesis by (simp add: Let_def)
qed

theorem pricing_never_rolls_back_witness:
  "snd (post_pricing_push default_config ''k'' ''wrong'' (pricing_body default_config empty_db) quoted_db) = quoted_db"
  using pricing_never_rolls_back [of quoted_db default_config "''k''" "''wrong''" "pricing_body default_config empty_db"]
  by simp

theorem quote_bounds_cost_witness:
  "0 \<le> perToken (md_price sample_model)
   \<and> quoteFor (md_price sample_model) ''hi'' \<le> quoteFor (md_price sample_model) ''hello there''
   \<and> quoteFor (md_price sample_model) ''hi'' = round6 (2 + 1/64)"
proof -
  have v: "0 \<le> perToken (md_price sample_model)" "js_length ''hi'' \<le> js_length ''hello there''"
    "quoteFor (md_price sample_model) ''hi'' = round6 (2 + 1/64)" by code_simp+
  from quote_bounds_cost [OF v(1), of "''hi''" "''hello there''"] v show ?thesis by blast
qed

theorem active_bridges_exact_witness:
  "set (fst (activeBridgeUrls ''http://a'' 100 [(''http://b'', \<lparr>br_name = '''', br_expiresAt = 150\<rparr>),
      (''http://c'', \<lparr>br_name = '''', br_expiresAt = 90\<rparr>)])) = {''http://a'', ''http://b''}"
  using active_bridges_exact [of "[(''http://b'', \<lparr>br_name = '''', br_expiresAt = 150\<rparr>),
      (''http://c'', \<lparr>br_name = '''', br_expiresAt = 90\<rparr>)]" "''http://a''" 100]
  by (auto simp: keyed_def split: if_splits)

theorem model_ids_route_witness:
  "(let key = (\<lambda>u. replicate (8 - length u) CHR ''0'' @ take 8 u);
        ct = \<lparr>ct_id = ''ring'', ct_name = ''m'', ct_runtime_loaded = True, ct_serving = ''m.gguf'', ct_active_model = ''''\<rparr>
    in distinct (map md_id (fetchBridgeModels key empty_db (\<lambda>u. [ct]) [''a'', ''b'']))
       \<and> length (fetchBridgeModels key empty_db (\<lambda>u. [ct]) [''a'', ''b'']) = 2)"
proof -
  let ?key = "\<lambda>u. replicate (8 - length u) CHR ''0'' @ take 8 u"
  let ?ct = "\<lparr>ct_id = ''ring'', ct_name = ''m'', ct_runtime_loaded = True, ct_serving = ''m.gguf'', ct_active_model = ''''\<rparr>"
  have "inj_on ?key (set [''a'', ''b''])" by (simp add: inj_on_def)
  moreover have "\<forall>u. length (?key u) = 8" by (auto simp: min_def)
  moreover have "length (fetchBridgeModels ?key empty_db (\<lambda>u. [?ct]) [''a'', ''b'']) = 2"
    by (simp add: fetchBridgeModels_def fetchModelsFromBridge_def)
  ultimately show ?thesis
    using model_ids_route [of "[''a'', ''b'']" ?key "\<lambda>u. [?ct]" empty_db] by (simp del: length_append add: Let_def)
qed

end
