(* ===== verification/Gateway_Credits.thy ===== *)
theory Gateway_Credits
  imports Gateway_Pay
begin

text \<open>
  Prepaid credits (\<^verbatim>\<open>staking-service/server.js\<close>): the whitelist, the credit accounts and their
  audit trail, API keys (minting, rotation, revocation, bearer lookup), deposits and grants, the
  admission checks of the OpenAI-compatible route, the scan of a streamed answer for its token
  usage, and the debit.

  \<open>hashKey\<close> (SHA-256) is a parameter, and so is the fresh random key. Signed requests go through
  \<^verbatim>\<open>verifyLogin\<close>, which consumes the challenge, so those routes also take and return the pending
  challenges.
\<close>

section \<open>Configuration and accounts\<close>

record credit_config =
  CREDIT_WHITELIST :: "string list"
  CREDIT_UNMETERED :: "string list"
  UNMETERED_ALLOW_IPS :: "string list"
  CREDIT_OPEN_REGISTER :: bool

definition creditUnmetered :: "credit_config \<Rightarrow> string \<Rightarrow> bool" where
  "creditUnmetered cc w \<longleftrightarrow> w \<in> set (CREDIT_UNMETERED cc)"

record net_request =
  remoteAddress :: string
  cf_connecting_ip :: string

definition strip_ffff :: "string \<Rightarrow> string" where
  "strip_ffff s = (if starts_with s ''::ffff:'' then drop 7 s else s)"

definition callerIp :: "net_request \<Rightarrow> string" where
  "callerIp q = trim (if cf_connecting_ip q \<noteq> '''' then cf_connecting_ip q else strip_ffff (remoteAddress q))"

definition unmeteredIpAllowed :: "credit_config \<Rightarrow> net_request \<Rightarrow> bool" where
  "unmeteredIpAllowed cc q \<longleftrightarrow> UNMETERED_ALLOW_IPS cc = [] \<or> callerIp q \<in> set (UNMETERED_ALLOW_IPS cc)"

definition creditWhitelisted :: "credit_config \<Rightarrow> db \<Rightarrow> string \<Rightarrow> bool" where
  "creditWhitelisted cc d w \<longleftrightarrow> CREDIT_WHITELIST cc = [] \<or> w \<in> set (CREDIT_WHITELIST cc) \<or> w \<in> set (creditWhitelist d)"

definition new_account :: "int \<Rightarrow> credit_account" where
  "new_account now = \<lparr>balance = 0, granted = 0, deposited = 0, spent = 0, ca_createdAt = now, ca_updatedAt = now\<rparr>"

definition creditAcct :: "db \<Rightarrow> string \<Rightarrow> int \<Rightarrow> credit_account" where
  "creditAcct d w now = (case get (credits d) w of Some a \<Rightarrow> a | None \<Rightarrow> new_account now)"

definition open_acct :: "string \<Rightarrow> int \<Rightarrow> db \<Rightarrow> db" where
  "open_acct w now d = d\<lparr>credits := put w (creditAcct d w now) (credits d)\<rparr>"

definition push_audit :: "credit_audit \<Rightarrow> db \<Rightarrow> db" where
  "push_audit en d =
     (let l = creditAudit d @ [en] in d\<lparr>creditAudit := (if 1000 < length l then slice_last 1000 l else l)\<rparr>)"

section \<open>Moving the balance\<close>

definition debit_cost :: "db \<Rightarrow> string \<Rightarrow> rat \<Rightarrow> rat \<Rightarrow> rat" where
  "debit_cost d modelId pt ct =
     (let pr = pricingFor d modelId in round6 (fl (basePrice pr + fl (fl (pt + ct) * perToken pr))))"

definition debitCredits :: "string \<Rightarrow> string \<Rightarrow> rat \<Rightarrow> rat \<Rightarrow> int \<Rightarrow> db \<Rightarrow> rat \<times> db" where
  "debitCredits w modelId pt ct now d =
     (let a = creditAcct d w now;
          cost = debit_cost d modelId pt ct;
          a' = a\<lparr>balance := round6 (fl (balance a - cost)), spent := round6 (fl (spent a + cost)), ca_updatedAt := now\<rparr>
      in (cost, push_audit \<lparr>au_at = now, au_wallet = w, au_kind = Debit, au_amount = cost, au_balance = balance a'\<rparr>
                  (d\<lparr>credits := put w a' (credits d)\<rparr>)))"

text \<open>The grant and the deposit as the handlers run them, after their guards.\<close>

definition grant_credit :: "string \<Rightarrow> rat \<Rightarrow> int \<Rightarrow> db \<Rightarrow> db" where
  "grant_credit w amt now d =
     (let a = creditAcct d w now;
          a' = a\<lparr>balance := round6 (fl (balance a + amt)), granted := round6 (fl (granted a + amt)), ca_updatedAt := now\<rparr>
      in push_audit \<lparr>au_at = now, au_wallet = w, au_kind = Grant, au_amount = amt, au_balance = balance a'\<rparr>
           (d\<lparr>credits := put w a' (credits d)\<rparr>))"

definition deposit_credit :: "string \<Rightarrow> string \<Rightarrow> rat \<Rightarrow> int \<Rightarrow> db \<Rightarrow> db" where
  "deposit_credit w signature amt now d =
     (let a = creditAcct d w now;
          a' = a\<lparr>balance := round6 (fl (balance a + amt)), deposited := round6 (fl (deposited a + amt)), ca_updatedAt := now\<rparr>
      in push_audit \<lparr>au_at = now, au_wallet = w, au_kind = Deposit, au_amount = amt, au_balance = balance a'\<rparr>
           (d\<lparr>credits := put w a' (credits d),
              usedSignatures := put signature (UsedDeposit w amt now) (usedSignatures d)\<rparr>))"

definition post_grant :: "string \<Rightarrow> jsval \<Rightarrow> int \<Rightarrow> db \<Rightarrow> rat answer \<times> db" where
  "post_grant wallet amount now d =
     (let w = trim wallet in
      case to_number amount of
        Fin amt \<Rightarrow>
          if w = '''' \<or> amt \<le> 0 then (refuse 400 ''wallet and positive amount required'', d)
          else let d' = grant_credit w amt now d in (Inr (balance (creditAcct d' w now)), d')
      | _ \<Rightarrow> (refuse 400 ''wallet and positive amount required'', d))"

definition post_deposit ::
  "config \<Rightarrow> credit_config \<Rightarrow> (nat \<Rightarrow> parsed_tx option) \<Rightarrow> string \<Rightarrow> jsval \<Rightarrow> string \<Rightarrow> int \<Rightarrow> db \<Rightarrow> (rat \<times> rat) answer \<times> db" where
  "post_deposit c cc rpc wallet amount signature now d =
     (let w = trim wallet in
      case to_number amount of
        Fin amt \<Rightarrow>
          if w = '''' \<or> signature = '''' \<or> amt \<le> 0 then (refuse 400 ''wallet, amount, signature required'', d)
          else if \<not> creditWhitelisted cc d w then (refuse 403 ''wallet is not whitelisted'', d)
          else if get (usedSignatures d) signature \<noteq> None then (refuse 409 ''signature already used'', d)
          else (case verifyStakeTransfer c rpc w (Fin amt) of
                  Inl e \<Rightarrow> (Inl e, d)
                | Inr _ \<Rightarrow> let d' = deposit_credit w signature amt now d
                           in (Inr (amt, balance (creditAcct d' w now)), d'))
      | _ \<Rightarrow> (refuse 400 ''wallet, amount, signature required'', d))"

section \<open>Whitelist\<close>

definition whitelist_entry :: "audit_kind \<Rightarrow> string \<Rightarrow> int \<Rightarrow> credit_audit" where
  "whitelist_entry k w now = \<lparr>au_at = now, au_wallet = w, au_kind = k, au_amount = 0, au_balance = 0\<rparr>"

definition add_whitelist :: "audit_kind \<Rightarrow> string \<Rightarrow> int \<Rightarrow> db \<Rightarrow> bool \<times> db" where
  "add_whitelist k w now d =
     (if w \<in> set (creditWhitelist d) then (False, d)
      else (True, push_audit (whitelist_entry k w now) (open_acct w now (d\<lparr>creditWhitelist := creditWhitelist d @ [w]\<rparr>))))"

definition post_credits_register ::
  "credit_config \<Rightarrow> crypto \<Rightarrow> string \<Rightarrow> string \<Rightarrow> string \<Rightarrow> int \<Rightarrow> nonces \<Rightarrow> db \<Rightarrow> bool answer \<times> nonces \<times> db" where
  "post_credits_register cc cr wallet nonce signature now_ms ns d =
     (if \<not> CREDIT_OPEN_REGISTER cc then (refuse 403 ''self-registration is disabled'', ns, d)
      else let w = trim wallet; (ok, ns') = verifyLogin cr ns w nonce signature now_ms
           in if \<not> ok then (refuse 401 ''signature verification failed'', ns', d)
              else let (added, d') = add_whitelist WhitelistRegister w (now_ms div 1000) d in (Inr added, ns', d'))"

definition post_whitelist_add :: "string \<Rightarrow> int \<Rightarrow> db \<Rightarrow> bool answer \<times> db" where
  "post_whitelist_add wallet now d =
     (let w = trim wallet
      in if w = '''' then (refuse 400 ''wallet required'', d)
         else let (added, d') = add_whitelist WhitelistAdd w now d in (Inr added, d'))"

definition post_whitelist_remove :: "string \<Rightarrow> int \<Rightarrow> db \<Rightarrow> db" where
  "post_whitelist_remove wallet now d =
     (let w = trim wallet
      in push_audit (whitelist_entry WhitelistRemove w now)
           (d\<lparr>creditWhitelist := filter (\<lambda>x. x \<noteq> w) (creditWhitelist d)\<rparr>))"

section \<open>API keys\<close>

definition key_live :: "api_key \<Rightarrow> bool" where
  "key_live k \<longleftrightarrow> (case revokedAt k of None \<Rightarrow> True | Some t \<Rightarrow> t = 0)"

definition revoke_key :: "string \<Rightarrow> string \<Rightarrow> int \<Rightarrow> api_key \<Rightarrow> api_key" where
  "revoke_key w why now k =
     (if ak_wallet k = w \<and> key_live k then k\<lparr>revokedAt := Some now, revokedBy := why\<rparr> else k)"

definition revoke_all :: "string \<Rightarrow> string \<Rightarrow> int \<Rightarrow> db \<Rightarrow> db" where
  "revoke_all w why now d = d\<lparr>apiKeys := map_rows (\<lambda>_. revoke_key w why now) (apiKeys d)\<rparr>"

text \<open>\<open>key\<close> is the fresh key \<^verbatim>\<open>'kvr-' + randomBytes(24)\<close>; the answer carries it.\<close>

definition post_apikey ::
  "credit_config \<Rightarrow> crypto \<Rightarrow> string \<Rightarrow> string \<Rightarrow> string \<Rightarrow> string \<Rightarrow> string \<Rightarrow> bool \<Rightarrow> int \<Rightarrow> nonces \<Rightarrow> db
   \<Rightarrow> string answer \<times> nonces \<times> db" where
  "post_apikey cc cr key wallet nonce signature lbl replace now_ms ns d =
     (let w = trim wallet; (ok, ns') = verifyLogin cr ns w nonce signature now_ms; now = now_ms div 1000
      in if \<not> ok then (refuse 401 ''signature verification failed'', ns', d)
         else if \<not> creditWhitelisted cc d w then (refuse 403 ''wallet is not whitelisted'', ns', d)
         else let d1 = (if replace then revoke_all w ''replaced'' now d else d);
                  d2 = d1\<lparr>apiKeys := put (sha256 cr key)
                            \<lparr>ak_wallet = w, ak_label = lbl, ak_createdAt = now, revokedAt = None, revokedBy = ''''\<rparr> (apiKeys d1)\<rparr>
              in (Inr key, ns', open_acct w now d2))"

definition post_apikey_revoke ::
  "crypto \<Rightarrow> string \<Rightarrow> string \<Rightarrow> string \<Rightarrow> string \<Rightarrow> bool \<Rightarrow> int \<Rightarrow> nonces \<Rightarrow> db \<Rightarrow> unit answer \<times> nonces \<times> db" where
  "post_apikey_revoke cr wallet nonce signature apiKey everything now_ms ns d =
     (let w = trim wallet; (ok, ns') = verifyLogin cr ns w nonce signature now_ms; now = now_ms div 1000
      in if \<not> ok then (refuse 401 ''signature verification failed'', ns', d)
         else if apiKey = '''' \<and> \<not> everything then (refuse 400 ''apiKey or all required'', ns', d)
         else if everything then (Inr (), ns', revoke_all w ''owner'' now d)
         else let h = sha256 cr (trim apiKey)
              in case get (apiKeys d) h of
                   None \<Rightarrow> (refuse 404 ''no such key for this wallet'', ns', d)
                 | Some k \<Rightarrow>
                     if ak_wallet k \<noteq> w then (refuse 404 ''no such key for this wallet'', ns', d)
                     else (Inr (), ns', d\<lparr>apiKeys := put h (revoke_key w ''owner'' now k) (apiKeys d)\<rparr>))"

text \<open>\<open>bearer\<close> is the key of the authorization header, when it has the form \<^verbatim>\<open>Bearer <key>\<close>.\<close>

definition bearerWallet :: "crypto \<Rightarrow> string option \<Rightarrow> db \<Rightarrow> string option" where
  "bearerWallet cr bearer d =
     (case bearer of
        None \<Rightarrow> None
      | Some key \<Rightarrow>
          (case get (apiKeys d) (sha256 cr (trim key)) of
             None \<Rightarrow> None
           | Some k \<Rightarrow> if key_live k then Some (ak_wallet k) else None))"

section \<open>The OpenAI-compatible route\<close>

text \<open>The checks before anything is sent to a bridge: the wallet that will be charged.\<close>

definition chat_admission ::
  "config \<Rightarrow> credit_config \<Rightarrow> crypto \<Rightarrow> string option \<Rightarrow> net_request \<Rightarrow> int \<Rightarrow> db \<Rightarrow> string answer" where
  "chat_admission c cc cr bearer q now d =
     (case bearerWallet cr bearer d of
        None \<Rightarrow> refuse 401 ''invalid API key''
      | Some w \<Rightarrow>
          if w = '''' then refuse 401 ''invalid API key''
          else if \<not> creditWhitelisted cc d w then refuse 403 ''wallet is not whitelisted''
          else if creditUnmetered cc w then
            (if unmeteredIpAllowed cc q then Inr w else refuse 403 ''key not permitted from this address'')
          else if balance (creditAcct d w now) \<le> CREDIT_MIN_BALANCE c then refuse 402 ''insufficient credit balance; top up''
          else Inr w)"

text \<open>
  The scan of the streamed answer. \<open>usage_in\<close> stands for \<^verbatim>\<open>JSON.parse(payload).usage\<close>: \<open>None\<close> when the
  payload does not parse or carries no usage.
\<close>

record scan_state =
  sc_buf :: string
  sc_usage :: "(rat \<times> rat) option"

definition scan_line :: "(string \<Rightarrow> (rat \<times> rat) option) \<Rightarrow> string \<Rightarrow> (rat \<times> rat) option \<Rightarrow> (rat \<times> rat) option" where
  "scan_line usage_in raw usage =
     (let line = trim raw
      in if \<not> starts_with line ''data:'' then usage
         else let payload = trim (drop 5 line)
              in if payload = ''[DONE]'' then usage
                 else case usage_in payload of Some u \<Rightarrow> Some u | None \<Rightarrow> usage)"

function scan_while :: "(string \<Rightarrow> (rat \<times> rat) option) \<Rightarrow> string \<Rightarrow> (rat \<times> rat) option \<Rightarrow> scan_state" where
  "scan_while usage_in buf usage =
     (if newline \<in> set buf
      then scan_while usage_in (tl (dropWhile (\<lambda>c. c \<noteq> newline) buf))
             (scan_line usage_in (takeWhile (\<lambda>c. c \<noteq> newline) buf) usage)
      else \<lparr>sc_buf = buf, sc_usage = usage\<rparr>)"
  by pat_completeness auto
termination
proof (relation "measure (\<lambda>(f, buf, u). length buf)")
  fix usage_in :: "string \<Rightarrow> (rat \<times> rat) option" and buf usage
  assume "newline \<in> set buf"
  then have "dropWhile (\<lambda>c. c \<noteq> newline) buf \<noteq> []" by (simp add: dropWhile_eq_Nil_conv)
  moreover have "length (dropWhile (\<lambda>c. c \<noteq> newline) buf) \<le> length buf" by (rule length_dropWhile_le)
  ultimately show "((usage_in, tl (dropWhile (\<lambda>c. c \<noteq> newline) buf),
      scan_line usage_in (takeWhile (\<lambda>c. c \<noteq> newline) buf) usage), usage_in, buf, usage)
      \<in> measure (\<lambda>(f, buf, u). length buf)"
    by (cases "dropWhile (\<lambda>c. c \<noteq> newline) buf") auto
qed simp

declare scan_while.simps [simp del]

definition scan :: "(string \<Rightarrow> (rat \<times> rat) option) \<Rightarrow> string \<Rightarrow> scan_state \<Rightarrow> scan_state" where
  "scan usage_in text s = scan_while usage_in (sc_buf s @ text) (sc_usage s)"

text \<open>After the stream: debit when a usage was seen.\<close>

definition finish_stream :: "string \<Rightarrow> string \<Rightarrow> scan_state \<Rightarrow> int \<Rightarrow> db \<Rightarrow> db" where
  "finish_stream w modelId s now d =
     (case sc_usage s of None \<Rightarrow> d | Some (pt, ct) \<Rightarrow> snd (debitCredits w modelId pt ct now d))"

section \<open>Streams\<close>

lemma scan_while_append:
  "scan_while f (x @ y) u = scan_while f (sc_buf (scan_while f x u) @ y) (sc_usage (scan_while f x u))"
proof (induction f x u rule: scan_while.induct)
  case (1 f x u)
  show ?case
  proof (cases "newline \<in> set x")
    case True
    let ?rest = "tl (dropWhile (\<lambda>c. c \<noteq> newline) x)" and ?line = "takeWhile (\<lambda>c. c \<noteq> newline) x"
    have split: "takeWhile (\<lambda>c. c \<noteq> newline) (x @ y) = ?line"
      "tl (dropWhile (\<lambda>c. c \<noteq> newline) (x @ y)) = ?rest @ y"
      using True by (simp_all add: takeWhile_append1 dropWhile_append1 tl_append split: list.splits)
        (metis dropWhile_eq_Nil_conv)
    have "scan_while f (x @ y) u = scan_while f (?rest @ y) (scan_line f ?line u)"
      using True split by (subst scan_while.simps) simp
    moreover have "scan_while f x u = scan_while f ?rest (scan_line f ?line u)"
      using True by (subst scan_while.simps) simp
    ultimately show ?thesis using "1.IH" [OF True] by simp
  qed (simp add: scan_while.simps [of f x])
qed

text \<open>
  How the network cuts a stream does not change the bill. Feeding the chunks of an answer
  one by one to the scanner gives the same state, so the same token usage and the same debit, as
  feeding the whole text at once.
\<close>

theorem scan_chunks:
  "fold (scan f) chunks s = (if chunks = [] then s else scan f (concat chunks) s)
   \<and> (chunks \<noteq> [] \<longrightarrow> finish_stream w m (fold (scan f) chunks s) now d = finish_stream w m (scan f (concat chunks) s) now d)"
proof -
  have two: "scan f y (scan f x s) = scan f (x @ y) s" for x y s
    using scan_while_append [of f "sc_buf s @ x" y "sc_usage s"] by (simp add: scan_def)
  have "chunks \<noteq> [] \<Longrightarrow> fold (scan f) chunks s = scan f (concat chunks) s"
    by (induction chunks arbitrary: s rule: rev_nonempty_induct) (auto simp: two)
  then show ?thesis by simp
qed

section \<open>Accounts balance\<close>

text \<open>
  The account adds up: balance, grants, deposits and spending are doubles for whole millionths,
  and the balance is what came in less what was spent.
\<close>

definition acct_ok :: "credit_account \<Rightarrow> int \<Rightarrow> int \<Rightarrow> int \<Rightarrow> bool" where
  "acct_ok a g p s \<longleftrightarrow> balance a = micro (g + p - s) \<and> granted a = micro g \<and> deposited a = micro p \<and> spent a = micro s
     \<and> \<bar>g\<bar> \<le> 10 ^ 13 \<and> \<bar>p\<bar> \<le> 10 ^ 13 \<and> \<bar>s\<bar> \<le> 10 ^ 13"

lemma round6_as_micro: "round6 v = micro (js_round (fl (v * 1000000)))"
  by (simp add: round6_def micro_def)

lemma micro_add:
  assumes "\<bar>a\<bar> \<le> 10 ^ 14" "\<bar>b\<bar> \<le> 10 ^ 13"
  shows "round6 (fl (micro a + micro b)) = micro (a + b)" "round6 (fl (micro a - micro b)) = micro (a - b)"
proof -
  have near: "\<bar>micro k - of_int k / 1000000\<bar> \<le> 1 / 8000000" if "\<bar>k\<bar> \<le> 10 ^ 13" for k
    using micro_near [of k 44] that by simp
  have neg: "micro (- b) = - micro b" by (simp add: micro_def fl_minus)
  show "round6 (fl (micro a + micro b)) = micro (a + b)"
    using assms by (intro round6_micro_add near) auto
  have "round6 (fl (micro a + micro (- b))) = micro (a + (- b))"
    using assms by (intro round6_micro_add near) auto
  then show "round6 (fl (micro a - micro b)) = micro (a - b)" by (simp add: neg)
qed

lemma creditAcct_push [simp]: "creditAcct (push_audit e d) w now = creditAcct d w now"
  by (simp add: push_audit_def creditAcct_def Let_def)

lemma creditAcct_put [simp]:
  "creditAcct (d\<lparr>credits := put w a (credits d)\<rparr>) w now = a"
  "creditAcct (d\<lparr>credits := put w a (credits d), usedSignatures := u\<rparr>) w now = a"
  by (simp_all add: creditAcct_def table_simps)

text \<open>
  C12: the credit ledger balances to the millionth. If a wallet's account adds up, it still adds
  up after a debit of any usage, after a grant and after a deposit of an amount with at most six
  decimals, and the account of every other wallet is unchanged; the debit takes exactly the
  cost it reports.
\<close>

theorem credit_accounts_balance:
  assumes "acct_ok (creditAcct d w now) g p s" and "\<bar>k\<bar> \<le> 10 ^ 13" and "\<bar>g + k\<bar> \<le> 10 ^ 13" "\<bar>p + k\<bar> \<le> 10 ^ 13"
    and "debit_cost d m pt ct = micro j" and "\<bar>j\<bar> \<le> 10 ^ 13" and "\<bar>s + j\<bar> \<le> 10 ^ 13"
  shows "acct_ok (creditAcct (snd (debitCredits w m pt ct now d)) w now) g p (s + j)
    \<and> fst (debitCredits w m pt ct now d) = micro j
    \<and> acct_ok (creditAcct (grant_credit w (micro k) now d) w now) (g + k) p s
    \<and> acct_ok (creditAcct (deposit_credit w sig (micro k) now d) w now) g (p + k) s
    \<and> (\<forall>w'. w' \<noteq> w \<longrightarrow> get (credits (snd (debitCredits w m pt ct now d))) w' = get (credits d) w'
         \<and> get (credits (grant_credit w (micro k) now d)) w' = get (credits d) w'
         \<and> get (credits (deposit_credit w sig (micro k) now d)) w' = get (credits d) w')"
proof -
  let ?a = "creditAcct d w now"
  note cost = assms(5) and j = assms(6,7)
  have a: "balance ?a = micro (g + p - s)" "granted ?a = micro g" "deposited ?a = micro p" "spent ?a = micro s"
    and b: "\<bar>g\<bar> \<le> 10 ^ 13" "\<bar>p\<bar> \<le> 10 ^ 13" "\<bar>s\<bar> \<le> 10 ^ 13" "\<bar>g + p - s\<bar> \<le> 10 ^ 14"
    using assms(1) by (auto simp: acct_ok_def)
  note add = micro_add [OF b(4) j(1)] micro_add [OF b(4) assms(2)]
    micro_add [of s j] micro_add [of g k] micro_add [of p k]
  have "acct_ok (creditAcct (snd (debitCredits w m pt ct now d)) w now) g p (s + j)"
    using a b j add cost by (simp add: debitCredits_def Let_def acct_ok_def diff_diff_eq)
  moreover have "acct_ok (creditAcct (grant_credit w (micro k) now d) w now) (g + k) p s"
    using a b assms(2-4) add by (simp add: grant_credit_def Let_def acct_ok_def algebra_simps)
  moreover have "acct_ok (creditAcct (deposit_credit w sig (micro k) now d) w now) g (p + k) s"
    using a b assms(2-4) add by (simp add: deposit_credit_def Let_def acct_ok_def algebra_simps)
  moreover have "get (credits (snd (debitCredits w m pt ct now d))) w' = get (credits d) w'"
    "get (credits (grant_credit w (micro k) now d)) w' = get (credits d) w'"
    "get (credits (deposit_credit w sig (micro k) now d)) w' = get (credits d) w'" if "w' \<noteq> w" for w'
    using that by (simp_all add: debitCredits_def grant_credit_def deposit_credit_def push_audit_def Let_def table_simps)
  moreover have "fst (debitCredits w m pt ct now d) = micro j" by (simp add: debitCredits_def Let_def cost)
  ultimately show ?thesis by blast
qed

section \<open>API keys\<close>

lemma key_live_revoked: "now \<noteq> 0 \<Longrightarrow> ak_wallet k = w \<Longrightarrow> \<not> key_live (revoke_key w why now k)"
  by (auto simp: revoke_key_def key_live_def)

lemma revoke_key_other: "ak_wallet k \<noteq> w \<Longrightarrow> revoke_key w why now k = k"
  by (simp add: revoke_key_def)

lemma bearerWallet_Some:
  "bearerWallet cr b d = Some w \<longleftrightarrow>
   (\<exists>key k. b = Some key \<and> get (apiKeys d) (sha256 cr (trim key)) = Some k \<and> key_live k \<and> ak_wallet k = w)"
  by (auto simp: bearerWallet_def split: option.splits if_splits)

lemma get_revoke_all: "get (apiKeys (revoke_all w why now d)) h = map_option (revoke_key w why now) (get (apiKeys d) h)"
  by (simp add: revoke_all_def get_map_rows)

text \<open>
  Rotating a key withdraws every other. When a wallet is issued a key as a replacement, that
  key and no other (up to a hash collision) authenticates as the wallet from then on, and the
  keys of every other wallet work as before. The key is issued only to a signer of a live
  challenge of that wallet, which is consumed.
\<close>

theorem rotated_key_is_the_only_key:
  assumes "post_apikey cc cr key wallet nonce sig lbl True now_ms ns d = (Inr key', ns', d')"
    and "trim key = key" and "1000 \<le> now_ms"
  shows "key' = key \<and> bearerWallet cr (Some key) d' = Some (trim wallet)
    \<and> (\<forall>b. bearerWallet cr b d' = Some (trim wallet) \<longrightarrow> (\<exists>x. b = Some x \<and> sha256 cr (trim x) = sha256 cr key))
    \<and> (\<forall>b w. w \<noteq> trim wallet \<and> (\<forall>x. b = Some x \<longrightarrow> sha256 cr (trim x) \<noteq> sha256 cr key) \<longrightarrow>
          (bearerWallet cr b d' = Some w) = (bearerWallet cr b d = Some w))
    \<and> fst (verifyLogin cr ns (trim wallet) nonce sig now_ms) \<and> ns' = snd (verifyLogin cr ns (trim wallet) nonce sig now_ms)"
proof -
  let ?w = "trim wallet" and ?now = "now_ms div 1000"
  let ?k = "\<lparr>ak_wallet = ?w, ak_label = lbl, ak_createdAt = ?now, revokedAt = None, revokedBy = ''''\<rparr>"
  obtain ok ns0 where v: "verifyLogin cr ns ?w nonce sig now_ms = (ok, ns0)" by fastforce
  have res: "ok" "key' = key" "ns' = ns0"
    "d' = open_acct ?w ?now ((revoke_all ?w ''replaced'' ?now d)\<lparr>apiKeys :=
       put (sha256 cr key) ?k (apiKeys (revoke_all ?w ''replaced'' ?now d))\<rparr>)"
    using assms(1) v by (auto simp: post_apikey_def Let_def split: if_splits)
  have now: "?now \<noteq> 0" using assms(3) by auto
  have keys: "get (apiKeys d') h = (if h = sha256 cr key then Some ?k else map_option (revoke_key ?w ''replaced'' ?now) (get (apiKeys d) h))" for h
    by (simp add: res(4) open_acct_def tab.look_upd get_revoke_all)
  have live: "key_live ?k" by (simp add: key_live_def)
  have mine: "bearerWallet cr (Some key) d' = Some ?w"
    by (simp add: bearerWallet_Some keys assms(2) live)
  have only: "\<exists>x. b = Some x \<and> sha256 cr (trim x) = sha256 cr key" if b: "bearerWallet cr b d' = Some ?w" for b
  proof -
    from b obtain x k where x: "b = Some x" "get (apiKeys d') (sha256 cr (trim x)) = Some k" "key_live k" "ak_wallet k = ?w"
      by (auto simp: bearerWallet_Some)
    have "sha256 cr (trim x) = sha256 cr key"
    proof (rule ccontr)
      assume ne: "sha256 cr (trim x) \<noteq> sha256 cr key"
      then obtain k0 where k0: "k = revoke_key ?w ''replaced'' ?now k0" using x(2) by (auto simp: keys)
      have "ak_wallet k0 = ?w" using x(4) k0 by (auto simp: revoke_key_def split: if_splits)
      with key_live_revoked [OF now this] x(3) k0 show False by simp
    qed
    with x(1) show ?thesis by blast
  qed
  have others: "(bearerWallet cr b d' = Some w) = (bearerWallet cr b d = Some w)"
    if "w \<noteq> ?w" "\<forall>x. b = Some x \<longrightarrow> sha256 cr (trim x) \<noteq> sha256 cr key" for b w
    using that by (fastforce simp: bearerWallet_Some keys revoke_key_def key_live_def split: if_splits)
  show ?thesis using res v mine only others by simp
qed

text \<open>
  Only its owner can withdraw a key, and withdrawing works. A revocation that succeeds was
  signed by the wallet; afterwards the named key, or with \<^verbatim>\<open>all\<close> every key of the wallet, no longer
  authenticates; no key of another wallet changes, and naming another wallet's key is answered
  exactly like naming a key that does not exist.
\<close>

theorem revoked_key_is_dead:
  assumes "post_apikey_revoke cr wallet nonce sig apiKey everything now_ms ns d = (a, ns', d')" and "1000 \<le> now_ms"
  shows "(a = Inr () \<longrightarrow> fst (verifyLogin cr ns (trim wallet) nonce sig now_ms)
           \<and> (everything \<longrightarrow> (\<forall>b. bearerWallet cr b d' \<noteq> Some (trim wallet)))
           \<and> (\<not> everything \<longrightarrow> bearerWallet cr (Some apiKey) d' = None))
    \<and> (isl a \<longrightarrow> d' = d)
    \<and> (\<forall>h k. get (apiKeys d) h = Some k \<and> ak_wallet k \<noteq> trim wallet \<longrightarrow> get (apiKeys d') h = Some k)
    \<and> (\<forall>k. \<not> everything \<and> apiKey \<noteq> '''' \<and> fst (verifyLogin cr ns (trim wallet) nonce sig now_ms)
          \<and> get (apiKeys d) (sha256 cr (trim apiKey)) = Some k \<and> ak_wallet k \<noteq> trim wallet \<longrightarrow>
          a = refuse 404 ''no such key for this wallet'')"
proof -
  let ?w = "trim wallet" and ?now = "now_ms div 1000"
  have now: "?now \<noteq> 0" using assms(2) by auto
  obtain ok ns0 where v: "verifyLogin cr ns ?w nonce sig now_ms = (ok, ns0)" by fastforce
  have all_dead: "bearerWallet cr b (revoke_all ?w ''owner'' ?now d) \<noteq> Some ?w" for b
    using now by (auto simp: bearerWallet_Some get_revoke_all revoke_key_def key_live_def split: if_splits)
  show ?thesis
  proof (cases "ok \<and> \<not> (apiKey = '''' \<and> \<not> everything)")
    case True
    note ok = this
    show ?thesis
    proof (cases everything)
      case True
      then have "a = Inr ()" "d' = revoke_all ?w ''owner'' ?now d"
        using ok assms(1) v by (auto simp: post_apikey_revoke_def Let_def)
      then show ?thesis using all_dead ok v True by (auto simp: get_revoke_all revoke_key_other)
    next
      case False
      then have eq: "(a, ns', d') = (case get (apiKeys d) (sha256 cr (trim apiKey)) of
            None \<Rightarrow> (refuse 404 ''no such key for this wallet'', ns0, d)
          | Some k \<Rightarrow> if ak_wallet k \<noteq> ?w then (refuse 404 ''no such key for this wallet'', ns0, d)
              else (Inr (), ns0, d\<lparr>apiKeys := put (sha256 cr (trim apiKey)) (revoke_key ?w ''owner'' ?now k) (apiKeys d)\<rparr>))"
        using ok assms(1) v by (simp add: post_apikey_revoke_def Let_def)
      then show ?thesis using ok v False key_live_revoked [OF now, where w = ?w and why = "''owner''"]
        by (auto simp: bearerWallet_def tab.look_upd split: option.splits if_splits)
    qed
  qed (use assms(1) v in \<open>auto simp: post_apikey_revoke_def Let_def split: if_splits\<close>)
qed

section \<open>Admission\<close>

text \<open>
  What an admitted completion rests on. The request carried a live key of the wallet, the
  wallet is whitelisted, and either it holds more than the minimum balance or it is on the
  unmetered list and the caller's address is allowed.
\<close>

theorem admission_sound:
  assumes "chat_admission c cc cr bearer q now d = Inr w"
  shows "bearerWallet cr bearer d = Some w \<and> w \<noteq> '''' \<and> creditWhitelisted cc d w
    \<and> (creditUnmetered cc w \<and> unmeteredIpAllowed cc q
       \<or> \<not> creditUnmetered cc w \<and> CREDIT_MIN_BALANCE c < balance (creditAcct d w now))"
  using assms by (auto simp: chat_admission_def split: option.splits if_splits)

text \<open>
  The address binding of an unmetered key can be bypassed. The comment says that a forwarded
  header is consulted only for requests that arrived through the tunnel; the code takes
  \<^verbatim>\<open>cf-connecting-ip\<close> from any request. So from whatever address the connection really comes, a
  request that claims an allowed address in that header is allowed.
\<close>

theorem unmetered_ip_can_be_claimed:
  assumes "ip \<in> set (UNMETERED_ALLOW_IPS cc)" and "trim ip = ip" and "ip \<noteq> ''''"
  shows "unmeteredIpAllowed cc \<lparr>remoteAddress = direct, cf_connecting_ip = ip\<rparr>"
  using assms by (simp add: unmeteredIpAllowed_def callerIp_def)

text \<open>
  The audit trail is bounded and never forgets the latest entry: it holds at most a thousand
  entries, the newest last, and appending drops entries only from the front.
\<close>

theorem audit_bounded:
  assumes "length (creditAudit d) \<le> 1000"
  shows "length (creditAudit (push_audit e d)) \<le> 1000 \<and> last (creditAudit (push_audit e d)) = e
    \<and> (\<exists>k. creditAudit (push_audit e d) = drop k (creditAudit d @ [e]) \<and> k \<le> 1)"
proof (cases "length (creditAudit d) = 1000")
  case True
  then have "creditAudit (push_audit e d) = drop 1 (creditAudit d @ [e])"
    by (simp add: push_audit_def Let_def slice_last_def)
  then show ?thesis using True by (auto intro: exI [of _ 1])
next
  case False
  then have "creditAudit (push_audit e d) = creditAudit d @ [e]" using assms
    by (simp add: push_audit_def Let_def)
  then show ?thesis using False assms by (auto intro: exI [of _ 0])
qed

text \<open>
  A deposit is credited once and only for a verified transfer. When it succeeds the signature
  was unused and is recorded, the transfer was verified as sent by the wallet, and offering the
  signature again as a deposit is refused; a refused deposit changes nothing.
\<close>

theorem deposit_credits_once:
  "case post_deposit c cc rpc wallet amount sig now d of
     (Inl _, d') \<Rightarrow> d' = d
   | (Inr (amt, bal), d') \<Rightarrow>
       to_number amount = Fin amt \<and> 0 < amt \<and> get (usedSignatures d) sig = None
       \<and> get (usedSignatures d') sig = Some (UsedDeposit (trim wallet) amt now)
       \<and> (\<exists>p. verifyStakeTransfer c rpc (trim wallet) (Fin amt) = Inr p)
       \<and> bal = round6 (fl (balance (creditAcct d (trim wallet) now) + amt))
       \<and> (\<forall>rpc' wallet' amount' now'. snd (post_deposit c cc rpc' wallet' amount' sig now' d') = d'
            \<and> isl (fst (post_deposit c cc rpc' wallet' amount' sig now' d')))"
proof -
  have used: "get (usedSignatures (deposit_credit w sig amt now d)) sig = Some (UsedDeposit w amt now)" for w amt
    by (simp add: deposit_credit_def push_audit_def Let_def table_simps)
  have again: "snd (post_deposit c cc rpc' wallet' amount' sig now' d') = d'
      \<and> isl (fst (post_deposit c cc rpc' wallet' amount' sig now' d'))" if "get (usedSignatures d') sig \<noteq> None"
    for rpc' wallet' amount' now' d'
    using that by (auto simp: post_deposit_def Let_def split: jsnum.splits)
  have bal: "balance (creditAcct (deposit_credit w sig amt now d) w now) = round6 (fl (balance (creditAcct d w now) + amt))" for w amt
    by (simp add: deposit_credit_def Let_def)
  show ?thesis
    using used again bal by (auto simp: post_deposit_def Let_def split: jsnum.splits sum.splits)
qed

section \<open>Witnesses\<close>

definition open_credits :: credit_config where
  "open_credits = \<lparr>CREDIT_WHITELIST = [], CREDIT_UNMETERED = [''partner''], UNMETERED_ALLOW_IPS = [''10.0.0.7''],
     CREDIT_OPEN_REGISTER = True\<rparr>"

definition sample_wallet :: string where
  "sample_wallet = replicate 31 CHR ''1'' @ ''2''"

definition sample_nonces :: nonces where
  "sample_nonces = [(''abcd'', (sample_wallet, 300000))]"

definition keyed_db :: db where
  "keyed_db = empty_db\<lparr>apiKeys := [(''old'', \<lparr>ak_wallet = sample_wallet, ak_label = '''', ak_createdAt = 1, revokedAt = None, revokedBy = ''''\<rparr>),
     (''eve'', \<lparr>ak_wallet = ''eve'', ak_label = '''', ak_createdAt = 1, revokedAt = None, revokedBy = ''''\<rparr>)],
     credits := [(sample_wallet, (new_account 1)\<lparr>balance := 3, granted := 3\<rparr>)]\<rparr>"

theorem scan_chunks_witness:
  "(let f = (\<lambda>p. if p = ''U'' then Some (3, 4) else None); s0 = \<lparr>sc_buf = '''', sc_usage = None\<rparr>;
        chunks = [''da'', ''ta: U'' @ [newline], ''data: [DONE]'' @ [newline]]
    in sc_usage (fold (scan f) chunks s0) = Some (3, 4) \<and> fold (scan f) chunks s0 = scan f (concat chunks) s0)"
proof -
  let ?f = "\<lambda>p. if p = ''U'' then Some (3, 4) else None" and ?s = "\<lparr>sc_buf = '''', sc_usage = None\<rparr>"
  let ?c = "[''da'', ''ta: U'' @ [newline], ''data: [DONE]'' @ [newline]]"
  have "sc_usage (fold (scan ?f) ?c ?s) = Some (3, 4)" by code_simp
  then show ?thesis using scan_chunks [where f = ?f and chunks = ?c and s = ?s] by (simp add: Let_def)
qed

theorem credit_accounts_balance_witness:
  "acct_ok (creditAcct (snd (debitCredits sample_wallet ''m'' 10 20 2000 keyed_db)) sample_wallet 2000) 3000000 0 800000
   \<and> fst (debitCredits sample_wallet ''m'' 10 20 2000 keyed_db) = micro 800000"
proof -
  have v: "acct_ok (creditAcct keyed_db sample_wallet 2000) 3000000 0 0" "debit_cost keyed_db ''m'' 10 20 = micro 800000"
    by code_simp+
  from credit_accounts_balance [OF v(1) _ _ _ v(2), of 0] show ?thesis by simp
qed

theorem rotated_key_is_the_only_key_witness:
  "(case post_apikey open_credits toy_crypto ''kvr-new'' sample_wallet ''abcd'' ''sig'' '''' True 5000 sample_nonces keyed_db of
     (Inr key, ns', d') \<Rightarrow> bearerWallet toy_crypto (Some key) d' = Some sample_wallet
        \<and> bearerWallet toy_crypto (Some ''old'') d' \<noteq> Some sample_wallet
        \<and> bearerWallet toy_crypto (Some ''eve'') d' = Some ''eve''
   | _ \<Rightarrow> False)"
proof -
  let ?p = "post_apikey open_credits toy_crypto ''kvr-new'' sample_wallet ''abcd'' ''sig'' '''' True 5000 sample_nonces keyed_db"
  have ok: "\<not> isl (fst ?p)" "trim sample_wallet = sample_wallet" "trim ''kvr-new'' = ''kvr-new''"
    "trim ''old'' = ''old''" "trim ''eve'' = ''eve''" "bearerWallet toy_crypto (Some ''eve'') keyed_db = Some ''eve''"
    "sample_wallet \<noteq> ''eve''" by code_simp+
  obtain key ns' d' where p: "?p = (Inr key, ns', d')" using ok(1) by (cases ?p; cases "fst ?p") auto
  have sha: "sha256 toy_crypto x = x" for x by (simp add: toy_crypto_def)
  from rotated_key_is_the_only_key [OF p ok(3)] ok(2,4-7) p show ?thesis by (auto simp: sha)
qed

theorem revoked_key_is_dead_witness:
  "(case post_apikey_revoke toy_crypto sample_wallet ''abcd'' ''sig'' ''old'' False 5000 sample_nonces keyed_db of
     (a, ns', d') \<Rightarrow> a = Inr () \<and> bearerWallet toy_crypto (Some ''old'') d' = None)"
proof -
  let ?p = "post_apikey_revoke toy_crypto sample_wallet ''abcd'' ''sig'' ''old'' False 5000 sample_nonces keyed_db"
  have ok: "fst ?p = Inr ()" by code_simp
  obtain a ns' d' where p: "?p = (a, ns', d')" by (cases ?p) auto
  from revoked_key_is_dead [OF p] ok p show ?thesis by simp
qed

theorem admission_sound_witness:
  "chat_admission default_config open_credits toy_crypto (Some ''old'') \<lparr>remoteAddress = ''1.2.3.4'', cf_connecting_ip = ''''\<rparr> 9 keyed_db
     = Inr sample_wallet
   \<and> CREDIT_MIN_BALANCE default_config < balance (creditAcct keyed_db sample_wallet 9)"
proof -
  have v: "chat_admission default_config open_credits toy_crypto (Some ''old'') \<lparr>remoteAddress = ''1.2.3.4'', cf_connecting_ip = ''''\<rparr> 9 keyed_db
      = Inr sample_wallet" "\<not> creditUnmetered open_credits sample_wallet" by code_simp+
  from admission_sound [OF v(1)] v show ?thesis by simp
qed

theorem unmetered_ip_can_be_claimed_witness:
  "unmeteredIpAllowed open_credits \<lparr>remoteAddress = ''203.0.113.9'', cf_connecting_ip = ''10.0.0.7''\<rparr>
   \<and> \<not> unmeteredIpAllowed open_credits \<lparr>remoteAddress = ''203.0.113.9'', cf_connecting_ip = ''''\<rparr>"
proof -
  have v: "\<not> unmeteredIpAllowed open_credits \<lparr>remoteAddress = ''203.0.113.9'', cf_connecting_ip = ''''\<rparr>"
    "trim ''10.0.0.7'' = ''10.0.0.7''" by code_simp+
  with unmetered_ip_can_be_claimed [of "''10.0.0.7''" open_credits "''203.0.113.9''"] show ?thesis
    by (simp add: open_credits_def)
qed

theorem audit_bounded_witness:
  "last (creditAudit (push_audit (whitelist_entry Grant ''w'' 1) empty_db)) = whitelist_entry Grant ''w'' 1"
  using audit_bounded [of empty_db "whitelist_entry Grant ''w'' 1"] by (simp add: empty_db_def)

theorem deposit_credits_once_witness:
  "(let r = post_deposit default_config open_credits sample_rpc ''alice'' (Num (Fin 5)) ''sig'' 2000 empty_db in
    fst r = Inr (5, 5) \<and> get (usedSignatures (snd r)) ''sig'' = Some (UsedDeposit ''alice'' 5 2000))"
proof -
  let ?r = "post_deposit default_config open_credits sample_rpc ''alice'' (Num (Fin 5)) ''sig'' 2000 empty_db"
  have v: "fst ?r = Inr (5, 5)" "trim ''alice'' = ''alice''" by code_simp+
  then obtain d' where "?r = (Inr (5, 5), d')" by (cases ?r) auto
  with deposit_credits_once [where c = default_config and cc = open_credits and rpc = sample_rpc and wallet = "''alice''"
      and amount = "Num (Fin 5)" and sig = "''sig''" and now = 2000 and d = empty_db] v
  show ?thesis by simp
qed

end
