(* ===== verification/Gateway_Locks.thy ===== *)
theory Gateway_Locks
  imports Gateway_Credits
begin

text \<open>
  Concurrency of the gateway (\<^verbatim>\<open>staking-service/server.js\<close>, \<^verbatim>\<open>withLock\<close>). The process is single-threaded:
  code between two awaits runs alone. A locked section loads the whole ledger, awaits the chain, and
  saves the whole ledger; other requests run while it waits. \<^verbatim>\<open>withLock\<close> chains the sections of one key
  on a promise, so a section starts when the previous one of its key has settled, however it settled.

  The state is a step relation over explicit queues: \<open>queues\<close> is \<^verbatim>\<open>_lockTail\<close> (for each key the
  sections chained on it, the running one first; the key is dropped when its chain drains), \<open>loaded\<close>
  holds the ledger that each running section loaded, \<open>payouts\<close> the on-chain payments made so far. A
  section is a function from the loaded ledger to the payments it makes and the ledger it saves, or
  \<open>None\<close> when it throws before saving.
\<close>

type_synonym section_fun = "db \<Rightarrow> (string \<times> rat) list \<times> db option"

record lock_state =
  ledger :: db
  queues :: "(string \<times> nat list) list"
  loaded :: "(nat \<times> db) list"
  payouts :: "(string \<times> rat) list"
  arrived :: "nat list"
  settled :: "nat list"

definition lock_init :: "db \<Rightarrow> lock_state" where
  "lock_init d = \<lparr>ledger = d, queues = [], loaded = [], payouts = [], arrived = [], settled = []\<rparr>"

text \<open>\<open>withLock key fn\<close>: an empty key stands for \<^verbatim>\<open>'*'\<close>; the section joins the chain of its key.\<close>

definition lock_key :: "string \<Rightarrow> string" where
  "lock_key key = (if key = '''' then ''*'' else key)"

definition chain :: "string \<Rightarrow> lock_state \<Rightarrow> nat list" where
  "chain k s = (case get (queues s) k of Some q \<Rightarrow> q | None \<Rightarrow> [])"

definition withLock :: "string \<Rightarrow> nat \<Rightarrow> lock_state \<Rightarrow> lock_state" where
  "withLock key t s =
     s\<lparr>queues := put (lock_key key) (chain (lock_key key) s @ [t]) (queues s), arrived := arrived s @ [t]\<rparr>"

text \<open>The section at the front of its chain starts: \<^verbatim>\<open>loadDB()\<close>.\<close>

definition start_section :: "nat \<Rightarrow> lock_state \<Rightarrow> lock_state" where
  "start_section t s = s\<lparr>loaded := put t (ledger s) (loaded s)\<rparr>"

text \<open>Its promise settles: \<^verbatim>\<open>saveDB\<close> unless it threw, and the next of the chain may start.\<close>

definition release :: "string \<Rightarrow> nat list \<Rightarrow> (string \<times> nat list) list \<Rightarrow> (string \<times> nat list) list" where
  "release k q qs = (if tl q = [] then del k qs else put k (tl q) qs)"

definition settle_section :: "string \<Rightarrow> section_fun \<Rightarrow> nat \<Rightarrow> db \<Rightarrow> lock_state \<Rightarrow> lock_state" where
  "settle_section key f t snap s =
     (let (ps, out) = f snap; k = lock_key key
      in s\<lparr>ledger := (case out of None \<Rightarrow> ledger s | Some d \<Rightarrow> d),
           queues := release k (chain k s) (queues s), loaded := del t (loaded s),
           payouts := payouts s @ ps, settled := settled s @ [t]\<rparr>)"

inductive lock_step :: "(nat \<Rightarrow> string) \<Rightarrow> (nat \<Rightarrow> section_fun) \<Rightarrow> lock_state \<Rightarrow> lock_state \<Rightarrow> bool"
  for key :: "nat \<Rightarrow> string" and body :: "nat \<Rightarrow> section_fun" where
  arrive: "t \<notin> set (arrived s) \<Longrightarrow> lock_step key body s (withLock (key t) t s)"
| start: "chain (lock_key (key t)) s = t # q \<Longrightarrow> get (loaded s) t = None \<Longrightarrow> lock_step key body s (start_section t s)"
| settle: "get (loaded s) t = Some snap \<Longrightarrow> lock_step key body s (settle_section (key t) (body t) t snap s)"

inductive_cases lock_stepE: "lock_step key body s s'"

abbreviation lock_run :: "(nat \<Rightarrow> string) \<Rightarrow> (nat \<Rightarrow> section_fun) \<Rightarrow> lock_state \<Rightarrow> lock_state \<Rightarrow> bool" where
  "lock_run key body \<equiv> (lock_step key body)\<^sup>*\<^sup>*"

text \<open>The sections of \<^verbatim>\<open>/api/node/claim\<close>, with the payout going through.\<close>

definition claim_section :: "config \<Rightarrow> (string \<Rightarrow> rat \<Rightarrow> string option) \<Rightarrow> string \<Rightarrow> section_fun" where
  "claim_section c pay own d =
     (case post_claim c own pay d of
        (Inl _, _) \<Rightarrow> ([], None)
      | (Inr (sig, amount), d') \<Rightarrow> ([(own, amount)], Some d'))"

section \<open>Mutual exclusion\<close>

definition lock_inv :: "(nat \<Rightarrow> string) \<Rightarrow> lock_state \<Rightarrow> bool" where
  "lock_inv key s \<longleftrightarrow>
     (\<forall>k. get (queues s) k \<noteq> Some [] \<and> distinct (chain k s))
     \<and> (\<forall>k. \<forall>t \<in> set (chain k s). lock_key (key t) = k \<and> t \<in> set (arrived s))
     \<and> (\<forall>t. get (loaded s) t \<noteq> None \<longrightarrow> (\<exists>q. chain (lock_key (key t)) s = t # q))"

lemma lock_invI:
  assumes "\<And>k. get (queues s) k \<noteq> Some []" and "\<And>k. distinct (chain k s)"
    and "\<And>k t. t \<in> set (chain k s) \<Longrightarrow> lock_key (key t) = k \<and> t \<in> set (arrived s)"
    and "\<And>t snap. get (loaded s) t = Some snap \<Longrightarrow> \<exists>q. chain (lock_key (key t)) s = t # q"
  shows "lock_inv key s"
  using assms by (auto simp: lock_inv_def)

lemma lock_invD:
  assumes "lock_inv key s"
  shows "get (queues s) k \<noteq> Some []" and "distinct (chain k s)"
    and "t \<in> set (chain k s) \<Longrightarrow> lock_key (key t) = k \<and> t \<in> set (arrived s)"
    and "get (loaded s) t = Some snap \<Longrightarrow> \<exists>q. chain (lock_key (key t)) s = t # q"
  using assms by (auto simp: lock_inv_def)

lemma lock_inv_init: "lock_inv key (lock_init d)"
  by (simp add: lock_inv_def lock_init_def chain_def)

lemma withLock_fields [simp]:
  "chain k (withLock x t s) = (if k = lock_key x then chain k s @ [t] else chain k s)"
  "loaded (withLock x t s) = loaded s" "arrived (withLock x t s) = arrived s @ [t]" "ledger (withLock x t s) = ledger s"
  "get (queues (withLock x t s)) k = (if k = lock_key x then Some (chain k s @ [t]) else get (queues s) k)"
  by (auto simp: withLock_def chain_def tab.look_upd)

lemma start_fields [simp]:
  "chain k (start_section t s) = chain k s" "queues (start_section t s) = queues s"
  "get (loaded (start_section t s)) u = (if u = t then Some (ledger s) else get (loaded s) u)"
  "arrived (start_section t s) = arrived s" "ledger (start_section t s) = ledger s"
  by (auto simp: start_section_def chain_def tab.look_upd)

lemma settle_fields:
  assumes "chain (lock_key x) s = t # q"
  shows "chain k (settle_section x f t snap s) = (if k = lock_key x then q else chain k s)"
    and "get (queues (settle_section x f t snap s)) k
         = (if k = lock_key x then (if q = [] then None else Some q) else get (queues s) k)"
    and "get (loaded (settle_section x f t snap s)) u = (if u = t then None else get (loaded s) u)"
    and "arrived (settle_section x f t snap s) = arrived s"
    and "settled (settle_section x f t snap s) = settled s @ [t]"
    and "ledger (settle_section x f t snap s) = (case snd (f snap) of None \<Rightarrow> ledger s | Some d \<Rightarrow> d)"
    and "payouts (settle_section x f t snap s) = payouts s @ fst (f snap)"
  using assms
  by (auto simp: settle_section_def Let_def release_def chain_def tab.look_upd tab.look_rem split: prod.splits)

lemma lock_inv_arrive:
  assumes inv: "lock_inv key s" and "t \<notin> set (arrived s)"
  shows "lock_inv key (withLock (key t) t s)"
proof (rule lock_invI)
  show "distinct (chain k (withLock (key t) t s))" for k
    using lock_invD(2) [OF inv, of k] lock_invD(3) [OF inv, of t k] assms(2) by auto
  show "lock_key (key u) = k \<and> u \<in> set (arrived (withLock (key t) t s))"
    if "u \<in> set (chain k (withLock (key t) t s))" for k u
    using that lock_invD(3) [OF inv, of u k] by (auto split: if_splits)
  show "\<exists>q. chain (lock_key (key u)) (withLock (key t) t s) = u # q"
    if "get (loaded (withLock (key t) t s)) u = Some snap" for u snap
    using lock_invD(4) [OF inv, of u snap] that by auto
qed (use lock_invD(1) [OF inv] in simp)

lemma lock_inv_start:
  assumes inv: "lock_inv key s" and "chain (lock_key (key t)) s = t # q"
  shows "lock_inv key (start_section t s)"
proof (rule lock_invI)
  show "\<exists>q. chain (lock_key (key u)) (start_section t s) = u # q"
    if "get (loaded (start_section t s)) u = Some snap" for u snap
    using that assms(2) lock_invD(4) [OF inv, of u snap] by (auto split: if_splits)
qed (use lock_invD [OF inv] in \<open>auto simp del: not_None_eq\<close>)

lemma lock_inv_settle:
  assumes inv: "lock_inv key s" and t: "get (loaded s) t = Some snap"
  shows "lock_inv key (settle_section (key t) f t snap s)"
proof -
  obtain q where q: "chain (lock_key (key t)) s = t # q" using lock_invD(4) [OF inv t] by blast
  note fields = settle_fields [OF q]
  show ?thesis
  proof (rule lock_invI; unfold fields)
    show "(if k = lock_key (key t) then if q = [] then None else Some q else get (queues s) k) \<noteq> Some []" for k
      using lock_invD(1) [OF inv, of k] by simp
    show "distinct (if k = lock_key (key t) then q else chain k s)" for k
      using lock_invD(2) [OF inv, of k] q by auto
    show "lock_key (key u) = k \<and> u \<in> set (arrived s)"
      if "u \<in> set (if k = lock_key (key t) then q else chain k s)" for k u
      using that lock_invD(3) [OF inv, of u k] q by (auto split: if_splits)
    show "\<exists>q'. (if lock_key (key u) = lock_key (key t) then q else chain (lock_key (key u)) s) = u # q'"
      if "(if u = t then None else get (loaded s) u) = Some z" for u z
      using that lock_invD(4) [OF inv, of u z] q by (auto split: if_splits)
  qed
qed

lemma lock_inv_step: "lock_step key body s s' \<Longrightarrow> lock_inv key s \<Longrightarrow> lock_inv key s'"
  by (erule lock_stepE) (auto intro: lock_inv_arrive lock_inv_start lock_inv_settle)

lemma lock_inv_run: "lock_run key body s s' \<Longrightarrow> lock_inv key s \<Longrightarrow> lock_inv key s'"
  by (induction rule: rtranclp_induct) (auto intro: lock_inv_step)


section \<open>One key: sections serialise\<close>

text \<open>What a list of sections does when each runs alone, in that order.\<close>

definition run_section :: "section_fun \<Rightarrow> (string \<times> rat) list \<times> db \<Rightarrow> (string \<times> rat) list \<times> db" where
  "run_section f x = (fst x @ fst (f (snd x)), case snd (f (snd x)) of None \<Rightarrow> snd x | Some d \<Rightarrow> d)"

definition run_alone :: "(nat \<Rightarrow> section_fun) \<Rightarrow> nat list \<Rightarrow> db \<Rightarrow> (string \<times> rat) list \<times> db" where
  "run_alone body ts d = fold (\<lambda>t. run_section (body t)) ts ([], d)"

lemma run_alone_snoc: "run_alone body (ts @ [t]) d = run_section (body t) (run_alone body ts d)"
  by (simp add: run_alone_def)

definition one_key_inv :: "(nat \<Rightarrow> string) \<Rightarrow> (nat \<Rightarrow> section_fun) \<Rightarrow> db \<Rightarrow> lock_state \<Rightarrow> bool" where
  "one_key_inv key body d s \<longleftrightarrow> lock_inv key s \<and> (payouts s, ledger s) = run_alone body (settled s) d
     \<and> (\<forall>t snap. get (loaded s) t = Some snap \<longrightarrow> snap = ledger s)
     \<and> (\<forall>k. arrived s = settled s @ chain (lock_key (key k)) s)"

lemma one_key_step:
  assumes "lock_step key body s s'" and inv: "one_key_inv key body d s"
    and same: "\<And>t u. lock_key (key t) = lock_key (key u)"
  shows "one_key_inv key body d s'"
  using assms(1)
proof (cases rule: lock_step.cases)
  case (arrive t)
  have "lock_inv key s'" using arrive inv by (auto simp: one_key_inv_def intro: lock_inv_arrive)
  moreover have "settled s' = settled s" "payouts s' = payouts s" using arrive by (simp_all add: withLock_def)
  moreover have "\<And>k. arrived s' = settled s @ chain (lock_key (key k)) s'"
    using inv arrive same [of _ t] by (simp add: one_key_inv_def)
  ultimately show ?thesis using inv arrive by (auto simp: one_key_inv_def)
next
  case (start t q)
  have "lock_inv key s'" using start inv by (auto simp: one_key_inv_def intro: lock_inv_start)
  moreover have "settled s' = settled s" "payouts s' = payouts s" using start by (simp_all add: start_section_def)
  ultimately show ?thesis using inv start by (auto simp: one_key_inv_def split: if_splits)
next
  case (settle t snap)
  have li: "lock_inv key s" and snap: "snap = ledger s" using inv settle by (auto simp: one_key_inv_def)
  obtain q where q: "chain (lock_key (key t)) s = t # q" using lock_invD(4) [OF li settle(2)] by blast
  note fields = settle_fields [OF q, where f = "body t" and snap = snap, folded settle(1)]
  have "lock_inv key s'" unfolding settle(1) by (rule lock_inv_settle [OF li settle(2)])
  moreover have "get (loaded s') u = None" for u
  proof (rule ccontr)
    assume "get (loaded s') u \<noteq> None"
    then obtain z where "get (loaded s) u = Some z" "u \<noteq> t" by (auto simp: fields split: if_splits)
    with lock_invD(4) [OF li, of u z] q same [of u t] show False by auto
  qed
  moreover have "(payouts s', ledger s') = run_alone body (settled s') d"
    using inv snap unfolding fields run_alone_snoc
    by (simp add: one_key_inv_def run_section_def) (metis fst_conv snd_conv)
  moreover have "arrived s' = settled s' @ chain (lock_key (key k)) s'" for k
  proof -
    have "arrived s = settled s @ chain (lock_key (key t)) s" using inv by (simp add: one_key_inv_def)
    then show ?thesis using q same [of k t] by (simp add: fields)
  qed
  ultimately show ?thesis by (simp add: one_key_inv_def)
qed


section \<open>Two keys: a claim can be paid twice\<close>

lemma settle_claim_other: "own' \<noteq> own \<Longrightarrow> operatorRewards (settle_claim own' d) own = operatorRewards d own"
  by (simp add: operatorRewards_def other_owned)

lemma claim_section_ok:
  assumes "fl (1 / 10 ^ 9) < operatorRewards d own" "MIN_CLAIM c \<le> operatorRewards d own" "own \<noteq> ''''"
    and "pay own (operatorRewards d own) = Some sig"
  shows "claim_section c pay own d = ([(own, operatorRewards d own)], Some (settle_claim own d))"
  using assms by (simp add: claim_section_def post_claim_def Let_def)

lemma run_of_three: "r a b \<Longrightarrow> r b c \<Longrightarrow> r c d \<Longrightarrow> r\<^sup>*\<^sup>* a d"
  by (meson converse_rtranclp_into_rtranclp r_into_rtranclp)

lemma lost_update_run:
  assumes ab: "lock_key ka \<noteq> lock_key kb"
    and fa: "fa d = (pa, Some da)" and fb: "fb d = (pb, Some db')"
  defines "key \<equiv> \<lambda>t :: nat. if t = 0 then ka else kb" and "body \<equiv> \<lambda>t :: nat. if t = 0 then fa else fb"
  shows "\<exists>s. lock_run key body (lock_init d) s \<and> ledger s = db' \<and> payouts s = pa @ pb \<and> loaded s = []"
proof -
  let ?s0 = "lock_init d"
  let ?s1 = "withLock ka 0 ?s0" let ?s2 = "withLock kb 1 ?s1"
  let ?s3 = "start_section 0 ?s2" let ?s4 = "start_section 1 ?s3"
  let ?s5 = "settle_section ka fa 0 d ?s4" let ?s6 = "settle_section kb fb 1 d ?s5"
  have empty: "chain k ?s0 = []" for k by (simp add: lock_init_def chain_def)
  have ca: "chain (lock_key ka) ?s4 = 0 # []" using ab by (simp add: empty)
  note f5 = settle_fields [OF ca, where f = fa and snap = d]
  have cb: "chain (lock_key kb) ?s5 = 1 # []" unfolding f5 using ab by (simp add: empty)
  have ld: "get (loaded ?s2) t = None" "ledger ?s2 = d" "get (loaded ?s4) t = (if t = 0 \<or> t = 1 then Some d else None)" for t
    by (auto simp: lock_init_def)
  have 1: "lock_step key body ?s0 ?s1"
    using lock_step.arrive [of 0 ?s0 key body] by (simp add: key_def lock_init_def)
  have 2: "lock_step key body ?s1 ?s2"
    using lock_step.arrive [of 1 ?s1 key body] by (simp add: key_def lock_init_def)
  have 3: "lock_step key body ?s2 ?s3"
    using lock_step.start [of key 0 ?s2 "[]" body] ab by (simp add: key_def empty) (simp add: lock_init_def)
  have 4: "lock_step key body ?s3 ?s4"
    using lock_step.start [of key 1 ?s3 "[]" body] ab by (simp add: key_def empty) (simp add: lock_init_def)
  have 5: "lock_step key body ?s4 ?s5"
    using lock_step.settle [of ?s4 0 d key body] ld(3) [of 0] by (simp add: key_def body_def)
  have "get (loaded ?s5) 1 = Some d" unfolding f5 using ld(3) [of 1] by simp
  from lock_step.settle [of ?s5 1 d key body, OF this] have 6: "lock_step key body ?s5 ?s6"
    by (simp add: key_def body_def)
  have run: "lock_run key body ?s0 ?s6"
    by (rule rtranclp_trans [OF run_of_three [of "lock_step key body", OF 1 2 3]
          run_of_three [of "lock_step key body", OF 4 5 6]])
  note f6 = settle_fields [OF cb, where f = fb and snap = d]
  have "get (loaded ?s6) t = None" for t unfolding f6 f5 ld(3) by simp
  then have "loaded ?s6 = []" using map_of_eq_empty_iff [of "loaded ?s6"] by blast
  moreover have "ledger ?s6 = db'" "payouts ?s6 = pa @ pb"
    unfolding f6 f5 by (simp_all add: fa fb) (simp add: start_section_def withLock_def lock_init_def)
  ultimately show ?thesis using run by blast
qed

text \<open>
  C40: the lock is per owner but the ledger is one file. Two operators who claim at the same time
  hold different locks; the claim that saves last writes back the ledger it loaded before the
  other saved. There is a run in which both are paid in full and afterwards the first operator's
  whole balance is pending again, so that a further claim pays it a second time.
\<close>

theorem concurrent_claims_pay_twice:
  assumes "own \<noteq> ''''" "own' \<noteq> ''''" "own \<noteq> own'" "lock_key own \<noteq> lock_key own'"
    and "fl (1 / 10 ^ 9) < operatorRewards d own" "MIN_CLAIM c \<le> operatorRewards d own"
    and "fl (1 / 10 ^ 9) < operatorRewards d own'" "MIN_CLAIM c \<le> operatorRewards d own'"
    and "\<forall>w x. \<exists>sig. pay w x = Some sig"
  shows "\<exists>key body s. (\<forall>t. \<exists>w. key t = w \<and> body t = claim_section c pay w)
    \<and> lock_run key body (lock_init d) s \<and> loaded s = []
    \<and> payouts s = [(own, operatorRewards d own), (own', operatorRewards d own')]
    \<and> operatorRewards (ledger s) own = operatorRewards d own
    \<and> fst (claim_section c pay own (ledger s)) = [(own, operatorRewards d own)]"
proof -
  let ?key = "\<lambda>t :: nat. if t = 0 then own else own'"
  let ?body = "\<lambda>t :: nat. if t = 0 then claim_section c pay own else claim_section c pay own'"
  have claim: "claim_section c pay w x = ([(w, operatorRewards x w)], Some (settle_claim w x))"
    if "fl (1 / 10 ^ 9) < operatorRewards x w" "MIN_CLAIM c \<le> operatorRewards x w" "w \<noteq> ''''" for w x
    using assms(9) claim_section_ok [OF that] by metis
  obtain s where s: "lock_run ?key ?body (lock_init d) s" "ledger s = settle_claim own' d"
    "payouts s = [(own, operatorRewards d own)] @ [(own', operatorRewards d own')]" "loaded s = []"
    using lost_update_run [where fa = "claim_section c pay own" and fb = "claim_section c pay own'",
        OF assms(4) claim [OF assms(5,6,1)] claim [OF assms(7,8,2)]] by blast
  have again: "operatorRewards (ledger s) own = operatorRewards d own"
    using assms(3) by (simp add: s(2) settle_claim_other)
  have "fst (claim_section c pay own (ledger s)) = [(own, operatorRewards d own)]"
    using claim [of "ledger s" own] assms(1,5,6) again by simp
  moreover have "\<forall>t. \<exists>w. ?key t = w \<and> ?body t = claim_section c pay w" by auto
  ultimately show ?thesis using s again by (intro exI [of _ ?key] exI [of _ ?body] exI [of _ s]) auto
qed

section \<open>Witnesses\<close>

definition two_owners_db :: db where
  "two_owners_db = empty_db\<lparr>nodes := [(''n1'', (fresh_node ''alice'' 1)\<lparr>pendingRewards := 5\<rparr>),
                                    (''n2'', (fresh_node ''bob'' 1)\<lparr>pendingRewards := 7\<rparr>)]\<rparr>"

definition alice_claims :: "nat \<Rightarrow> section_fun" where
  "alice_claims t = claim_section default_config (\<lambda>w x. Some ''sig'') ''alice''"

lemma alice_run:
  "lock_run (\<lambda>t. ''alice'') alice_claims (lock_init two_owners_db)
     (settle_section ''alice'' (alice_claims 0) 0 two_owners_db
        (start_section 0 (withLock ''alice'' 0 (lock_init two_owners_db))))"
proof -
  let ?k = "\<lambda>t :: nat. ''alice''" let ?s0 = "lock_init two_owners_db"
  let ?s1 = "withLock ''alice'' 0 ?s0" let ?s2 = "start_section 0 ?s1"
  have 1: "lock_step ?k alice_claims ?s0 ?s1"
    using lock_step.arrive [of 0 ?s0 ?k alice_claims] by (simp add: lock_init_def)
  have 2: "lock_step ?k alice_claims ?s1 ?s2"
    using lock_step.start [of ?k 0 ?s1 "[]" alice_claims] by (simp add: lock_init_def chain_def)
  have 3: "lock_step ?k alice_claims ?s2 (settle_section ''alice'' (alice_claims 0) 0 two_owners_db ?s2)"
    using lock_step.settle [of ?s2 0 two_owners_db ?k alice_claims] by (simp add: lock_init_def)
  show ?thesis by (rule run_of_three [of "lock_step ?k alice_claims", OF 1 2 3])
qed



theorem concurrent_claims_pay_twice_witness:
  "\<exists>key body s. lock_run key body (lock_init two_owners_db) s
     \<and> payouts s = [(''alice'', 5), (''bob'', 7)] \<and> operatorRewards (ledger s) ''alice'' = 5"
proof -
  have v: "operatorRewards two_owners_db ''alice'' = 5" "operatorRewards two_owners_db ''bob'' = 7"
    "fl (1 / 10 ^ 9) < (5::rat)" "fl (1 / 10 ^ 9) < (7::rat)" "MIN_CLAIM default_config = 1"
    "lock_key ''alice'' \<noteq> lock_key ''bob''" by code_simp+
  from concurrent_claims_pay_twice [of "''alice''" "''bob''" two_owners_db default_config "\<lambda>w x. Some ''sig''"] v
  show ?thesis by auto
qed

end
