(* ===== verification/Gateway_Admin.thy ===== *)
theory Gateway_Admin
  imports Gateway_Pay
begin

text \<open>
  The gateway's administrative surface (\<^verbatim>\<open>staking-service/server.js\<close>): sign-in with its second
  factor, the guards of the admin routes, enrolling and removing the second factor, and the
  governed writes (prices, relays, nodes, bridges).

  A handler is synchronous, so an exception inside it (a cookie that does not decode, a stored
  secret that is not base32) reaches the final error handler, which answers 500.
\<close>

section \<open>Signing in\<close>

datatype admin_login = SignedIn (si_wallet: string) (si_cookie: string) | SecondFactor (sf_wallet: string) (sf_token: string)

definition twofaEnabled :: "db \<Rightarrow> string \<Rightarrow> bool" where
  "twofaEnabled d w = (case get (adminAuth d) w of None \<Rightarrow> False | Some a \<Rightarrow> aa_enabled a)"

definition post_admin_challenge ::
  "auth_env \<Rightarrow> string \<Rightarrow> string \<Rightarrow> int \<Rightarrow> nonces \<Rightarrow> (string \<times> string) answer \<times> nonces" where
  "post_admin_challenge e wallet fresh now_ms ns =
     (if \<not> authEnabled e then (refuse 503 ''admin auth not configured'', ns)
      else let w = trim wallet
           in if \<not> isAdmin e w then (refuse 403 ''wallet is not a gateway admin'', ns)
              else let (ns', nonce, msg) = newChallenge ns w fresh now_ms in (Inr (nonce, msg), ns'))"

definition admin_cookie :: "auth_env \<Rightarrow> string \<Rightarrow> nat \<Rightarrow> string" where
  "admin_cookie e w now = makeSession e w now 86400"

definition post_admin_verify ::
  "auth_env \<Rightarrow> string \<Rightarrow> string \<Rightarrow> string \<Rightarrow> int \<Rightarrow> nonces \<Rightarrow> db \<Rightarrow> admin_login answer \<times> nonces" where
  "post_admin_verify e wallet nonce signature now_ms ns d =
     (let w = trim wallet; now = nat (now_ms div 1000);
          (ok, ns') = verifyLogin (crypt e) ns w nonce signature now_ms
      in if \<not> ok then (refuse 401 ''signature verification failed'', ns')
         else if \<not> isAdmin e w then (refuse 403 ''wallet is not a gateway admin'', ns')
         else if twofaEnabled d w then (Inr (SecondFactor w (makeToken e w ''pre2fa'' now 300)), ns')
         else (Inr (SignedIn w (admin_cookie e w now)), ns'))"

definition post_2fa_login :: "auth_env \<Rightarrow> string \<Rightarrow> string \<Rightarrow> nat \<Rightarrow> db \<Rightarrow> admin_login answer \<times> db" where
  "post_2fa_login e pre_auth code now d =
     (case verifyToken e pre_auth ''pre2fa'' now of
        None \<Rightarrow> (refuse 401 ''2FA challenge expired'', d)
      | Some w \<Rightarrow>
          if w = '''' then (refuse 401 ''2FA challenge expired'', d)
          else let signed = Inr (SignedIn w (admin_cookie e w now)) in
            case get (adminAuth d) w of
              None \<Rightarrow> (signed, d)
            | Some ent \<Rightarrow>
                if \<not> aa_enabled ent then (signed, d)
                else case verifyCode (crypt e) (aa_secret ent) code now of
                  None \<Rightarrow> (refuse 500 ''internal gateway error'', d)
                | Some True \<Rightarrow> (signed, d)
                | Some False \<Rightarrow>
                    (case verifyAndConsumeBackup (crypt e) (aa_backup ent) code of
                       None \<Rightarrow> (refuse 401 ''invalid authenticator or backup code'', d)
                     | Some remaining \<Rightarrow>
                         (signed, d\<lparr>adminAuth := put w (ent\<lparr>aa_backup := remaining\<rparr>) (adminAuth d)\<rparr>)))"

section \<open>Guards\<close>

record admin_request =
  ar_cookie :: string
  forwarded_for :: string
  forwarded_host :: string
  totp :: string

definition requireAdmin :: "auth_env \<Rightarrow> admin_request \<Rightarrow> nat \<Rightarrow> string answer" where
  "requireAdmin e q now =
     (if \<not> authEnabled e then refuse 503 ''admin auth not configured''
      else case adminWallet e (ar_cookie q) now of
        None \<Rightarrow> refuse 500 ''internal gateway error''
      | Some None \<Rightarrow> refuse 401 ''admin sign-in required''
      | Some (Some w) \<Rightarrow> Inr w)"

definition requireLocalDesktop :: "admin_request \<Rightarrow> unit answer" where
  "requireLocalDesktop q =
     (if forwarded_for q \<noteq> '''' \<or> forwarded_host q \<noteq> ''''
      then refuse 403 ''pricing changes are only allowed from the gateway desktop app'' else Inr ())"

definition requireGenesis :: "config \<Rightarrow> string \<Rightarrow> unit answer" where
  "requireGenesis c w =
     (if w \<noteq> GENESIS_WALLET c then refuse 403 ''pricing can only be changed by the genesis wallet'' else Inr ())"

definition requireFreshTotp :: "config \<Rightarrow> auth_env \<Rightarrow> admin_request \<Rightarrow> nat \<Rightarrow> db \<Rightarrow> unit answer" where
  "requireFreshTotp c e q now d =
     (case get (adminAuth d) (GENESIS_WALLET c) of
        None \<Rightarrow> refuse 403 ''2FA must be enabled for the genesis wallet''
      | Some ent \<Rightarrow>
          if \<not> aa_enabled ent then refuse 403 ''2FA must be enabled for the genesis wallet''
          else case verifyCode (crypt e) (aa_secret ent) (totp q) now of
            None \<Rightarrow> refuse 500 ''internal gateway error''
          | Some False \<Rightarrow> refuse 401 ''invalid 2FA code''
          | Some True \<Rightarrow> Inr ())"

text \<open>The middleware chain of a governed write: admin, local, genesis, fresh code.\<close>

definition governed :: "config \<Rightarrow> auth_env \<Rightarrow> admin_request \<Rightarrow> nat \<Rightarrow> db \<Rightarrow> unit answer" where
  "governed c e q now d =
     (case requireAdmin e q now of
        Inl r \<Rightarrow> Inl r
      | Inr w \<Rightarrow>
          (case requireLocalDesktop q of
             Inl r \<Rightarrow> Inl r
           | Inr _ \<Rightarrow>
               (case requireGenesis c w of Inl r \<Rightarrow> Inl r | Inr _ \<Rightarrow> requireFreshTotp c e q now d)))"

section \<open>Governed writes\<close>

text \<open>\<^verbatim>\<open>num(v)\<close>: a finite, non-negative number, given and not the empty string.\<close>

definition price_num :: "jsval \<Rightarrow> rat option" where
  "price_num v =
     (if nullish v \<or> v = Str '''' then None
      else case to_number v of Fin x \<Rightarrow> if x < 0 then None else Some x | _ \<Rightarrow> None)"

definition push_pricing_audit :: "pricing_change \<Rightarrow> db \<Rightarrow> db" where
  "push_pricing_audit en d =
     (let l = pricingAudit d @ [en] in d\<lparr>pricingAudit := (if 500 < length l then slice_last 500 l else l)\<rparr>)"

definition set_price :: "config \<Rightarrow> string \<Rightarrow> price \<Rightarrow> int \<Rightarrow> db \<Rightarrow> db" where
  "set_price c modelId v now d =
     (let p = loadPricing d;
          target = (if modelId \<noteq> '''' \<and> modelId \<noteq> ''default'' then modelId else ''default'');
          prev = (if target = ''default'' then full_patch (pr_default p)
                  else case get (perModel p) target of Some q \<Rightarrow> q | None \<Rightarrow> full_patch (pr_default p));
          p1 = (if target = ''default'' then p\<lparr>pr_default := v\<rparr>
                else p\<lparr>perModel := put target (full_patch v) (perModel p)\<rparr>);
          p2 = p1\<lparr>updatedAt := now, updatedBy := Some (GENESIS_WALLET c)\<rparr>
      in push_pricing_audit \<lparr>pc_at = now, pc_by = GENESIS_WALLET c, pc_target = target, pc_prev = prev, pc_next = v\<rparr>
           (d\<lparr>pricing := Some p2\<rparr>))"

definition post_admin_pricing ::
  "config \<Rightarrow> auth_env \<Rightarrow> bool \<Rightarrow> admin_request \<Rightarrow> string \<Rightarrow> jsval \<Rightarrow> jsval \<Rightarrow> jsval \<Rightarrow> int \<Rightarrow> db \<Rightarrow> price answer \<times> db" where
  "post_admin_pricing c e write_locked q modelId bp pt eo now d =
     (case governed c e q (nat now) d of
        Inl r \<Rightarrow> (Inl r, d)
      | Inr _ \<Rightarrow>
          if write_locked then (refuse 409 ''this gateway mirrors the genesis source'', d)
          else case (price_num bp, price_num pt, price_num eo) of
            (Some b, Some p, Some o') \<Rightarrow>
              (let v = \<lparr>basePrice = b, perToken = p, estOut = o'\<rparr> in (Inr v, set_price c modelId v now d))
          | _ \<Rightarrow> (refuse 400 ''basePrice, perToken, estOut must be non-negative numbers'', d))"

text \<open>Relays: \<open>origin\<close> is \<^verbatim>\<open>new URL(s).origin\<close> of an http(s) URL, \<open>None\<close> when it is not one.\<close>

definition update_relay :: "string \<Rightarrow> string \<Rightarrow> string option \<Rightarrow> relay \<Rightarrow> relay" where
  "update_relay url secret lbl r =
     (if relay_url r \<noteq> url then r
      else let r1 = (if secret \<noteq> '''' then r\<lparr>relay_secret := secret\<rparr> else r)
           in case lbl of None \<Rightarrow> r1 | Some l \<Rightarrow> r1\<lparr>relay_label := l\<rparr>)"

fun update_first :: "('a \<Rightarrow> bool) \<Rightarrow> ('a \<Rightarrow> 'a) \<Rightarrow> 'a list \<Rightarrow> 'a list" where
  "update_first P f [] = []"
| "update_first P f (x # xs) = (if P x then f x # xs else x # update_first P f xs)"

definition post_relays ::
  "config \<Rightarrow> auth_env \<Rightarrow> bool \<Rightarrow> (string \<Rightarrow> string option) \<Rightarrow> admin_request \<Rightarrow> string \<Rightarrow> string \<Rightarrow> string option \<Rightarrow> int \<Rightarrow> db
   \<Rightarrow> relay list answer \<times> db" where
  "post_relays c e write_locked origin q url secret lbl now d =
     (case governed c e q (nat now) d of
        Inl r \<Rightarrow> (Inl r, d)
      | Inr _ \<Rightarrow>
          if write_locked then (refuse 409 ''only the genesis (source) gateway manages relays'', d)
          else case origin url of
            None \<Rightarrow> (refuse 400 ''url must be a valid http(s) URL'', d)
          | Some clean \<Rightarrow>
              (let rs = pricingRelays d;
                   rs' = (if list_ex (\<lambda>r. relay_url r = clean) rs
                          then update_first (\<lambda>r. relay_url r = clean) (update_relay clean secret lbl) rs
                          else rs @ [\<lparr>relay_url = clean, relay_secret = secret,
                                     relay_label = (case lbl of None \<Rightarrow> '''' | Some l \<Rightarrow> l),
                                     relay_addedAt = now, relay_addedBy = GENESIS_WALLET c\<rparr>])
               in (Inr rs', d\<lparr>pricingRelays := rs'\<rparr>)))"

definition post_relays_remove ::
  "config \<Rightarrow> auth_env \<Rightarrow> bool \<Rightarrow> (string \<Rightarrow> string option) \<Rightarrow> admin_request \<Rightarrow> string \<Rightarrow> int \<Rightarrow> db \<Rightarrow> relay list answer \<times> db" where
  "post_relays_remove c e write_locked any_origin q url now d =
     (case governed c e q (nat now) d of
        Inl r \<Rightarrow> (Inl r, d)
      | Inr _ \<Rightarrow>
          if write_locked then (refuse 409 ''only the genesis (source) gateway manages relays'', d)
          else let clean = (case any_origin url of Some o' \<Rightarrow> o' | None \<Rightarrow> url);
                   rs' = filter (\<lambda>r. relay_url r \<noteq> clean) (pricingRelays d)
               in (Inr rs', d\<lparr>pricingRelays := rs'\<rparr>))"

definition post_admin_node_remove :: "auth_env \<Rightarrow> admin_request \<Rightarrow> string \<Rightarrow> int \<Rightarrow> db \<Rightarrow> string answer \<times> db" where
  "post_admin_node_remove e q nodeId now d =
     (case requireAdmin e q (nat now) of
        Inl r \<Rightarrow> (Inl r, d)
      | Inr _ \<Rightarrow>
          if get (nodes d) nodeId = None then (refuse 404 ''node not found'', d)
          else (Inr nodeId, d\<lparr>nodes := del nodeId (nodes d)\<rparr>))"

section \<open>The second factor\<close>

definition post_2fa_enroll ::
  "auth_env \<Rightarrow> admin_request \<Rightarrow> string \<Rightarrow> string list \<Rightarrow> nat \<Rightarrow> db \<Rightarrow> (string \<times> string list) answer \<times> db" where
  "post_2fa_enroll e q secret codes now d =
     (case requireAdmin e q now of
        Inl r \<Rightarrow> (Inl r, d)
      | Inr w \<Rightarrow>
          (Inr (secret, codes),
           d\<lparr>adminAuth := put w \<lparr>aa_secret = secret, aa_backup = map (hashBackup (crypt e)) codes, aa_enabled = False\<rparr>
                            (adminAuth d)\<rparr>))"

definition post_2fa_confirm :: "auth_env \<Rightarrow> admin_request \<Rightarrow> string \<Rightarrow> nat \<Rightarrow> db \<Rightarrow> unit answer \<times> db" where
  "post_2fa_confirm e q code now d =
     (case requireAdmin e q now of
        Inl r \<Rightarrow> (Inl r, d)
      | Inr w \<Rightarrow>
          (case get (adminAuth d) w of
             None \<Rightarrow> (refuse 400 ''no enrollment in progress'', d)
           | Some ent \<Rightarrow>
               if aa_secret ent = '''' then (refuse 400 ''no enrollment in progress'', d)
               else case verifyCode (crypt e) (aa_secret ent) code now of
                 None \<Rightarrow> (refuse 500 ''internal gateway error'', d)
               | Some False \<Rightarrow> (refuse 400 ''invalid authenticator code'', d)
               | Some True \<Rightarrow> (Inr (), d\<lparr>adminAuth := put w (ent\<lparr>aa_enabled := True\<rparr>) (adminAuth d)\<rparr>)))"

definition post_2fa_disable :: "auth_env \<Rightarrow> admin_request \<Rightarrow> string \<Rightarrow> nat \<Rightarrow> db \<Rightarrow> unit answer \<times> db" where
  "post_2fa_disable e q code now d =
     (case requireAdmin e q now of
        Inl r \<Rightarrow> (Inl r, d)
      | Inr w \<Rightarrow>
          (case get (adminAuth d) w of
             None \<Rightarrow> (refuse 400 ''2FA is not enabled'', d)
           | Some ent \<Rightarrow>
               if \<not> aa_enabled ent then (refuse 400 ''2FA is not enabled'', d)
               else case verifyCode (crypt e) (aa_secret ent) code now of
                 None \<Rightarrow> (refuse 500 ''internal gateway error'', d)
               | Some ok \<Rightarrow>
                   if ok \<or> verifyAndConsumeBackup (crypt e) (aa_backup ent) code \<noteq> None
                   then (Inr (), d\<lparr>adminAuth := del w (adminAuth d)\<rparr>)
                   else (refuse 400 ''invalid authenticator or backup code'', d)))"

section \<open>Properties\<close>

text \<open>
  C36: with a second factor enrolled, a signature alone never opens a session. Verifying the
  signature yields only a pre-authentication token; a session comes from exchanging that token
  for a current authenticator code, or for a stored backup code that is then gone.
\<close>

theorem second_factor_required:
  assumes "get (adminAuth d) w = Some ent" and "aa_enabled ent"
  shows "(\<forall>wallet nonce sig now_ms ns ck. trim wallet = w \<longrightarrow>
            fst (post_admin_verify e wallet nonce sig now_ms ns d) \<noteq> Inr (SignedIn w ck))
    \<and> (\<forall>pre code now ck. fst (post_2fa_login e pre code now d) = Inr (SignedIn w ck) \<longrightarrow>
         verifyToken e pre ''pre2fa'' now = Some w
         \<and> (verifyCode (crypt e) (aa_secret ent) code now = Some True
            \<or> (\<exists>rest. verifyAndConsumeBackup (crypt e) (aa_backup ent) code = Some rest
                 \<and> map_option aa_backup (get (adminAuth (snd (post_2fa_login e pre code now d))) w) = Some rest)))"
proof (intro conjI allI impI)
  fix wallet nonce sig now_ms ns ck
  assume "trim wallet = w"
  then show "fst (post_admin_verify e wallet nonce sig now_ms ns d) \<noteq> Inr (SignedIn w ck)"
    using assms by (auto simp: post_admin_verify_def twofaEnabled_def Let_def split: prod.splits)
next
  fix pre code now ck
  assume ok: "fst (post_2fa_login e pre code now d) = Inr (SignedIn w ck)"
  then show "verifyToken e pre ''pre2fa'' now = Some w"
    by (auto simp: post_2fa_login_def Let_def split: option.splits if_splits bool.splits)
  with ok assms show "verifyCode (crypt e) (aa_secret ent) code now = Some True
      \<or> (\<exists>rest. verifyAndConsumeBackup (crypt e) (aa_backup ent) code = Some rest
           \<and> map_option aa_backup (get (adminAuth (snd (post_2fa_login e pre code now d))) w) = Some rest)"
    by (auto simp: post_2fa_login_def Let_def table_simps split: option.splits if_splits bool.splits)
qed

lemma governed_ok:
  "governed c e q now d = Inr () \<longleftrightarrow>
     authEnabled e \<and> adminWallet e (ar_cookie q) now = Some (Some (GENESIS_WALLET c))
     \<and> forwarded_for q = '''' \<and> forwarded_host q = ''''
     \<and> (\<exists>ent. get (adminAuth d) (GENESIS_WALLET c) = Some ent \<and> aa_enabled ent
          \<and> verifyCode (crypt e) (aa_secret ent) (totp q) now = Some True)"
  by (auto simp: governed_def requireAdmin_def requireLocalDesktop_def requireGenesis_def requireFreshTotp_def
      split: sum.splits option.splits if_splits bool.splits)

lemma loadPricing_push [simp]: "loadPricing (push_pricing_audit en d) = loadPricing d"
  by (simp add: push_pricing_audit_def loadPricing_def Let_def)

lemma price_num_Some: "price_num v = Some x \<Longrightarrow> to_number v = Fin x \<and> 0 \<le> x"
  by (auto simp: price_num_def split: if_splits jsnum.splits)

lemma set_price_effect:
  "pricingFor (set_price c modelId v now d) (if modelId \<in> {'''', ''default''} then '''' else modelId) = v"
  by (simp add: pricingFor_def pricingFrom_def set_price_def Let_def loadPricing_def [of "d\<lparr>pricing := _\<rparr>"] table_simps
      merge_price_def no_patch_def full_patch_def)

text \<open>
  Prices change only by the genesis wallet with a fresh second factor. When the route
  succeeds, the request carried a valid admin session of the genesis wallet, did not come through
  the proxy, carried a current code of the genesis wallet's enabled authenticator, the gateway is
  the source, and the new prices are finite and not negative; they take effect for the model
  named and are the newest entry of an audit trail of at most 500. Otherwise nothing changes.
\<close>

theorem pricing_write_guarded:
  assumes "length (pricingAudit d) \<le> 500"
  shows "case post_admin_pricing c e locked q modelId bp pt eo now d of
     (Inl _, d') \<Rightarrow> d' = d
   | (Inr v, d') \<Rightarrow>
       \<not> locked \<and> authEnabled e \<and> adminWallet e (ar_cookie q) (nat now) = Some (Some (GENESIS_WALLET c))
       \<and> forwarded_for q = '''' \<and> forwarded_host q = ''''
       \<and> (\<exists>ent. get (adminAuth d) (GENESIS_WALLET c) = Some ent \<and> aa_enabled ent
            \<and> verifyCode (crypt e) (aa_secret ent) (totp q) (nat now) = Some True)
       \<and> 0 \<le> basePrice v \<and> 0 \<le> perToken v \<and> 0 \<le> estOut v
       \<and> pricingFor d' (if modelId \<in> {'''', ''default''} then '''' else modelId) = v
       \<and> pc_next (last (pricingAudit d')) = v \<and> length (pricingAudit d') \<le> 500"
proof -
  let ?p = "post_admin_pricing c e locked q modelId bp pt eo now d"
  have audit: "pc_next (last (pricingAudit (set_price c modelId v now d))) = v"
    "length (pricingAudit (set_price c modelId v now d)) \<le> 500" for v
    using assms by (auto simp: set_price_def push_pricing_audit_def Let_def slice_last_def)
  show ?thesis
  proof (cases "fst ?p")
    case (Inl r)
    then have "snd ?p = d"
      by (auto simp: post_admin_pricing_def Let_def split: sum.splits if_splits option.splits)
    with Inl show ?thesis by (cases ?p) auto
  next
    case (Inr v)
    then have g: "governed c e q (nat now) d = Inr ()" "\<not> locked" and num: "price_num bp = Some (basePrice v)"
      "price_num pt = Some (perToken v)" "price_num eo = Some (estOut v)" and d': "snd ?p = set_price c modelId v now d"
      by (auto simp: post_admin_pricing_def Let_def split: sum.splits if_splits option.splits)
    obtain a d2 where p: "?p = (Inr v, d2)" "d2 = set_price c modelId v now d" using Inr d' by (cases ?p) auto
    show ?thesis
      unfolding p(1) prod.case sum.case
      using g(1) [unfolded governed_ok] g(2) num [THEN price_num_Some] audit [of v] set_price_effect [of c modelId v now d]
      by (simp add: p(2))
  qed
qed

text \<open>
  Enrolling again turns the second factor off, without asking for a code. Any holder of an
  admin session can replace the wallet's enrolled authenticator: the new entry is not enabled, so
  the next sign-in needs no second factor; and confirming with a code of the new secret makes a
  code of that secret count as the fresh second factor of a governed write. (Disabling it does
  ask for a current code.)
\<close>

theorem enroll_replaces_second_factor:
  assumes "requireAdmin e q now = Inr w" and "w = GENESIS_WALLET c" and "secret \<noteq> ''''"
    and "verifyCode (crypt e) secret (totp q) now = Some True"
    and "d1 = snd (post_2fa_enroll e q secret codes now d)" and "d2 = snd (post_2fa_confirm e q (totp q) now d1)"
  shows "\<not> twofaEnabled d1 w \<and> twofaEnabled d2 w \<and> requireFreshTotp c e q now d2 = Inr ()"
proof -
  have d1: "get (adminAuth d1) w = Some \<lparr>aa_secret = secret, aa_backup = map (hashBackup (crypt e)) codes, aa_enabled = False\<rparr>"
    using assms(1,5) by (simp add: post_2fa_enroll_def table_simps)
  then have "get (adminAuth d2) w = Some \<lparr>aa_secret = secret, aa_backup = map (hashBackup (crypt e)) codes, aa_enabled = True\<rparr>"
    using assms(1,3,4,6) by (simp add: post_2fa_confirm_def table_simps)
  with d1 show ?thesis using assms(2,4) by (simp add: twofaEnabled_def requireFreshTotp_def)
qed

text \<open>
  Disabling the second factor takes a factor. When the route succeeds the caller is a signed-in
  admin whose enrolment was enabled and who gave a current code or a stored backup code; in every
  other case the enrolment is as it was.
\<close>

theorem disable_needs_factor:
  "case post_2fa_disable e q code now d of
     (Inl _, d') \<Rightarrow> d' = d
   | (Inr _, d') \<Rightarrow> \<exists>w ent. requireAdmin e q now = Inr w \<and> get (adminAuth d) w = Some ent \<and> aa_enabled ent
       \<and> (verifyCode (crypt e) (aa_secret ent) code now = Some True \<or> hashBackup (crypt e) code \<in> set (aa_backup ent))
       \<and> get (adminAuth d') w = None"
proof -
  have consume: "consume_backup hs h \<noteq> None \<Longrightarrow> h \<in> set hs" for hs h
    by (induction hs) (auto split: if_splits)
  show ?thesis
    using consume
    by (fastforce simp: post_2fa_disable_def verifyAndConsumeBackup_def table_simps
        split: sum.splits option.splits if_splits)
qed

section \<open>Witnesses\<close>

text \<open>An allowlisted genesis wallet with a session and an authenticator whose code is always 000000.\<close>

definition adm_config :: config where
  "adm_config = default_config\<lparr>GENESIS_WALLET := ''adm''\<rparr>"

definition adm_request :: admin_request where
  "adm_request = \<lparr>ar_cookie = ADMIN_COOKIE @ ''='' @ makeSession toy_env ''adm'' 1000 86400, forwarded_for = '''',
     forwarded_host = '''', totp = ''000000''\<rparr>"

definition adm_entry :: admin_auth where
  "adm_entry = \<lparr>aa_secret = ''AAAA'', aa_backup = [''aabb''], aa_enabled = True\<rparr>"

definition adm_db :: db where
  "adm_db = empty_db\<lparr>adminAuth := [(''adm'', adm_entry)]\<rparr>"

lemma toy_hotp:
  assumes "b32decode s = Some key" "0 \<le> k" "k < 2 ^ 64"
  shows "hotp toy_crypto s k 6 = Some ''000000''"
proof -
  have "pad_start 6 CHR ''0'' (show_nat 0) = ''000000''" by code_simp
  moreover have "hmac_sha1 toy_crypto key (be64 (nat k)) = replicate 20 0" by (simp add: toy_crypto_def)
  ultimately show ?thesis using assms by (simp add: hotp_def Let_def)
qed

lemma toy_code:
  assumes "b32decode s = Some key" "30 \<le> now" "now < 2 ^ 60"
  shows "verifyCode toy_crypto s ''000000'' now = Some True"
proof -
  have c: "trim ''000000'' = ''000000''" "list_all is_digit ''000000''" by code_simp+
  have "hotp toy_crypto s (int (now div 30) - 1) 6 = Some ''000000''"
    using assms by (intro toy_hotp) auto
  then show ?thesis using c by (simp add: verifyCode_def Let_def)
qed

lemma adm_session:
  "adminWallet toy_env (ar_cookie adm_request) 2000 = Some (Some ''adm'')"
  "requireAdmin toy_env adm_request 2000 = Inr ''adm''" "authEnabled toy_env"
proof -
  have ch: "char_of (56::nat) = CHR ''8''" "char_of (55::nat) = CHR ''7''" "char_of (52::nat) = CHR ''4''" "char_of (48::nat) = CHR ''0''"
    by code_simp+
  have mk: "makeSession toy_env ''adm'' 1000 86400 = ''adm|87400|ff''"
    by (simp add: makeSession_def toy_env_def toy_crypto_def Let_def) (simp add: show_nat.simps ch)
  have ck: "ar_cookie adm_request = ADMIN_COOKIE @ ''='' @ ''adm|87400|ff''" by (simp add: adm_request_def mk)
  have cookie: "parseCookies (ar_cookie adm_request) = Some [(ADMIN_COOKIE, ''adm|87400|ff'')]"
    unfolding ck by code_simp
  have "verifySession toy_env ''adm|87400|ff'' 2000 = Some ''adm''"
    using verify_made_session [of toy_env 1000 86400 "''adm''" 2000, OF toy_laws] by (simp add: mk)
  moreover have "isAdmin toy_env ''adm''" "authEnabled toy_env" by code_simp+
  ultimately show "adminWallet toy_env (ar_cookie adm_request) 2000 = Some (Some ''adm'')"
    "requireAdmin toy_env adm_request 2000 = Inr ''adm''" "authEnabled toy_env"
    by (simp_all add: requireAdmin_def adminWallet_def cookie Let_def)
qed

lemma adm_code: "verifyCode (crypt toy_env) (aa_secret adm_entry) ''000000'' 2000 = Some True"
  "verifyCode (crypt toy_env) ''MMMM'' ''000000'' 2000 = Some True"
proof -
  have "b32decode (aa_secret adm_entry) = Some [0, 0]" "b32decode ''MMMM'' = Some [99, 24]" by code_simp+
  moreover have "crypt toy_env = toy_crypto" by (simp add: toy_env_def)
  ultimately show "verifyCode (crypt toy_env) (aa_secret adm_entry) ''000000'' 2000 = Some True"
    "verifyCode (crypt toy_env) ''MMMM'' ''000000'' 2000 = Some True" using toy_code by auto
qed

theorem second_factor_required_witness:
  "(let pre = makeToken toy_env ''adm'' ''pre2fa'' 1000 300; r = post_2fa_login toy_env pre ''aa-bb'' 1100 adm_db in
    (\<exists>ck. fst r = Inr (SignedIn ''adm'' ck)) \<and> map_option aa_backup (get (adminAuth (snd r)) ''adm'') = Some [])"
proof -
  let ?pre = "makeToken toy_env ''adm'' ''pre2fa'' 1000 300"
  let ?r = "post_2fa_login toy_env ?pre ''aa-bb'' 1100 adm_db"
  have "trim ''aa-bb'' = ''aa-bb''" "\<not> list_all is_digit ''aa-bb''" by code_simp+
  then have v: "verifyToken toy_env ?pre ''pre2fa'' 1100 = Some ''adm''"
    "verifyCode (crypt toy_env) (aa_secret adm_entry) ''aa-bb'' 1100 = Some False"
    using verify_made_token [of toy_env 1000 300 "''adm''" "''pre2fa''" 1100, OF toy_laws]
    by (simp_all add: verifyCode_def Let_def)
  have b: "verifyAndConsumeBackup (crypt toy_env) (aa_backup adm_entry) ''aa-bb'' = Some []" by code_simp+
  have ent: "get (adminAuth adm_db) ''adm'' = Some adm_entry" "aa_enabled adm_entry"
    by (simp_all add: adm_db_def adm_entry_def)
  have ok: "fst ?r = Inr (SignedIn ''adm'' (admin_cookie toy_env ''adm'' 1100))"
    using v b ent by (simp add: post_2fa_login_def Let_def)
  from second_factor_required [OF ent, of toy_env] v b ok
  have "map_option aa_backup (get (adminAuth (snd ?r)) ''adm'') = Some []" by fastforce
  with ok show ?thesis by (auto simp: Let_def)
qed

theorem pricing_write_guarded_witness:
  "(let r = post_admin_pricing adm_config toy_env False adm_request ''m1'' (Num (Fin 2)) (Str ''0.5'') (Num (Fin 64)) 2000 adm_db in
    \<not> isl (fst r) \<and> pricingFor (snd r) ''m1'' = \<lparr>basePrice = 2, perToken = 1/2, estOut = 64\<rparr>)"
proof -
  let ?r = "post_admin_pricing adm_config toy_env False adm_request ''m1'' (Num (Fin 2)) (Str ''0.5'') (Num (Fin 64)) 2000 adm_db"
  have "governed adm_config toy_env adm_request 2000 adm_db = Inr ()"
    unfolding governed_ok using adm_session adm_code
    by (simp add: adm_config_def adm_db_def) (simp add: adm_request_def adm_entry_def)
  moreover have "price_num (Num (Fin 2)) = Some 2" "price_num (Str ''0.5'') = Some (1/2)" "price_num (Num (Fin 64)) = Some 64"
    by code_simp+
  ultimately have "fst ?r = Inr \<lparr>basePrice = 2, perToken = 1/2, estOut = 64\<rparr>"
    by (simp add: post_admin_pricing_def Let_def)
  then obtain d' where r: "?r = (Inr \<lparr>basePrice = 2, perToken = 1/2, estOut = 64\<rparr>, d')" by (cases ?r) auto
  have "length (pricingAudit adm_db) \<le> 500" by (simp add: adm_db_def empty_db_def)
  from pricing_write_guarded [OF this, where c = adm_config and e = toy_env and locked = False and q = adm_request
      and modelId = "''m1''" and bp = "Num (Fin 2)" and pt = "Str ''0.5''" and eo = "Num (Fin 64)" and now = 2000] r
  show ?thesis by (simp add: Let_def)
qed

theorem enroll_replaces_second_factor_witness:
  "(let d1 = snd (post_2fa_enroll toy_env adm_request ''MMMM'' [] 2000 adm_db);
        d2 = snd (post_2fa_confirm toy_env adm_request ''000000'' 2000 d1) in
    twofaEnabled adm_db ''adm'' \<and> \<not> twofaEnabled d1 ''adm'' \<and> requireFreshTotp adm_config toy_env adm_request 2000 d2 = Inr ())"
proof -
  have v: "''adm'' = GENESIS_WALLET adm_config" "totp adm_request = ''000000''" "twofaEnabled adm_db ''adm''"
    by (simp_all add: adm_config_def adm_request_def twofaEnabled_def adm_db_def adm_entry_def)
  from enroll_replaces_second_factor [OF adm_session(2) v(1) _ _ refl refl, of "''MMMM''" "[]" adm_db] v(2,3) adm_code(2)
  show ?thesis by (simp add: Let_def)
qed

end
