(* ===== verification/Gateway_Openai.thy ===== *)
theory Gateway_Openai
  imports Gateway_Credits
begin

text \<open>
  The completion surfaces of the gateway (\<^verbatim>\<open>staking-service/server.js\<close>): the OpenAI-compatible routes, the
  Anthropic-compatible ones that re-dispatch to them over loopback, and the ring resilience around them: the typed
  outage answer, the debounced reload, the record of successful traffic, the health route and the watchdog.

  A handler is split where it awaits a bridge: the part before gives what is sent, the part after takes the
  reply. \<^verbatim>\<open>JSON.parse\<close> of an answer is a parameter. Times are milliseconds; the ledger's own clock
  (seconds) is a separate argument of the parts that debit.
\<close>

section \<open>Requests and replies\<close>

record chat_request =
  cq_authorization :: string
  cq_x_api_key :: string
  cq_net :: net_request
  cq_model :: string
  cq_stream :: bool
  cq_enable_thinking :: "bool option"
  cq_messages :: "(string \<times> string) list"
  cq_max_tokens :: "int option"

text \<open>The key of \<^verbatim>\<open>/^Bearer\s+(.+)$/i\<close>, and whether a request carried any credential at all.\<close>

definition bearer_of :: "string \<Rightarrow> string option" where
  "bearer_of h =
     (if to_lower (take 6 h) = ''bearer'' \<and> 8 \<le> length h \<and> is_space (h ! 6)
      then Some (let r = dropWhile is_space (drop 6 h) in if r = '''' then [last h] else r) else None)"

definition supplied :: "chat_request \<Rightarrow> bool" where
  "supplied q \<longleftrightarrow>
     (to_lower (take 6 (cq_authorization q)) = ''bearer'' \<and> 6 < length (cq_authorization q) \<and> is_space (cq_authorization q ! 6) \<and>
      dropWhile is_space (drop 6 (cq_authorization q)) \<noteq> '''') \<or> cq_x_api_key q \<noteq> ''''"

record chat_json =
  cj_id :: string
  cj_model :: "string option"
  cj_choices :: "(string option \<times> string option) list option"
  cj_usage :: "(rat \<times> rat) option"

text \<open>
  What the bridge sends back: nothing, or a status with the whole body (\<open>up_text\<close>), and for a stream the pieces
  the reader returns (\<open>None\<close> for a response without a body) and whether it broke off. \<open>up_parsed\<close> and \<open>up_error\<close> stand for \<^verbatim>\<open>JSON.parse\<close> of a body, and for
  the error message in a streamed line: \<open>None\<close> when it does not parse, \<open>Some None\<close> when it carries no error.
\<close>

datatype upstream =
    Unreachable string
  | Reply (up_status: nat) (up_text: string) (up_chunks: "string list option") (up_broke: bool)

record json_reader =
  js_answer :: "string \<Rightarrow> chat_json option"
  js_error :: "string \<Rightarrow> string option option"
  js_usage :: "string \<Rightarrow> (rat \<times> rat) option"

datatype chat_result =
    ChatError (ce_status: nat) (ce_type: string)
  | ChatJson chat_json
  | ChatStream "string list"

section \<open>Ring state\<close>

record reload_state =
  rs_at :: int
  rs_inflight :: bool
  rs_external :: bool

record gateway =
  gt_db :: db
  gt_lastOk :: "int table"
  gt_reload :: "reload_state table"
  gt_streak :: "nat table"
  gt_serveCalls :: "(string \<times> string \<times> int) list"

record ring_config =
  RING_RELOAD_COOLDOWN_MS :: int
  RING_WATCHDOG_MS :: int

definition reload_of :: "string \<Rightarrow> gateway \<Rightarrow> reload_state" where
  "reload_of ring g = (case get (gt_reload g) ring of Some s \<Rightarrow> s | None \<Rightarrow> \<lparr>rs_at = 0, rs_inflight = False, rs_external = False\<rparr>)"

text \<open>
  \<^verbatim>\<open>reloadRing\<close> up to its request, the answer to that request (\<open>None\<close> when it failed), and the timer that ends the
  flight a minute after it.
\<close>

definition reloadRing :: "ring_config \<Rightarrow> string \<Rightarrow> string \<Rightarrow> int \<Rightarrow> gateway \<Rightarrow> gateway" where
  "reloadRing rc url ring now g =
     (let s = reload_of ring g; g0 = g\<lparr>gt_reload := put ring s (gt_reload g)\<rparr>
      in if rs_external s then g0
         else if rs_inflight s \<or> now - rs_at s < RING_RELOAD_COOLDOWN_MS rc then g0
         else g\<lparr>gt_reload := put ring (s\<lparr>rs_inflight := True, rs_at := now\<rparr>) (gt_reload g),
                gt_serveCalls := gt_serveCalls g @ [(url, ring, now)]\<rparr>)"

definition reload_answered :: "string \<Rightarrow> nat option \<Rightarrow> gateway \<Rightarrow> gateway" where
  "reload_answered ring code g =
     (let s = reload_of ring g
      in if code = Some 409 then g\<lparr>gt_reload := put ring (s\<lparr>rs_external := True\<rparr>) (gt_reload g)\<rparr> else g)"

definition reload_cleared :: "string \<Rightarrow> gateway \<Rightarrow> gateway" where
  "reload_cleared ring g = g\<lparr>gt_reload := put ring ((reload_of ring g)\<lparr>rs_inflight := False\<rparr>) (gt_reload g)\<rparr>"

definition ringOutage :: "ring_config \<Rightarrow> model \<Rightarrow> int \<Rightarrow> gateway \<Rightarrow> chat_result \<times> gateway" where
  "ringOutage rc m now g =
     (ChatError 503 ''hub_unavailable'', if md_url m \<noteq> '''' \<and> md_cid m \<noteq> '''' then reloadRing rc (md_url m) (md_cid m) now g else g)"

definition markRingOk :: "string \<Rightarrow> int \<Rightarrow> gateway \<Rightarrow> gateway" where
  "markRingOk ring now g = (if ring = '''' then g else g\<lparr>gt_lastOk := put ring now (gt_lastOk g)\<rparr>)"

text \<open>The error in the first data line of a piece of stream text.\<close>

fun first_error :: "json_reader \<Rightarrow> string list \<Rightarrow> string option" where
  "first_error js [] = None"
| "first_error js (line # ls) =
     (let t = trim line
      in if \<not> starts_with t ''data:'' then first_error js ls
         else let p = trim (drop 5 t)
              in if p = ''[DONE]'' then None
                 else case js_error js p of Some (Some e) \<Rightarrow> Some (or_else e ''upstream error'') | _ \<Rightarrow> None)"

definition sseFirstError :: "json_reader \<Rightarrow> string \<Rightarrow> string option" where
  "sseFirstError js text = first_error js (split_on newline text)"

section \<open>Completions\<close>

record forwarded =
  fw_url :: string
  fw_cid :: string
  fw_model :: string
  fw_stream :: bool
  fw_enable_thinking :: bool
  fw_include_usage :: bool

definition find_model :: "string \<Rightarrow> model list \<Rightarrow> model option" where
  "find_model name pool =
     (case List.find (\<lambda>x. md_id x = name) pool of
        Some m \<Rightarrow> Some m
      | None \<Rightarrow> List.find (\<lambda>x. md_name x = name) pool)"

text \<open>
  Up to the request to the bridge: an answer, or the wallet that will be charged, the model and what is sent.
\<close>

definition chat_start ::
  "config \<Rightarrow> credit_config \<Rightarrow> crypto \<Rightarrow> model list \<Rightarrow> chat_request \<Rightarrow> int \<Rightarrow> db \<Rightarrow> chat_result + (string \<times> model \<times> forwarded)" where
  "chat_start c cc cr pool q now d =
     (case chat_admission c cc cr (bearer_of (cq_authorization q)) (cq_net q) now d of
        Inl (Refused s why) \<Rightarrow> Inl (ChatError s (if s = 401 then ''invalid_request_error'' else if s = 402 then ''insufficient_quota'' else ''access_denied''))
      | Inl Uncaught \<Rightarrow> Inl (ChatError 502 ''gateway_error'')
      | Inr w \<Rightarrow>
          (case find_model (cq_model q) pool of
             Some m \<Rightarrow>
               if md_url m = '''' \<or> md_cid m = '''' then
                 (if \<exists>x \<in> set pool. md_url x \<noteq> '''' \<and> md_cid x \<noteq> '''' then Inl (ChatError 400 ''invalid_request_error'')
                  else Inl (ChatError 503 ''hub_unavailable''))
               else Inr (w, m, \<lparr>fw_url = md_url m, fw_cid = md_cid m, fw_model = md_bridgeModel m, fw_stream = cq_stream q,
                                fw_enable_thinking = (case cq_enable_thinking q of Some b \<Rightarrow> b | None \<Rightarrow> False),
                                fw_include_usage = cq_stream q\<rparr>)
           | None \<Rightarrow>
               (if \<exists>x \<in> set pool. md_url x \<noteq> '''' \<and> md_cid x \<noteq> '''' then Inl (ChatError 400 ''invalid_request_error'')
                else Inl (ChatError 503 ''hub_unavailable''))))"

definition is_ok :: "nat \<Rightarrow> bool" where
  "is_ok s \<longleftrightarrow> 200 \<le> s \<and> s < 300"

definition debit_usage :: "string \<Rightarrow> string \<Rightarrow> (rat \<times> rat) option \<Rightarrow> int \<Rightarrow> db \<Rightarrow> db" where
  "debit_usage w modelId u now d = (case u of None \<Rightarrow> d | Some (pt, ct) \<Rightarrow> snd (debitCredits w modelId pt ct now d))"

text \<open>The reply to a request that did not ask for a stream.\<close>

definition chat_whole ::
  "ring_config \<Rightarrow> json_reader \<Rightarrow> string \<Rightarrow> model \<Rightarrow> upstream \<Rightarrow> int \<Rightarrow> int \<Rightarrow> gateway \<Rightarrow> chat_result \<times> gateway" where
  "chat_whole rc js w m up now now_sec g =
     (case up of
        Unreachable e \<Rightarrow> ringOutage rc m now g
      | Reply s raw chunks broke \<Rightarrow>
          if \<not> is_ok s then ringOutage rc m now g
          else case js_answer js raw of
                 None \<Rightarrow> ringOutage rc m now g
               | Some d \<Rightarrow>
                   if cj_choices d = None then ringOutage rc m now g
                   else (ChatJson d, (markRingOk (md_cid m) now g)\<lparr>gt_db := debit_usage w (md_id m) (cj_usage d) now_sec (gt_db g)\<rparr>))"

text \<open>
  The reply to a request that did: the first piece is read before anything is written. The pieces are those the
  text decoder gives; an empty one writes nothing. A reader that breaks off later ends the answer where it stood.
\<close>

definition chat_stream ::
  "ring_config \<Rightarrow> json_reader \<Rightarrow> string \<Rightarrow> model \<Rightarrow> upstream \<Rightarrow> int \<Rightarrow> int \<Rightarrow> gateway \<Rightarrow> chat_result \<times> gateway" where
  "chat_stream rc js w m up now now_sec g =
     (case up of
        Unreachable e \<Rightarrow> ringOutage rc m now g
      | Reply s raw chunks broke \<Rightarrow>
          if \<not> is_ok s then ringOutage rc m now g
          else case chunks of None \<Rightarrow> ringOutage rc m now g | Some pieces \<Rightarrow>
            if pieces = [] \<and> broke then ringOutage rc m now g
            else let firstText = (case pieces of [] \<Rightarrow> '''' | x # _ \<Rightarrow> x)
               in if sseFirstError js firstText \<noteq> None then ringOutage rc m now g
                  else let st = fold (scan (js_usage js)) (filter (\<lambda>x. x \<noteq> '''') pieces) \<lparr>sc_buf = '''', sc_usage = None\<rparr>
                       in (ChatStream (filter (\<lambda>x. x \<noteq> '''') pieces),
                           (markRingOk (md_cid m) now g)\<lparr>gt_db := finish_stream w (md_id m) st now_sec (gt_db g)\<rparr>))"

definition chat_finish ::
  "ring_config \<Rightarrow> json_reader \<Rightarrow> string \<Rightarrow> model \<Rightarrow> bool \<Rightarrow> upstream \<Rightarrow> int \<Rightarrow> int \<Rightarrow> gateway \<Rightarrow> chat_result \<times> gateway" where
  "chat_finish rc js w m stream up now now_sec g =
     (if stream then chat_stream rc js w m up now now_sec g else chat_whole rc js w m up now now_sec g)"

text \<open>
  The whole route. \<open>bridges\<close> is what the bridge replies to a forwarded request; \<open>d0\<close> is the ledger as it was
  when the request arrived, \<open>g\<close> the state when the reply is handled.
\<close>

definition post_chat_completions ::
  "config \<Rightarrow> credit_config \<Rightarrow> crypto \<Rightarrow> ring_config \<Rightarrow> json_reader \<Rightarrow> model list \<Rightarrow> (forwarded \<Rightarrow> upstream) \<Rightarrow> chat_request
   \<Rightarrow> db \<Rightarrow> int \<Rightarrow> int \<Rightarrow> gateway \<Rightarrow> chat_result \<times> gateway" where
  "post_chat_completions c cc cr rc js pool bridges q d0 now now_sec g =
     (case chat_start c cc cr pool q now_sec d0 of
        Inl a \<Rightarrow> (a, g)
      | Inr (w, m, fw) \<Rightarrow> chat_finish rc js w m (cq_stream q) (bridges fw) now now_sec g)"

definition get_models :: "credit_config \<Rightarrow> crypto \<Rightarrow> model list \<Rightarrow> chat_request \<Rightarrow> db \<Rightarrow> (string \<times> string) list answer" where
  "get_models cc cr pool q d =
     (case bearerWallet cr (bearer_of (cq_authorization q)) d of
        None \<Rightarrow> refuse 401 (if supplied q then ''invalid API key'' else ''this endpoint needs an API key'')
      | Some w \<Rightarrow>
          if w = '''' then refuse 401 (if supplied q then ''invalid API key'' else ''this endpoint needs an API key'')
          else if creditUnmetered cc w \<and> \<not> unmeteredIpAllowed cc (cq_net q) then refuse 403 ''key not permitted from this address''
          else Inr (map (\<lambda>m. (md_id m, md_name m)) pool))"

section \<open>The Anthropic surface\<close>

text \<open>A content field is a string or a list of blocks; \<open>None\<close> is a block without a text.\<close>

datatype a_content = AText string | ABlocks "(bool \<times> string option) list" | AOther

definition anthropicTextOf :: "a_content \<Rightarrow> string" where
  "anthropicTextOf ct =
     (case ct of
        AText s \<Rightarrow> s
      | AOther \<Rightarrow> ''''
      | ABlocks bs \<Rightarrow> concat (map (\<lambda>(_, t). case t of Some s \<Rightarrow> s | None \<Rightarrow> '''') (filter (\<lambda>(is_text, t). is_text \<or> t \<noteq> None) bs)))"

record anthropic_request =
  an_authorization :: string
  an_x_api_key :: string
  an_net :: net_request
  an_model :: string
  an_stream :: bool
  an_system :: "a_content option"
  an_messages :: "(string \<times> a_content) list"
  an_max_tokens :: "int option"

definition STOP_REASON :: "string \<Rightarrow> string option" where
  "STOP_REASON s =
     (if s = ''stop'' then Some ''end_turn'' else if s = ''length'' then Some ''max_tokens''
      else if s = ''tool_calls'' then Some ''tool_use'' else None)"

text \<open>
  The request the route sends to its own process over loopback: the credential of the caller as a bearer token, and
  nothing else of the caller's headers. Its source address is the loopback address.
\<close>

definition anthropic_forward :: "anthropic_request \<Rightarrow> chat_request" where
  "anthropic_forward a =
     \<lparr>cq_authorization = (if an_x_api_key a \<noteq> '''' then ''Bearer '' @ an_x_api_key a else an_authorization a),
      cq_x_api_key = '''', cq_net = \<lparr>remoteAddress = ''127.0.0.1'', cf_connecting_ip = ''''\<rparr>,
      cq_model = an_model a, cq_stream = False, cq_enable_thinking = None,
      cq_messages = (case an_system a of None \<Rightarrow> [] | Some s \<Rightarrow> (if s = AText '''' then [] else [(''system'', anthropicTextOf s)])) @
        map (\<lambda>(r, ct). (r, anthropicTextOf ct)) (an_messages a),
      cq_max_tokens = an_max_tokens a\<rparr>"

datatype anthropic_result =
    AnthropicError (ae_status: nat) (ae_type: string)
  | AnthropicMessage (am_id: string) (am_model: string) (am_text: string) (am_stop: string) (am_input: rat) (am_output: rat)

definition msg_id :: "string \<Rightarrow> string \<Rightarrow> string" where
  "msg_id i fallback = or_else (if starts_with i ''chatcmpl'' then ''msg'' @ drop 8 i else i) fallback"

definition first_choice :: "chat_json \<Rightarrow> string option \<times> string option" where
  "first_choice d = (case cj_choices d of Some (ch # _) \<Rightarrow> ch | _ \<Rightarrow> (None, None))"

definition anthropic_answer :: "anthropic_request \<Rightarrow> string \<Rightarrow> chat_result \<Rightarrow> anthropic_result" where
  "anthropic_answer a fallback r =
     (case r of
        ChatError s ty \<Rightarrow> AnthropicError s (if s = 401 then ''authentication_error'' else ''api_error'')
      | ChatStream _ \<Rightarrow> AnthropicError 200 ''api_error''
      | ChatJson d \<Rightarrow>
          (let ch = first_choice d
           in AnthropicMessage (msg_id (cj_id d) fallback) (case cj_model d of Some m \<Rightarrow> m | None \<Rightarrow> an_model a)
                (case fst ch of Some x \<Rightarrow> x | None \<Rightarrow> '''')
                (case snd ch of Some f \<Rightarrow> (case STOP_REASON f of Some v \<Rightarrow> v | None \<Rightarrow> ''end_turn'') | None \<Rightarrow> ''end_turn'')
                (case cj_usage d of Some (p, _) \<Rightarrow> p | None \<Rightarrow> 0) (case cj_usage d of Some (_, k) \<Rightarrow> k | None \<Rightarrow> 0)))"

definition post_anthropic_messages ::
  "config \<Rightarrow> credit_config \<Rightarrow> crypto \<Rightarrow> ring_config \<Rightarrow> json_reader \<Rightarrow> model list \<Rightarrow> (forwarded \<Rightarrow> upstream) \<Rightarrow> anthropic_request
   \<Rightarrow> string \<Rightarrow> db \<Rightarrow> int \<Rightarrow> int \<Rightarrow> gateway \<Rightarrow> anthropic_result \<times> gateway" where
  "post_anthropic_messages c cc cr rc js pool bridges a fallback d0 now now_sec g =
     (if an_stream a then (AnthropicError 400 ''invalid_request_error'', g)
      else case post_chat_completions c cc cr rc js pool bridges (anthropic_forward a) d0 now now_sec g of
             (r, g') \<Rightarrow> (anthropic_answer a fallback r, g'))"

definition get_anthropic_models :: "crypto \<Rightarrow> model list \<Rightarrow> string \<Rightarrow> db \<Rightarrow> (string \<times> string) list answer" where
  "get_anthropic_models cr pool authorization d =
     (case bearerWallet cr (bearer_of authorization) d of
        None \<Rightarrow> refuse 401 ''this endpoint needs an API key: send x-api-key or Authorization: Bearer <key>''
      | Some w \<Rightarrow>
          if w = '''' then refuse 401 ''this endpoint needs an API key: send x-api-key or Authorization: Bearer <key>''
          else Inr (map (\<lambda>m. (md_id m, md_name m)) pool))"

section \<open>Is the ring serving\<close>

text \<open>A row of the bridge's controller list as the probe reads it.\<close>

record phase_row =
  ph_id :: string
  ph_phase :: string
  ph_runtime_loaded :: bool
  ph_active :: bool

text \<open>\<open>listing\<close> is \<open>None\<close> when the bridge did not answer with a list; the result is \<open>None\<close> for unknown.\<close>

definition ringServing :: "phase_row list option \<Rightarrow> string \<Rightarrow> bool option" where
  "ringServing listing ring =
     (case listing of
        None \<Rightarrow> None
      | Some rows \<Rightarrow>
          (case List.find (\<lambda>x. ph_id x = ring) rows of
             None \<Rightarrow> Some False
           | Some x \<Rightarrow>
               if ph_phase x \<noteq> '''' \<and> ph_phase x \<notin> {''running'', ''loading'', ''serving''} then Some False
               else Some (ph_runtime_loaded x \<and> ph_active x)))"

definition recent_ok :: "ring_config \<Rightarrow> string \<Rightarrow> int \<Rightarrow> gateway \<Rightarrow> bool" where
  "recent_ok rc ring now g \<longleftrightarrow> (case get (gt_lastOk g) ring of Some t \<Rightarrow> t \<noteq> 0 \<and> now - t < RING_WATCHDOG_MS rc | None \<Rightarrow> False)"

text \<open>
  \<^verbatim>\<open>probeModel\<close> of the watchdog: the part before the listing is fetched, which may already settle it, and the part
  after.
\<close>

definition probe_skips :: "ring_config \<Rightarrow> model \<Rightarrow> int \<Rightarrow> gateway \<Rightarrow> bool \<times> gateway" where
  "probe_skips rc m now g =
     (if recent_ok rc (md_cid m) now g then (True, g\<lparr>gt_streak := put (md_cid m) 0 (gt_streak g)\<rparr>) else (False, g))"

definition streak_of :: "string \<Rightarrow> gateway \<Rightarrow> nat" where
  "streak_of ring g = (case get (gt_streak g) ring of Some n \<Rightarrow> n | None \<Rightarrow> 0)"

definition probe_read :: "ring_config \<Rightarrow> model \<Rightarrow> phase_row list option \<Rightarrow> int \<Rightarrow> gateway \<Rightarrow> gateway" where
  "probe_read rc m listing now g =
     (if ringServing listing (md_cid m) \<noteq> Some False then g\<lparr>gt_streak := put (md_cid m) 0 (gt_streak g)\<rparr>
      else let n = streak_of (md_cid m) g + 1; g1 = g\<lparr>gt_streak := put (md_cid m) n (gt_streak g)\<rparr>
           in if 2 \<le> n then (reloadRing rc (md_url m) (md_cid m) now g1)\<lparr>gt_streak := put (md_cid m) 0 (gt_streak g1)\<rparr>
              else g1)"

text \<open>The rings one round of the watchdog visits: each pair of bridge and ring once.\<close>

fun watchdog_rounds :: "model list \<Rightarrow> (string \<times> string) list \<Rightarrow> model list" where
  "watchdog_rounds [] seen = []"
| "watchdog_rounds (m # ms) seen =
     (if md_url m = '''' \<or> md_cid m = '''' then watchdog_rounds ms seen
      else if (md_url m, md_cid m) \<in> set seen then watchdog_rounds ms seen
      else m # watchdog_rounds ms (seen @ [(md_url m, md_cid m)]))"

record health_cache =
  hc_at :: int
  hc_body :: "string option"
  hc_code :: nat

definition health_fresh :: "int \<Rightarrow> health_cache \<Rightarrow> bool" where
  "health_fresh now h \<longleftrightarrow> hc_body h \<noteq> None \<and> now - hc_at h < 5000"

definition get_v1_health ::
  "ring_config \<Rightarrow> model list \<Rightarrow> (string \<Rightarrow> phase_row list option) \<Rightarrow> int \<Rightarrow> health_cache \<Rightarrow> gateway \<Rightarrow> nat \<times> health_cache \<times> gateway" where
  "get_v1_health rc pool listing now h g =
     (if health_fresh now h then (hc_code h, h, g)
      else let answer = (\<lambda>code st. (code, \<lparr>hc_at = now, hc_body = Some st, hc_code = code\<rparr>))
           in case pool of
                [] \<Rightarrow> (case answer 503 ''no_model'' of (k, h') \<Rightarrow> (k, h', g))
              | m # _ \<Rightarrow>
                  if md_url m = '''' \<or> md_cid m = '''' then (case answer 503 ''no_model'' of (k, h') \<Rightarrow> (k, h', g))
                  else if recent_ok rc (md_cid m) now g then (case answer 200 ''ok'' of (k, h') \<Rightarrow> (k, h', g))
                  else if ringServing (listing (md_url m)) (md_cid m) \<noteq> Some False
                  then (case answer 200 ''ok'' of (k, h') \<Rightarrow> (k, h', g))
                  else (case answer 503 ''unhealthy'' of (k, h') \<Rightarrow> (k, h', reloadRing rc (md_url m) (md_cid m) now g)))"

section \<open>What is passed through to the bridge\<close>

definition PASSED_HEADERS :: "string list" where
  "PASSED_HEADERS = [''x-kvasir-service-token'', ''authorization'', ''content-type'']"

definition PASSED_PATHS :: "string list" where
  "PASSED_PATHS = [''/api/auth/challenge'', ''/api/auth/node-token'', ''/api/expert-demand'', ''/api/expert-volunteer'',
     ''/api/expert-coverage'', ''/api/admissions'']"

definition proxy_path :: "string \<Rightarrow> bool" where
  "proxy_path p \<longleftrightarrow>
     (case split_on CHR ''/'' p of
        [e, a, b, c, m, k] \<Rightarrow> e = '''' \<and> a = ''api'' \<and> b = ''proxy'' \<and> c = ''models'' \<and> m \<noteq> '''' \<and> (k = ''expert-shard'' \<or> k = ''stage'')
      | _ \<Rightarrow> False)"

definition passed_headers :: "(string \<times> string) list \<Rightarrow> (string \<times> string) list" where
  "passed_headers hs =
     concat (map (\<lambda>k. case get hs k of Some v \<Rightarrow> (if v = '''' then [] else [(k, v)]) | None \<Rightarrow> []) PASSED_HEADERS)"

definition passed_body :: "string \<Rightarrow> string \<Rightarrow> string option" where
  "passed_body meth body = (if meth = ''GET'' \<or> meth = ''HEAD'' then None else Some body)"

datatype passed = NoBridge | Forward (pf_url: string) (pf_method: string) (pf_headers: "(string \<times> string) list") (pf_body: "string option") | NotPassed

definition participation_passthrough ::
  "string \<Rightarrow> string \<Rightarrow> string \<Rightarrow> string \<Rightarrow> (string \<times> string) list \<Rightarrow> string \<Rightarrow> passed" where
  "participation_passthrough bridge_url meth path qs hs body =
     (if path \<in> set PASSED_PATHS \<or> proxy_path path then
        (if bridge_url = '''' then NoBridge else Forward (bridge_url @ path @ qs) meth (passed_headers hs) (passed_body meth body))
      else NotPassed)"

text \<open>The unmatched paths: which error envelope an API path gets, and which paths are pages.\<close>

definition is_api_path :: "string \<Rightarrow> bool" where
  "is_api_path p \<longleftrightarrow> starts_with p ''/api/'' \<or> starts_with p ''/v1/'' \<or> starts_with p ''/anthropic/'' \<or> starts_with p ''/c/''"

datatype unmatched = AnthropicNotFound | OpenaiNotFound | WalletPage | FallsThrough

definition unmatched_route :: "bool \<Rightarrow> string \<Rightarrow> string \<Rightarrow> unmatched" where
  "unmatched_route web meth path =
     (if is_api_path path then (if starts_with path ''/anthropic/'' then AnthropicNotFound else OpenaiNotFound)
      else if web \<and> meth = ''GET'' \<and> path \<noteq> ''/health'' then WalletPage
      else FallsThrough)"

section \<open>Charging\<close>

lemmas ring_defs = ringOutage_def reloadRing_def markRingOk_def Let_def

lemma reloadRing_db [simp]: "gt_db (reloadRing rc url ring now g) = gt_db g" "gt_lastOk (reloadRing rc url ring now g) = gt_lastOk g"
  by (simp_all add: reloadRing_def Let_def)

lemma outage_db [simp]: "gt_db (snd (ringOutage rc m now g)) = gt_db g" "fst (ringOutage rc m now g) = ChatError 503 ''hub_unavailable''"
  by (simp_all add: ringOutage_def)

text \<open>
  C13: A caller pays for the answer it gets and for nothing else. When the route answers with an error, whichever it
  is, the ledger is untouched; when it answers with a whole completion, the wallet of the key was admitted and is
  debited exactly the usage in that completion, or nothing if it states none; when it answers with a stream, the
  debit is the one of the usage in the text that was written to the caller, however the network had cut it.
\<close>
theorem completion_charges_answer:
  "case post_chat_completions c cc cr rc js pool bridges q d0 now now_sec g of
     (ChatError s ty, g') \<Rightarrow> gt_db g' = gt_db g
   | (ChatJson d, g') \<Rightarrow>
       (\<exists>w m. chat_admission c cc cr (bearer_of (cq_authorization q)) (cq_net q) now_sec d0 = Inr w \<and> find_model (cq_model q) pool = Some m \<and>
          gt_db g' = (case cj_usage d of None \<Rightarrow> gt_db g | Some (pt, ct) \<Rightarrow> snd (debitCredits w (md_id m) pt ct now_sec (gt_db g))))
   | (ChatStream xs, g') \<Rightarrow>
       (\<exists>w m. chat_admission c cc cr (bearer_of (cq_authorization q)) (cq_net q) now_sec d0 = Inr w \<and> find_model (cq_model q) pool = Some m \<and>
          gt_db g' = finish_stream w (md_id m) (scan (js_usage js) (concat xs) \<lparr>sc_buf = '''', sc_usage = None\<rparr>) now_sec (gt_db g))"
proof (cases "chat_start c cc cr pool q now_sec d0")
  case (Inl a)
  then have "\<exists>s ty. a = ChatError s ty"
    by (auto simp: chat_start_def split: sum.splits refusal.splits option.splits if_splits)
  with Inl show ?thesis by (auto simp: post_chat_completions_def)
next
  case (Inr x)
  obtain w m fw where x: "x = (w, m, fw)" by (cases x) auto
  have adm: "chat_admission c cc cr (bearer_of (cq_authorization q)) (cq_net q) now_sec d0 = Inr w" "find_model (cq_model q) pool = Some m"
    using Inr by (auto simp: x chat_start_def split: sum.splits refusal.splits option.splits if_splits)
  have whole: "case chat_whole rc js w m up now now_sec g of (ChatError s ty, g') \<Rightarrow> gt_db g' = gt_db g
     | (ChatJson d, g') \<Rightarrow> gt_db g' = debit_usage w (md_id m) (cj_usage d) now_sec (gt_db g) | (ChatStream _, _) \<Rightarrow> False" for up
    by (auto simp: chat_whole_def ringOutage_def split: upstream.split option.split if_splits)
  have folded: "fold (scan f) xs s = scan f (concat xs) s" if "xs \<noteq> [] \<or> newline \<notin> set (sc_buf s)" for f xs s
  proof (cases "xs = []")
    case True
    with that show ?thesis by (simp add: scan_def) (subst scan_while.simps, simp)
  next
    case False
    then show ?thesis using scan_chunks [where f = f and chunks = xs and s = s] by simp
  qed
  have strm: "case chat_stream rc js w m up now now_sec g of (ChatError s ty, g') \<Rightarrow> gt_db g' = gt_db g
     | (ChatJson d, g') \<Rightarrow> False
     | (ChatStream xs, g') \<Rightarrow> gt_db g' = finish_stream w (md_id m) (scan (js_usage js) (concat xs) \<lparr>sc_buf = '''', sc_usage = None\<rparr>) now_sec (gt_db g)" for up
    by (auto simp: chat_stream_def ringOutage_def Let_def folded split: upstream.split option.split if_splits)
  show ?thesis
    using whole [of "bridges fw"] strm [of "bridges fw"] adm
    by (auto simp: post_chat_completions_def Inr x chat_finish_def debit_usage_def split: prod.splits chat_result.splits)
qed

section \<open>Reloads\<close>

definition reload_times :: "string \<Rightarrow> gateway \<Rightarrow> int list" where
  "reload_times ring g = map (snd \<circ> snd) (filter (\<lambda>x. fst (snd x) = ring) (gt_serveCalls g))"

text \<open>Everything that can touch a ring's state, in any order, on a clock that does not run backwards.\<close>

inductive ring_step :: "ring_config \<Rightarrow> int \<times> gateway \<Rightarrow> int \<times> gateway \<Rightarrow> bool" for rc where
  completed: "t \<le> now \<Longrightarrow> ring_step rc (t, g) (now, snd (chat_finish rc js w m stream up now now_sec g))"
| skipped: "t \<le> now \<Longrightarrow> ring_step rc (t, g) (now, snd (probe_skips rc m now g))"
| read: "t \<le> now \<Longrightarrow> ring_step rc (t, g) (now, probe_read rc m listing now g)"
| health: "t \<le> now \<Longrightarrow> ring_step rc (t, g) (now, snd (snd (get_v1_health rc pool lst now h g)))"
| reloaded: "t \<le> now \<Longrightarrow> ring_step rc (t, g) (now, reload_answered r code g)"
| cleared: "t \<le> now \<Longrightarrow> ring_step rc (t, g) (now, reload_cleared r g)"

definition reload_ok :: "ring_config \<Rightarrow> string \<Rightarrow> int \<times> gateway \<Rightarrow> bool" where
  "reload_ok rc ring s \<longleftrightarrow>
     (let ts = reload_times ring (snd s)
      in successively (\<lambda>a b. a + RING_RELOAD_COOLDOWN_MS rc \<le> b) ts \<and> (ts \<noteq> [] \<longrightarrow> rs_at (reload_of ring (snd s)) = last ts))"

text \<open>Two states of the gateway that agree on a ring's reloads.\<close>

definition same_reload :: "string \<Rightarrow> gateway \<Rightarrow> gateway \<Rightarrow> bool" where
  "same_reload ring g g' \<longleftrightarrow> reload_times ring g' = reload_times ring g \<and> rs_at (reload_of ring g') = rs_at (reload_of ring g) \<and>
     (rs_external (reload_of ring g) \<longrightarrow> rs_external (reload_of ring g'))"

lemma reload_of_put [simp]: "reload_of r (g\<lparr>gt_reload := put k s (gt_reload g)\<rparr>) = (if r = k then s else reload_of r g)"
  by (simp add: reload_of_def table_simps)

lemma reload_times_simps [simp]:
  "reload_times r (g\<lparr>gt_reload := x\<rparr>) = reload_times r g" "reload_times r (g\<lparr>gt_streak := y\<rparr>) = reload_times r g"
  "reload_times r (g\<lparr>gt_lastOk := z\<rparr>) = reload_times r g" "reload_times r (g\<lparr>gt_db := d\<rparr>) = reload_times r g"
  "reload_of r (g\<lparr>gt_streak := y\<rparr>) = reload_of r g" "reload_of r (g\<lparr>gt_lastOk := z\<rparr>) = reload_of r g"
  "reload_of r (g\<lparr>gt_db := d\<rparr>) = reload_of r g"
  by (simp_all add: reload_times_def reload_of_def)

text \<open>
  A step either leaves the reloads of a ring alone, or asks the bridge once, and the latter only for a ring that was
  never told that placement is external and whose last request is a cooldown ago.
\<close>

definition asks_once :: "ring_config \<Rightarrow> string \<Rightarrow> int \<Rightarrow> gateway \<Rightarrow> gateway \<Rightarrow> bool" where
  "asks_once rc ring now g g' \<longleftrightarrow> reload_times ring g' = reload_times ring g @ [now] \<and> rs_at (reload_of ring g') = now \<and>
     \<not> rs_external (reload_of ring g) \<and> RING_RELOAD_COOLDOWN_MS rc \<le> now - rs_at (reload_of ring g)"

lemma reload_effect: "same_reload r g (reloadRing rc url ring now g) \<or> asks_once rc r now g (reloadRing rc url ring now g)"
  by (auto simp: reloadRing_def Let_def same_reload_def asks_once_def reload_times_def reload_of_def table_simps)

lemma reload_effect_more:
  assumes "\<And>h. reload_times r (f h) = reload_times r h \<and> reload_of r (f h) = reload_of r h"
    and "same_reload r g g' \<or> asks_once rc r now g g'"
  shows "same_reload r g (f g') \<or> asks_once rc r now g (f g')"
  using assms by (simp add: same_reload_def asks_once_def)

lemma same_reload_refl [simp]: "same_reload r g g"
  by (simp add: same_reload_def)

lemma markRingOk_reload [simp]:
  "reload_times r (markRingOk ring now g) = reload_times r g" "reload_of r (markRingOk ring now g) = reload_of r g"
  by (simp_all add: markRingOk_def)

lemma outage_effect: "same_reload r g (snd (ringOutage rc m now g)) \<or> asks_once rc r now g (snd (ringOutage rc m now g))"
  using reload_effect by (simp add: ringOutage_def)

lemma finish_shape:
  "chat_finish rc js w m stream up now now_sec g = ringOutage rc m now g \<or>
   (\<exists>a d. chat_finish rc js w m stream up now now_sec g = (a, (markRingOk (md_cid m) now g)\<lparr>gt_db := d\<rparr>))"
proof (cases up)
  case (Reply s raw chunks broke)
  show ?thesis
    by (cases stream; cases "is_ok s"; cases "js_answer js raw"; cases chunks)
      (force simp: chat_finish_def chat_whole_def chat_stream_def Reply Let_def)+
qed (simp add: chat_finish_def chat_whole_def chat_stream_def)

lemma finish_effect:
  "same_reload r g (snd (chat_finish rc js w m stream up now now_sec g)) \<or>
   asks_once rc r now g (snd (chat_finish rc js w m stream up now now_sec g))"
proof -
  let ?g = "snd (chat_finish rc js w m stream up now now_sec g)"
  have "?g = snd (ringOutage rc m now g) \<or> (\<exists>d. ?g = (markRingOk (md_cid m) now g)\<lparr>gt_db := d\<rparr>)"
    using finish_shape [of rc js w m stream up now now_sec g] by (metis snd_conv)
  then show ?thesis
  proof
    assume "?g = snd (ringOutage rc m now g)"
    then show ?thesis using outage_effect [of r g rc m now] by simp
  qed (auto simp: same_reload_def)
qed

lemma probe_effect:
  "same_reload r g (probe_read rc m listing now g) \<or> asks_once rc r now g (probe_read rc m listing now g)"
proof -
  let ?f = "\<lambda>h. h\<lparr>gt_streak := put (md_cid m) (streak_of (md_cid m) g + 1) (gt_streak g)\<rparr>"
  let ?k = "\<lambda>h. h\<lparr>gt_streak := put (md_cid m) 0 (gt_streak (?f g))\<rparr>"
  have "same_reload r g (?k (reloadRing rc (md_url m) (md_cid m) now (?f g))) \<or> asks_once rc r now g (?k (reloadRing rc (md_url m) (md_cid m) now (?f g)))"
    using reload_effect [of r "?f g" rc "md_url m" "md_cid m" now] by (simp add: same_reload_def asks_once_def)
  then show ?thesis by (auto simp: probe_read_def Let_def same_reload_def)
qed

lemma health_effect:
  "same_reload r g (snd (snd (get_v1_health rc pool lst now h g))) \<or> asks_once rc r now g (snd (snd (get_v1_health rc pool lst now h g)))"
  using reload_effect by (auto simp: get_v1_health_def Let_def split: list.split)

lemma step_effect:
  assumes "ring_step rc (t, g) (now, g')"
  shows "t \<le> now \<and> (same_reload r g g' \<or> asks_once rc r now g g')"
  using assms
proof cases
  case (reloaded k code)
  then show ?thesis by (auto simp: reload_answered_def Let_def same_reload_def)
next
  case (cleared k)
  then show ?thesis by (auto simp: reload_cleared_def same_reload_def)
qed (use finish_effect probe_effect health_effect in \<open>auto simp: probe_skips_def same_reload_def\<close>)

text \<open>
  C14: Whatever happens and in whatever order (failing completions, health checks, watchdog probes, answers and
  timers), a ring is asked to reload at most once per cooldown; and once the bridge has answered that placement is
  an operator's action, it is never asked again.
\<close>
theorem reload_debounced:
  assumes "(ring_step rc)\<^sup>*\<^sup>* (t0, g0) (t, g)" and "gt_serveCalls g0 = []"
  shows "successively (\<lambda>a b. a + RING_RELOAD_COOLDOWN_MS rc \<le> b) (reload_times ring g) \<and>
    (\<forall>t' g'. rs_external (reload_of ring g) \<longrightarrow> (ring_step rc)\<^sup>*\<^sup>* (t, g) (t', g') \<longrightarrow> reload_times ring g' = reload_times ring g)"
proof (intro conjI allI impI)
  have "reload_ok rc ring (t, g)" using assms(1)
  proof (induction "(t, g)" arbitrary: t g rule: rtranclp_induct)
    case base
    show ?case using assms(2) by (simp add: reload_ok_def reload_times_def)
  next
    case (step y)
    obtain t1 g1 where y: "y = (t1, g1)" by fastforce
    from step(3) y have "reload_ok rc ring (t1, g1)" by simp
    moreover from step_effect [of rc t1 g1 t g ring] step(2) y have "same_reload ring g1 g \<or> asks_once rc ring t g1 g" by simp
    ultimately show ?case
      by (auto simp: reload_ok_def Let_def same_reload_def asks_once_def successively_append_iff)
  qed
  then show "successively (\<lambda>a b. a + RING_RELOAD_COOLDOWN_MS rc \<le> b) (reload_times ring g)" by (simp add: reload_ok_def Let_def)
next
  fix t' g'
  assume ext: "rs_external (reload_of ring g)" and "(ring_step rc)\<^sup>*\<^sup>* (t, g) (t', g')"
  from this(2) have "reload_times ring g' = reload_times ring g \<and> rs_external (reload_of ring g')"
  proof (induction "(t', g')" arbitrary: t' g' rule: rtranclp_induct)
    case (step y)
    obtain t1 g1 where y: "y = (t1, g1)" by fastforce
    from step_effect [of rc t1 g1 t' g' ring] step(2,3) y show ?case by (auto simp: same_reload_def asks_once_def)
  qed (use ext in simp)
  then show "reload_times ring g' = reload_times ring g" by simp
qed

text \<open>
  The watchdog leaves a live ring alone: it asks for a reload only after two consecutive rounds read the ring as not
  serving, and a round that finds recent traffic, a serving ring or no answer starts the count again.
\<close>
theorem watchdog_needs_two_reads:
  assumes "reload_times ring (probe_read rc m listing now g) \<noteq> reload_times ring g"
  shows "md_cid m = ring \<and> ringServing listing ring = Some False \<and> 1 \<le> streak_of ring g"
proof -
  have other: "reload_times ring (reloadRing rc url k now h) = reload_times ring h" if "k \<noteq> ring" for url k h
    using that by (auto simp: reloadRing_def Let_def reload_times_def)
  have "md_cid m = ring"
    using assms other by (cases "md_cid m = ring") (auto simp: probe_read_def Let_def split: if_splits)
  with assms show ?thesis by (auto simp: probe_read_def Let_def split: if_splits)
qed

text \<open>
  The success record, the streak and the reload state are kept per controller id, while ids are unique only within
  a bridge. A completion served by one bridge therefore hides an outage of the ring of the same id on another: the
  watchdog does not even probe it.
\<close>
theorem namesake_masks_outage:
  assumes "md_cid m = md_cid m'" and "md_url m \<noteq> md_url m'" and "md_cid m \<noteq> ''''" and "now \<noteq> 0" and "later - now < RING_WATCHDOG_MS rc"
    and "fst (chat_finish rc js w m stream up now now_sec g) = ChatJson d \<or> fst (chat_finish rc js w m stream up now now_sec g) = ChatStream xs"
  shows "fst (probe_skips rc m' later (snd (chat_finish rc js w m stream up now now_sec g)))"
proof -
  let ?g = "snd (chat_finish rc js w m stream up now now_sec g)"
  have "\<exists>db. ?g = (markRingOk (md_cid m) now g)\<lparr>gt_db := db\<rparr>"
    using assms(6) finish_shape [of rc js w m stream up now now_sec g] by auto
  then have "get (gt_lastOk ?g) (md_cid m') = Some now" using assms(1,3) by (auto simp: markRingOk_def table_simps)
  then show ?thesis using assms(4,5) by (simp add: probe_skips_def recent_ok_def)
qed

section \<open>The Anthropic surface\<close>

text \<open>
  The Anthropic route checks the wrong address. Its request to itself comes from the loopback address and carries
  none of the caller's headers but the credential, so the address binding of an unmetered key is decided without the
  caller's address: with the loopback address on the list every caller passes, and without it none does.
\<close>
theorem anthropic_ignores_address:
  "post_anthropic_messages c cc cr rc js pool bridges (a\<lparr>an_net := n\<rparr>) fallback d0 now now_sec g =
     post_anthropic_messages c cc cr rc js pool bridges a fallback d0 now now_sec g \<and>
   (creditUnmetered cc w \<and> bearerWallet cr (bearer_of (cq_authorization (anthropic_forward a))) d0 = Some w \<and>
    ''127.0.0.1'' \<notin> set (UNMETERED_ALLOW_IPS cc) \<and> UNMETERED_ALLOW_IPS cc \<noteq> [] \<and> \<not> an_stream a \<longrightarrow>
    (\<exists>st ty. fst (post_anthropic_messages c cc cr rc js pool bridges a fallback d0 now now_sec g) = AnthropicError st ty \<and> st \<in> {401, 403}))"
proof -
  have ip: "callerIp \<lparr>remoteAddress = ''127.0.0.1'', cf_connecting_ip = ''''\<rparr> = ''127.0.0.1''" by code_simp
  have "anthropic_forward (a\<lparr>an_net := n\<rparr>) = anthropic_forward a" by (simp add: anthropic_forward_def)
  moreover have "anthropic_answer (a\<lparr>an_net := n\<rparr>) fallback r = anthropic_answer a fallback r" for r
    by (simp add: anthropic_answer_def Let_def split: chat_result.split option.split)
  moreover have "cq_net (anthropic_forward a) = \<lparr>remoteAddress = ''127.0.0.1'', cf_connecting_ip = ''''\<rparr>" by (simp add: anthropic_forward_def)
  ultimately show ?thesis
    using ip by (auto simp: post_anthropic_messages_def post_chat_completions_def chat_start_def chat_admission_def
        unmeteredIpAllowed_def anthropic_answer_def split: if_splits)
qed

section \<open>Witnesses\<close>

definition toy_ring :: ring_config where
  "toy_ring = \<lparr>RING_RELOAD_COOLDOWN_MS = 120000, RING_WATCHDOG_MS = 30000\<rparr>"

definition toy_gateway :: gateway where
  "toy_gateway = \<lparr>gt_db = keyed_db, gt_lastOk = [], gt_reload = [], gt_streak = [], gt_serveCalls = []\<rparr>"

definition toy_model :: "string \<Rightarrow> model" where
  "toy_model url = \<lparr>md_id = url @ '':main'', md_name = ''m'', md_url = url, md_cid = ''main'', md_bridgeModel = ''m.gguf'',
     md_price = DEFAULT_PRICING\<rparr>"

definition toy_json :: json_reader where
  "toy_json = \<lparr>js_answer = (\<lambda>s. if s = ''ok'' then Some \<lparr>cj_id = ''chatcmpl-1'', cj_model = None, cj_choices = Some [(Some ''hi'', Some ''stop'')], cj_usage = Some (10, 20)\<rparr> else None),
     js_error = (\<lambda>s. None), js_usage = (\<lambda>s. None)\<rparr>"

text \<open>Two failing probes with a ring that is down, two minutes and a second apart.\<close>

theorem reload_debounced_witness:
  "successively (\<lambda>a b. a + RING_RELOAD_COOLDOWN_MS toy_ring \<le> b)
     (reload_times ''main'' (reloadRing toy_ring ''u'' ''main'' 300000 (reload_cleared ''main'' (reloadRing toy_ring ''u'' ''main'' 150000 toy_gateway)))) \<and>
   reload_times ''main'' (reloadRing toy_ring ''u'' ''main'' 300000 (reload_cleared ''main'' (reloadRing toy_ring ''u'' ''main'' 150000 toy_gateway)))
     = [150000, 300000]"
proof -
  let ?f = "\<lambda>now g. snd (chat_finish toy_ring toy_json ''w'' (toy_model ''u'') False (Unreachable '''') now 0 g)"
  have f: "?f now g = reloadRing toy_ring ''u'' ''main'' now g" for now g
    by (simp add: chat_finish_def chat_whole_def ringOutage_def toy_model_def)
  have "ring_step toy_ring (0, toy_gateway) (150000, ?f 150000 toy_gateway)" by (rule completed) simp
  moreover have "ring_step toy_ring \<dots> (150000, reload_cleared ''main'' (?f 150000 toy_gateway))" by (rule cleared) simp
  moreover have "ring_step toy_ring \<dots> (300000, ?f 300000 (reload_cleared ''main'' (?f 150000 toy_gateway)))" by (rule completed) simp
  ultimately have run: "(ring_step toy_ring)\<^sup>*\<^sup>* (0, toy_gateway) (300000, ?f 300000 (reload_cleared ''main'' (?f 150000 toy_gateway)))"
    by (meson converse_rtranclp_into_rtranclp rtranclp.rtrancl_refl)
  have "reload_times ''main'' (reloadRing toy_ring ''u'' ''main'' 300000 (reload_cleared ''main'' (reloadRing toy_ring ''u'' ''main'' 150000 toy_gateway)))
     = [150000, 300000]"
    by (simp add: reloadRing_def reload_cleared_def reload_of_def toy_gateway_def toy_ring_def reload_times_def Let_def)
  with reload_debounced [OF run, of "''main''"] show ?thesis by (simp add: f toy_gateway_def)
qed

theorem watchdog_needs_two_reads_witness:
  "1 \<le> streak_of ''main'' (probe_read toy_ring (toy_model ''u'') (Some []) 150000 toy_gateway) \<and>
   reload_times ''main'' (probe_read toy_ring (toy_model ''u'') (Some []) 180000 (probe_read toy_ring (toy_model ''u'') (Some []) 150000 toy_gateway)) = [180000]"
proof -
  have v: "reload_times ''main'' (probe_read toy_ring (toy_model ''u'') (Some []) 180000 (probe_read toy_ring (toy_model ''u'') (Some []) 150000 toy_gateway)) = [180000]"
    "reload_times ''main'' (probe_read toy_ring (toy_model ''u'') (Some []) 150000 toy_gateway) = []"
    by (simp_all add: probe_read_def ringServing_def toy_model_def streak_of_def toy_gateway_def reloadRing_def reload_of_def toy_ring_def reload_times_def Let_def)
  have "reload_times ''main'' (probe_read toy_ring (toy_model ''u'') (Some []) 180000 (probe_read toy_ring (toy_model ''u'') (Some []) 150000 toy_gateway))
     \<noteq> reload_times ''main'' (probe_read toy_ring (toy_model ''u'') (Some []) 150000 toy_gateway)" using v by simp
  from watchdog_needs_two_reads [OF this] v(1) show ?thesis by simp
qed

theorem namesake_masks_outage_witness:
  "fst (probe_skips toy_ring (toy_model ''down'') 160000 (snd (chat_finish toy_ring toy_json ''w'' (toy_model ''up'') False (Reply 200 ''ok'' None False) 150000 0 toy_gateway)))"
  by (rule namesake_masks_outage [where d = "\<lparr>cj_id = ''chatcmpl-1'', cj_model = None, cj_choices = Some [(Some ''hi'', Some ''stop'')], cj_usage = Some (10, 20)\<rparr>"])
    (simp_all add: toy_model_def toy_ring_def chat_finish_def chat_whole_def is_ok_def toy_json_def)

definition toy_anthropic :: anthropic_request where
  "toy_anthropic = \<lparr>an_authorization = '''', an_x_api_key = ''old'', an_net = \<lparr>remoteAddress = ''10.0.0.7'', cf_connecting_ip = ''''\<rparr>,
     an_model = ''m'', an_stream = False, an_system = None, an_messages = [], an_max_tokens = None\<rparr>"

theorem anthropic_ignores_address_witness:
  "\<exists>st ty. fst (post_anthropic_messages default_config (open_credits\<lparr>CREDIT_UNMETERED := [sample_wallet]\<rparr>) toy_crypto toy_ring toy_json [] (\<lambda>_. Unreachable '''')
     toy_anthropic '''' keyed_db 0 0 toy_gateway) = AnthropicError st ty \<and> st \<in> {401, 403}"
proof -
  have v: "bearerWallet toy_crypto (bearer_of (cq_authorization (anthropic_forward toy_anthropic))) keyed_db = Some sample_wallet" by code_simp
  have "creditUnmetered (open_credits\<lparr>CREDIT_UNMETERED := [sample_wallet]\<rparr>) sample_wallet" "\<not> an_stream toy_anthropic"
    "''127.0.0.1'' \<notin> set (UNMETERED_ALLOW_IPS (open_credits\<lparr>CREDIT_UNMETERED := [sample_wallet]\<rparr>))"
    "UNMETERED_ALLOW_IPS (open_credits\<lparr>CREDIT_UNMETERED := [sample_wallet]\<rparr>) \<noteq> []"
    by (simp_all add: creditUnmetered_def open_credits_def toy_anthropic_def)
  with v anthropic_ignores_address [where c = default_config and cc = "open_credits\<lparr>CREDIT_UNMETERED := [sample_wallet]\<rparr>" and cr = toy_crypto
      and rc = toy_ring and js = toy_json and pool = "[]" and bridges = "\<lambda>_. Unreachable ''''" and a = toy_anthropic and fallback = "''''"
      and ?d0.0 = keyed_db and now = 0 and now_sec = 0 and g = toy_gateway and w = sample_wallet]
  show ?thesis by blast
qed

end
