(* ===== verification/JS_Bytes.thy ===== *)
theory JS_Bytes
  imports JS_String "HOL-Library.Word"
begin

text \<open>
  Buffers: byte lists with the fixed-width reads and writes of Node's \<^verbatim>\<open>Buffer\<close>, the UTF-8 text
  of a buffer, and the interface \<open>incremental\<close> of a decoder that is fed a stream in chunks. A write
  of a number that does not fit its field throws in the code and is \<open>None\<close> here. \<open>to_Number\<close> is
  JavaScript's \<^verbatim>\<open>Number(b)\<close> of a BigInt, which rounds above \<open>2 ^ 53\<close>.
\<close>

type_synonym byte = "8 word"
type_synonym buffer = "byte list"

named_theorems wire_defs \<open>unfolding the bridge's encoders and decoders\<close>

section \<open>Integers in buffers\<close>

fun le_bytes :: "nat \<Rightarrow> nat \<Rightarrow> buffer" where
  "le_bytes 0 v = []"
| "le_bytes (Suc k) v = of_nat v # le_bytes k (v div 256)"

fun le_val :: "buffer \<Rightarrow> nat" where
  "le_val [] = 0"
| "le_val (b # bs) = unat b + 256 * le_val bs"

definition write_le :: "nat \<Rightarrow> nat \<Rightarrow> buffer option" where
  "write_le k v = (if v < 256 ^ k then Some (le_bytes k v) else None)"

definition be_bytes :: "nat \<Rightarrow> nat \<Rightarrow> buffer" where
  "be_bytes k v = rev (le_bytes k v)"

definition be_val :: "buffer \<Rightarrow> nat" where
  "be_val bs = le_val (rev bs)"

definition to_Number :: "nat \<Rightarrow> nat" where
  "to_Number n = nat \<lfloor>fl (of_nat n)\<rfloor>"

lemma length_le_bytes [simp]: "length (le_bytes k v) = k"
  by (induction k arbitrary: v) auto

lemma length_be_bytes [simp]: "length (be_bytes k v) = k"
  by (simp add: be_bytes_def)

lemma unat_byte: "unat (of_nat v :: byte) = v mod 256"
  by (simp add: unat_of_nat)

lemma unat_byte_less: "unat (b :: byte) < 256"
  using unsigned_less [of b, where 'a = nat] by simp

lemma le_val_le_bytes: "v < 256 ^ k \<Longrightarrow> le_val (le_bytes k v) = v"
proof (induction k arbitrary: v)
  case (Suc k)
  have "v div 256 < 256 ^ k" using Suc.prems by (simp add: less_mult_imp_div_less mult.commute)
  then show ?case using Suc.IH [of "v div 256"] by (simp add: unat_byte)
qed simp

lemma be_val_be_bytes: "v < 256 ^ k \<Longrightarrow> be_val (be_bytes k v) = v"
  by (simp add: be_val_def be_bytes_def le_val_le_bytes)

lemma le_val_bound: "le_val bs < 256 ^ length bs"
proof (induction bs)
  case (Cons b bs)
  have "unat b < 256" by (rule unat_byte_less)
  with Cons show ?case by simp
qed simp

lemma be_val_bound: "be_val bs < 256 ^ length bs"
  using le_val_bound [of "rev bs"] by (simp add: be_val_def)

lemma le_bytes_le_val: "le_bytes (length bs) (le_val bs) = bs"
proof (induction bs)
  case (Cons b bs)
  have "unat b < 256" by (rule unat_byte_less)
  then have "(unat b + 256 * le_val bs) div 256 = le_val bs" by simp
  moreover have "unat (of_nat (unat b + 256 * le_val bs) :: byte) = unat b"
    using \<open>unat b < 256\<close> by (simp only: unat_byte) simp
  then have "of_nat (unat b + 256 * le_val bs) = b" by (rule unsigned_word_eqI)
  ultimately show ?case using Cons by simp
qed simp

lemma write_le_Some: "write_le k v = Some bs \<longleftrightarrow> v < 256 ^ k \<and> bs = le_bytes k v"
  by (auto simp: write_le_def)

lemma to_Number_exact: "n \<le> 2 ^ 53 \<Longrightarrow> to_Number n = n"
proof -
  assume "n \<le> 2 ^ 53"
  then have "int n \<le> 2 ^ 53" using of_nat_mono by fastforce
  then have "\<bar>int n\<bar> \<le> 2 ^ 53" by simp
  from fl_of_int [OF this] show ?thesis by (simp add: to_Number_def)
qed

section \<open>Text\<close>

text \<open>
  A JavaScript string stands for its UTF-8 bytes, so \<^verbatim>\<open>Buffer.from(s, 'utf8')\<close> changes nothing
  but the type. The way back, \<^verbatim>\<open>toString('utf8')\<close>, replaces each maximal ill-formed sequence by
  U+FFFD.
\<close>

definition from_text :: "string \<Rightarrow> buffer" where
  "from_text s = map of_char s"

definition in_range :: "nat \<Rightarrow> nat \<Rightarrow> byte \<Rightarrow> bool" where
  "in_range a b x \<longleftrightarrow> a \<le> unat x \<and> unat x \<le> b"

definition second_ok :: "byte \<Rightarrow> byte \<Rightarrow> bool" where
  "second_ok a b \<longleftrightarrow>
     in_range (if a = 224 then 160 else if a = 240 then 144 else 128)
              (if a = 237 then 159 else if a = 244 then 143 else 191) b"

fun utf8 :: "buffer \<Rightarrow> buffer" where
  "utf8 [] = []"
| "utf8 (a # r) =
     (if in_range 0 127 a then a # utf8 r
      else if in_range 194 223 a then
        (case r of b # r1 \<Rightarrow> if in_range 128 191 b then a # b # utf8 r1 else [239, 191, 189] @ utf8 r
                 | [] \<Rightarrow> [239, 191, 189])
      else if in_range 224 239 a then
        (case r of b # r1 \<Rightarrow>
           if second_ok a b then
             (case r1 of c # r2 \<Rightarrow>
                if in_range 128 191 c then a # b # c # utf8 r2 else [239, 191, 189] @ utf8 r1
              | [] \<Rightarrow> [239, 191, 189])
           else [239, 191, 189] @ utf8 r
         | [] \<Rightarrow> [239, 191, 189])
      else if in_range 240 244 a then
        (case r of b # r1 \<Rightarrow>
           if second_ok a b then
             (case r1 of c # r2 \<Rightarrow>
                if in_range 128 191 c then
                  (case r2 of d # r3 \<Rightarrow>
                     if in_range 128 191 d then a # b # c # d # utf8 r3 else [239, 191, 189] @ utf8 r2
                   | [] \<Rightarrow> [239, 191, 189])
                else [239, 191, 189] @ utf8 r1
              | [] \<Rightarrow> [239, 191, 189])
           else [239, 191, 189] @ utf8 r
         | [] \<Rightarrow> [239, 191, 189])
      else [239, 191, 189] @ utf8 r)"

definition to_text :: "buffer \<Rightarrow> string" where
  "to_text bs = map (\<lambda>b. char_of (unat b)) (utf8 bs)"

text \<open>\<open>is_text s\<close>: the bytes of \<open>s\<close> are well-formed UTF-8, as those of every JavaScript string are.\<close>

definition is_text :: "string \<Rightarrow> bool" where
  "is_text s \<longleftrightarrow> utf8 (from_text s) = from_text s"

lemma length_from_text [simp]: "length (from_text s) = length s"
  by (simp add: from_text_def)

lemma unat_of_char: "unat (of_char c :: byte) = of_char c"
proof -
  have "(of_char c :: byte) = of_nat (of_char c)" by (cases c) (simp add: of_char_def)
  then show ?thesis by (simp add: unat_byte)
qed

lemma char_of_from_text: "map (\<lambda>b. char_of (unat b)) (from_text s) = s"
  by (simp add: from_text_def unat_of_char comp_def)

lemma to_text_from_text: "is_text s \<Longrightarrow> to_text (from_text s) = s"
  by (simp add: to_text_def is_text_def char_of_from_text)

lemma ascii_is_text: "list_all (\<lambda>c. (of_char c :: nat) < 128) s \<Longrightarrow> is_text s"
  unfolding is_text_def by (induction s) (auto simp: from_text_def in_range_def unat_of_char)

section \<open>Incremental decoders\<close>

text \<open>
  A decoder that keeps the bytes it could not use yet. \<open>next s b\<close> looks at the state and the buffered
  bytes: it waits for more, takes one frame off the front, or stops reading until the next chunk.
  \<open>run\<close> is the loop over it. The laws: a decision does not depend on bytes that come later, and a
  frame has at least one byte. The client lemmas: the loop gives the same result however the stream
  is cut into chunks, and its work is bounded by the bytes buffered.
\<close>

datatype 's progress = Wait | Frame 's buffer | Halt 's buffer

locale incremental =
  fixes nxt :: "'s \<Rightarrow> buffer \<Rightarrow> 's progress"
    and run :: "'s \<Rightarrow> buffer \<Rightarrow> 's \<times> buffer \<times> bool"
  assumes run_eq: "run s b = (case nxt s b of Wait \<Rightarrow> (s, b, False) | Frame s' r \<Rightarrow> run s' r | Halt s' r \<Rightarrow> (s', r, True))"
    and frame_more: "nxt s b = Frame s' r \<Longrightarrow> nxt s (b @ c) = Frame s' (r @ c)"
    and halt_more: "nxt s b = Halt s' r \<Longrightarrow> nxt s (b @ c) = Halt s' (r @ c)"
    and frame_shorter: "nxt s b = Frame s' r \<Longrightarrow> length r < length b"
begin

lemma run_Wait: "nxt s b = Wait \<Longrightarrow> run s b = (s, b, False)"
  by (subst run_eq) simp

lemma run_Frame: "nxt s b = Frame s' r \<Longrightarrow> run s b = run s' r"
  by (subst run_eq) simp

lemma run_Halt: "nxt s b = Halt s' r \<Longrightarrow> run s b = (s', r, True)"
  by (subst run_eq) simp

lemma run_induct [case_names Wait Frame Halt]:
  assumes "\<And>s b. nxt s b = Wait \<Longrightarrow> P s b"
    and "\<And>s b s' r. nxt s b = Frame s' r \<Longrightarrow> P s' r \<Longrightarrow> P s b"
    and "\<And>s b s' r. nxt s b = Halt s' r \<Longrightarrow> P s b"
  shows "P s b"
proof (induction "length b" arbitrary: s b rule: less_induct)
  case less
  then show ?case using assms frame_shorter by (cases "nxt s b") blast+
qed

lemma chunked:
  "run s b = (s', r, False) \<Longrightarrow> run s (b @ c) = run s' (r @ c)"
proof (induction s b rule: run_induct)
  case (Frame s b s1 r1)
  then show ?case using run_Frame [OF frame_more [OF Frame(1)]] by (simp add: run_Frame)
qed (auto simp: run_Wait run_Halt)

lemma halted:
  "run s b = (s', r, True) \<Longrightarrow> run s (b @ c) = (s', r @ c, True)"
proof (induction s b rule: run_induct)
  case (Frame s b s1 r1)
  then show ?case using run_Frame [OF frame_more [OF Frame(1)]] by (simp add: run_Frame)
next
  case (Halt s b s1 r1)
  then show ?case using run_Halt [OF halt_more [OF Halt(1)]] by (simp add: run_Halt)
qed (simp add: run_Wait)

lemma run_keeps:
  assumes "\<And>s b s' r. nxt s b = Frame s' r \<Longrightarrow> P s \<Longrightarrow> P s'"
    and "\<And>s b s' r. nxt s b = Halt s' r \<Longrightarrow> P s \<Longrightarrow> P s'"
  shows "P s \<Longrightarrow> P (fst (run s b))"
  by (induction s b rule: run_induct) (auto simp: run_Wait run_Frame run_Halt assms)

lemma run_waits: "run s b = (s', r, False) \<Longrightarrow> nxt s' r = Wait"
  by (induction s b rule: run_induct) (auto simp: run_Wait run_Frame run_Halt)

lemma fed_in_chunks:
  "nxt s b = Wait \<Longrightarrow> run s (b @ concat xs) = (s', r, False) \<Longrightarrow>
   foldl (\<lambda>(s, b) x. case run s (b @ x) of (s1, b1, _) \<Rightarrow> (s1, b1)) (s, b) xs = (s', r)"
proof (induction xs arbitrary: s b)
  case Nil
  then show ?case by (simp add: run_Wait)
next
  case (Cons x xs)
  obtain s1 b1 h where 1: "run s (b @ x) = (s1, b1, h)" by (cases "run s (b @ x)") auto
  have "\<not> h" using halted [of s "b @ x" s1 b1 "concat xs"] 1 Cons.prems(2) by (cases h) auto
  with 1 have 2: "run s (b @ x) = (s1, b1, False)" by simp
  from chunked [OF 2, of "concat xs"] Cons.prems(2) have "run s1 (b1 @ concat xs) = (s', r, False)" by simp
  from Cons.IH [OF run_waits [OF 2] this] show ?case by (simp add: 2)
qed

end

end
