(* ===== verification/Bridge_Wire.thy ===== *)
theory Bridge_Wire
  imports JS_Bytes "HOL-Library.Monad_Syntax"
begin

text \<open>
  The P4 event protocol of the bridge (\<^verbatim>\<open>p4bridge/wire.js\<close>): the P4E3 event envelope and the P4H1
  acknowledged frames, encoders and decoders. An encoder is \<open>None\<close> where the code throws because a
  number does not fit its field; a decoder answers with the error it throws. The decoder reads
  through a cursor, a buffer with an offset. SHA-256 is an argument.

  \<open>reads p x v\<close> says that a cursor operation consumes exactly the bytes \<open>x\<close> and returns \<open>v\<close>; the
  round trips are composed from one such fact per field.
\<close>

section \<open>Constants\<close>

definition EVENT_MAGIC :: buffer where
  "EVENT_MAGIC = from_text ''P4E3''"

definition HOP_MAGIC :: buffer where
  "HOP_MAGIC = from_text ''P4H1''"

definition PROTOCOL_VERSION :: nat where "PROTOCOL_VERSION = 3"
definition HOP_VERSION :: nat where "HOP_VERSION = 1"

definition MAX_FRAME :: nat where
  "MAX_FRAME = 64 * 1024 * 1024"

definition CLASS :: "(string \<times> nat) list" where
  "CLASS = [(''control'', 0), (''data'', 1), (''output'', 2), (''telemetry'', 3)]"

definition CLASS_NAME :: "string list" where
  "CLASS_NAME = [''control'', ''data'', ''output'', ''telemetry'']"

definition HOP_hello :: nat where "HOP_hello = 1"
definition HOP_helloAck :: nat where "HOP_helloAck = 2"
definition HOP_data :: nat where "HOP_data = 3"
definition HOP_receipt :: nat where "HOP_receipt = 4"
definition HOP_receiptAck :: nat where "HOP_receiptAck = 5"
definition HOP_query :: nat where "HOP_query = 6"
definition HOP_queryResult :: nat where "HOP_queryResult = 7"

definition RECEIPT :: "(nat \<times> string) list" where
  "RECEIPT = [(1, ''accepted_exact''), (2, ''rejected''), (3, ''conflict''), (4, ''unknown'')]"

lemmas [wire_defs] = PROTOCOL_VERSION_def HOP_VERSION_def HOP_hello_def HOP_helloAck_def HOP_data_def
  HOP_receipt_def HOP_receiptAck_def HOP_query_def HOP_queryResult_def

section \<open>Encoding\<close>

text \<open>\<open>bcat\<close> is \<^verbatim>\<open>Buffer.concat\<close> of parts any of which may throw while it is built.\<close>

fun bcat :: "buffer option list \<Rightarrow> buffer option" where
  "bcat [] = Some []"
| "bcat (p # ps) = do { x \<leftarrow> p; y \<leftarrow> bcat ps; Some (x @ y) }"

definition u16 :: "nat \<Rightarrow> buffer option" where "u16 v = write_le 2 v"
definition u32 :: "nat \<Rightarrow> buffer option" where "u32 v = write_le 4 v"
definition u64 :: "nat \<Rightarrow> buffer option" where "u64 v = write_le 8 v"

definition enc_text :: "string \<Rightarrow> buffer option" where
  "enc_text s = (let body = from_text s in bcat [u32 (length body), Some body])"

definition byte1 :: "nat \<Rightarrow> buffer option" where
  "byte1 v = Some [of_nat v]"

datatype endpoint =
    agentEndpoint string
  | nodeEndpoint string string nat
  | outerEndpoint string string nat

fun encodeEndpoint :: "endpoint \<Rightarrow> buffer option" where
  "encodeEndpoint (agentEndpoint address) = bcat [byte1 0, enc_text address]"
| "encodeEndpoint (nodeEndpoint agent node generation) =
     bcat [byte1 1, enc_text agent, enc_text node, u64 generation]"
| "encodeEndpoint (outerEndpoint ingressAgent channel connectionGeneration) =
     bcat [byte1 2, enc_text ingressAgent, enc_text channel, u64 connectionGeneration]"

text \<open>A return route that is no OUTER endpoint has no generation to write, and \<^verbatim>\<open>BigInt(undefined)\<close> throws.\<close>

fun encodeOuterBody :: "endpoint \<Rightarrow> buffer option" where
  "encodeOuterBody (outerEndpoint ingressAgent channel connectionGeneration) =
     bcat [enc_text ingressAgent, enc_text channel, u64 connectionGeneration]"
| "encodeOuterBody _ = None"

record event_meta =
  eventId :: string
  correlationId :: string
  causationId :: "string option"
  source :: endpoint
  target :: endpoint
  returnRoute :: "endpoint option"
  eventClass :: "string option"
  sequence :: nat
  deadlineUnixMs :: "nat option"
  adapterKind :: "string option"
  contentType :: string

text \<open>
  The code tests the deadline and the adapter kind by truthiness: zero and the empty string are
  written as absent. An event class outside the table is written as control.
\<close>

definition class_code :: "string option \<Rightarrow> nat" where
  "class_code c = (case Option.bind c (map_of CLASS) of None \<Rightarrow> 0 | Some n \<Rightarrow> n)"

definition encode_route :: "endpoint option \<Rightarrow> buffer option" where
  "encode_route r = (case r of None \<Rightarrow> byte1 0 | Some e \<Rightarrow> bcat [byte1 1, encodeOuterBody e])"

definition encode_deadline :: "nat option \<Rightarrow> buffer option" where
  "encode_deadline d =
     (case d of None \<Rightarrow> byte1 0 | Some n \<Rightarrow> if n = 0 then byte1 0 else bcat [byte1 1, u64 n])"

definition encode_adapter :: "string option \<Rightarrow> buffer option" where
  "encode_adapter a =
     (case a of None \<Rightarrow> byte1 0 | Some k \<Rightarrow> if k = '''' then byte1 0 else bcat [byte1 1, enc_text k])"

definition encode_envelope :: "event_meta \<Rightarrow> buffer option" where
  "encode_envelope m =
     bcat [u16 PROTOCOL_VERSION, enc_text (eventId m), enc_text (correlationId m), byte1 0,
           encodeEndpoint (source m), encodeEndpoint (target m), encode_route (returnRoute m),
           byte1 (class_code (eventClass m)), u64 (sequence m), encode_deadline (deadlineUnixMs m),
           encode_adapter (adapterKind m), enc_text (contentType m)]"

definition encodeEvent :: "event_meta \<Rightarrow> buffer \<Rightarrow> buffer option" where
  "encodeEvent m body =
     do { envelope \<leftarrow> encode_envelope m;
          bcat [Some EVENT_MAGIC, u32 (length envelope), u32 (length body), Some envelope, Some body] }"

section \<open>The cursor\<close>

datatype wire_error =
    Truncated | InvalidFlag | InvalidEndpoint | InvalidMagic | LengthMismatch | UnsupportedVersion
  | Trailing | InvalidHopMagic | UnsupportedHopVersion | DigestMismatch | InvalidStatus
  | UnexpectedKind nat | TrailingHop

record cursor =
  cbuffer :: buffer
  offset :: nat

type_synonym 'a reader = "cursor \<Rightarrow> wire_error + ('a \<times> cursor)"

definition new_cursor :: "buffer \<Rightarrow> cursor" where
  "new_cursor b = \<lparr>cbuffer = b, offset = 0\<rparr>"

definition pureR :: "'a \<Rightarrow> 'a reader" where
  "pureR v c = Inr (v, c)"

definition throwR :: "wire_error \<Rightarrow> 'a reader" where
  "throwR e c = Inl e"

definition bindR :: "'a reader \<Rightarrow> ('a \<Rightarrow> 'b reader) \<Rightarrow> 'b reader" where
  "bindR p f c = (case p c of Inl e \<Rightarrow> Inl e | Inr (v, c') \<Rightarrow> f v c')"

definition cur_take :: "nat \<Rightarrow> buffer reader" where
  "cur_take n c =
     (if length (cbuffer c) < offset c + n then Inl Truncated
      else Inr (take n (drop (offset c) (cbuffer c)), c\<lparr>offset := offset c + n\<rparr>))"

definition cur_byte :: "nat reader" where
  "cur_byte = bindR (cur_take 1) (\<lambda>b. pureR (unat (b ! 0)))"

definition cur_u16 :: "nat reader" where
  "cur_u16 = bindR (cur_take 2) (\<lambda>b. pureR (le_val b))"

definition cur_u32 :: "nat reader" where
  "cur_u32 = bindR (cur_take 4) (\<lambda>b. pureR (le_val b))"

definition cur_u64 :: "nat reader" where
  "cur_u64 = bindR (cur_take 8) (\<lambda>b. pureR (to_Number (le_val b)))"

definition cur_text :: "string reader" where
  "cur_text = bindR cur_u32 (\<lambda>n. bindR (cur_take n) (\<lambda>b. pureR (to_text b)))"

definition cur_optional :: "'a reader \<Rightarrow> 'a option reader" where
  "cur_optional rd =
     bindR cur_byte (\<lambda>flag.
       if flag \<noteq> 0 \<and> flag \<noteq> 1 then throwR InvalidFlag
       else if flag = 1 then bindR rd (\<lambda>v. pureR (Some v)) else pureR None)"

definition cur_outer :: "endpoint reader" where
  "cur_outer =
     bindR cur_text (\<lambda>a. bindR cur_text (\<lambda>ch. bindR cur_u64 (\<lambda>g. pureR (outerEndpoint a ch g))))"

definition cur_endpoint :: "endpoint reader" where
  "cur_endpoint =
     bindR cur_byte (\<lambda>kind.
       if kind = 0 then bindR cur_text (\<lambda>a. pureR (agentEndpoint a))
       else if kind = 1 then
         bindR cur_text (\<lambda>a. bindR cur_text (\<lambda>n. bindR cur_u64 (\<lambda>g. pureR (nodeEndpoint a n g))))
       else if kind = 2 then cur_outer
       else throwR InvalidEndpoint)"

definition finished :: "cursor \<Rightarrow> bool" where
  "finished c \<longleftrightarrow> offset c = length (cbuffer c)"

section \<open>Decoding\<close>

definition class_name :: "nat \<Rightarrow> string option" where
  "class_name n = (if n < length CLASS_NAME then Some (CLASS_NAME ! n) else None)"

definition read_meta :: "event_meta reader" where
  "read_meta =
     bindR cur_u16 (\<lambda>v. if v \<noteq> PROTOCOL_VERSION then throwR UnsupportedVersion else
     bindR cur_text (\<lambda>eid. bindR cur_text (\<lambda>corr.
     bindR (cur_optional cur_text) (\<lambda>cause.
     bindR cur_endpoint (\<lambda>src. bindR cur_endpoint (\<lambda>tgt.
     bindR (cur_optional cur_outer) (\<lambda>route.
     bindR cur_byte (\<lambda>cls. bindR cur_u64 (\<lambda>sq.
     bindR (cur_optional cur_u64) (\<lambda>dl. bindR (cur_optional cur_text) (\<lambda>ak.
     bindR cur_text (\<lambda>ct.
       pureR \<lparr>eventId = eid, correlationId = corr, causationId = cause, source = src, target = tgt,
              returnRoute = route, eventClass = class_name cls, sequence = sq, deadlineUnixMs = dl,
              adapterKind = ak, contentType = ct\<rparr>))))))))))))"

definition decodeEvent :: "buffer \<Rightarrow> wire_error + (event_meta \<times> buffer)" where
  "decodeEvent frame =
     (if length frame < 12 \<or> take 4 frame \<noteq> EVENT_MAGIC then Inl InvalidMagic
      else let envelopeLen = le_val (take 4 (drop 4 frame));
               payloadLen = le_val (take 4 (drop 8 frame))
           in if length frame \<noteq> 12 + envelopeLen + payloadLen then Inl LengthMismatch
              else case read_meta (new_cursor (take envelopeLen (drop 12 frame))) of
                     Inl e \<Rightarrow> Inl e
                   | Inr (m, c) \<Rightarrow>
                       if \<not> finished c then Inl Trailing
                       else Inr (m, drop (12 + envelopeLen) frame))"

section \<open>Hop frames\<close>

definition hopHeader :: "nat \<Rightarrow> buffer option" where
  "hopHeader kind = bcat [Some HOP_MAGIC, u16 HOP_VERSION, u16 0, byte1 kind]"

definition hopHello :: "string \<Rightarrow> nat \<Rightarrow> nat \<Rightarrow> nat \<Rightarrow> buffer option" where
  "hopHello senderId generation maxOutstanding maxReceiptBytes =
     bcat [hopHeader HOP_hello, enc_text senderId, u64 generation, u32 maxOutstanding, u64 maxReceiptBytes]"

definition hopData :: "(buffer \<Rightarrow> buffer) \<Rightarrow> nat \<Rightarrow> buffer \<Rightarrow> (buffer \<times> buffer) option" where
  "hopData sha attempt event =
     (let digest = sha event
      in map_option (\<lambda>frame. (digest, frame))
           (bcat [hopHeader HOP_data, u64 attempt, Some digest, u32 (length event), Some event]))"

definition hopReceipt :: "bool \<Rightarrow> nat \<Rightarrow> buffer \<Rightarrow> nat \<Rightarrow> string \<Rightarrow> buffer option" where
  "hopReceipt is_receipt attempt digest st detail =
     bcat [hopHeader (if is_receipt then HOP_receipt else HOP_queryResult),
           u64 attempt, Some digest, byte1 st, enc_text detail]"

definition hopReceiptAck :: "string \<Rightarrow> nat \<Rightarrow> nat \<Rightarrow> buffer \<Rightarrow> buffer option" where
  "hopReceiptAck senderId generation attempt digest =
     bcat [hopHeader HOP_receiptAck, enc_text senderId, u64 generation, u64 attempt, Some digest]"

datatype hop =
    HelloAck (acceptedGeneration: nat) (hop_senderId: string) (hop_generation: nat)
      (hop_maxOutstanding: nat) (hop_maxReceiptBytes: nat)
  | HopData nat buffer buffer
  | Receipt bool nat buffer nat string
  | SenderMsg bool string nat nat buffer

text \<open>
  \<open>Receipt True\<close> is \<^verbatim>\<open>receipt\<close>, \<open>Receipt False\<close> is \<^verbatim>\<open>query_result\<close>; \<open>SenderMsg True\<close> is
  \<^verbatim>\<open>receipt_ack\<close>, \<open>SenderMsg False\<close> is \<^verbatim>\<open>query\<close>.
\<close>

definition read_hop :: "(buffer \<Rightarrow> buffer) \<Rightarrow> nat \<Rightarrow> hop reader" where
  "read_hop sha kind =
     (if kind = HOP_helloAck then
        bindR cur_u64 (\<lambda>ag. bindR cur_text (\<lambda>s. bindR cur_u64 (\<lambda>g. bindR cur_u32 (\<lambda>mo.
        bindR cur_u64 (\<lambda>mr. pureR (HelloAck ag s g mo mr))))))
      else if kind = HOP_data then
        bindR cur_u64 (\<lambda>a. bindR (cur_take 32) (\<lambda>d. bindR cur_u32 (\<lambda>n. bindR (cur_take n) (\<lambda>ev.
          if sha ev \<noteq> d then throwR DigestMismatch else pureR (HopData a d ev)))))
      else if kind = HOP_receipt \<or> kind = HOP_queryResult then
        bindR cur_u64 (\<lambda>a. bindR (cur_take 32) (\<lambda>d. bindR cur_byte (\<lambda>st. bindR cur_text (\<lambda>det.
          if map_of RECEIPT st = None then throwR InvalidStatus
          else pureR (Receipt (kind = HOP_receipt) a d st det)))))
      else if kind = HOP_receiptAck \<or> kind = HOP_query then
        bindR cur_text (\<lambda>s. bindR cur_u64 (\<lambda>g. bindR cur_u64 (\<lambda>a. bindR (cur_take 32) (\<lambda>d.
          pureR (SenderMsg (kind = HOP_receiptAck) s g a d)))))
      else throwR (UnexpectedKind kind))"

definition decodeHop :: "(buffer \<Rightarrow> buffer) \<Rightarrow> buffer \<Rightarrow> wire_error + hop" where
  "decodeHop sha frame =
     (if length frame < 9 \<or> take 4 frame \<noteq> HOP_MAGIC then Inl InvalidHopMagic
      else if le_val (take 2 (drop 4 frame)) \<noteq> HOP_VERSION \<or> le_val (take 2 (drop 6 frame)) \<noteq> 0
      then Inl UnsupportedHopVersion
      else case read_hop sha (unat (frame ! 8)) (new_cursor (drop 9 frame)) of
             Inl e \<Rightarrow> Inl e
           | Inr (v, c) \<Rightarrow> if finished c then Inr v else Inl TrailingHop)"

section \<open>What an encoder writes, the cursor reads\<close>

definition at_pos :: "buffer \<Rightarrow> buffer \<Rightarrow> cursor" where
  "at_pos pre rest = \<lparr>cbuffer = pre @ rest, offset = length pre\<rparr>"

definition reads :: "'a reader \<Rightarrow> buffer \<Rightarrow> 'a \<Rightarrow> bool" where
  "reads p x v \<longleftrightarrow> (\<forall>pre suf. p (at_pos pre (x @ suf)) = Inr (v, at_pos (pre @ x) suf))"

named_theorems reads_rules \<open>one rule per cursor operation\<close>

lemma reads_pure [reads_rules]: "reads (pureR v) [] v"
  by (simp add: reads_def pureR_def)

lemma reads_bind [reads_rules]:
  "reads p x v \<Longrightarrow> reads (f v) y w \<Longrightarrow> reads (bindR p f) (x @ y) w"
  by (simp add: reads_def bindR_def)

lemma reads_map: "reads p x v \<Longrightarrow> reads (bindR p (\<lambda>u. pureR (g u))) x (g v)"
  by (simp add: reads_def bindR_def pureR_def)

lemma reads_take: "length x = n \<Longrightarrow> reads (cur_take n) x x"
  by (auto simp: reads_def cur_take_def at_pos_def)

lemma reads_byte: "n < 256 \<Longrightarrow> reads cur_byte [of_nat n] n"
  using reads_map [OF reads_take [of "[of_nat n]" 1], of "\<lambda>b. unat (b ! 0)"]
  by (simp add: cur_byte_def unat_byte)

lemma reads_u16: "v < 256 ^ 2 \<Longrightarrow> reads cur_u16 (le_bytes 2 v) v"
  using reads_map [OF reads_take [of "le_bytes 2 v" 2], of le_val]
  by (simp add: cur_u16_def le_val_le_bytes)

lemma reads_u32: "v < 256 ^ 4 \<Longrightarrow> reads cur_u32 (le_bytes 4 v) v"
  using reads_map [OF reads_take [of "le_bytes 4 v" 4], of le_val]
  by (simp add: cur_u32_def le_val_le_bytes)

lemma reads_u64: "v < 256 ^ 8 \<Longrightarrow> reads cur_u64 (le_bytes 8 v) (to_Number v)"
  using reads_map [OF reads_take [of "le_bytes 8 v" 8], of "\<lambda>b. to_Number (le_val b)"]
  by (simp add: cur_u64_def le_val_le_bytes)

lemma reads_text:
  assumes "enc_text s = Some x"
  shows "reads cur_text x (to_text (from_text s))"
proof -
  from assms have n: "length s < 256 ^ 4" and x: "x = le_bytes 4 (length s) @ from_text s"
    by (auto simp: enc_text_def Let_def u32_def write_le_def split: if_splits)
  have "reads (bindR (cur_take (length s)) (\<lambda>b. pureR (to_text b))) (from_text s) (to_text (from_text s))"
    by (rule reads_map [OF reads_take]) simp
  with reads_bind [OF reads_u32 [OF n]] show ?thesis by (simp add: x cur_text_def)
qed

lemma reads_if_true: "P \<Longrightarrow> reads p x v \<Longrightarrow> reads (if P then p else q) x v"
  and reads_if_false: "\<not> P \<Longrightarrow> reads q x v \<Longrightarrow> reads (if P then p else q) x v"
  by auto

lemma reads_none: "reads (cur_optional p) [0] None"
  using reads_bind [OF reads_byte [of 0], of "\<lambda>flag. if flag \<noteq> 0 \<and> flag \<noteq> 1 then throwR InvalidFlag
       else if flag = 1 then bindR p (\<lambda>v. pureR (Some v)) else pureR None" "[]" None]
  by (simp add: cur_optional_def reads_pure)

lemma reads_some: "reads p x v \<Longrightarrow> reads (cur_optional p) (1 # x) (Some v)"
  using reads_bind [OF reads_byte [of 1], of "\<lambda>flag. if flag \<noteq> 0 \<and> flag \<noteq> 1 then throwR InvalidFlag
       else if flag = 1 then bindR p (\<lambda>v. pureR (Some v)) else pureR None" x "Some v"]
  by (simp add: cur_optional_def reads_map)

section \<open>Event round trip\<close>

text \<open>What the receiver sees of each field: text through UTF-8, numbers through \<^verbatim>\<open>Number\<close>.\<close>

abbreviation via :: "string \<Rightarrow> string" where
  "via s \<equiv> to_text (from_text s)"

fun seen_endpoint :: "endpoint \<Rightarrow> endpoint" where
  "seen_endpoint (agentEndpoint a) = agentEndpoint (via a)"
| "seen_endpoint (nodeEndpoint a n g) = nodeEndpoint (via a) (via n) (to_Number g)"
| "seen_endpoint (outerEndpoint a ch g) = outerEndpoint (via a) (via ch) (to_Number g)"

definition seen_meta :: "event_meta \<Rightarrow> event_meta" where
  "seen_meta m =
     \<lparr>eventId = via (eventId m), correlationId = via (correlationId m), causationId = None,
      source = seen_endpoint (source m), target = seen_endpoint (target m),
      returnRoute = map_option seen_endpoint (returnRoute m),
      eventClass = class_name (class_code (eventClass m)), sequence = to_Number (sequence m),
      deadlineUnixMs = (if deadlineUnixMs m = Some 0 then None else map_option to_Number (deadlineUnixMs m)),
      adapterKind = (if adapterKind m = Some '''' then None else map_option via (adapterKind m)),
      contentType = via (contentType m)\<rparr>"

lemma bcat_Cons_Some:
  "bcat (p # ps) = Some z \<longleftrightarrow> (\<exists>x y. p = Some x \<and> bcat ps = Some y \<and> z = x @ y)"
  by (auto simp: bind_eq_Some_conv)

lemma bcat_Nil_Some: "bcat [] = Some z \<longleftrightarrow> z = []"
  by auto

lemmas bcat_Some = bcat_Cons_Some bcat_Nil_Some byte1_def

lemma u64_Some: "u64 v = Some x \<Longrightarrow> reads cur_u64 x (to_Number v)"
  by (auto simp: u64_def write_le_Some reads_u64)

lemma u32_Some: "u32 v = Some x \<Longrightarrow> reads cur_u32 x v"
  by (auto simp: u32_def write_le_Some intro: reads_u32)

lemma u16_Some: "u16 v = Some x \<Longrightarrow> reads cur_u16 x v"
  by (auto simp: u16_def write_le_Some intro: reads_u16)

lemmas reads_field = u64_Some u32_Some u16_Some reads_text

lemma reads_outer:
  "encodeOuterBody e = Some x \<Longrightarrow> reads cur_outer x (seen_endpoint e)"
proof (induction e rule: encodeOuterBody.induct)
  case (1 a ch g)
  then obtain xa xc xg where p: "enc_text a = Some xa" "enc_text ch = Some xc" "u64 g = Some xg"
    and x: "x = xa @ xc @ xg @ []"
    by (auto simp only: encodeOuterBody.simps bcat_Some)
  show ?case unfolding x cur_outer_def seen_endpoint.simps
    by (intro reads_bind [OF reads_text [OF p(1)]] reads_bind [OF reads_text [OF p(2)]]
        reads_bind [OF u64_Some [OF p(3)]] reads_pure)
qed simp_all

lemma reads_node:
  "enc_text a = Some xa \<Longrightarrow> enc_text n = Some xn \<Longrightarrow> u64 g = Some xg \<Longrightarrow>
   reads (bindR cur_text (\<lambda>a. bindR cur_text (\<lambda>n. bindR cur_u64 (\<lambda>g. pureR (nodeEndpoint a n g)))))
     (xa @ xn @ xg @ []) (nodeEndpoint (via a) (via n) (to_Number g))"
  by (intro reads_bind [OF reads_text] reads_bind [OF u64_Some]) (auto intro: reads_pure)

lemma reads_endpoint:
  assumes "encodeEndpoint e = Some x"
  shows "reads cur_endpoint x (seen_endpoint e)"
proof (cases e)
  case (agentEndpoint a)
  with assms obtain xa where p: "enc_text a = Some xa" and x: "x = [of_nat 0] @ xa"
    by (auto simp: bcat_Some simp del: bcat.simps)
  show ?thesis unfolding x cur_endpoint_def
    by (rule reads_bind [OF reads_byte]) (simp_all add: agentEndpoint reads_map [OF reads_text [OF p]])
next
  case (nodeEndpoint a n g)
  with assms obtain xa xn xg where p: "enc_text a = Some xa" "enc_text n = Some xn" "u64 g = Some xg"
    and x: "x = [of_nat 1] @ (xa @ xn @ xg @ [])"
    by (auto simp: bcat_Some simp del: bcat.simps)
  show ?thesis unfolding x cur_endpoint_def
    by (rule reads_bind [OF reads_byte]) (use reads_node [OF p] in \<open>simp_all add: nodeEndpoint\<close>)
next
  case (outerEndpoint a ch g)
  with assms obtain y where y: "encodeOuterBody e = Some y" and x: "x = [of_nat 2] @ y"
    by (auto simp: bcat_Some simp del: bcat.simps)
  show ?thesis unfolding x cur_endpoint_def
    by (rule reads_bind [OF reads_byte]) (simp_all add: reads_outer [OF y])
qed

lemma reads_route: "encode_route r = Some x \<Longrightarrow> reads (cur_optional cur_outer) x (map_option seen_endpoint r)"
  by (cases r) (auto simp: encode_route_def bcat_Some reads_none reads_outer reads_some simp del: bcat.simps)

lemma reads_deadline:
  "encode_deadline d = Some x \<Longrightarrow>
   reads (cur_optional cur_u64) x (if d = Some 0 then None else map_option to_Number d)"
  by (cases d) (auto simp: encode_deadline_def bcat_Some reads_none u64_Some reads_some
      simp del: bcat.simps split: if_splits)

lemma reads_adapter:
  "encode_adapter a = Some x \<Longrightarrow>
   reads (cur_optional cur_text) x (if a = Some '''' then None else map_option via a)"
  by (cases a) (auto simp: encode_adapter_def bcat_Some reads_none reads_text reads_some
      simp del: bcat.simps split: if_splits)

lemma class_code_less: "class_code c < 256"
  by (cases c) (auto simp: class_code_def CLASS_def)

lemma reads_meta:
  assumes "encode_envelope m = Some x"
  shows "reads read_meta x (seen_meta m)"
proof -
  from assms obtain v xe xc xs xt xr xq xd xa xy where
    p: "u16 PROTOCOL_VERSION = Some v" "enc_text (eventId m) = Some xe"
      "enc_text (correlationId m) = Some xc" "encodeEndpoint (source m) = Some xs"
      "encodeEndpoint (target m) = Some xt" "encode_route (returnRoute m) = Some xr"
      "u64 (sequence m) = Some xq" "encode_deadline (deadlineUnixMs m) = Some xd"
      "encode_adapter (adapterKind m) = Some xa" "enc_text (contentType m) = Some xy"
    and x: "x = v @ xe @ xc @ [0] @ xs @ xt @ xr @ [of_nat (class_code (eventClass m))]
                @ xq @ xd @ xa @ xy @ []"
    by (auto simp: encode_envelope_def bcat_Some simp del: bcat.simps)
  show ?thesis unfolding x read_meta_def seen_meta_def
    by (rule reads_bind [OF u16_Some [OF p(1)]], rule reads_if_false, simp,
        rule reads_bind [OF reads_text [OF p(2)]], rule reads_bind [OF reads_text [OF p(3)]],
        rule reads_bind [OF reads_none], rule reads_bind [OF reads_endpoint [OF p(4)]],
        rule reads_bind [OF reads_endpoint [OF p(5)]], rule reads_bind [OF reads_route [OF p(6)]],
        rule reads_bind [OF reads_byte [OF class_code_less]], rule reads_bind [OF u64_Some [OF p(7)]],
        rule reads_bind [OF reads_deadline [OF p(8)]], rule reads_bind [OF reads_adapter [OF p(9)]],
        rule reads_bind [OF reads_text [OF p(10)]], rule reads_pure)
qed

lemma reads_whole: "reads p x v \<Longrightarrow> \<exists>c. p (new_cursor x) = Inr (v, c) \<and> finished c"
proof -
  assume "reads p x v"
  then have "p (at_pos [] (x @ [])) = Inr (v, at_pos ([] @ x) [])" unfolding reads_def by blast
  then show ?thesis by (simp add: at_pos_def new_cursor_def finished_def)
qed

lemma encodeEvent_parts:
  assumes "encodeEvent m body = Some f"
  obtains env where "encode_envelope m = Some env" "length env < 256 ^ 4" "length body < 256 ^ 4"
    "f = EVENT_MAGIC @ le_bytes 4 (length env) @ le_bytes 4 (length body) @ env @ body"
  using assms that by (auto simp: encodeEvent_def bind_eq_Some_conv u32_def write_le_Some)

lemma length_EVENT_MAGIC [simp]: "length EVENT_MAGIC = 4"
  by (simp add: EVENT_MAGIC_def)

lemma decode_encoded:
  assumes "encodeEvent m body = Some f"
  shows "decodeEvent f = Inr (seen_meta m, body)"
proof -
  from assms obtain env where e: "encode_envelope m = Some env" "length env < 256 ^ 4" "length body < 256 ^ 4"
    and f: "f = EVENT_MAGIC @ le_bytes 4 (length env) @ le_bytes 4 (length body) @ env @ body"
    by (rule encodeEvent_parts)
  obtain c where c: "read_meta (new_cursor env) = Inr (seen_meta m, c)" "finished c"
    using reads_whole [OF reads_meta [OF e(1)]] by blast
  have "take 4 (drop 4 f) = le_bytes 4 (length env)" "take 4 (drop 8 f) = le_bytes 4 (length body)"
    "take (length env) (drop 12 f) = env" "drop (12 + length env) f = body" by (simp_all add: f)
  then show ?thesis using c e(2,3)
    by (simp add: decodeEvent_def Let_def le_val_le_bytes) (simp add: f)
qed

fun plain_endpoint :: "endpoint \<Rightarrow> bool" where
  "plain_endpoint (agentEndpoint a) = is_text a"
| "plain_endpoint (nodeEndpoint a n g) = (is_text a \<and> is_text n \<and> g \<le> 2 ^ 53)"
| "plain_endpoint (outerEndpoint a ch g) = (is_text a \<and> is_text ch \<and> g \<le> 2 ^ 53)"

text \<open>The metadata a client of this protocol builds: no field is one the encoder or the decoder rewrites.\<close>

definition plain_meta :: "event_meta \<Rightarrow> bool" where
  "plain_meta m \<longleftrightarrow>
     is_text (eventId m) \<and> is_text (correlationId m) \<and> causationId m = None \<and>
     plain_endpoint (source m) \<and> plain_endpoint (target m) \<and>
     pred_option plain_endpoint (returnRoute m) \<and>
     pred_option (\<lambda>c. c \<in> fst ` set CLASS) (eventClass m) \<and> eventClass m \<noteq> None \<and>
     sequence m \<le> 2 ^ 53 \<and> deadlineUnixMs m \<noteq> Some 0 \<and> pred_option (\<lambda>d. d \<le> 2 ^ 53) (deadlineUnixMs m) \<and>
     adapterKind m \<noteq> Some '''' \<and> pred_option is_text (adapterKind m) \<and> is_text (contentType m)"

lemma plain_endpoint_seen: "plain_endpoint e \<Longrightarrow> seen_endpoint e = e"
  by (cases e) (simp_all add: to_text_from_text to_Number_exact)

lemma class_roundtrip: "c \<in> fst ` set CLASS \<Longrightarrow> class_name (class_code (Some c)) = Some c"
  by (auto simp: CLASS_def class_code_def class_name_def CLASS_NAME_def)

lemma plain_meta_seen: "plain_meta m \<Longrightarrow> seen_meta m = m"
proof -
  assume m: "plain_meta m"
  have "map_option seen_endpoint (returnRoute m) = returnRoute m"
    using m by (cases "returnRoute m") (simp_all add: plain_meta_def plain_endpoint_seen)
  moreover have "class_name (class_code (eventClass m)) = eventClass m"
    using m by (cases "eventClass m") (simp_all add: plain_meta_def class_roundtrip)
  moreover have "map_option to_Number (deadlineUnixMs m) = deadlineUnixMs m"
    using m by (cases "deadlineUnixMs m") (simp_all add: plain_meta_def to_Number_exact)
  moreover have "map_option via (adapterKind m) = adapterKind m"
    using m by (cases "adapterKind m") (simp_all add: plain_meta_def to_text_from_text)
  ultimately show ?thesis
    using m by (simp add: seen_meta_def plain_meta_def to_text_from_text to_Number_exact plain_endpoint_seen)
qed

text \<open>
  C20: An event a client encodes decodes to exactly the metadata and payload that were encoded,
  provided the numbers are at most \<open>2 ^ 53\<close> and the texts are well-formed.
\<close>
theorem event_roundtrip:
  assumes "plain_meta m" and "encodeEvent m body = Some f"
  shows "decodeEvent f = Inr (m, body)"
  using decode_encoded [OF assms(2)] plain_meta_seen [OF assms(1)] by simp

lemma decodeEvent_Inr:
  assumes "decodeEvent f = Inr r"
  shows "12 \<le> length f" and "length f = 12 + le_val (take 4 (drop 4 f)) + le_val (take 4 (drop 8 f))"
proof -
  show "12 \<le> length f" by (rule ccontr) (use assms in \<open>simp add: decodeEvent_def\<close>)
  show "length f = 12 + le_val (take 4 (drop 4 f)) + le_val (take 4 (drop 8 f))"
    by (rule ccontr) (use assms in \<open>simp add: decodeEvent_def Let_def split: if_splits\<close>)
qed

text \<open>
  Accepted event frames are prefix free: a frame that was cut short, or that has bytes after
  its end, is refused.
\<close>
theorem event_prefix_free:
  assumes "decodeEvent f = Inr r" and "x \<noteq> []"
  shows "\<exists>e. decodeEvent (f @ x) = Inl e"
proof (rule ccontr)
  assume "\<not> ?thesis"
  then obtain r' where r': "decodeEvent (f @ x) = Inr r'" by (cases "decodeEvent (f @ x)") auto
  have "take 4 (drop k (f @ x)) = take 4 (drop k f)" if "k + 4 \<le> length f" for k
    using that by simp
  from this [of 4] this [of 8]
  have same: "take 4 (drop 4 (f @ x)) = take 4 (drop 4 f)" "take 4 (drop 8 (f @ x)) = take 4 (drop 8 f)"
    using decodeEvent_Inr(1) [OF assms(1)] by auto
  have "length (f @ x) = length f"
    using decodeEvent_Inr(2) [OF r'] decodeEvent_Inr(2) [OF assms(1)] unfolding same by (rule trans [OF _ sym])
  then show False using assms(2) by simp
qed

section \<open>Hop frame round trips\<close>

lemma length_HOP_MAGIC [simp]: "length HOP_MAGIC = 4"
  by (simp add: HOP_MAGIC_def)

lemma hop_frame:
  assumes "bcat (hopHeader k # ps) = Some f"
  obtains rest where "bcat ps = Some rest"
    "f = HOP_MAGIC @ le_bytes 2 HOP_VERSION @ le_bytes 2 0 @ [of_nat k] @ rest"
  using assms that
  by (auto simp: hopHeader_def bcat_Some u16_def write_le_Some simp del: bcat.simps)

lemma decode_hop_frame:
  assumes f: "f = HOP_MAGIC @ le_bytes 2 HOP_VERSION @ le_bytes 2 0 @ [of_nat k] @ rest"
    and k: "k < 256" and r: "reads (read_hop sha k) rest v"
  shows "decodeHop sha f = Inr v"
proof -
  obtain c where c: "read_hop sha k (new_cursor rest) = Inr (v, c)" "finished c"
    using reads_whole [OF r] by blast
  have "take 2 (drop 4 f) = le_bytes 2 HOP_VERSION" "take 2 (drop 6 f) = le_bytes 2 0"
    "drop 9 f = rest" "f ! 8 = of_nat k" "take 4 f = HOP_MAGIC" "9 \<le> length f"
    by (simp_all add: f nth_append)
  then show ?thesis using c k
    by (simp add: decodeHop_def le_val_le_bytes HOP_VERSION_def unat_byte)
qed

lemma read_hop_kinds:
  "read_hop sha HOP_data =
     bindR cur_u64 (\<lambda>a. bindR (cur_take 32) (\<lambda>d. bindR cur_u32 (\<lambda>n. bindR (cur_take n) (\<lambda>ev.
       if sha ev \<noteq> d then throwR DigestMismatch else pureR (HopData a d ev)))))"
  "read_hop sha (if b then HOP_receipt else HOP_queryResult) =
     bindR cur_u64 (\<lambda>a. bindR (cur_take 32) (\<lambda>d. bindR cur_byte (\<lambda>st. bindR cur_text (\<lambda>det.
       if map_of RECEIPT st = None then throwR InvalidStatus else pureR (Receipt b a d st det)))))"
  "read_hop sha HOP_receiptAck =
     bindR cur_text (\<lambda>s. bindR cur_u64 (\<lambda>g. bindR cur_u64 (\<lambda>a. bindR (cur_take 32) (\<lambda>d.
       pureR (SenderMsg True s g a d)))))"
  by (cases b, simp_all add: read_hop_def wire_defs cong: if_cong)

lemma reads_hop_data:
  assumes "bcat [u64 a, Some d, u32 (length ev), Some ev] = Some x" and "length d = 32" and "sha ev = d"
  shows "reads (read_hop sha HOP_data) x (HopData (to_Number a) d ev)"
proof -
  from assms(1) obtain xa xl where p: "u64 a = Some xa" "u32 (length ev) = Some xl"
    and x: "x = xa @ d @ xl @ ev @ []"
    by (auto simp: bcat_Some simp del: bcat.simps)
  have "reads (read_hop sha HOP_data) (xa @ d @ xl @ ev @ []) (HopData (to_Number a) d ev)"
    unfolding read_hop_kinds
    by (rule reads_bind [OF u64_Some [OF p(1)]], rule reads_bind [OF reads_take [OF assms(2)]],
        rule reads_bind [OF u32_Some [OF p(2)]], rule reads_bind [OF reads_take [OF refl]],
        rule reads_if_false, simp add: assms(3), rule reads_pure)
  then show ?thesis by (simp add: x)
qed

lemma reads_hop_receipt:
  assumes "bcat [u64 a, Some d, byte1 st, enc_text det] = Some x" and "length d = 32"
    and "map_of RECEIPT st \<noteq> None" and "k = (if b then HOP_receipt else HOP_queryResult)"
  shows "reads (read_hop sha k) x (Receipt b (to_Number a) d st (via det))"
proof -
  from assms(1) obtain xa xt where p: "u64 a = Some xa" "enc_text det = Some xt"
    and x: "x = xa @ d @ [of_nat st] @ xt @ []"
    by (auto simp: bcat_Some simp del: bcat.simps)
  have "st < 256" using assms(3) by (auto simp: RECEIPT_def split: if_splits)
  then have "reads (read_hop sha k) (xa @ d @ [of_nat st] @ xt @ []) (Receipt b (to_Number a) d st (via det))"
    unfolding assms(4) read_hop_kinds
    by (intro reads_bind [OF u64_Some [OF p(1)]] reads_bind [OF reads_take [OF assms(2)]]
        reads_bind [OF reads_byte] reads_bind [OF reads_text [OF p(2)]] reads_if_false reads_pure assms(3))
  then show ?thesis by (simp add: x)
qed

lemma reads_hop_ack:
  assumes "bcat [enc_text s, u64 g, u64 a, Some d] = Some x" and "length d = 32"
  shows "reads (read_hop sha HOP_receiptAck) x (SenderMsg True (via s) (to_Number g) (to_Number a) d)"
proof -
  from assms(1) obtain xs xg xa where p: "enc_text s = Some xs" "u64 g = Some xg" "u64 a = Some xa"
    and x: "x = xs @ xg @ xa @ d @ []"
    by (auto simp: bcat_Some simp del: bcat.simps)
  have "reads (read_hop sha HOP_receiptAck) (xs @ xg @ xa @ d @ []) (SenderMsg True (via s) (to_Number g) (to_Number a) d)"
    unfolding read_hop_kinds
    by (rule reads_bind [OF reads_text [OF p(1)]], rule reads_bind [OF u64_Some [OF p(2)]],
        rule reads_bind [OF u64_Some [OF p(3)]], rule reads_bind [OF reads_take [OF assms(2)]], rule reads_pure)
  then show ?thesis by (simp add: x)
qed

lemma hop_data_frame:
  assumes "length (sha ev) = 32" and "hopData sha a ev = Some (dg, f)"
  shows "dg = sha ev \<and> decodeHop sha f = Inr (HopData (to_Number a) dg ev)"
proof -
  from assms have dg: "dg = sha ev"
    and e: "bcat (hopHeader HOP_data # [u64 a, Some (sha ev), u32 (length ev), Some ev]) = Some f"
    by (auto simp: hopData_def Let_def simp del: bcat.simps)
  from e obtain rest where "bcat [u64 a, Some (sha ev), u32 (length ev), Some ev] = Some rest"
    "f = HOP_MAGIC @ le_bytes 2 HOP_VERSION @ le_bytes 2 0 @ [of_nat HOP_data] @ rest"
    by (rule hop_frame)
  then show ?thesis using decode_hop_frame [OF _ _ reads_hop_data] assms(1) dg by (simp add: HOP_data_def)
qed

lemma hop_receipt_frame:
  assumes "length d = 32" and "map_of RECEIPT st \<noteq> None" and "hopReceipt b a d st det = Some f"
  shows "decodeHop sha f = Inr (Receipt b (to_Number a) d st (via det))"
proof -
  let ?k = "if b then HOP_receipt else HOP_queryResult"
  from assms(3) obtain rest where r: "bcat [u64 a, Some d, byte1 st, enc_text det] = Some rest"
    "f = HOP_MAGIC @ le_bytes 2 HOP_VERSION @ le_bytes 2 0 @ [of_nat ?k] @ rest"
    unfolding hopReceipt_def by (rule hop_frame)
  have "?k < 256" by (simp add: HOP_receipt_def HOP_queryResult_def)
  with decode_hop_frame [OF r(2) _ reads_hop_receipt [OF r(1) assms(1,2) refl]] show ?thesis by simp
qed

lemma hop_ack_frame:
  assumes "length d = 32" and "hopReceiptAck s g a d = Some f"
  shows "decodeHop sha f = Inr (SenderMsg True (via s) (to_Number g) (to_Number a) d)"
proof -
  from assms(2) obtain rest where r: "bcat [enc_text s, u64 g, u64 a, Some d] = Some rest"
    "f = HOP_MAGIC @ le_bytes 2 HOP_VERSION @ le_bytes 2 0 @ [of_nat HOP_receiptAck] @ rest"
    unfolding hopReceiptAck_def by (rule hop_frame)
  from decode_hop_frame [OF r(2) _ reads_hop_ack [OF r(1) assms(1)]] show ?thesis
    by (simp add: HOP_receiptAck_def)
qed

text \<open>
  The frames the bridge sends and also receives decode to what was encoded: a data frame with
  its attempt, digest and event; a receipt or query result with its status; a receipt
  acknowledgement with its sender.
\<close>
theorem hop_roundtrip:
  assumes "length (sha ev) = 32" and "length d = 32" and "a \<le> 2 ^ 53" and "g \<le> 2 ^ 53"
    and "is_text det" and "is_text s" and "map_of RECEIPT st \<noteq> None"
    and "hopData sha a ev = Some (dg, f)" and "hopReceipt b a d st det = Some f2"
    and "hopReceiptAck s g a d = Some f3"
  shows "decodeHop sha f = Inr (HopData a (sha ev) ev) \<and>
         decodeHop sha f2 = Inr (Receipt b a d st det) \<and>
         decodeHop sha f3 = Inr (SenderMsg True s g a d)"
  using hop_data_frame [OF assms(1,8)] hop_receipt_frame [OF assms(2,7,9)] hop_ack_frame [OF assms(2,10)]
    assms(3-6) by (simp add: to_Number_exact to_text_from_text)

section \<open>Witnesses\<close>

definition ping_meta :: event_meta where
  "ping_meta = \<lparr>eventId = ''c:1'', correlationId = ''c:1'', causationId = None,
     source = outerEndpoint ''a'' ''c'' 1, target = nodeEndpoint ''a'' ''n'' 7,
     returnRoute = Some (outerEndpoint ''a'' ''c'' 1), eventClass = Some ''output'', sequence = 1,
     deadlineUnixMs = Some 300, adapterKind = Some ''llama'', contentType = ''x''\<rparr>"

definition ping_frame :: buffer where
  "ping_frame = the (encodeEvent ping_meta [1, 2])"

lemma ping_plain: "plain_meta ping_meta"
  by (auto simp: plain_meta_def ping_meta_def CLASS_def intro!: ascii_is_text)

lemmas encoder_defs = u16_def u32_def u64_def enc_text_def write_le_def byte1_def Let_def
  encode_envelope_def encode_route_def encode_deadline_def encode_adapter_def encodeEvent_def

lemma ping_encodes: "encodeEvent ping_meta [1, 2] = Some ping_frame"
  by (simp add: ping_frame_def ping_meta_def encoder_defs wire_defs)

theorem event_roundtrip_witness:
  "length ping_frame = 121 \<and> decodeEvent ping_frame = Inr (ping_meta, [1, 2])"
proof
  show "length ping_frame = 121" by (simp add: ping_frame_def ping_meta_def encoder_defs wire_defs)
  show "decodeEvent ping_frame = Inr (ping_meta, [1, 2])" by (rule event_roundtrip [OF ping_plain ping_encodes])
qed

theorem event_prefix_free_witness:
  "\<exists>e. decodeEvent (ping_frame @ [0]) = Inl e"
  by (rule event_prefix_free [OF decode_encoded [OF ping_encodes]]) simp

definition toy_sha :: "buffer \<Rightarrow> buffer" where
  "toy_sha x = replicate 31 0 @ [of_nat (length x)]"

theorem hop_roundtrip_witness:
  "decodeHop toy_sha (snd (the (hopData toy_sha 7 [1, 2]))) = Inr (HopData 7 (toy_sha [1, 2]) [1, 2])"
proof -
  have "\<exists>f2. hopReceipt True 7 (toy_sha []) 1 '''' = Some f2"
    "\<exists>f3. hopReceiptAck ''s'' 1 7 (toy_sha []) = Some f3"
    "hopData toy_sha 7 [1, 2] = Some (the (hopData toy_sha 7 [1, 2]))"
    by (simp_all add: hopReceipt_def hopReceiptAck_def hopData_def hopHeader_def encoder_defs wire_defs)
  then obtain f2 f3 where f: "hopReceipt True 7 (toy_sha []) 1 '''' = Some f2"
    "hopReceiptAck ''s'' 1 7 (toy_sha []) = Some f3"
    "hopData toy_sha 7 [1, 2] = Some (fst (the (hopData toy_sha 7 [1, 2])), snd (the (hopData toy_sha 7 [1, 2])))"
    by auto
  show ?thesis
    using hop_roundtrip [OF _ _ _ _ _ _ _ f(3) f(1) f(2)]
    by (simp add: toy_sha_def RECEIPT_def ascii_is_text)
qed

end
