(* ===== verification/Bridge_Client.thy ===== *)
theory Bridge_Client
  imports Bridge_Wire
begin

text \<open>
  The OUTER client (class \<^verbatim>\<open>OuterClient\<close> of \<^verbatim>\<open>p4bridge/wire.js\<close>): one connection, its handshake,
  the acknowledged hop frames, requests and the promises that wait for their replies, and the loop that
  cuts the byte stream into frames.

  A method that may throw returns the state it leaves behind with the error. What the client hands to
  the outside (bytes to the socket, settled promises, events for subscriptions and listeners) is
  appended to \<open>cl_log\<close> in the order the code produces it; handlers are taken not to call back into the
  client before they return. A request's promise is a number, and \<open>cl_timers\<close> holds the timers that are
  still armed, with the key each would remove. The clock and the digest are arguments.
\<close>

datatype client_error =
    Wire wire_error | NotOpen | Finishing | Closed | FrameBound nat | HelloMismatch | ReceiptConflict
  | RefusedBy nat string | ConnectionClosed | SocketError string | RequestTimeout | RangeError
  | UnexpectedFrame | UnexpectedReply | BadJson

type_synonym event = "event_meta \<times> buffer"

datatype client_out =
    Written buffer
  | Resolved nat event
  | Rejected nat client_error
  | ToSubscription string event
  | ToListeners event
  | ListenerError client_error "string option"
  | Opened
  | OpenFailed client_error
  | Finished

record outer_client =
  cl_address :: string
  cl_channel :: string
  cl_generation :: nat
  cl_hop :: bool
  cl_deadlineMs :: nat
  cl_sequence :: nat
  cl_attempt :: nat
  cl_maxOutstanding :: nat
  cl_outstanding :: "(nat \<times> (buffer \<times> string)) list"
  cl_received :: "(nat \<times> buffer) list"
  cl_waiters :: "nat table"
  cl_timers :: "(nat \<times> string) list"
  cl_subscriptions :: "string list"
  cl_buffer :: buffer
  cl_socket :: bool
  cl_closed :: bool
  cl_finishing :: bool
  cl_finishAck :: bool
  cl_helloPending :: bool
  cl_peerSenderId :: "string option"
  cl_peerGeneration :: "nat option"
  cl_sentBytes :: nat
  cl_receivedBytes :: nat
  cl_log :: "client_out list"

definition new_client :: "string \<Rightarrow> string \<Rightarrow> nat \<Rightarrow> nat \<Rightarrow> nat \<Rightarrow> bool \<Rightarrow> outer_client" where
  "new_client address channel generation maxOutstanding deadlineMs hop =
     \<lparr>cl_address = address, cl_channel = channel, cl_generation = generation, cl_hop = hop,
      cl_deadlineMs = deadlineMs, cl_sequence = 0, cl_attempt = 1, cl_maxOutstanding = maxOutstanding,
      cl_outstanding = [], cl_received = [], cl_waiters = [], cl_timers = [], cl_subscriptions = [],
      cl_buffer = [], cl_socket = False, cl_closed = False, cl_finishing = False, cl_finishAck = False,
      cl_helloPending = False, cl_peerSenderId = None, cl_peerGeneration = None,
      cl_sentBytes = 0, cl_receivedBytes = 0, cl_log = []\<rparr>"

definition senderId :: "outer_client \<Rightarrow> string" where
  "senderId c = cl_address c @ ''#'' @ cl_channel c"

definition outer :: "outer_client \<Rightarrow> endpoint" where
  "outer c = outerEndpoint (cl_address c) (cl_channel c) (cl_generation c)"

abbreviation emit :: "client_out list \<Rightarrow> outer_client \<Rightarrow> outer_client" where
  "emit os c \<equiv> c\<lparr>cl_log := cl_log c @ os\<rparr>"

type_synonym outcome = "outer_client \<times> client_error option"

section \<open>Sending frames, failing, closing\<close>

definition sendFrame :: "buffer option \<Rightarrow> outer_client \<Rightarrow> outcome" where
  "sendFrame frame c =
     (case frame of
        None \<Rightarrow> (c, Some RangeError)
      | Some f \<Rightarrow>
          if \<not> cl_socket c then (c, Some NotOpen)
          else case bcat [u32 (length f), Some f] of
                 None \<Rightarrow> (c, Some RangeError)
               | Some b \<Rightarrow> (emit [Written b] (c\<lparr>cl_sentBytes := cl_sentBytes c + (length f + 4)\<rparr>), None))"

definition client_fail :: "client_error \<Rightarrow> outer_client \<Rightarrow> outer_client" where
  "client_fail e c =
     (if cl_closed c then c
      else emit (map (\<lambda>(k, w). Rejected w e) (cl_waiters c)
                 @ (if cl_helloPending c then [OpenFailed e] else []) @ [ListenerError e None])
             (c\<lparr>cl_closed := True, cl_waiters := [], cl_outstanding := [], cl_helloPending := False,
                cl_timers := filter (\<lambda>(w, k). w \<notin> snd ` set (cl_waiters c)) (cl_timers c)\<rparr>))"

definition client_close :: "outer_client \<Rightarrow> outer_client" where
  "client_close c = c\<lparr>cl_closed := True, cl_socket := False\<rparr>"

definition finishAck :: "outer_client \<Rightarrow> outer_client" where
  "finishAck c = (if cl_finishAck c then emit [Finished] (client_close c) else c)"

text \<open>\<^verbatim>\<open>finish\<close>: \<open>True\<close> when the promise is rejected at once.\<close>

definition client_finish :: "outer_client \<Rightarrow> outcome" where
  "client_finish c =
     (if cl_finishing c then (c, None)
      else sendFrame (Some []) (c\<lparr>cl_finishing := True, cl_finishAck := True\<rparr>))"

text \<open>The socket connected: a direct client is open; a hop client greets and waits.\<close>

definition on_connect :: "outer_client \<Rightarrow> outcome" where
  "on_connect c =
     (let c1 = c\<lparr>cl_socket := True\<rparr>
      in if \<not> cl_hop c then (emit [Opened] c1, None)
         else sendFrame (hopHello (senderId c) (cl_generation c) (cl_maxOutstanding c) (64 * 1024 * 1024))
                (c1\<lparr>cl_helloPending := True\<rparr>))"

definition subscribe :: "string \<Rightarrow> outer_client \<Rightarrow> outer_client" where
  "subscribe corr c = c\<lparr>cl_subscriptions := List.insert corr (cl_subscriptions c)\<rparr>"

definition unsubscribe :: "string \<Rightarrow> outer_client \<Rightarrow> outer_client" where
  "unsubscribe corr c = c\<lparr>cl_subscriptions := removeAll corr (cl_subscriptions c)\<rparr>"

section \<open>Receiving\<close>

definition settle :: "string \<Rightarrow> nat \<Rightarrow> client_out \<Rightarrow> outer_client \<Rightarrow> outer_client" where
  "settle key w out c =
     emit [out] (c\<lparr>cl_waiters := del key (cl_waiters c), cl_timers := del w (cl_timers c)\<rparr>)"

definition deliver :: "event \<Rightarrow> outer_client \<Rightarrow> outer_client" where
  "deliver ev c =
     (let corr = correlationId (fst ev)
      in if corr \<in> set (cl_subscriptions c) then emit [ToSubscription corr ev] c
         else case get (cl_waiters c) corr of
                Some w \<Rightarrow> settle corr w (Resolved w ev) c
              | None \<Rightarrow> emit [ToListeners ev] c)"

definition deliver_frame :: "buffer \<Rightarrow> outer_client \<Rightarrow> outcome" where
  "deliver_frame frame c =
     (case decodeEvent frame of Inl e \<Rightarrow> (c, Some (Wire e)) | Inr ev \<Rightarrow> (deliver ev c, None))"

definition on_hello_ack :: "nat \<Rightarrow> string \<Rightarrow> nat \<Rightarrow> nat \<Rightarrow> outer_client \<Rightarrow> outcome" where
  "on_hello_ack accepted sender gen maxOut c =
     (if accepted \<noteq> cl_generation c then (c, Some HelloMismatch)
      else (emit (if cl_helloPending c then [Opened] else [])
              (c\<lparr>cl_peerSenderId := Some sender, cl_peerGeneration := Some gen,
                 cl_maxOutstanding := min (cl_maxOutstanding c) maxOut, cl_helloPending := False\<rparr>), None))"

definition on_receipt :: "nat \<Rightarrow> buffer \<Rightarrow> nat \<Rightarrow> string \<Rightarrow> outer_client \<Rightarrow> outcome" where
  "on_receipt att digest st detail c =
     (case get (cl_outstanding c) att of
        None \<Rightarrow> (c, Some ReceiptConflict)
      | Some (d, corr) \<Rightarrow>
          if d \<noteq> digest then (c, Some ReceiptConflict)
          else let c1 = c\<lparr>cl_outstanding := del att (cl_outstanding c)\<rparr>
               in if st \<noteq> 1 then
                    (case get (cl_waiters c1) corr of
                       Some w \<Rightarrow> (settle corr w (Rejected w (RefusedBy st detail)) c1, None)
                     | None \<Rightarrow> (emit [ListenerError (RefusedBy st detail) (Some corr)] c1, None))
                  else sendFrame (hopReceiptAck (senderId c1) (cl_generation c1) att digest) c1)"

definition on_hop_data :: "nat \<Rightarrow> buffer \<Rightarrow> buffer \<Rightarrow> outer_client \<Rightarrow> outcome" where
  "on_hop_data att digest ev c =
     (case get (cl_received c) att of
        Some seen \<Rightarrow>
          let same = (seen = digest)
          in sendFrame (hopReceipt True att digest (if same then 1 else 3)
                          (if same then '''' else ''attempt digest differs'')) c
      | None \<Rightarrow>
          (case sendFrame (hopReceipt True att digest 1 '''') (c\<lparr>cl_received := put att digest (cl_received c)\<rparr>) of
             (c1, Some e) \<Rightarrow> (c1, Some e)
           | (c1, None) \<Rightarrow> deliver_frame ev c1))"

definition on_receipt_ack :: "string \<Rightarrow> nat \<Rightarrow> nat \<Rightarrow> buffer \<Rightarrow> outer_client \<Rightarrow> outcome" where
  "on_receipt_ack sender gen att digest c =
     (if cl_peerSenderId c = Some sender \<and> cl_peerGeneration c = Some gen
         \<and> get (cl_received c) att = Some digest
      then (c\<lparr>cl_received := del att (cl_received c)\<rparr>, None) else (c, None))"

definition on_query :: "nat \<Rightarrow> buffer \<Rightarrow> outer_client \<Rightarrow> outcome" where
  "on_query att digest c =
     (let st = (case get (cl_received c) att of None \<Rightarrow> 4 | Some seen \<Rightarrow> if seen = digest then 1 else 3);
          detail = (if st = 4 then ''receipt is not pinned''
                    else if st = 3 then ''attempt digest differs'' else '''')
      in sendFrame (hopReceipt False att digest st detail) c)"

definition onFrame :: "(buffer \<Rightarrow> buffer) \<Rightarrow> buffer \<Rightarrow> outer_client \<Rightarrow> outcome" where
  "onFrame sha frame c =
     (case decodeHop sha frame of
        Inl e \<Rightarrow> (c, Some (Wire e))
      | Inr (HelloAck accepted sender gen maxOut _) \<Rightarrow> on_hello_ack accepted sender gen maxOut c
      | Inr (Receipt True att digest st detail) \<Rightarrow> on_receipt att digest st detail c
      | Inr (Receipt False _ _ _ _) \<Rightarrow> (c, Some UnexpectedFrame)
      | Inr (HopData att digest ev) \<Rightarrow> on_hop_data att digest ev c
      | Inr (SenderMsg True sender gen att digest) \<Rightarrow> on_receipt_ack sender gen att digest c
      | Inr (SenderMsg False _ _ att digest) \<Rightarrow> on_query att digest c)"

text \<open>One turn of the loop of \<^verbatim>\<open>_onData\<close>.\<close>

definition onData_step :: "(buffer \<Rightarrow> buffer) \<Rightarrow> outer_client \<Rightarrow> buffer \<Rightarrow> outer_client progress" where
  "onData_step sha c b =
     (if length b < 4 then Wait
      else let size = le_val (take 4 b)
           in if size = 0 then Frame (finishAck c) (drop 4 b)
              else if MAX_FRAME < size then Halt (client_fail (FrameBound size) c) b
              else if length b < 4 + size then Wait
              else let frame = take size (drop 4 b);
                       c1 = c\<lparr>cl_receivedBytes := cl_receivedBytes c + (size + 4)\<rparr>
                   in case (if cl_hop c then onFrame sha frame c1 else deliver_frame frame c1) of
                        (c2, None) \<Rightarrow> Frame c2 (drop (4 + size) b)
                      | (c2, Some e) \<Rightarrow> Halt (client_fail e c2) (drop (4 + size) b))"

lemma onData_step_shorter: "onData_step sha c b = Frame c' r \<Longrightarrow> length r < length b"
  by (auto simp: onData_step_def Let_def split: if_splits prod.splits option.splits)

function onData_loop :: "(buffer \<Rightarrow> buffer) \<Rightarrow> outer_client \<Rightarrow> buffer \<Rightarrow> outer_client \<times> buffer \<times> bool" where
  "onData_loop sha c b =
     (case onData_step sha c b of
        Wait \<Rightarrow> (c, b, False)
      | Frame c' r \<Rightarrow> onData_loop sha c' r
      | Halt c' r \<Rightarrow> (c', r, True))"
  by pat_completeness auto
termination
  by (relation "measure (\<lambda>(sha, c, b). length b)") (auto simp: onData_step_shorter)

declare onData_loop.simps [simp del]

definition onData :: "(buffer \<Rightarrow> buffer) \<Rightarrow> buffer \<Rightarrow> outer_client \<Rightarrow> outer_client" where
  "onData sha chunk c = (let (c', r, _) = onData_loop sha c (cl_buffer c @ chunk) in c'\<lparr>cl_buffer := r\<rparr>)"

section \<open>Requests\<close>

record send_options =
  o_adapterKind :: "string option"
  o_eventClass :: string
  o_deadlineMs :: nat
  o_correlationId :: "string option"

definition event_id :: "outer_client \<Rightarrow> string" where
  "event_id c = cl_channel c @ '':'' @ show_nat (cl_sequence c)"

definition client_send ::
  "(buffer \<Rightarrow> buffer) \<Rightarrow> nat \<Rightarrow> endpoint \<Rightarrow> string \<Rightarrow> buffer \<Rightarrow> send_options \<Rightarrow> outer_client
   \<Rightarrow> outer_client \<times> (client_error + string)" where
  "client_send sha now tgt ctype body opts c =
     (if cl_finishing c then (c, Inl Finishing)
      else if cl_closed c then (c, Inl Closed)
      else let c1 = c\<lparr>cl_sequence := cl_sequence c + 1\<rparr>;
               eid = event_id c1;
               corr = (case o_correlationId opts of None \<Rightarrow> eid | Some k \<Rightarrow> k)
           in case encodeEvent \<lparr>eventId = eid, correlationId = corr, causationId = None, source = outer c1,
                     target = tgt, returnRoute = Some (outer c1), eventClass = Some (o_eventClass opts),
                     sequence = cl_sequence c1, deadlineUnixMs = Some (now + o_deadlineMs opts),
                     adapterKind = o_adapterKind opts, contentType = ctype\<rparr> body of
                None \<Rightarrow> (c1, Inl RangeError)
              | Some event \<Rightarrow>
                  if \<not> cl_hop c1 then
                    (case sendFrame (Some event) c1 of
                       (c2, Some e) \<Rightarrow> (c2, Inl e) | (c2, None) \<Rightarrow> (c2, Inr eid))
                  else let att = cl_attempt c1; c2 = c1\<lparr>cl_attempt := att + 1\<rparr>
                       in case hopData sha att event of
                            None \<Rightarrow> (c2, Inl RangeError)
                          | Some (digest, frame) \<Rightarrow>
                              (case sendFrame (Some frame)
                                      (c2\<lparr>cl_outstanding := put att (digest, corr) (cl_outstanding c2)\<rparr>) of
                                 (c3, Some e) \<Rightarrow> (c3, Inl e) | (c3, None) \<Rightarrow> (c3, Inr eid)))"

text \<open>\<open>exchange\<close> makes promise \<open>w\<close>: its timer is armed unless the send throws, which rejects it at once.\<close>

definition exchange ::
  "(buffer \<Rightarrow> buffer) \<Rightarrow> nat \<Rightarrow> endpoint \<Rightarrow> string \<Rightarrow> buffer \<Rightarrow> send_options \<Rightarrow> nat \<Rightarrow> outer_client \<Rightarrow> outer_client" where
  "exchange sha now tgt ctype body opts w c =
     (case client_send sha now tgt ctype body opts c of
        (c1, Inl e) \<Rightarrow> emit [Rejected w e] c1
      | (c1, Inr eid) \<Rightarrow>
          let key = (case o_correlationId opts of None \<Rightarrow> eid | Some k \<Rightarrow> k)
          in c1\<lparr>cl_waiters := put key w (cl_waiters c1), cl_timers := put w key (cl_timers c1)\<rparr>)"

definition exchange_timeout :: "nat \<Rightarrow> outer_client \<Rightarrow> outer_client" where
  "exchange_timeout w c =
     (case get (cl_timers c) w of
        None \<Rightarrow> c
      | Some key \<Rightarrow> settle key w (Rejected w RequestTimeout) c)"

text \<open>What \<^verbatim>\<open>inspect\<close> makes of the reply; \<open>parse\<close> is \<^verbatim>\<open>JSON.parse\<close>.\<close>

definition inspect_reply :: "(string \<Rightarrow> 'j option) \<Rightarrow> event \<Rightarrow> client_error + 'j" where
  "inspect_reply parse ev =
     (if contentType (fst ev) \<noteq> ''application/vnd.p4.agent.snapshot-v1+json'' then Inl UnexpectedReply
      else case parse (to_text (snd ev)) of None \<Rightarrow> Inl BadJson | Some j \<Rightarrow> Inr j)"

section \<open>Dialling\<close>

text \<open>
  \<open>connect\<close>: \<open>dial n hop\<close> is the outcome of the \<open>n\<close>th connection attempt with or without hop frames;
  the result carries the attempts that were made. \<open>DialTimeout\<close> is an error with
  \<^verbatim>\<open>p4ConnectTimeout\<close> set.
\<close>

datatype dial_error = DialTimeout | DialError client_error

definition connect :: "bool option \<Rightarrow> (nat \<Rightarrow> bool \<Rightarrow> dial_error + 'c) \<Rightarrow> (dial_error + 'c) \<times> bool list" where
  "connect hop dial =
     (let wanted = (case hop of None \<Rightarrow> True | Some h \<Rightarrow> h)
      in case dial 0 wanted of
           Inr cl \<Rightarrow> (Inr cl, [wanted])
         | Inl e \<Rightarrow>
             if \<not> wanted \<or> hop = Some False \<or> e = DialTimeout then (Inl e, [wanted])
             else (dial 1 False, [wanted, False]))"

section \<open>The stream\<close>

lemma onData_step_more:
  assumes "onData_step sha c b \<noteq> Wait"
  shows "onData_step sha c (b @ x) =
    (case onData_step sha c b of Wait \<Rightarrow> Wait | Frame c' r \<Rightarrow> Frame c' (r @ x) | Halt c' r \<Rightarrow> Halt c' (r @ x))"
proof -
  have four: "4 \<le> length b" by (rule ccontr) (use assms in \<open>simp add: onData_step_def\<close>)
  then have t: "take 4 (b @ x) = take 4 b" "drop 4 (b @ x) = drop 4 b @ x" by simp_all
  show ?thesis
  proof (cases "le_val (take 4 b) = 0 \<or> MAX_FRAME < le_val (take 4 b)")
    case True
    then show ?thesis using four by (auto simp: onData_step_def Let_def t)
  next
    case False
    then have len: "4 + le_val (take 4 b) \<le> length b"
      by (intro leI notI) (use assms four in \<open>simp add: onData_step_def Let_def\<close>)
    then have d: "take (le_val (take 4 b)) (drop 4 b @ x) = take (le_val (take 4 b)) (drop 4 b)"
      "drop (4 + le_val (take 4 b)) (b @ x) = drop (4 + le_val (take 4 b)) b @ x" by simp_all
    show ?thesis using False four len
      by (simp add: onData_step_def Let_def t d del: drop_append split: prod.split option.split)
  qed
qed

interpretation wire_stream: incremental "onData_step sha" "onData_loop sha" for sha
proof
  show "onData_loop sha c b = (case onData_step sha c b of Wait \<Rightarrow> (c, b, False)
    | Frame c' r \<Rightarrow> onData_loop sha c' r | Halt c' r \<Rightarrow> (c', r, True))" for c b
    by (rule onData_loop.simps)
  show "onData_step sha c b = Frame c' r \<Longrightarrow> onData_step sha c (b @ x) = Frame c' (r @ x)" for c b c' r x
    using onData_step_more [of sha c b x] by simp
  show "onData_step sha c b = Halt c' r \<Longrightarrow> onData_step sha c (b @ x) = Halt c' (r @ x)" for c b c' r x
    using onData_step_more [of sha c b x] by simp
  show "onData_step sha c b = Frame c' r \<Longrightarrow> length r < length b" for c b c' r
    by (rule onData_step_shorter)
qed

text \<open>The loop neither reads nor writes the buffer field.\<close>

lemma buffer_last:
  "c\<lparr>cl_buffer := b, cl_received := m\<rparr> = c\<lparr>cl_received := m, cl_buffer := b\<rparr>"
  "c\<lparr>cl_buffer := b, cl_receivedBytes := n\<rparr> = c\<lparr>cl_receivedBytes := n, cl_buffer := b\<rparr>"
  by simp_all

lemma sendFrame_buffer:
  "sendFrame f (c\<lparr>cl_buffer := b\<rparr>) = (case sendFrame f c of (c', e) \<Rightarrow> (c'\<lparr>cl_buffer := b\<rparr>, e))"
  by (simp add: sendFrame_def split: option.split)

lemma client_fail_buffer: "client_fail e (c\<lparr>cl_buffer := b\<rparr>) = (client_fail e c)\<lparr>cl_buffer := b\<rparr>"
  by (simp add: client_fail_def)

lemma deliver_frame_buffer:
  "deliver_frame f (c\<lparr>cl_buffer := b\<rparr>) = (case deliver_frame f c of (c', e) \<Rightarrow> (c'\<lparr>cl_buffer := b\<rparr>, e))"
  by (simp add: deliver_frame_def deliver_def settle_def Let_def split: sum.split option.split)

lemma on_receipt_buffer:
  "on_receipt a d st det (c\<lparr>cl_buffer := b\<rparr>) = (case on_receipt a d st det c of (c', e) \<Rightarrow> (c'\<lparr>cl_buffer := b\<rparr>, e))"
  by (simp add: on_receipt_def settle_def senderId_def Let_def sendFrame_def split: option.split prod.split)

lemma on_hop_data_buffer:
  "on_hop_data a d ev (c\<lparr>cl_buffer := b\<rparr>) = (case on_hop_data a d ev c of (c', e) \<Rightarrow> (c'\<lparr>cl_buffer := b\<rparr>, e))"
proof (cases "get (cl_received c) a")
  case None
  have "sendFrame f (c\<lparr>cl_buffer := b, cl_received := m\<rparr>) =
      (case sendFrame f (c\<lparr>cl_received := m\<rparr>) of (c', e) \<Rightarrow> (c'\<lparr>cl_buffer := b\<rparr>, e))" for f m
    using sendFrame_buffer [of f b "c\<lparr>cl_received := m\<rparr>"] by (simp only: buffer_last)
  then show ?thesis
    by (simp add: on_hop_data_def None deliver_frame_buffer split: prod.split option.split)
qed (simp add: on_hop_data_def sendFrame_buffer Let_def)

lemma onFrame_buffer:
  "onFrame sha f (c\<lparr>cl_buffer := b\<rparr>) = (case onFrame sha f c of (c', e) \<Rightarrow> (c'\<lparr>cl_buffer := b\<rparr>, e))"
  by (simp add: onFrame_def on_receipt_buffer on_hop_data_buffer on_hello_ack_def on_receipt_ack_def
      on_query_def sendFrame_buffer Let_def split: sum.split hop.split bool.split)

lemma onData_step_buffer:
  "onData_step sha (c\<lparr>cl_buffer := x\<rparr>) b =
     (case onData_step sha c b of Wait \<Rightarrow> Wait
      | Frame c' r \<Rightarrow> Frame (c'\<lparr>cl_buffer := x\<rparr>) r | Halt c' r \<Rightarrow> Halt (c'\<lparr>cl_buffer := x\<rparr>) r)"
proof -
  have 1: "onFrame sha f (c\<lparr>cl_buffer := x, cl_receivedBytes := n\<rparr>) =
      (case onFrame sha f (c\<lparr>cl_receivedBytes := n\<rparr>) of (c', e) \<Rightarrow> (c'\<lparr>cl_buffer := x\<rparr>, e))" for f n
    using onFrame_buffer [of sha f x "c\<lparr>cl_receivedBytes := n\<rparr>"] by (simp only: buffer_last)
  have 2: "deliver_frame f (c\<lparr>cl_buffer := x, cl_receivedBytes := n\<rparr>) =
      (case deliver_frame f (c\<lparr>cl_receivedBytes := n\<rparr>) of (c', e) \<Rightarrow> (c'\<lparr>cl_buffer := x\<rparr>, e))" for f n
    using deliver_frame_buffer [of f x "c\<lparr>cl_receivedBytes := n\<rparr>"] by (simp only: buffer_last)
  show ?thesis
    by (simp add: onData_step_def Let_def 1 2 client_fail_buffer finishAck_def client_close_def
        split: prod.split option.split)
qed

lemma onData_loop_buffer:
  "onData_loop sha (c\<lparr>cl_buffer := x\<rparr>) b = (case onData_loop sha c b of (c', r, h) \<Rightarrow> (c'\<lparr>cl_buffer := x\<rparr>, r, h))"
proof (induction c b rule: wire_stream.run_induct [where sha = sha])
  case (Wait c b)
  then show ?case
    using onData_step_buffer [of sha x c b] by (simp add: onData_loop.simps)
next
  case (Frame c b c' r)
  then have "onData_loop sha (c\<lparr>cl_buffer := x\<rparr>) b = onData_loop sha (c'\<lparr>cl_buffer := x\<rparr>) r"
    using onData_step_buffer [of sha x c b] by (subst onData_loop.simps) simp
  then show ?case using Frame wire_stream.run_Frame [OF Frame(1)] by simp
next
  case (Halt c b c' r)
  then show ?case
    using onData_step_buffer [of sha x c b] by (simp add: onData_loop.simps)
qed

text \<open>
  The client handles the byte stream the same way however the transport cuts it: unless the first
  chunk makes it stop, feeding two chunks one after the other is feeding them at once.
\<close>
theorem client_chunking:
  assumes "onData_loop sha c (cl_buffer c @ x) = (c', r, False)"
  shows "onData sha y (onData sha x c) = onData sha (x @ y) c"
proof -
  have "onData_loop sha c (cl_buffer c @ x @ y) = onData_loop sha c' (r @ y)"
    using wire_stream.chunked [OF assms, of y] by simp
  then show ?thesis
    by (simp add: onData_def assms onData_loop_buffer split: prod.split)
qed

text \<open>One call of \<^verbatim>\<open>_onData\<close> leaves at most one incomplete frame behind, or the client stopped.\<close>

lemma onData_drains:
  "onData_loop sha c b = (c', r, False) \<Longrightarrow> length r < 4 \<or> length r < 4 + le_val (take 4 r)"
  by (drule wire_stream.run_waits) (auto simp: onData_step_def Let_def split: if_splits prod.splits option.splits)

section \<open>The loop ends\<close>

text \<open>The loop of \<^verbatim>\<open>_onData\<close> with a bound on its turns; \<open>None\<close> when they run out.\<close>

fun onData_turns :: "nat \<Rightarrow> (buffer \<Rightarrow> buffer) \<Rightarrow> outer_client \<Rightarrow> buffer \<Rightarrow> (outer_client \<times> buffer \<times> bool) option" where
  "onData_turns 0 sha c b = None"
| "onData_turns (Suc n) sha c b =
     (case onData_step sha c b of
        Wait \<Rightarrow> Some (c, b, False)
      | Frame c' r \<Rightarrow> onData_turns n sha c' r
      | Halt c' r \<Rightarrow> Some (c', r, True))"

lemma onData_step_eats: "onData_step sha c b = Frame c' r \<Longrightarrow> length r + 4 \<le> length b"
  by (auto simp: onData_step_def Let_def split: if_splits prod.splits option.splits)

lemma turns_enough: "length b div 4 < n \<Longrightarrow> onData_turns n sha c b = Some (onData_loop sha c b)"
proof (induction n arbitrary: c b)
  case (Suc n)
  show ?case
  proof (cases "onData_step sha c b")
    case (Frame c' r)
    then have "length r div 4 < n" using onData_step_eats [OF Frame] Suc.prems by linarith
    then show ?thesis using Frame Suc.IH by (simp add: onData_loop.simps [of sha c b])
  qed (simp_all add: onData_loop.simps [of sha c b])
qed simp

text \<open>
  C19: Whatever a peer sends, one call of the receive loop ends: every turn consumes at least a length prefix,
  so a quarter of the buffered bytes bounds its turns, and when it ends at most one incomplete frame is left
  or the client has stopped.
\<close>
theorem receive_loop_ends:
  "\<exists>c' r h. onData_turns (Suc (length b div 4)) sha c b = Some (c', r, h) \<and> onData_loop sha c b = (c', r, h) \<and>
     (h \<or> length r < 4 \<or> length r < 4 + le_val (take 4 r))"
proof -
  obtain c' r h where l: "onData_loop sha c b = (c', r, h)" by (cases "onData_loop sha c b")
  then show ?thesis using turns_enough [of b "Suc (length b div 4)" sha c] onData_drains [of sha c b c' r] by auto
qed

section \<open>Promises\<close>

fun settles :: "client_out \<Rightarrow> nat list" where
  "settles (Resolved w ev) = [w]"
| "settles (Rejected w e) = [w]"
| "settles _ = []"

definition settled :: "outer_client \<Rightarrow> nat list" where
  "settled c = concat (map settles (cl_log c))"

definition promises_ok :: "nat table \<Rightarrow> (nat \<times> string) list \<Rightarrow> nat list \<Rightarrow> bool" where
  "promises_ok W T S \<longleftrightarrow>
     keyed W \<and> keyed T \<and> distinct S \<and> (\<forall>k w. get W k = Some w \<longrightarrow> get T w = Some k) \<and>
     (\<forall>w k. get T w = Some k \<longrightarrow> w \<notin> set S)"

definition client_ok :: "outer_client \<Rightarrow> bool" where
  "client_ok c \<longleftrightarrow> promises_ok (cl_waiters c) (cl_timers c) (settled c)"

text \<open>Every way the state of a client changes: its methods, its timers and the events of its socket.\<close>

inductive client_step :: "(buffer \<Rightarrow> buffer) \<Rightarrow> outer_client \<Rightarrow> outer_client \<Rightarrow> bool" for sha where
  connected: "client_step sha c (fst (on_connect c))"
| data: "client_step sha c (onData sha chunk c)"
| failed: "client_step sha c (client_fail e c)"
| sent: "client_step sha c (fst (client_send sha now tgt ctype body opts c))"
| asked: "get (cl_timers c) w = None \<Longrightarrow> w \<notin> set (settled c) \<Longrightarrow>
          client_step sha c (exchange sha now tgt ctype body opts w c)"
| timed_out: "client_step sha c (exchange_timeout w c)"
| subscribed: "client_step sha c (subscribe k c)"
| unsubscribed: "client_step sha c (unsubscribe k c)"
| finished: "client_step sha c (fst (client_finish c))"
| closed: "client_step sha c (client_close c)"

declare settled_def [simp]

text \<open>\<open>core\<close> is the part of the state the promises live in; most operations leave it alone.\<close>

definition core :: "outer_client \<Rightarrow> nat table \<times> (nat \<times> string) list \<times> nat list" where
  "core c = (cl_waiters c, cl_timers c, settled c)"

lemma client_ok_core: "core c = core c' \<Longrightarrow> client_ok c = client_ok c'"
  by (simp add: core_def client_ok_def)

lemma core_sendFrame: "core (fst (sendFrame f c)) = core c"
  by (simp add: sendFrame_def core_def split: option.split)

lemma core_client_send: "core (fst (client_send sha now tgt ctype body opts c)) = core c"
proof -
  have s: "core (fst (sendFrame f c')) = core c" if "core c' = core c" for f c'
    using that by (simp add: core_sendFrame)
  have u: "core (c\<lparr>cl_sequence := n\<rparr>) = core c" "core (c\<lparr>cl_sequence := n, cl_attempt := m\<rparr>) = core c"
    "core (c\<lparr>cl_sequence := n, cl_attempt := m, cl_outstanding := os\<rparr>) = core c" for n m os
    by (simp_all add: core_def)
  show ?thesis
    using s [OF u(1)] s [OF u(3)] u
    by (auto simp: client_send_def Let_def split: option.split prod.split) (metis fst_conv)+
qed

lemma promises_drop:
  assumes ok: "promises_ok W T S" and w: "get T w = Some k"
  shows "promises_ok (del k W) (del w T) (S @ [w])"
  unfolding promises_ok_def
proof (intro conjI)
  show "\<forall>k' w'. get (del k W) k' = Some w' \<longrightarrow> get (del w T) w' = Some k'"
    using ok w unfolding promises_ok_def by (auto simp: delete_conv' split: if_splits)
  show "\<forall>w' k'. get (del w T) w' = Some k' \<longrightarrow> w' \<notin> set (S @ [w])"
    using ok unfolding promises_ok_def by (auto simp: delete_conv' split: if_splits)
  show "distinct (S @ [w])" using ok w unfolding promises_ok_def by auto
qed (use ok in \<open>simp_all add: promises_ok_def tab.wf_rem\<close>)

lemma settle_ok:
  assumes "client_ok c" and "get (cl_timers c) w = Some k" and "settles out = [w]"
  shows "client_ok (settle k w out c)"
  using promises_drop [OF assms(1) [unfolded client_ok_def] assms(2)] assms(3)
  by (simp add: settle_def client_ok_def)

lemma waiter_timer: "client_ok c \<Longrightarrow> get (cl_waiters c) k = Some w \<Longrightarrow> get (cl_timers c) w = Some k"
  by (simp add: client_ok_def promises_ok_def)

lemma deliver_ok: "client_ok c \<Longrightarrow> client_ok (deliver ev c)"
proof (cases "get (cl_waiters c) (correlationId (fst ev))")
  case (Some w)
  assume ok: "client_ok c"
  show ?thesis using settle_ok [OF ok waiter_timer [OF ok Some]] ok
    by (auto simp: deliver_def Let_def Some client_ok_def)
qed (auto simp: deliver_def Let_def client_ok_def)

lemma deliver_frame_ok: "client_ok c \<Longrightarrow> client_ok (fst (deliver_frame f c))"
  by (auto simp: deliver_frame_def deliver_ok split: sum.split)

lemma sendFrame_ok: "client_ok c \<Longrightarrow> client_ok (fst (sendFrame f c))"
  using client_ok_core [OF core_sendFrame] by blast

lemma on_receipt_ok:
  assumes ok: "client_ok c"
  shows "client_ok (fst (on_receipt a d st det c))"
proof -
  let ?c1 = "c\<lparr>cl_outstanding := del a (cl_outstanding c)\<rparr>"
  have ok1: "client_ok ?c1" using ok by (simp add: client_ok_def)
  have "client_ok (settle k w (Rejected w e) ?c1)" if "get (cl_waiters ?c1) k = Some w" for k w e
    using settle_ok [OF ok1 waiter_timer [OF ok1 that]] by simp
  moreover have "client_ok (emit [ListenerError e k] ?c1)" for e k
    using ok1 by (simp add: client_ok_def)
  ultimately show ?thesis using ok ok1 sendFrame_ok [OF ok1]
    by (simp add: on_receipt_def Let_def split: option.split prod.split)
qed

lemma on_hop_data_ok:
  assumes ok: "client_ok c"
  shows "client_ok (fst (on_hop_data a d ev c))"
proof -
  have "client_ok (c\<lparr>cl_received := m\<rparr>)" for m using ok by (simp add: client_ok_def)
  then have s: "client_ok c1" if "sendFrame f (c\<lparr>cl_received := m\<rparr>) = (c1, e)" for f m c1 e
    using sendFrame_ok [of "c\<lparr>cl_received := m\<rparr>" f] that by simp
  show ?thesis using sendFrame_ok [OF ok] s
    by (auto simp: on_hop_data_def Let_def deliver_frame_ok split: option.split prod.split)
qed

lemma onFrame_ok: "client_ok c \<Longrightarrow> client_ok (fst (onFrame sha f c))"
  by (simp add: onFrame_def on_receipt_ok on_hop_data_ok on_hello_ack_def on_receipt_ack_def
      on_query_def sendFrame_ok Let_def split: sum.split hop.split bool.split)
    (simp add: client_ok_def)

lemma promises_clear:
  assumes ok: "promises_ok W T S"
  shows "promises_ok [] (filter (\<lambda>(w, k). w \<notin> snd ` set W) T) (S @ map snd W)"
proof -
  have inW: "get W k = Some w" if "(k, w) \<in> set W" for k w
    using ok that by (simp add: promises_ok_def keyed_get)
  have "inj_on snd (set W)"
  proof (rule inj_onI)
    fix p q assume a: "p \<in> set W" "q \<in> set W" "snd p = snd q"
    then have "get T (snd p) = Some (fst p)" "get T (snd q) = Some (fst q)"
      using ok inW unfolding promises_ok_def by (metis prod.collapse)+
    then show "p = q" using a(3) by (simp add: prod_eq_iff)
  qed
  moreover have "distinct W" using ok by (simp add: promises_ok_def keyed_def distinct_map)
  moreover have "set S \<inter> snd ` set W = {}"
    using ok inW unfolding promises_ok_def by fastforce
  ultimately have d: "distinct (S @ map snd W)"
    using ok by (auto simp: promises_ok_def distinct_map)
  have k: "keyed (filter (\<lambda>(w, k). w \<notin> snd ` set W) T)"
    using ok by (simp add: promises_ok_def keyed_def distinct_map_filter)
  let ?T = "filter (\<lambda>(w, k). w \<notin> snd ` set W) T"
  have "\<forall>w k. get ?T w = Some k \<longrightarrow> w \<notin> set (S @ map snd W)"
  proof (intro allI impI)
    fix w k assume "get ?T w = Some k"
    from get_in_set [OF this] have "(w, k) \<in> set T" "w \<notin> snd ` set W" by auto
    then show "w \<notin> set (S @ map snd W)" using ok keyed_get [of T w k] by (auto simp: promises_ok_def)
  qed
  moreover have "\<forall>k w. get [] k = Some w \<longrightarrow> get ?T w = Some k" by simp
  ultimately show ?thesis unfolding promises_ok_def using d k keyed_Nil by blast
qed

lemma settles_rejected: "concat (map settles (map (\<lambda>(k, w). Rejected w e) W)) = map snd W"
  by (induction W) auto

lemma client_fail_ok: "client_ok c \<Longrightarrow> client_ok (client_fail e c)"
  using promises_clear [of "cl_waiters c" "cl_timers c" "settled c"] settles_rejected [of e "cl_waiters c"]
  by (simp add: client_ok_def client_fail_def)

lemma finishAck_ok: "client_ok c \<Longrightarrow> client_ok (finishAck c)"
  by (simp add: client_ok_def finishAck_def client_close_def)

lemma onData_step_ok:
  assumes "client_ok c"
  shows "onData_step sha c b = Frame c' r \<Longrightarrow> client_ok c'"
    and "onData_step sha c b = Halt c' r \<Longrightarrow> client_ok c'"
proof -
  let ?c1 = "c\<lparr>cl_receivedBytes := cl_receivedBytes c + (le_val (take 4 b) + 4)\<rparr>"
  have ok1: "client_ok ?c1" using assms by (simp add: client_ok_def)
  have "client_ok c2" if "onFrame sha f ?c1 = (c2, e)" for f c2 e
    using onFrame_ok [OF ok1, of sha f] that by simp
  moreover have "client_ok c2" if "deliver_frame f ?c1 = (c2, e)" for f c2 e
    using deliver_frame_ok [OF ok1, of f] that by simp
  ultimately show "onData_step sha c b = Frame c' r \<Longrightarrow> client_ok c'"
    and "onData_step sha c b = Halt c' r \<Longrightarrow> client_ok c'"
    using finishAck_ok [OF assms] client_fail_ok assms
    by (auto simp: onData_step_def Let_def split: if_splits prod.splits option.splits)
qed

lemma onData_ok: "client_ok c \<Longrightarrow> client_ok (onData sha x c)"
proof -
  assume "client_ok c"
  then have "client_ok (fst (onData_loop sha c (cl_buffer c @ x)))"
    by (rule wire_stream.run_keeps [rotated 2]) (blast intro: onData_step_ok)+
  then show ?thesis by (simp add: onData_def client_ok_def case_prod_unfold Let_def)
qed

lemma exchange_ok:
  assumes ok: "client_ok c" and fresh: "get (cl_timers c) w = None" "w \<notin> set (settled c)"
  shows "client_ok (exchange sha now tgt ctype body opts w c)"
proof (cases "client_send sha now tgt ctype body opts c")
  case (Pair c1 r)
  then have core1: "core c1 = core c" using core_client_send [of sha now tgt ctype body opts c] by simp
  then have eqs: "cl_waiters c1 = cl_waiters c" "cl_timers c1 = cl_timers c" "settled c1 = settled c"
    by (simp_all only: core_def prod.inject)
  have "promises_ok (put k w (cl_waiters c)) (put w k (cl_timers c)) (settled c)" for k
    using ok fresh unfolding client_ok_def promises_ok_def
    by (auto simp: tab.wf_upd update_conv' simp del: settled_def)
  moreover have "promises_ok (cl_waiters c) (cl_timers c) (settled c @ [w])"
    using ok fresh unfolding client_ok_def promises_ok_def by (auto simp del: settled_def)
  moreover have "settled (emit [Rejected w e] c1) = settled c @ [w]" for e
    using eqs(3) by simp
  ultimately show ?thesis
    using Pair eqs(1,2) eqs(3) [symmetric]
    by (simp add: exchange_def client_ok_def Let_def split: sum.split)
qed

lemma timeout_ok: "client_ok c \<Longrightarrow> client_ok (exchange_timeout w c)"
  using settle_ok [of c w] by (auto simp: exchange_timeout_def split: option.split)

text \<open>\<open>tracked c\<close>: the promises that still have their timer, or that were settled.\<close>

definition tracked :: "outer_client \<Rightarrow> nat set" where
  "tracked c = fst ` set (cl_timers c) \<union> set (settled c)"

lemma tracked_core: "core c = core c' \<Longrightarrow> tracked c = tracked c'"
  by (simp add: tracked_def core_def)

lemma tracked_sendFrame: "tracked (fst (sendFrame f c)) = tracked c"
  by (rule tracked_core [OF core_sendFrame])

lemma keys_del: "fst ` set (del w T) = fst ` set T - {w}"
  using delete_keys [of w T] by (metis removeAll_filter_not_eq set_map set_removeAll)

lemma tracked_settle: "settles out = [w] \<Longrightarrow> tracked c \<subseteq> tracked (settle k w out c)"
  by (auto simp: tracked_def settle_def keys_del)

lemma tracked_deliver: "tracked c \<subseteq> tracked (deliver ev c)"
proof (cases "get (cl_waiters c) (correlationId (fst ev))")
  case (Some w)
  show ?thesis
    using tracked_settle [of "Resolved w ev" w c "correlationId (fst ev)"]
    by (auto simp: deliver_def Let_def Some tracked_def)
qed (auto simp: deliver_def Let_def tracked_def)

lemma tracked_deliver_frame: "tracked c \<subseteq> tracked (fst (deliver_frame f c))"
  using tracked_deliver by (auto simp: deliver_frame_def split: sum.split)

lemma tracked_on_receipt: "tracked c \<subseteq> tracked (fst (on_receipt a d st det c))"
proof -
  let ?c1 = "c\<lparr>cl_outstanding := del a (cl_outstanding c)\<rparr>"
  have t: "tracked ?c1 = tracked c" by (simp add: tracked_def)
  have "tracked c \<subseteq> tracked (settle k w (Rejected w e) ?c1)" for k w e
    using tracked_settle [of "Rejected w e" w ?c1 k] t by simp
  moreover have "tracked c \<subseteq> tracked (emit [ListenerError e k] ?c1)" for e k
    by (simp add: tracked_def)
  ultimately show ?thesis using tracked_sendFrame [of _ ?c1] t
    by (simp add: on_receipt_def Let_def split: option.split prod.split)
qed

lemma tracked_on_hop_data: "tracked c \<subseteq> tracked (fst (on_hop_data a d ev c))"
proof -
  have s: "tracked c1 = tracked c" if "sendFrame f (c\<lparr>cl_received := m\<rparr>) = (c1, e)" for f m c1 e
    using tracked_sendFrame [of f "c\<lparr>cl_received := m\<rparr>"] that by (simp add: tracked_def)
  then show ?thesis
    using tracked_deliver_frame by (fastforce simp: on_hop_data_def Let_def tracked_sendFrame split: option.split prod.split)
qed

lemma tracked_onFrame: "tracked c \<subseteq> tracked (fst (onFrame sha f c))"
proof (cases "decodeHop sha f")
  case (Inr h)
  show ?thesis
    using tracked_on_receipt tracked_on_hop_data
    by (auto simp: onFrame_def Inr on_hello_ack_def on_receipt_ack_def on_query_def
        tracked_sendFrame Let_def split: hop.split bool.split) (auto simp: tracked_def)
qed (simp add: onFrame_def)

lemma tracked_fail: "tracked c \<subseteq> tracked (client_fail e c)"
proof (cases "cl_closed c")
  case False
  let ?A = "snd ` set (cl_waiters c)"
  have "set (settled (client_fail e c)) = set (settled c) \<union> ?A"
    using arg_cong [OF settles_rejected, of set e "cl_waiters c"] False by (simp add: client_fail_def)
  moreover have "fst ` set (cl_timers c) \<subseteq> fst ` set (filter (\<lambda>(w, k). w \<notin> ?A) (cl_timers c)) \<union> ?A"
    by force
  moreover have "cl_timers (client_fail e c) = filter (\<lambda>(w, k). w \<notin> ?A) (cl_timers c)"
    using False by (simp add: client_fail_def)
  ultimately show ?thesis unfolding tracked_def by auto
qed (simp add: client_fail_def)

lemma tracked_finishAck: "tracked c \<subseteq> tracked (finishAck c)"
  by (simp add: tracked_def finishAck_def client_close_def)

lemma tracked_onData_step:
  "onData_step sha c b = Frame c' r \<or> onData_step sha c b = Halt c' r \<Longrightarrow> tracked c \<subseteq> tracked c'"
proof -
  let ?c1 = "c\<lparr>cl_receivedBytes := cl_receivedBytes c + (le_val (take 4 b) + 4)\<rparr>"
  have t: "tracked ?c1 = tracked c" by (simp add: tracked_def)
  have "tracked c \<subseteq> tracked c2" if "onFrame sha f ?c1 = (c2, e)" for f c2 e
    using tracked_onFrame [of ?c1 sha f] that t by simp
  moreover have "tracked c \<subseteq> tracked c2" if "deliver_frame f ?c1 = (c2, e)" for f c2 e
    using tracked_deliver_frame [of ?c1 f] that t by simp
  ultimately show "onData_step sha c b = Frame c' r \<or> onData_step sha c b = Halt c' r \<Longrightarrow> tracked c \<subseteq> tracked c'"
    using tracked_finishAck [of c] tracked_fail
    by (auto simp: onData_step_def Let_def split: if_splits prod.splits option.splits) (meson subsetD)+
qed

lemma tracked_onData: "tracked c \<subseteq> tracked (onData sha x c)"
proof -
  have "tracked c \<subseteq> tracked (fst (onData_loop sha c (cl_buffer c @ x)))"
    by (rule wire_stream.run_keeps [where P = "\<lambda>c'. tracked c \<subseteq> tracked c'"])
      (use tracked_onData_step in blast)+
  then show ?thesis by (simp add: onData_def case_prod_unfold Let_def tracked_def)
qed

lemma tracked_exchange: "tracked c \<union> {w} \<subseteq> tracked (exchange sha now tgt ctype body opts w c)"
proof (cases "client_send sha now tgt ctype body opts c")
  case (Pair c1 r)
  then have "tracked c1 = tracked c"
    using tracked_core [OF core_client_send [of sha now tgt ctype body opts c]] by simp
  moreover have "fst ` set (put w k T) = insert w (fst ` set T)" for k and T :: "(nat \<times> string) list"
    using dom_update [of w k T] by (simp add: dom_map_of_conv_image_fst)
  ultimately show ?thesis
    by (auto simp: exchange_def Pair tracked_def Let_def split: sum.split)
qed

lemma send_unchanged:
  "core c1 = core c \<Longrightarrow> client_ok c \<Longrightarrow>
   client_ok (fst (sendFrame f c1)) \<and> tracked c \<subseteq> tracked (fst (sendFrame f c1))"
  using client_ok_core [of c1 c] tracked_core [of c1 c] sendFrame_ok tracked_sendFrame by simp

lemma client_step_ok:
  assumes "client_step sha c c'" and ok: "client_ok c"
  shows "client_ok c' \<and> tracked c \<subseteq> tracked c'"
  using assms(1)
proof cases
  case (asked w)
  then show ?thesis using exchange_ok [OF ok] tracked_exchange by blast
next
  case (timed_out w)
  then show ?thesis
    using timeout_ok [OF ok] tracked_settle [of "Rejected w RequestTimeout" w c]
    by (auto simp: exchange_timeout_def split: option.split)
next
  case connected
  then show ?thesis
    using ok send_unchanged
    by (simp add: on_connect_def Let_def client_ok_def tracked_def core_def del: settled_def) (simp add: settled_def)
next
  case finished
  then show ?thesis
    using ok send_unchanged [of "c\<lparr>cl_finishing := True, cl_finishAck := True\<rparr>" c]
    by (simp add: client_finish_def core_def)
qed (use ok onData_ok tracked_onData client_fail_ok tracked_fail client_ok_core [OF core_client_send]
      tracked_core [OF core_client_send] in
    \<open>simp_all add: subscribe_def unsubscribe_def client_close_def, (simp_all add: client_ok_def tracked_def)?\<close>)

lemma client_steps_ok:
  "(client_step sha)\<^sup>*\<^sup>* c c' \<Longrightarrow> client_ok c \<Longrightarrow> client_ok c' \<and> tracked c \<subseteq> tracked c'"
  by (induction rule: rtranclp_induct) (use client_step_ok in blast)+

lemma new_client_ok: "client_ok (new_client a ch g m dl h)"
  by (simp add: client_ok_def new_client_def promises_ok_def)

lemma timeout_settles:
  "get (cl_timers c) w = Some k \<Longrightarrow> w \<in> set (settled (exchange_timeout w c))"
  by (simp add: exchange_timeout_def settle_def)

text \<open>
  C17: Whatever replies, refusals, failures, timeouts and closes arrive in whatever order, a request's
  promise is settled at most once, and until it is settled its timer is armed and settles it.
\<close>
theorem exchange_settles_once:
  assumes "(client_step sha)\<^sup>*\<^sup>* (new_client a ch g m dl h) c" and "w \<in> tracked c"
    and "(client_step sha)\<^sup>*\<^sup>* c c'"
  shows "distinct (settled c') \<and>
    ((w \<in> set (settled c')) \<noteq> (\<exists>k. get (cl_timers c') w = Some k \<and> w \<in> set (settled (exchange_timeout w c'))))"
proof -
  have ok: "client_ok c" using client_steps_ok [OF assms(1) new_client_ok] by blast
  have ok': "client_ok c'" and "w \<in> tracked c'" using client_steps_ok [OF assms(3) ok] assms(2) by blast+
  then have "w \<in> set (settled c') \<or> (\<exists>k. get (cl_timers c') w = Some k)"
    using keyed_get [of "cl_timers c'" w] unfolding tracked_def client_ok_def promises_ok_def by fastforce
  moreover have "distinct (settled c')" "\<forall>k. get (cl_timers c') w = Some k \<longrightarrow> w \<notin> set (settled c')"
    using ok' unfolding client_ok_def promises_ok_def by blast+
  ultimately show ?thesis using timeout_settles by blast
qed

section \<open>Acknowledged delivery\<close>

lemma deliver_frame_keeps:
  "cl_received (fst (deliver_frame f c)) = cl_received c" "cl_socket (fst (deliver_frame f c)) = cl_socket c"
  by (simp_all add: deliver_frame_def deliver_def settle_def Let_def split: sum.split option.split)

lemma sendFrame_done:
  assumes "sendFrame fr c = (c1, None)"
  obtains f b where "fr = Some f" "cl_socket c" "b = le_bytes 4 (length f) @ f"
    "c1 = emit [Written b] (c\<lparr>cl_sentBytes := cl_sentBytes c + (length f + 4)\<rparr>)"
  using assms by (auto simp: sendFrame_def u32_def write_le_Some bind_eq_Some_conv split: option.splits if_splits)

text \<open>
  A data frame that arrives again before its receipt was acknowledged is answered with the same
  acceptance and not delivered a second time: all the client does is write one frame, which decodes to an
  accepting receipt for that attempt and digest.
\<close>
theorem data_delivered_once:
  assumes frame: "decodeHop sha f = Inr (HopData att d ev)"
    and d: "length d = 32" and att: "att \<le> 2 ^ 53"
    and first: "get (cl_received c) att = None" "onFrame sha f c = (c1, None)"
  shows "\<exists>b. onFrame sha f c1 =
      (emit [Written b] (c1\<lparr>cl_sentBytes := cl_sentBytes c1 + length b\<rparr>), None) \<and>
    decodeHop sha (drop 4 b) = Inr (Receipt True att d 1 '''')"
proof -
  let ?c0 = "c\<lparr>cl_received := put att d (cl_received c)\<rparr>"
  obtain cs where s: "sendFrame (hopReceipt True att d 1 '''') ?c0 = (cs, None)"
    and dl: "deliver_frame ev cs = (c1, None)"
    using first frame by (auto simp: onFrame_def on_hop_data_def split: prod.splits option.splits)
  from s obtain g b where g: "hopReceipt True att d 1 '''' = Some g" and sock: "cl_socket ?c0"
    and cs: "b = le_bytes 4 (length g) @ g"
    "cs = emit [Written b] (?c0\<lparr>cl_sentBytes := cl_sentBytes ?c0 + (length g + 4)\<rparr>)"
    by (rule sendFrame_done)
  have len: "u32 (length g) = Some (le_bytes 4 (length g))"
    using s g sock by (auto simp: sendFrame_def u32_def write_le_def split: option.splits if_splits)
  have c1: "get (cl_received c1) att = Some d" "cl_socket c1"
    using deliver_frame_keeps [of ev cs] dl sock by (simp_all add: cs(2) table_simps)
  have "onFrame sha f c1 = (emit [Written b] (c1\<lparr>cl_sentBytes := cl_sentBytes c1 + length b\<rparr>), None)"
    using c1 g len by (simp add: onFrame_def frame on_hop_data_def Let_def sendFrame_def cs(1))
  moreover have "is_text ''''" by (simp add: ascii_is_text)
  then have "decodeHop sha (drop 4 b) = Inr (Receipt True att d 1 '''')"
    using hop_receipt_frame [OF d _ g, of sha] att
    by (simp add: cs(1) RECEIPT_def to_Number_exact to_text_from_text)
  ultimately show ?thesis by blast
qed

text \<open>
  Opening a connection dials at most twice, and a second time only when the first attempt asked for
  hop frames and failed with something other than a timeout.
\<close>
theorem connect_dials:
  "length (snd (connect hop dial)) \<le> 2 \<and>
   (length (snd (connect hop dial)) = 2 \<longleftrightarrow> hop \<noteq> Some False \<and> (\<exists>e. dial 0 True = Inl e \<and> e \<noteq> DialTimeout))"
proof (cases "dial 0 (case hop of None \<Rightarrow> True | Some h \<Rightarrow> h)")
  case (Inl e)
  then show ?thesis by (cases hop) (auto simp: connect_def Let_def)
next
  case (Inr cl)
  then show ?thesis by (cases hop) (auto simp: connect_def Let_def)
qed

section \<open>Witnesses\<close>

definition open_client :: "bool \<Rightarrow> outer_client" where
  "open_client hop = (new_client ''a'' ''c'' 1 4 1000 hop)\<lparr>cl_socket := True\<rparr>"

theorem client_chunking_witness:
  "onData toy_sha [0, 0] (onData toy_sha [0, 0, 0] (open_client False)) = onData toy_sha [0, 0, 0, 0, 0] (open_client False)"
  using client_chunking [of toy_sha "open_client False" "[0, 0, 0]" "open_client False" "[0, 0, 0]" "[0, 0]"]
  by (simp add: open_client_def new_client_def onData_loop.simps onData_step_def)

definition plain_options :: send_options where
  "plain_options = \<lparr>o_adapterKind = None, o_eventClass = ''control'', o_deadlineMs = 5, o_correlationId = None\<rparr>"

theorem exchange_settles_once_witness:
  "\<exists>k. get (cl_timers (exchange toy_sha 1 (agentEndpoint ''a'') ''t'' [] plain_options 9
        (fst (on_connect (new_client ''a'' ''c'' 1 4 1000 False))))) 9 = Some k"
proof -
  let ?n = "new_client ''a'' ''c'' 1 4 1000 False" and ?o = "fst (on_connect (new_client ''a'' ''c'' 1 4 1000 False))"
  let ?c = "exchange toy_sha 1 (agentEndpoint ''a'') ''t'' [] plain_options 9 ?o"
  have "client_step toy_sha ?n ?o" by (rule connected)
  moreover have "client_step toy_sha ?o ?c"
    by (rule asked) (simp_all add: on_connect_def new_client_def)
  ultimately have r: "(client_step toy_sha)\<^sup>*\<^sup>* ?n ?c" by simp
  have "9 \<in> tracked ?c" using tracked_exchange by blast
  moreover have "length (show_nat (Suc 0)) = 1" by (subst show_nat.simps) simp
  then have "9 \<notin> set (settled ?c)"
    by (simp add: exchange_def client_send_def on_connect_def new_client_def plain_options_def outer_def
        event_id_def encoder_defs wire_defs sendFrame_def split: option.split)
  ultimately show ?thesis using exchange_settles_once [OF r _ rtranclp.rtrancl_refl] by blast
qed

theorem data_delivered_once_witness:
  "\<exists>b. snd (onFrame toy_sha (snd (the (hopData toy_sha 7 ping_frame)))
     (fst (onFrame toy_sha (snd (the (hopData toy_sha 7 ping_frame))) (open_client True)))) = None \<and>
     decodeHop toy_sha (drop 4 b) = Inr (Receipt True 7 (toy_sha ping_frame) 1 '''')"
proof -
  let ?h = "snd (the (hopData toy_sha 7 ping_frame))" and ?d = "toy_sha ping_frame"
  have "length ping_frame = 121" by (simp add: ping_frame_def ping_meta_def encoder_defs wire_defs)
  then have "\<exists>h. hopData toy_sha 7 ping_frame = Some (?d, h)"
    by (simp add: hopData_def hopHeader_def encoder_defs wire_defs)
  then have "hopData toy_sha 7 ping_frame = Some (?d, ?h)" by auto
  from hop_data_frame [OF _ this] have f: "decodeHop toy_sha ?h = Inr (HopData 7 ?d ping_frame)"
    by (simp add: toy_sha_def to_Number_exact)
  have d: "length ?d = 32" by (simp add: toy_sha_def)
  have "\<exists>c1. onFrame toy_sha ?h (open_client True) = (c1, None)"
    by (simp add: onFrame_def f on_hop_data_def open_client_def new_client_def sendFrame_def hopReceipt_def
        hopHeader_def encoder_defs(1-7) wire_defs d deliver_frame_def decode_encoded [OF ping_encodes])
  then obtain c1 where c1: "onFrame toy_sha ?h (open_client True) = (c1, None)" by blast
  have "get (cl_received (open_client True)) 7 = None" by (simp add: open_client_def new_client_def)
  from data_delivered_once [OF f d _ this c1] show ?thesis by (auto simp: c1)
qed

end
