(* ===== verification/Bridge_Catalog.thy ===== *)
theory Bridge_Catalog
  imports JS_String
begin

text \<open>
  The bridge's model catalog (\<^verbatim>\<open>p4bridge/catalog.js\<close>): what an operator's file must say before a model is
  taken from it, and how a model is confirmed against what the agents report.

  The parsed file is a record of the fields the code reads. A text that is absent is \<open>''''\<close>; the load
  generation and the reasoning flag, whose type the code tests, are \<^typ>\<open>jsval\<close>; a stage generation is a natural
  number, \<open>0\<close> when absent; a list that is absent or not an array is \<open>None\<close>; a dimension
  that is absent is \<open>0\<close>, which the code treats alike. The context size and the bytes per expert are carried
  along and decide nothing, so they are left out.
\<close>

section \<open>Loading\<close>

record raw_stage =
  rs_agent :: string
  rs_node :: string
  rs_generation :: nat

record raw_model =
  rm_id :: string
  rm_name :: "string option"
  rm_load_generation :: jsval
  rm_stages :: "raw_stage list option"
  rm_max_tokens :: "nat option"
  rm_options :: "string option"
  rm_n_embd :: nat
  rm_n_layer :: nat
  rm_n_expert :: nat
  rm_expert_layers :: "nat list option"
  rm_prompt_format :: "string option"
  rm_reasoning :: jsval

record stage =
  st_agent :: string
  st_node :: string
  st_generation :: nat

record catalog_model =
  cm_id :: string
  cm_name :: string
  cm_loadGeneration :: int
  cm_stages :: "stage list"
  cm_maxTokens :: nat
  cm_options :: string
  cm_nEmbd :: nat
  cm_nLayer :: nat
  cm_nExpert :: nat
  cm_expertLayers :: "nat list option"
  cm_promptFormat :: string
  cm_reasoning :: bool

record catalog =
  ct_ingressAgent :: string
  ct_models :: "catalog_model list"

datatype catalog_error = NoIngress | NeedsStages string | IncompleteStage string | NeedsLoadGeneration string

definition is_positive_integer :: "jsval \<Rightarrow> bool" where
  "is_positive_integer v = (case v of Num (Fin r) \<Rightarrow> r \<in> \<int> \<and> 0 < r | _ \<Rightarrow> False)"

definition integer_value :: "jsval \<Rightarrow> int" where
  "integer_value v = (case v of Num (Fin r) \<Rightarrow> \<lfloor>r\<rfloor> | _ \<Rightarrow> 0)"

definition complete_stage :: "raw_stage \<Rightarrow> bool" where
  "complete_stage s \<longleftrightarrow> rs_agent s \<noteq> '''' \<and> rs_node s \<noteq> '''' \<and> rs_generation s \<noteq> 0"

definition load_model :: "raw_model \<Rightarrow> catalog_error + catalog_model" where
  "load_model m =
     (case rm_stages m of
        None \<Rightarrow> Inl (NeedsStages (rm_id m))
      | Some ss \<Rightarrow>
          if rm_id m = '''' \<or> length ss < 1 then Inl (NeedsStages (rm_id m))
          else if \<not> list_all complete_stage ss then Inl (IncompleteStage (rm_id m))
          else if \<not> is_positive_integer (rm_load_generation m) then Inl (NeedsLoadGeneration (rm_id m))
          else Inr \<lparr>cm_id = rm_id m, cm_name = (case rm_name m of None \<Rightarrow> rm_id m | Some n \<Rightarrow> n),
                    cm_loadGeneration = integer_value (rm_load_generation m),
                    cm_stages = map (\<lambda>s. \<lparr>st_agent = rs_agent s, st_node = rs_node s, st_generation = rs_generation s\<rparr>) ss,
                    cm_maxTokens = (case rm_max_tokens m of None \<Rightarrow> 1024 | Some n \<Rightarrow> n),
                    cm_options = (case rm_options m of None \<Rightarrow> '''' | Some s \<Rightarrow> s),
                    cm_nEmbd = rm_n_embd m, cm_nLayer = rm_n_layer m, cm_nExpert = rm_n_expert m,
                    cm_expertLayers = rm_expert_layers m,
                    cm_promptFormat = (case rm_prompt_format m of None \<Rightarrow> ''raw'' | Some f \<Rightarrow> f),
                    cm_reasoning = (rm_reasoning m = Bool True)\<rparr>)"

fun load_models :: "raw_model list \<Rightarrow> catalog_error + catalog_model list" where
  "load_models [] = Inr []"
| "load_models (m # ms) =
     (case load_model m of
        Inl e \<Rightarrow> Inl e
      | Inr c \<Rightarrow> (case load_models ms of Inl e \<Rightarrow> Inl e | Inr cs \<Rightarrow> Inr (c # cs)))"

definition load_catalog :: "string \<Rightarrow> raw_model list \<Rightarrow> catalog_error + catalog" where
  "load_catalog ingress models =
     (if ingress = '''' then Inl NoIngress
      else case load_models models of
             Inl e \<Rightarrow> Inl e
           | Inr ms \<Rightarrow> Inr \<lparr>ct_ingressAgent = ingress, ct_models = ms\<rparr>)"

text \<open>Every distinct agent address a catalog refers to, in the order a \<^verbatim>\<open>Set\<close> keeps.\<close>

definition agents :: "catalog \<Rightarrow> string list" where
  "agents c = rev (remdups (rev (ct_ingressAgent c # concat (map (map st_agent \<circ> cm_stages) (ct_models c)))))"

section \<open>Verifying\<close>

text \<open>
  What INSPECT reports for a node. \<open>sn_load_generation\<close> is \<open>None\<close> on engines that do not report it. A
  snapshot without a node list is an empty one.
\<close>

record snap_node =
  sn_id :: string
  sn_state :: string
  sn_generation :: jsval
  sn_load_generation :: "jsval option"

record snapshot =
  sp_nodes :: "snap_node list"

record stage_state =
  ss_agent :: string
  ss_node :: string
  ss_found :: bool
  ss_state :: "string option"
  ss_generationMatches :: bool
  ss_loadGeneration :: "jsval option"
  ss_holdsOurLoad :: "bool option"

record serving_state =
  sv_serving :: bool
  sv_stages :: "stage_state list"
  sv_reported :: bool

definition num_eq :: "jsnum \<Rightarrow> jsnum \<Rightarrow> bool" where
  "num_eq a b \<longleftrightarrow> a = b \<and> a \<noteq> NaN"

definition find_node :: "snapshot table \<Rightarrow> stage \<Rightarrow> snap_node option" where
  "find_node snaps s =
     (case get snaps (st_agent s) of
        None \<Rightarrow> None
      | Some sn \<Rightarrow> List.find (\<lambda>r. sn_id r = st_node s) (sp_nodes sn))"

definition verify_stage :: "int \<Rightarrow> snapshot table \<Rightarrow> stage \<Rightarrow> stage_state" where
  "verify_stage loadGen snaps s =
     (let node = find_node snaps s; reported = Option.bind node sn_load_generation
      in \<lparr>ss_agent = st_agent s, ss_node = st_node s, ss_found = (node \<noteq> None),
          ss_state = map_option sn_state node,
          ss_generationMatches = (case node of None \<Rightarrow> False
             | Some n \<Rightarrow> num_eq (to_number (sn_generation n)) (Fin (of_nat (st_generation s)))),
          ss_loadGeneration = reported,
          ss_holdsOurLoad = map_option (\<lambda>g. num_eq (to_number g) (Fin (of_int loadGen))) reported\<rparr>)"

definition verify :: "catalog_model \<Rightarrow> snapshot table \<Rightarrow> serving_state" where
  "verify m snaps =
     (let stages = map (verify_stage (cm_loadGeneration m) snaps) (cm_stages m);
          reports = list_all (\<lambda>s. ss_loadGeneration s \<noteq> None) stages;
          serving = (if reports then list_all (\<lambda>s. ss_found s \<and> ss_holdsOurLoad s = Some True) stages
                     else list_all (\<lambda>s. ss_found s \<and> ss_generationMatches s) stages)
      in \<lparr>sv_serving = serving, sv_stages = stages, sv_reported = reports\<rparr>)"

section \<open>What loading guarantees\<close>

definition model_ok :: "catalog_model \<Rightarrow> bool" where
  "model_ok m \<longleftrightarrow> cm_id m \<noteq> '''' \<and> cm_stages m \<noteq> [] \<and> 0 < cm_loadGeneration m \<and>
     list_all (\<lambda>s. st_agent s \<noteq> '''' \<and> st_node s \<noteq> '''' \<and> st_generation s \<noteq> 0) (cm_stages m)"

lemma integer_value_pos: "is_positive_integer v \<Longrightarrow> 0 < integer_value v \<and> v = Num (Fin (of_int (integer_value v)))"
  by (auto simp: is_positive_integer_def integer_value_def elim!: Ints_cases split: jsval.splits jsnum.splits)

lemma load_model_ok:
  assumes "load_model r = Inr m"
  shows "model_ok m \<and> cm_id m = rm_id r \<and> rm_load_generation r = Num (Fin (of_int (cm_loadGeneration m)))"
  using assms integer_value_pos [of "rm_load_generation r"]
  by (auto simp: load_model_def model_ok_def list_all_iff complete_stage_def split: option.splits if_splits)

lemma load_models_ok:
  "load_models rs = Inr ms \<Longrightarrow> list_all model_ok ms \<and> map cm_id ms = map rm_id rs \<and>
     map (\<lambda>m. Num (Fin (of_int (cm_loadGeneration m)))) ms = map rm_load_generation rs"
  by (induction rs arbitrary: ms) (auto split: sum.splits dest: load_model_ok)

lemma load_models_error: "r \<in> set rs \<Longrightarrow> load_model r = Inl e \<Longrightarrow> \<exists>e'. load_models rs = Inl e'"
  by (induction rs) (auto split: sum.splits)


section \<open>What serving means\<close>

definition holds_stage :: "snapshot table \<Rightarrow> stage \<Rightarrow> snap_node \<Rightarrow> bool" where
  "holds_stage snaps s n \<longleftrightarrow>
     (\<exists>sn. get snaps (st_agent s) = Some sn \<and> n \<in> set (sp_nodes sn) \<and> sn_id n = st_node s)"

lemma find_node_holds: "find_node snaps s = Some n \<Longrightarrow> holds_stage snaps s n"
  by (auto simp: find_node_def holds_stage_def find_Some_iff split: option.splits)

lemma serving_stage:
  assumes "sv_serving (verify m snaps)" and "s \<in> set (cm_stages m)"
  obtains n where "find_node snaps s = Some n"
    and "sv_reported (verify m snaps) \<Longrightarrow> \<exists>g. sn_load_generation n = Some g \<and> to_number g = Fin (of_int (cm_loadGeneration m))"
    and "\<not> sv_reported (verify m snaps) \<Longrightarrow> to_number (sn_generation n) = Fin (of_nat (st_generation s))"
proof -
  from assms obtain n where n: "find_node snaps s = Some n"
    by (auto simp: verify_def Let_def list_all_iff verify_stage_def split: if_splits)
  have "\<exists>g. sn_load_generation n = Some g \<and> to_number g = Fin (of_int (cm_loadGeneration m))" if "sv_reported (verify m snaps)"
    using that assms bspec [OF _ assms(2)] n
    by (fastforce simp: verify_def Let_def list_all_iff verify_stage_def num_eq_def)
  moreover have "to_number (sn_generation n) = Fin (of_nat (st_generation s))" if "\<not> sv_reported (verify m snaps)"
  proof -
    have "list_all (\<lambda>s. ss_found s \<and> ss_generationMatches s) (map (verify_stage (cm_loadGeneration m) snaps) (cm_stages m))"
      using that assms(1) by (simp add: verify_def Let_def split: if_splits)
    then have "ss_generationMatches (verify_stage (cm_loadGeneration m) snaps s)" using assms(2) by (simp add: list_all_iff)
    then show ?thesis using n by (simp add: verify_stage_def Let_def num_eq_def)
  qed
  ultimately show ?thesis using n that by blast
qed

text \<open>
  A model is served only on evidence for every stage: the latest snapshot of the stage's agent lists the
  node, and, on engines that report it, the node holds exactly the load the catalog names, or else is
  registered at the generation the catalog names. So a model with a stage on an agent that has no snapshot is
  not served.
\<close>
theorem serving_confirmed:
  assumes "sv_serving (verify m snaps)" and "s \<in> set (cm_stages m)"
  shows "\<exists>n. holds_stage snaps s n \<and>
    (if list_all (\<lambda>s. \<exists>n g. find_node snaps s = Some n \<and> sn_load_generation n = Some g) (cm_stages m)
     then \<exists>g. sn_load_generation n = Some g \<and> to_number g = Fin (of_int (cm_loadGeneration m))
     else to_number (sn_generation n) = Fin (of_nat (st_generation s))) \<and>
    get snaps (st_agent s) \<noteq> None"
proof -
  have r: "sv_reported (verify m snaps) = list_all (\<lambda>s. \<exists>n g. find_node snaps s = Some n \<and> sn_load_generation n = Some g) (cm_stages m)"
    by (auto simp: verify_def Let_def list_all_iff verify_stage_def bind_eq_Some_conv)
  obtain n where n: "find_node snaps s = Some n"
    and "sv_reported (verify m snaps) \<Longrightarrow> \<exists>g. sn_load_generation n = Some g \<and> to_number g = Fin (of_int (cm_loadGeneration m))"
    and "\<not> sv_reported (verify m snaps) \<Longrightarrow> to_number (sn_generation n) = Fin (of_nat (st_generation s))"
    using serving_stage [OF assms] by blast
  then show ?thesis using find_node_holds [OF n] unfolding r by (auto simp: holds_stage_def)
qed

definition demo_stage :: stage where
  "demo_stage = \<lparr>st_agent = ''tcp://a'', st_node = ''s0'', st_generation = 1\<rparr>"

definition demo_model :: catalog_model where
  "demo_model = \<lparr>cm_id = ''m'', cm_name = ''m'', cm_loadGeneration = 7, cm_stages = [demo_stage], cm_maxTokens = 16,
    cm_options = '''', cm_nEmbd = 0, cm_nLayer = 0, cm_nExpert = 0, cm_expertLayers = None, cm_promptFormat = ''raw'',
    cm_reasoning = False\<rparr>"

definition demo_snaps :: "snapshot table" where
  "demo_snaps = [(''tcp://a'', \<lparr>sp_nodes = [\<lparr>sn_id = ''s0'', sn_state = ''loaded'', sn_generation = Num (Fin 1),
    sn_load_generation = Some (Num (Fin 7))\<rparr>]\<rparr>)]"

theorem serving_confirmed_witness: "sv_serving (verify demo_model demo_snaps) \<and> (\<exists>n. holds_stage demo_snaps demo_stage n)"
proof -
  have s: "sv_serving (verify demo_model demo_snaps)" "demo_stage \<in> set (cm_stages demo_model)"
    by (simp_all add: demo_model_def demo_snaps_def demo_stage_def verify_def Let_def verify_stage_def find_node_def num_eq_def)
  show ?thesis using s(1) serving_confirmed [OF s] by blast
qed

end
