(* ===== verification/Bridge_Pipeline.thy ===== *)
theory Bridge_Pipeline
  imports Bridge_Client Bridge_Catalog
begin

text \<open>
  A loaded pipeline driven from the bridge (\<^verbatim>\<open>p4bridge/pipeline.js\<close>): installing a session on every stage,
  submitting a request to the head stage, gathering the token stream, and deriving the usage from what the
  stages report.

  The connections are a table from agent to the ring client of \<open>Bridge_Client\<close>, so a send is a send of that
  client, and a handler sees exactly what that client hands to its subscription. \<open>enc\<close> is \<^verbatim>\<open>JSON.stringify\<close> of
  a message, and a \<open>p4_reader\<close> reads the fields the code takes from a JSON body (\<open>None\<close> when the body does not
  parse). The messages of errors are reduced to their kind.
\<close>

section \<open>Messages\<close>

definition ADAPTER :: string where "ADAPTER = ''llamacpp''"
definition SESSION :: string where "SESSION = ''application/vnd.p4.llamacpp.session-v4+json''"
definition SESSION_READY :: string where "SESSION_READY = ''application/vnd.p4.llamacpp.session-ready-v4+json''"
definition PREFILL :: string where "PREFILL = ''application/vnd.p4.llamacpp.prefill-v3+json''"
definition OUTPUT_V5 :: string where "OUTPUT_V5 = ''application/vnd.p4.llamacpp.output-v5+json''"
definition OUTPUT_V4 :: string where "OUTPUT_V4 = ''application/vnd.p4.llamacpp.output-v4+json''"
definition RELEASE_RECEIPT :: string where "RELEASE_RECEIPT = ''application/vnd.p4.llamacpp.release-receipt-v1+json''"
definition BATCH_OBSERVATION :: string where "BATCH_OBSERVATION = ''application/vnd.p4.llamacpp.batch-observation-v5+json''"
definition STAGE_SPAN :: string where "STAGE_SPAN = ''application/vnd.p4.llamacpp.stage-span-v5+json''"
definition ERROR_V2 :: string where "ERROR_V2 = ''application/vnd.p4.llamacpp.error-v2+json''"

lemmas content_types = SESSION_READY_def OUTPUT_V5_def OUTPUT_V4_def RELEASE_RECEIPT_def BATCH_OBSERVATION_def STAGE_SPAN_def ERROR_V2_def

datatype p4_message =
    SessionMsg int string "stage list" nat
  | PrefillMsg int string string "nat list" "string option" string "string option" nat

record p4_reader =
  read_output :: "buffer \<Rightarrow> (string option \<times> string option) option"
  read_observation :: "buffer \<Rightarrow> (string option \<times> (string \<times> nat) list list) option"
  read_span :: "buffer \<Rightarrow> nat option"

type_synonym net = "outer_client table"

datatype pl_error = NoClient | SendFailed client_error | InstallTimeout | SessionRefused | RunTimeout | RunRefused
  | ClientAborted | Lost client_error

datatype promise = Pending | Kept | Broken pl_error

record pipeline =
  pl_stages :: "stage list"
  pl_loadGeneration :: int
  pl_sessionId :: string
  pl_installed :: bool

definition new_pipeline :: "stage list \<Rightarrow> int \<Rightarrow> string \<Rightarrow> pipeline option" where
  "new_pipeline stages loadGeneration sessionId =
     (if length stages < 1 then None
      else Some \<lparr>pl_stages = stages, pl_loadGeneration = loadGeneration, pl_sessionId = sessionId, pl_installed = False\<rparr>)"

section \<open>Subscriptions\<close>

text \<open>The distinct connections of a pipeline, as the agents they belong to.\<close>

definition pl_clients :: "pipeline \<Rightarrow> string list" where
  "pl_clients p = rev (remdups (rev (map st_agent (pl_stages p))))"

text \<open>\<open>False\<close>: there is no connection for an agent, and calling \<^verbatim>\<open>subscribe\<close> on it throws.\<close>

fun subscribeAll :: "string \<Rightarrow> string list \<Rightarrow> net \<Rightarrow> net \<times> bool" where
  "subscribeAll corr [] net = (net, True)"
| "subscribeAll corr (a # as) net =
     (case get net a of
        None \<Rightarrow> (net, False)
      | Some c \<Rightarrow> subscribeAll corr as (put a (subscribe corr c) net))"

section \<open>Installing a session\<close>

record installing =
  in_ready :: "(string + nat) list"
  in_promise :: promise
  in_timer :: bool
  in_subscribed :: bool

definition settle_install :: "promise \<Rightarrow> installing \<Rightarrow> installing" where
  "settle_install v s =
     s\<lparr>in_timer := False, in_subscribed := False, in_promise := (if in_promise s = Pending then v else in_promise s)\<rparr>"

definition source_node :: "event_meta \<Rightarrow> string option" where
  "source_node m = (case source m of nodeEndpoint a n g \<Rightarrow> Some n | _ \<Rightarrow> None)"

definition on_install_event :: "nat \<Rightarrow> client_error + event \<Rightarrow> installing \<Rightarrow> installing" where
  "on_install_event stages ev s =
     (if \<not> in_subscribed s then s
      else case ev of
             Inl e \<Rightarrow> settle_install (Broken (Lost e)) s
           | Inr (m, payload) \<Rightarrow>
               if contentType m = ERROR_V2 then settle_install (Broken SessionRefused) s
               else if contentType m \<noteq> SESSION_READY then s
               else let key = (case source_node m of Some n \<Rightarrow> Inl n | None \<Rightarrow> Inr (length (in_ready s)));
                        s1 = s\<lparr>in_ready := List.insert key (in_ready s)\<rparr>
                    in if stages \<le> length (in_ready s1) then settle_install Kept s1 else s1)"

definition install_timeout :: "installing \<Rightarrow> installing" where
  "install_timeout s = (if in_timer s then settle_install (Broken InstallTimeout) s else s)"

definition session_options :: "string \<Rightarrow> nat \<Rightarrow> send_options" where
  "session_options corr deadlineMs =
     \<lparr>o_adapterKind = Some ADAPTER, o_eventClass = ''control'', o_deadlineMs = deadlineMs, o_correlationId = Some corr\<rparr>"

fun send_sessions ::
  "(p4_message \<Rightarrow> buffer) \<Rightarrow> (buffer \<Rightarrow> buffer) \<Rightarrow> nat \<Rightarrow> pipeline \<Rightarrow> nat \<Rightarrow> stage list \<Rightarrow> net \<Rightarrow> net \<times> pl_error option" where
  "send_sessions enc sha now p i [] net = (net, None)"
| "send_sessions enc sha now p i (s # ss) net =
     (case get net (st_agent s) of
        None \<Rightarrow> (net, Some NoClient)
      | Some c \<Rightarrow>
          (case client_send sha now (nodeEndpoint (st_agent s) (st_node s) (st_generation s)) SESSION
                  (enc (SessionMsg (pl_loadGeneration p) (pl_sessionId p) (pl_stages p) i))
                  (session_options (''session-'' @ pl_sessionId p) (cl_deadlineMs c)) c of
             (c', Inl e) \<Rightarrow> (put (st_agent s) c' net, Some (SendFailed e))
           | (c', Inr _) \<Rightarrow> send_sessions enc sha now p (Suc i) ss (put (st_agent s) c' net)))"

text \<open>
  \<open>install\<close> up to its \<^verbatim>\<open>await done\<close>. An error is thrown to the caller before the await is reached, and the
  promise is left to its handlers and its timer.
\<close>

definition install_start ::
  "(p4_message \<Rightarrow> buffer) \<Rightarrow> (buffer \<Rightarrow> buffer) \<Rightarrow> nat \<Rightarrow> pipeline \<Rightarrow> net \<Rightarrow> net \<times> installing \<times> pl_error option" where
  "install_start enc sha now p net =
     (let (net1, ok) = subscribeAll (''session-'' @ pl_sessionId p) (pl_clients p) net;
          s = \<lparr>in_ready = [], in_promise = (if ok then Pending else Broken NoClient), in_timer = True, in_subscribed = ok\<rparr>;
          (net2, err) = send_sessions enc sha now p 0 (pl_stages p) net1
      in (net2, s, err))"

definition install_done :: "installing \<Rightarrow> pipeline \<Rightarrow> pipeline" where
  "install_done s p = (if in_promise s = Kept then p\<lparr>pl_installed := True\<rparr> else p)"

section \<open>Running a request\<close>

record request_run =
  rr_text :: string
  rr_tokenCount :: nat
  rr_promptTokens :: nat
  rr_finishReason :: "string option"
  rr_firstTokenMs :: "int option"
  rr_stages :: "nat table"
  rr_observations :: "string list"
  rr_onToken :: "string list"
  rr_promise :: promise
  rr_timer :: bool
  rr_stopTimers :: nat
  rr_abortable :: bool
  rr_subscribed :: bool
  rr_awaited :: bool
  rr_unhandled :: bool

text \<open>
  \<open>rr_awaited\<close>: the caller has reached \<^verbatim>\<open>await finished\<close>, so a rejection reaches it. A rejection of a promise
  that nothing awaits is an unhandled rejection, which ends the process, as does an exception in a timer
  (\<open>rr_unhandled\<close>). Where a connection is missing, the handlers attached before it was found missing are not
  followed further; the timer is, and calls a constant that was never initialised.
\<close>

definition reject_run :: "pl_error \<Rightarrow> request_run \<Rightarrow> request_run" where
  "reject_run e r =
     (if rr_promise r = Pending
      then r\<lparr>rr_promise := Broken e, rr_unhandled := (rr_unhandled r \<or> \<not> rr_awaited r)\<rparr> else r)"

definition finish_run :: "pl_error option \<Rightarrow> request_run \<Rightarrow> request_run" where
  "finish_run err r =
     (let r1 = r\<lparr>rr_timer := False, rr_subscribed := False, rr_abortable := False\<rparr>
      in case err of
           Some e \<Rightarrow> reject_run e r1
         | None \<Rightarrow> if rr_promise r1 = Pending then r1\<lparr>rr_promise := Kept\<rparr> else r1)"

definition on_output :: "string option \<Rightarrow> string option \<Rightarrow> int \<Rightarrow> request_run \<Rightarrow> request_run" where
  "on_output text stop elapsed r =
     (let r1 = (if rr_firstTokenMs r = None then r\<lparr>rr_firstTokenMs := Some elapsed\<rparr> else r);
          r2 = (case text of
                  Some t \<Rightarrow> if t \<noteq> '''' then r1\<lparr>rr_text := rr_text r1 @ t, rr_tokenCount := rr_tokenCount r1 + 1,
                                               rr_onToken := rr_onToken r1 @ [t]\<rparr> else r1
                | None \<Rightarrow> r1)
      in case stop of
           Some why \<Rightarrow> r2\<lparr>rr_finishReason := Some why, rr_stopTimers := rr_stopTimers r2 + 1\<rparr>
         | None \<Rightarrow> r2)"

definition prefill_rows :: "string \<Rightarrow> (string \<times> nat) list list \<Rightarrow> nat" where
  "prefill_rows i batches = sum_list (map snd (filter (\<lambda>(k, _). k = i) (concat batches)))"

definition on_observation :: "string \<Rightarrow> string option \<Rightarrow> (string \<times> nat) list list \<Rightarrow> request_run \<Rightarrow> request_run" where
  "on_observation i oid batches r =
     (case oid of
        Some k \<Rightarrow>
          if k \<in> set (rr_observations r) then r
          else r\<lparr>rr_observations := rr_observations r @ [k], rr_promptTokens := rr_promptTokens r + prefill_rows i batches\<rparr>
      | None \<Rightarrow> r\<lparr>rr_promptTokens := rr_promptTokens r + prefill_rows i batches\<rparr>)"

definition on_span :: "string \<Rightarrow> nat \<Rightarrow> request_run \<Rightarrow> request_run" where
  "on_span node rows r =
     r\<lparr>rr_stages := put node ((case get (rr_stages r) node of None \<Rightarrow> 0 | Some n \<Rightarrow> n) + rows) (rr_stages r)\<rparr>"

text \<open>The handler; the flag tells that it threw, which the client that called it turns into a failure.\<close>

definition on_request_event ::
  "p4_reader \<Rightarrow> string \<Rightarrow> int \<Rightarrow> client_error + event \<Rightarrow> request_run \<Rightarrow> request_run \<times> bool" where
  "on_request_event rd i elapsed ev r =
     (if \<not> rr_subscribed r then (r, False)
      else case ev of
             Inl e \<Rightarrow> (finish_run (Some (Lost e)) r, False)
           | Inr (m, payload) \<Rightarrow>
               if contentType m = OUTPUT_V5 \<or> contentType m = OUTPUT_V4 then
                 (case read_output rd payload of
                    None \<Rightarrow> (r, True) | Some (text, stop) \<Rightarrow> (on_output text stop elapsed r, False))
               else if contentType m = BATCH_OBSERVATION then
                 (case read_observation rd payload of
                    None \<Rightarrow> (r, True) | Some (oid, batches) \<Rightarrow> (on_observation i oid batches r, False))
               else if contentType m = STAGE_SPAN then
                 (case read_span rd payload of
                    None \<Rightarrow> (r, True)
                  | Some rows \<Rightarrow> (on_span (case source_node m of Some n \<Rightarrow> n | None \<Rightarrow> ''unknown'') rows r, False))
               else if contentType m = RELEASE_RECEIPT then (finish_run None r, False)
               else if contentType m = ERROR_V2 then (finish_run (Some RunRefused) r, False)
               else (r, False))"

definition run_timeout :: "request_run \<Rightarrow> request_run" where
  "run_timeout r =
     (if \<not> rr_timer r then r
      else if rr_promise r = Broken NoClient then r\<lparr>rr_timer := False, rr_unhandled := True\<rparr>
      else reject_run RunTimeout (r\<lparr>rr_timer := False, rr_subscribed := False\<rparr>))"

definition stop_elapsed :: "request_run \<Rightarrow> request_run" where
  "stop_elapsed r = (if 0 < rr_stopTimers r then finish_run None (r\<lparr>rr_stopTimers := rr_stopTimers r - 1\<rparr>) else r)"

definition run_abort :: "request_run \<Rightarrow> request_run" where
  "run_abort r = (if rr_abortable r then finish_run (Some ClientAborted) r else r)"

definition new_run :: "bool \<Rightarrow> bool \<Rightarrow> request_run" where
  "new_run ok abortable =
     \<lparr>rr_text = '''', rr_tokenCount = 0, rr_promptTokens = 0, rr_finishReason = None, rr_firstTokenMs = None,
      rr_stages = [], rr_observations = [], rr_onToken = [],
      rr_promise = (if ok then Pending else Broken NoClient), rr_timer = True, rr_stopTimers = 0,
      rr_abortable = (ok \<and> abortable), rr_subscribed = ok, rr_awaited = False, rr_unhandled = False\<rparr>"

record prefill =
  pf_prompt :: string
  pf_tokens :: "nat list option"
  pf_maxTokens :: nat
  pf_options :: string
  pf_sessionKey :: "string option"
  pf_timeoutMs :: nat
  pf_abort :: bool

definition prefill_message :: "pipeline \<Rightarrow> string \<Rightarrow> prefill \<Rightarrow> p4_message" where
  "prefill_message p i q =
     PrefillMsg (pl_loadGeneration p) (pl_sessionId p) i (case pf_tokens q of None \<Rightarrow> [] | Some ts \<Rightarrow> ts)
       (case pf_tokens q of None \<Rightarrow> Some (pf_prompt q) | Some _ \<Rightarrow> None) (pf_options q) (pf_sessionKey q) (pf_maxTokens q)"

text \<open>\<open>generate\<close> from its promise to its \<^verbatim>\<open>await\<close>: subscribe, submit to the head stage, wait.\<close>

definition generate_start ::
  "(p4_message \<Rightarrow> buffer) \<Rightarrow> (buffer \<Rightarrow> buffer) \<Rightarrow> nat \<Rightarrow> pipeline \<Rightarrow> string \<Rightarrow> prefill \<Rightarrow> net
   \<Rightarrow> net \<times> request_run \<times> pl_error option" where
  "generate_start enc sha now p i q net =
     (let (net1, ok) = subscribeAll i (pl_clients p) net; r = new_run ok (pf_abort q); head = hd (pl_stages p)
      in case get net1 (st_agent head) of
           None \<Rightarrow> (net1, r\<lparr>rr_unhandled := \<not> ok\<rparr>, Some NoClient)
         | Some c \<Rightarrow>
             (case client_send sha now (nodeEndpoint (st_agent head) (st_node head) (st_generation head)) PREFILL
                     (enc (prefill_message p i q))
                     \<lparr>o_adapterKind = Some ADAPTER, o_eventClass = ''data'', o_deadlineMs = pf_timeoutMs q, o_correlationId = Some i\<rparr> c of
                (c', Inl e) \<Rightarrow> (put (st_agent head) c' net1, r\<lparr>rr_unhandled := \<not> ok\<rparr>, Some (SendFailed e))
              | (c', Inr _) \<Rightarrow> (put (st_agent head) c' net1, r\<lparr>rr_awaited := True\<rparr>, None)))"

record generated =
  gn_text :: string
  gn_finishReason :: string
  gn_completionTokens :: nat
  gn_promptTokens :: "nat option"
  gn_stageRows :: "nat table"

definition generate_result :: "request_run \<Rightarrow> generated" where
  "generate_result r =
     \<lparr>gn_text = rr_text r, gn_finishReason = (case rr_finishReason r of None \<Rightarrow> ''stop'' | Some why \<Rightarrow> why),
      gn_completionTokens = rr_tokenCount r,
      gn_promptTokens = (if rr_promptTokens r = 0 then None else Some (rr_promptTokens r)),
      gn_stageRows = rr_stages r\<rparr>"

section \<open>Usage\<close>

text \<open>What a list of events says about a request, read off the list.\<close>

definition texts_of :: "p4_reader \<Rightarrow> event list \<Rightarrow> string list" where
  "texts_of rd es =
     concat (map (\<lambda>(m, b). if contentType m = OUTPUT_V5 \<or> contentType m = OUTPUT_V4
       then (case read_output rd b of Some (Some t, _) \<Rightarrow> if t = '''' then [] else [t] | _ \<Rightarrow> []) else []) es)"

definition observed :: "p4_reader \<Rightarrow> event list \<Rightarrow> (string option \<times> (string \<times> nat) list list) list" where
  "observed rd es =
     concat (map (\<lambda>(m, b). if contentType m = BATCH_OBSERVATION
       then (case read_observation rd b of Some ob \<Rightarrow> [ob] | None \<Rightarrow> []) else []) es)"

text \<open>The observations that count: the first with each id, and every one without.\<close>

fun first_seen :: "string set \<Rightarrow> (string option \<times> 'b) list \<Rightarrow> 'b list" where
  "first_seen seen [] = []"
| "first_seen seen ((None, b) # obs) = b # first_seen seen obs"
| "first_seen seen ((Some k, b) # obs) = (if k \<in> seen then first_seen seen obs else b # first_seen (insert k seen) obs)"

definition rows_at :: "p4_reader \<Rightarrow> string \<Rightarrow> event list \<Rightarrow> nat" where
  "rows_at rd n es =
     sum_list (map (\<lambda>(m, b). if contentType m = STAGE_SPAN \<and> (case source_node m of Some k \<Rightarrow> k | None \<Rightarrow> ''unknown'') = n
       then (case read_span rd b of Some rows \<Rightarrow> rows | None \<Rightarrow> 0) else 0) es)"

definition going_on :: "event \<Rightarrow> bool" where
  "going_on ev \<longleftrightarrow> contentType (fst ev) \<noteq> RELEASE_RECEIPT \<and> contentType (fst ev) \<noteq> ERROR_V2"

definition feed :: "p4_reader \<Rightarrow> string \<Rightarrow> (int \<times> event) list \<Rightarrow> request_run \<Rightarrow> request_run" where
  "feed rd i es r = foldl (\<lambda>r (t, ev). fst (on_request_event rd i t (Inr ev) r)) r es"

lemma feed_Nil [simp]: "feed rd i [] r = r"
  by (simp add: feed_def)

lemma feed_Cons [simp]: "feed rd i ((t, ev) # es) r = feed rd i es (fst (on_request_event rd i t (Inr ev) r))"
  by (simp add: feed_def)

definition stage_rows :: "request_run \<Rightarrow> string \<Rightarrow> nat" where
  "stage_rows r n = (case get (rr_stages r) n of None \<Rightarrow> 0 | Some k \<Rightarrow> k)"

lemma on_output_keeps [simp]:
  "rr_subscribed (on_output text stop t r) = rr_subscribed r" "rr_promise (on_output text stop t r) = rr_promise r"
  "rr_promptTokens (on_output text stop t r) = rr_promptTokens r" "rr_observations (on_output text stop t r) = rr_observations r"
  "rr_stages (on_output text stop t r) = rr_stages r" "rr_timer (on_output text stop t r) = rr_timer r"
  "rr_awaited (on_output text stop t r) = rr_awaited r" "rr_unhandled (on_output text stop t r) = rr_unhandled r"
  by (auto simp: on_output_def Let_def split: option.split)

lemma on_output_text:
  "rr_text (on_output text stop t r) = rr_text r @ (case text of Some x \<Rightarrow> x | None \<Rightarrow> '''')"
  "rr_onToken (on_output text stop t r) = rr_onToken r @ (case text of Some x \<Rightarrow> if x = '''' then [] else [x] | None \<Rightarrow> [])"
  "rr_tokenCount (on_output text stop t r) = rr_tokenCount r + (case text of Some x \<Rightarrow> if x = '''' then 0 else 1 | None \<Rightarrow> 0)"
  by (auto simp: on_output_def Let_def split: option.split)

lemma on_observation_keeps [simp]:
  "rr_subscribed (on_observation i oid bs r) = rr_subscribed r" "rr_promise (on_observation i oid bs r) = rr_promise r"
  "rr_text (on_observation i oid bs r) = rr_text r" "rr_onToken (on_observation i oid bs r) = rr_onToken r"
  "rr_tokenCount (on_observation i oid bs r) = rr_tokenCount r" "rr_stages (on_observation i oid bs r) = rr_stages r"
  "rr_timer (on_observation i oid bs r) = rr_timer r" "rr_awaited (on_observation i oid bs r) = rr_awaited r"
  "rr_unhandled (on_observation i oid bs r) = rr_unhandled r"
  by (auto simp: on_observation_def split: option.split)

lemma on_span_keeps [simp]:
  "rr_subscribed (on_span n k r) = rr_subscribed r" "rr_promise (on_span n k r) = rr_promise r"
  "rr_text (on_span n k r) = rr_text r" "rr_onToken (on_span n k r) = rr_onToken r"
  "rr_tokenCount (on_span n k r) = rr_tokenCount r" "rr_promptTokens (on_span n k r) = rr_promptTokens r"
  "rr_observations (on_span n k r) = rr_observations r" "rr_timer (on_span n k r) = rr_timer r"
  "rr_awaited (on_span n k r) = rr_awaited r" "rr_unhandled (on_span n k r) = rr_unhandled r"
  by (auto simp: on_span_def)

lemma on_span_rows: "stage_rows (on_span n k r) j = stage_rows r j + (if j = n then k else 0)"
  by (cases "j = n") (auto simp: stage_rows_def on_span_def table_simps)

lemma stage_rows_keep [simp]:
  "stage_rows (on_output text stop t r) n = stage_rows r n" "stage_rows (on_observation i oid bs r) n = stage_rows r n"
  by (simp_all add: stage_rows_def)

text \<open>The handler on a request that goes on, one content type at a time.\<close>

lemma ct_distinct [simp]:
  "OUTPUT_V5 \<noteq> BATCH_OBSERVATION" "OUTPUT_V4 \<noteq> BATCH_OBSERVATION" "OUTPUT_V5 \<noteq> STAGE_SPAN" "OUTPUT_V4 \<noteq> STAGE_SPAN"
  "BATCH_OBSERVATION \<noteq> STAGE_SPAN" "BATCH_OBSERVATION \<noteq> OUTPUT_V5" "BATCH_OBSERVATION \<noteq> OUTPUT_V4"
  "STAGE_SPAN \<noteq> OUTPUT_V5" "STAGE_SPAN \<noteq> OUTPUT_V4" "STAGE_SPAN \<noteq> BATCH_OBSERVATION"
  by (simp_all add: content_types)

lemma on_request_event_cases:
  assumes "rr_subscribed r" and "going_on (m, b)"
  shows "fst (on_request_event rd i t (Inr (m, b)) r) =
    (if contentType m = OUTPUT_V5 \<or> contentType m = OUTPUT_V4
     then (case read_output rd b of None \<Rightarrow> r | Some (x, s) \<Rightarrow> on_output x s t r)
     else if contentType m = BATCH_OBSERVATION
     then (case read_observation rd b of None \<Rightarrow> r | Some (oid, bs) \<Rightarrow> on_observation i oid bs r)
     else if contentType m = STAGE_SPAN
     then (case read_span rd b of None \<Rightarrow> r
           | Some k \<Rightarrow> on_span (case source_node m of Some n \<Rightarrow> n | None \<Rightarrow> ''unknown'') k r)
     else r)"
  using assms by (auto simp: on_request_event_def going_on_def split: option.split prod.split)

lemma feed_live:
  "rr_subscribed r \<Longrightarrow> \<forall>(t, ev) \<in> set es. going_on ev \<Longrightarrow>
   rr_subscribed (feed rd i es r) \<and> rr_promise (feed rd i es r) = rr_promise r"
proof (induction es arbitrary: r)
  case (Cons e es)
  obtain t m b where e: "e = (t, m, b)" by (cases e)
  have "going_on (m, b)" using Cons.prems(2) e by simp
  note step = on_request_event_cases [OF Cons.prems(1) this, of rd i t]
  have "rr_subscribed (fst (on_request_event rd i t (Inr (m, b)) r)) \<and>
      rr_promise (fst (on_request_event rd i t (Inr (m, b)) r)) = rr_promise r"
    using Cons.prems(1) unfolding step by (auto split: option.split prod.split)
  then show ?case using Cons.IH [of "fst (on_request_event rd i t (Inr (m, b)) r)"] Cons.prems(2) by (simp add: e)
qed simp

text \<open>One event of a request that goes on, and what it adds.\<close>

lemma event_observed:
  assumes r: "rr_subscribed r" and g: "going_on (m, b)" and r': "r' = fst (on_request_event rd i t (Inr (m, b)) r)"
  shows "rr_promptTokens r' = rr_promptTokens r +
      sum_list (map (prefill_rows i) (first_seen (set (rr_observations r)) (observed rd [(m, b)]))) \<and>
    set (rr_observations r') = set (rr_observations r) \<union> {k. Some k \<in> fst ` set (observed rd [(m, b)])}"
proof (cases "contentType m = BATCH_OBSERVATION")
  case False
  then have "observed rd [(m, b)] = []" by (simp add: observed_def)
  moreover have "rr_promptTokens r' = rr_promptTokens r" "rr_observations r' = rr_observations r"
    unfolding r' on_request_event_cases [OF r g] using False by (simp_all split: option.split prod.split)
  ultimately show ?thesis by simp
next
  case True
  show ?thesis
  proof (cases "read_observation rd b")
    case None
    then show ?thesis using True unfolding r' on_request_event_cases [OF r g] by (simp add: observed_def)
  next
    case (Some ob)
    obtain oid bs where ob: "ob = (oid, bs)" by (cases ob)
    have o: "observed rd [(m, b)] = [(oid, bs)]" "r' = on_observation i oid bs r"
      unfolding r' on_request_event_cases [OF r g] using True Some ob by (simp_all add: observed_def)
    show ?thesis unfolding o by (cases oid) (auto simp: on_observation_def)
  qed
qed

lemma event_adds:
  assumes r: "rr_subscribed r" and g: "going_on (m, b)" and r': "r' = fst (on_request_event rd i t (Inr (m, b)) r)"
  shows "rr_onToken r' = rr_onToken r @ texts_of rd [(m, b)]"
    and "rr_text r' = rr_text r @ concat (texts_of rd [(m, b)])"
    and "rr_tokenCount r' = rr_tokenCount r + length (texts_of rd [(m, b)])"
    and "stage_rows r' n = stage_rows r n + rows_at rd n [(m, b)]"
  unfolding r' on_request_event_cases [OF r g]
  by (auto simp: texts_of_def rows_at_def on_output_text on_span_rows split: option.split prod.split)

lemma first_seen_append:
  "first_seen seen (xs @ ys) = first_seen seen xs @ first_seen (seen \<union> {k. Some k \<in> fst ` set xs}) ys"
proof (induction seen xs rule: first_seen.induct)
  case (3 seen k b obs)
  have "insert k seen \<union> {j. Some j \<in> fst ` set obs} = seen \<union> {j. Some j \<in> fst ` set ((Some k, b) # obs)}" by auto
  moreover have "seen \<union> {j. Some j \<in> fst ` set obs} = seen \<union> {j. Some j \<in> fst ` set ((Some k, b) # obs)}" if "k \<in> seen"
    using that by auto
  ultimately show ?case using 3 by auto
qed auto

lemma reads_Cons:
  "texts_of rd (e # es) = texts_of rd [e] @ texts_of rd es"
  "observed rd (e # es) = observed rd [e] @ observed rd es"
  "rows_at rd n (e # es) = rows_at rd n [e] + rows_at rd n es"
  by (simp_all add: texts_of_def observed_def rows_at_def)

lemma feed_adds:
  assumes "rr_subscribed r" and "\<forall>(t, ev) \<in> set es. going_on ev"
  shows "rr_onToken (feed rd i es r) = rr_onToken r @ texts_of rd (map snd es) \<and>
    rr_text (feed rd i es r) = rr_text r @ concat (texts_of rd (map snd es)) \<and>
    rr_tokenCount (feed rd i es r) = rr_tokenCount r + length (texts_of rd (map snd es)) \<and>
    rr_promptTokens (feed rd i es r) = rr_promptTokens r +
      sum_list (map (prefill_rows i) (first_seen (set (rr_observations r)) (observed rd (map snd es)))) \<and>
    stage_rows (feed rd i es r) n = stage_rows r n + rows_at rd n (map snd es)"
  using assms
proof (induction es arbitrary: r)
  case Nil
  then show ?case by (simp add: texts_of_def observed_def rows_at_def)
next
  case (Cons e es)
  obtain t m b where e: "e = (t, m, b)" by (cases e)
  have g: "going_on (m, b)" using Cons.prems(2) e by simp
  let ?r = "fst (on_request_event rd i t (Inr (m, b)) r)"
  have s: "rr_subscribed ?r" using feed_live [of r "[e]" rd i] Cons.prems e by simp
  note add = event_adds [OF Cons.prems(1) g refl, of rd i t] event_observed [OF Cons.prems(1) g refl, of rd i t]
  have IH: "\<forall>(t, ev) \<in> set es. going_on ev" using Cons.prems(2) by simp
  show ?case
    unfolding e feed_Cons
    using Cons.IH [OF s IH] add reads_Cons [where rd = rd and e = "(m, b)" and es = "map snd es"]
    by (simp add: first_seen_append)
qed

text \<open>
  C16: The usage a biller reads is what the stages reported, whatever order and duplication the ring adds: the
  text and the completion tokens are exactly the output fragments in order of arrival, each also handed to the
  caller; the prompt tokens are the prefill rows of this request summed over the observations, one with an id
  that was already seen counting once; the rows of a stage are the sum of its spans.
\<close>
theorem usage_exact:
  assumes "\<forall>(t, ev) \<in> set es. going_on ev"
  shows "let r = feed rd i es (new_run True ab); xs = texts_of rd (map snd es) in
    rr_promise r = Pending \<and> rr_onToken r = xs \<and> gn_text (generate_result r) = concat xs \<and>
    gn_completionTokens (generate_result r) = length xs \<and>
    rr_promptTokens r = sum_list (map (prefill_rows i) (first_seen {} (observed rd (map snd es)))) \<and>
    (\<forall>n. (case get (gn_stageRows (generate_result r)) n of None \<Rightarrow> 0 | Some k \<Rightarrow> k) = rows_at rd n (map snd es))"
proof -
  have s: "rr_subscribed (new_run True ab)" by (simp add: new_run_def)
  show ?thesis
    using feed_adds [OF s assms] feed_live [OF s assms] by (simp add: Let_def generate_result_def new_run_def stage_rows_def)
qed

theorem usage_exact_witness:
  "rr_promptTokens (feed \<lparr>read_output = (\<lambda>_. None), read_observation = (\<lambda>_. Some (Some ''o1'', [[(''q'', 5)]])), read_span = (\<lambda>_. None)\<rparr>
      ''q'' [(0, ping_meta\<lparr>contentType := BATCH_OBSERVATION\<rparr>, []), (1, ping_meta\<lparr>contentType := BATCH_OBSERVATION\<rparr>, [])] (new_run True True)) = 5"
proof -
  let ?rd = "\<lparr>read_output = (\<lambda>_. None), read_observation = (\<lambda>_. Some (Some ''o1'', [[(''q'', 5)]])), read_span = (\<lambda>_. None)\<rparr>"
  let ?es = "[(0 :: int, ping_meta\<lparr>contentType := BATCH_OBSERVATION\<rparr>, [] :: buffer), (1, ping_meta\<lparr>contentType := BATCH_OBSERVATION\<rparr>, [])]"
  have "\<forall>(t, ev) \<in> set ?es. going_on ev" by (simp add: going_on_def content_types)
  from usage_exact [OF this, of ?rd "''q''" True] show ?thesis
    by (simp add: Let_def observed_def prefill_rows_def)
qed

section \<open>Who is told\<close>

text \<open>The events a client has handed to the subscription of a request.\<close>

definition handed :: "string \<Rightarrow> client_out list \<Rightarrow> event list" where
  "handed i os = concat (map (\<lambda>out. case out of ToSubscription k ev \<Rightarrow> if k = i then [ev] else [] | _ \<Rightarrow> []) os)"

lemma handed_append [simp]: "handed i (xs @ ys) = handed i xs @ handed i ys"
  by (simp add: handed_def)

lemma handed_rejects [simp]: "handed i (map (\<lambda>(k, w). Rejected w e) ws) = []"
  by (induction ws) (auto simp: handed_def)

lemma handed_fail [simp]: "handed i (cl_log (client_fail e c)) = handed i (cl_log c)"
  by (simp add: client_fail_def) (simp add: handed_def)

lemma handed_refusal [simp]: "st \<noteq> 1 \<Longrightarrow> handed i (cl_log (fst (on_receipt att d st det c))) = handed i (cl_log c)"
  by (simp add: on_receipt_def settle_def Let_def split: option.split prod.split) (simp add: handed_def)

text \<open>
  A running request is not told that its connection was lost, nor that the agent refused it at the hop:
  neither reaches the subscription, so a request that was waiting is still waiting, and only its own timer,
  minutes later, ends it.
\<close>
theorem lost_connection_unnoticed:
  assumes "rr_promise (feed rd i (map (Pair t) (handed i (cl_log c))) (new_run True ab)) = Pending" and "st \<noteq> 1"
    and "c' = client_fail e c \<or> c' = fst (on_receipt att d st det c)"
  shows "rr_promise (feed rd i (map (Pair t) (handed i (cl_log c'))) (new_run True ab)) = Pending"
  using assms by auto

theorem lost_connection_unnoticed_witness:
  "rr_promise (feed \<lparr>read_output = (\<lambda>_. None), read_observation = (\<lambda>_. None), read_span = (\<lambda>_. None)\<rparr> ''q''
     (map (Pair 0) (handed ''q'' (cl_log (client_fail Closed (new_client ''a'' ''b'' 1 256 1000 False))))) (new_run True True)) = Pending"
  by (rule lost_connection_unnoticed [where st = 2 and c = "new_client ''a'' ''b'' 1 256 1000 False" and e = Closed])
    (simp_all add: handed_def new_client_def new_run_def)

inductive run_step :: "p4_reader \<Rightarrow> string \<Rightarrow> request_run \<Rightarrow> request_run \<Rightarrow> bool" for rd i where
  event: "run_step rd i r (fst (on_request_event rd i t ev r))"
| timeout: "run_step rd i r (run_timeout r)"
| stopped: "run_step rd i r (stop_elapsed r)"
| aborted: "run_step rd i r (run_abort r)"

definition safe_run :: "request_run \<Rightarrow> bool" where
  "safe_run r \<longleftrightarrow> rr_awaited r \<and> \<not> rr_unhandled r \<and> rr_promise r \<noteq> Broken NoClient"

lemma safe_settle:
  "safe_run r \<Longrightarrow> e \<noteq> NoClient \<Longrightarrow> safe_run (reject_run e r)"
  "safe_run r \<Longrightarrow> err \<noteq> Some NoClient \<Longrightarrow> safe_run (finish_run err r)"
  by (auto simp: safe_run_def reject_run_def finish_run_def Let_def split: option.split)

lemma safe_event: "safe_run r \<Longrightarrow> safe_run (fst (on_request_event rd i t ev r))"
  by (cases ev) (auto simp: on_request_event_def safe_settle split: option.split prod.split, auto simp: safe_run_def)

lemma run_step_safe: "run_step rd i r r' \<Longrightarrow> safe_run r \<Longrightarrow> safe_run r'"
proof (induction rule: run_step.induct)
  case (event r t ev)
  then show ?case by (rule safe_event)
next
  case (timeout r)
  then have "safe_run (r\<lparr>rr_timer := False, rr_subscribed := False\<rparr>)" by (simp add: safe_run_def)
  then show ?case using timeout by (simp add: run_timeout_def safe_settle) (simp add: safe_run_def)
next
  case (stopped r)
  then have "safe_run (r\<lparr>rr_stopTimers := rr_stopTimers r - 1\<rparr>)" by (simp add: safe_run_def)
  then show ?case using stopped by (simp add: stop_elapsed_def safe_settle)
next
  case (aborted r)
  then show ?case by (simp add: run_abort_def safe_settle)
qed

lemma start_parts:
  assumes "generate_start enc sha now p i q net = (net', r, err)" and "snd (subscribeAll i (pl_clients p) net)"
  shows "r = (new_run True (pf_abort q))\<lparr>rr_awaited := (err = None)\<rparr>"
  using assms by (auto simp: generate_start_def Let_def new_run_def split: prod.splits option.splits sum.splits)

text \<open>
  A request whose submission went out reports every failure to its caller: no timeout, abort, refusal or
  error, in any order, becomes an unhandled rejection. A request whose submission throws (the head's connection
  is closed, say) is answered with that error but leaves its promise behind, and the first timeout, or an abort
  by the client, rejects it with nobody to handle it.
\<close>
theorem failed_send_unhandled:
  assumes "generate_start enc sha now p i q net = (net', r, err)" and "snd (subscribeAll i (pl_clients p) net)"
  shows "if err = None then (run_step rd i)\<^sup>*\<^sup>* r r' \<longrightarrow> \<not> rr_unhandled r'
         else rr_unhandled (run_timeout r) \<and> rr_unhandled (run_abort r) = pf_abort q"
proof -
  note r = start_parts [OF assms]
  have "safe_run r'" if "(run_step rd i)\<^sup>*\<^sup>* r r'" "err = None"
    using that(1)
  proof (induction rule: rtranclp_induct)
    case base
    then show ?case using that(2) by (simp add: r safe_run_def new_run_def)
  next
    case (step a b)
    then show ?case using run_step_safe by blast
  qed
  then show ?thesis
    by (auto simp: safe_run_def r run_timeout_def run_abort_def finish_run_def reject_run_def new_run_def Let_def)
qed

theorem failed_send_unhandled_witness:
  "\<exists>net' r. generate_start (\<lambda>_. []) id 0 \<lparr>pl_stages = [demo_stage], pl_loadGeneration = 7, pl_sessionId = ''s'', pl_installed = True\<rparr> ''q''
      \<lparr>pf_prompt = ''hi'', pf_tokens = None, pf_maxTokens = 8, pf_options = '''', pf_sessionKey = None, pf_timeoutMs = 1000, pf_abort = True\<rparr>
      [(''tcp://a'', (new_client ''a'' ''b'' 1 256 1000 False)\<lparr>cl_closed := True\<rparr>)] = (net', r, Some (SendFailed Closed)) \<and>
    rr_unhandled (run_timeout r)"
proof -
  let ?p = "\<lparr>pl_stages = [demo_stage], pl_loadGeneration = 7, pl_sessionId = ''s'', pl_installed = True\<rparr>"
  let ?q = "\<lparr>pf_prompt = ''hi'', pf_tokens = None, pf_maxTokens = 8, pf_options = '''', pf_sessionKey = None, pf_timeoutMs = 1000, pf_abort = True\<rparr>"
  let ?net = "[(''tcp://a'', (new_client ''a'' ''b'' 1 256 1000 False)\<lparr>cl_closed := True\<rparr>)]"
  have ok: "snd (subscribeAll ''q'' (pl_clients ?p) ?net)" by (simp add: pl_clients_def demo_stage_def)
  have "\<exists>net' r. generate_start (\<lambda>_. []) id 0 ?p ''q'' ?q ?net = (net', r, Some (SendFailed Closed))"
    by (simp add: generate_start_def Let_def pl_clients_def demo_stage_def client_send_def subscribe_def new_client_def)
  then obtain net' r where g: "generate_start (\<lambda>_. []) id 0 ?p ''q'' ?q ?net = (net', r, Some (SendFailed Closed))" by blast
  from failed_send_unhandled [OF g ok] g show ?thesis by auto
qed

section \<open>Installing\<close>

lemma install_settled: "\<not> in_subscribed s \<Longrightarrow> foldl (\<lambda>s ev. on_install_event n (Inr ev) s) s es = s"
  by (induction es) (auto simp: on_install_event_def)

lemma ready_step:
  assumes "in_subscribed s" and "contentType m = SESSION_READY" and "source_node m = Some k"
  shows "on_install_event n (Inr (m, b)) s =
    (let s1 = s\<lparr>in_ready := List.insert (Inl k) (in_ready s)\<rparr>
     in if n \<le> length (in_ready s1) then settle_install Kept s1 else s1)"
  using assms by (simp add: on_install_event_def content_types Let_def)

lemma install_fold:
  assumes "\<forall>ev \<in> set es. contentType (fst ev) = SESSION_READY \<and> source_node (fst ev) \<noteq> None"
    and "in_subscribed s" "in_promise s = Pending" "in_ready s = map Inl ns" "distinct ns" "length ns < n"
  shows "in_promise (foldl (\<lambda>s ev. on_install_event n (Inr ev) s) s es) =
    (if n \<le> card (set ns \<union> (the \<circ> source_node \<circ> fst) ` set es) then Kept else Pending)"
  using assms
proof (induction es arbitrary: s ns)
  case Nil
  then show ?case by (simp add: distinct_card)
next
  case (Cons ev es)
  obtain m b where ev: "ev = (m, b)" by (cases ev)
  obtain k where k: "source_node m = Some k" "contentType m = SESSION_READY" using Cons.prems(1) ev by auto
  let ?ns = "if k \<in> set ns then ns else k # ns"
  let ?s1 = "s\<lparr>in_ready := List.insert (Inl k) (in_ready s)\<rparr>"
  have ready: "in_ready ?s1 = map Inl ?ns" using Cons.prems(4) by (auto simp: List.insert_def)
  have ns: "distinct ?ns" "set ?ns = insert k (set ns)" "length ?ns = card (insert k (set ns))"
    using Cons.prems(5) by (auto simp: distinct_card card_insert_if insert_absorb)
  show ?case
  proof (cases "n \<le> length ?ns")
    case True
    have "card (insert k (set ns)) \<le> card (set ns \<union> (the \<circ> source_node \<circ> fst) ` set (ev # es))"
      using k ev by (intro card_mono) auto
    then show ?thesis
      using True Cons.prems(2,3) ns ready ready_step [OF Cons.prems(2) k(2,1), of n b]
      by (simp add: ev install_settled settle_install_def Let_def)
  next
    case False
    have "on_install_event n (Inr (m, b)) s = ?s1"
      using False ready_step [OF Cons.prems(2) k(2,1), of n b] arg_cong [OF ready, of length] by (simp add: Let_def)
    moreover have "in_promise (foldl (\<lambda>s ev. on_install_event n (Inr ev) s) ?s1 es) =
        (if n \<le> card (set ?ns \<union> (the \<circ> source_node \<circ> fst) ` set es) then Kept else Pending)"
      by (rule Cons.IH) (use Cons.prems False ns ready in simp_all)
    moreover have "set ?ns \<union> (the \<circ> source_node \<circ> fst) ` set es = set ns \<union> (the \<circ> source_node \<circ> fst) ` set (ev # es)"
      using k ev ns(2) by auto
    ultimately show ?thesis by (simp add: ev)
  qed
qed

text \<open>
  The session is installed when, and only when, as many different node names as there are stages have
  reported ready, however often each repeats itself. So a pipeline with two stages of the same name, on
  different agents, is never installed, though every stage reports ready.
\<close>
theorem install_counts_nodes:
  assumes "install_start enc sha now p net = (net', s, None)" and "in_subscribed s" and "pl_stages p \<noteq> []"
    and "\<forall>ev \<in> set es. contentType (fst ev) = SESSION_READY \<and> source_node (fst ev) \<in> Some ` st_node ` set (pl_stages p)"
  shows "in_promise (foldl (\<lambda>s ev. on_install_event (length (pl_stages p)) (Inr ev) s) s es) =
      (if length (pl_stages p) \<le> card ((the \<circ> source_node \<circ> fst) ` set es) then Kept else Pending) \<and>
    (\<not> distinct (map st_node (pl_stages p)) \<longrightarrow>
      in_promise (foldl (\<lambda>s ev. on_install_event (length (pl_stages p)) (Inr ev) s) s es) = Pending)"
proof -
  have s: "in_promise s = Pending" "in_ready s = map Inl []"
    using assms(1,2) by (auto simp: install_start_def Let_def split: prod.splits)
  have evs: "\<forall>ev \<in> set es. contentType (fst ev) = SESSION_READY \<and> source_node (fst ev) \<noteq> None" using assms(4) by auto
  have eq: "in_promise (foldl (\<lambda>s ev. on_install_event (length (pl_stages p)) (Inr ev) s) s es) =
      (if length (pl_stages p) \<le> card ((the \<circ> source_node \<circ> fst) ` set es) then Kept else Pending)"
    using install_fold [OF evs assms(2) s, of "length (pl_stages p)"] assms(3) by simp
  have "card ((the \<circ> source_node \<circ> fst) ` set es) \<le> card (set (map st_node (pl_stages p)))"
    using assms(4) by (intro card_mono) force+
  moreover have "card (set (map st_node (pl_stages p))) < length (pl_stages p)" if "\<not> distinct (map st_node (pl_stages p))"
    using that card_length [of "map st_node (pl_stages p)"] card_distinct [of "map st_node (pl_stages p)"] by fastforce
  ultimately have "\<not> length (pl_stages p) \<le> card ((the \<circ> source_node \<circ> fst) ` set es)" if "\<not> distinct (map st_node (pl_stages p))"
    using that by linarith
  then show ?thesis unfolding eq by (simp split: if_split)
qed

definition demo_pipeline :: pipeline where
  "demo_pipeline = \<lparr>pl_stages = [demo_stage], pl_loadGeneration = 7, pl_sessionId = ''s'', pl_installed = False\<rparr>"

definition demo_net :: net where
  "demo_net = [(''tcp://a'', (new_client ''a'' ''b'' 1 256 1000 False)\<lparr>cl_socket := True\<rparr>)]"

theorem install_counts_nodes_witness:
  "\<exists>net' s. install_start (\<lambda>_. []) id 0 demo_pipeline demo_net = (net', s, None) \<and>
     in_promise (on_install_event 1 (Inr (ping_meta\<lparr>contentType := SESSION_READY, source := nodeEndpoint ''tcp://a'' ''s0'' 1\<rparr>, [])) s) = Kept"
proof -
  have "\<exists>net' s. install_start (\<lambda>_. []) id 0 demo_pipeline demo_net = (net', s, None) \<and> in_subscribed s"
  proof -
    have one: "length (show_nat (Suc 0)) = 1" by (subst show_nat.simps) simp
    show ?thesis
      by (simp add: install_start_def demo_pipeline_def demo_net_def demo_stage_def pl_clients_def subscribe_def new_client_def
          client_send_def event_id_def outer_def session_options_def encoder_defs wire_defs sendFrame_def SESSION_def ADAPTER_def
          one split: option.split)
  qed
  then obtain net' s where g: "install_start (\<lambda>_. []) id 0 demo_pipeline demo_net = (net', s, None)" "in_subscribed s" by blast
  from install_counts_nodes [OF g, of "[(ping_meta\<lparr>contentType := SESSION_READY, source := nodeEndpoint ''tcp://a'' ''s0'' 1\<rparr>, [])]"] g
  show ?thesis by (simp add: demo_pipeline_def demo_stage_def source_node_def)
qed

end
