(* ===== verification/Bridge_Dial.thy ===== *)
theory Bridge_Dial
  imports Bridge_Pipeline
begin

text \<open>
  The bridge's connections to the agents of the ring (class \<^verbatim>\<open>Bridge\<close> of \<^verbatim>\<open>p4bridge/server.js\<close>): the guard that
  rations an agent's connection slots, the one connection per agent, the refresh that probes every agent and
  decides what is served, the pipelines, and the orderly release.

  Refreshes overlap, because the timer does not wait for the last one, and requests dial too. Each is a task
  that runs from one \<^verbatim>\<open>await\<close> to the next; a step runs one task, settles one dial or INSPECT, or closes a
  connection, so every interleaving of those is a run. Clients, dials and tasks are named by numbers. The
  clock is in milliseconds and does not go back. \<open>br_dials\<close> and \<open>br_flights\<close> record the dials made and those
  under way, for the statements about them.
\<close>

section \<open>Guards\<close>

definition HOUR_MS :: int where "HOUR_MS = 3600000"
definition DIAL_BACKOFF_MS :: "int list" where "DIAL_BACKOFF_MS = [60000, 120000, 240000, 480000, 900000, 1800000]"
definition DIAL_STEADY_MS :: int where "DIAL_STEADY_MS = 300000"
definition INSPECT_BACKOFF_MS :: "int list" where "INSPECT_BACKOFF_MS = [30000, 60000]"

record dial_config =
  DIAL_HOURLY_CAP :: nat
  DIAL_LIFETIME_CAP :: nat

record guard =
  gd_spent :: nat
  gd_unproductive :: nat
  gd_recent :: "int list"
  gd_nextDialAt :: int
  gd_healthySince :: int
  gd_stopped :: bool

record probe =
  pb_failures :: nat
  pb_nextAt :: int

datatype bridge_error = ShuttingDown | LifetimeSpent | HourlyCapped nat | BackingOff nat | DialFailed dial_error | InspectFailed client_error
  | InstallFailed pl_error

datatype task =
    Visit "string list" "(string \<times> bridge_error) list"
  | Dialling string "string list" "(string \<times> bridge_error) list" nat
  | Got string "string list" "(string \<times> bridge_error) list" "bridge_error + nat"
  | Probing string "string list" "(string \<times> bridge_error) list" nat
  | Verifying "catalog_model list" "(string \<times> bridge_error) list"
  | Connecting catalog_model "string list"
  | Awaiting catalog_model "string list" nat
  | Installing catalog_model
  | Answered "bridge_error + string"

record bridge_state =
  br_catalog :: catalog
  br_snapshots :: "snapshot table"
  br_serving :: "serving_state table"
  br_pipelines :: "pipeline table"
  br_clients :: "nat table"
  br_closed :: "nat list"
  br_connecting :: "nat table"
  br_inspecting :: "nat table"
  br_probe :: "probe table"
  br_guards :: "guard table"
  br_lastInspectError :: "(string \<times> bridge_error) list"
  br_stopping :: bool
  br_tasks :: "(nat \<times> task) list"
  br_results :: "(nat \<times> (bridge_error + nat)) list"
  br_next :: nat
  br_clock :: int
  br_dials :: "(string \<times> int) list"
  br_flights :: "(nat \<times> string) list"

definition new_bridge :: "catalog \<Rightarrow> bridge_state" where
  "new_bridge cat =
     \<lparr>br_catalog = cat, br_snapshots = [], br_serving = [], br_pipelines = [], br_clients = [], br_closed = [],
      br_connecting = [], br_inspecting = [], br_probe = [], br_guards = [], br_lastInspectError = [], br_stopping = False,
      br_tasks = [], br_results = [], br_next = 0, br_clock = 0, br_dials = [], br_flights = []\<rparr>"

definition new_guard :: guard where
  "new_guard = \<lparr>gd_spent = 0, gd_unproductive = 0, gd_recent = [], gd_nextDialAt = 0, gd_healthySince = 0, gd_stopped = False\<rparr>"

definition guardFor :: "string \<Rightarrow> bridge_state \<Rightarrow> guard" where
  "guardFor a b = (case get (br_guards b) a of None \<Rightarrow> new_guard | Some g \<Rightarrow> g)"

abbreviation set_guard :: "string \<Rightarrow> guard \<Rightarrow> bridge_state \<Rightarrow> bridge_state" where
  "set_guard a g b \<equiv> b\<lparr>br_guards := put a g (br_guards b)\<rparr>"

definition admitDial :: "dial_config \<Rightarrow> string \<Rightarrow> int \<Rightarrow> bridge_state \<Rightarrow> bridge_state \<times> bridge_error option" where
  "admitDial cfg a now b =
     (if br_stopping b then (b, Some ShuttingDown)
      else let g0 = guardFor a b; g = g0\<lparr>gd_recent := filter (\<lambda>t. now - t < HOUR_MS) (gd_recent g0)\<rparr>
           in if DIAL_LIFETIME_CAP cfg \<le> gd_spent g then (set_guard a (g\<lparr>gd_stopped := True\<rparr>) b, Some LifetimeSpent)
              else if DIAL_HOURLY_CAP cfg \<le> length (gd_recent g)
              then (set_guard a g b, Some (HourlyCapped (length (gd_recent g))))
              else if now < gd_nextDialAt g then (set_guard a g b, Some (BackingOff (gd_unproductive g)))
              else (set_guard a (g\<lparr>gd_spent := gd_spent g + 1, gd_recent := gd_recent g @ [now], gd_stopped := False\<rparr>) b, None))"

definition noteUnproductive :: "string \<Rightarrow> int \<Rightarrow> bridge_state \<Rightarrow> bridge_state" where
  "noteUnproductive a now b =
     (let g = guardFor a b; n = gd_unproductive g + 1
      in set_guard a (g\<lparr>gd_unproductive := n, gd_healthySince := 0,
           gd_nextDialAt := now + DIAL_BACKOFF_MS ! min (n - 1) (length DIAL_BACKOFF_MS - 1)\<rparr>) b)"

definition noteSteady :: "string \<Rightarrow> int \<Rightarrow> bridge_state \<Rightarrow> bridge_state" where
  "noteSteady a now b =
     (let g = guardFor a b
      in if gd_healthySince g = 0 then set_guard a (g\<lparr>gd_healthySince := now\<rparr>) b
         else if gd_unproductive g \<noteq> 0 \<and> DIAL_STEADY_MS \<le> now - gd_healthySince g
         then set_guard a (g\<lparr>gd_unproductive := 0, gd_nextDialAt := 0\<rparr>) b
         else set_guard a g b)"

section \<open>Connections\<close>

definition spans :: "string \<Rightarrow> catalog_model \<Rightarrow> bool" where
  "spans a m \<longleftrightarrow> list_ex (\<lambda>s. st_agent s = a) (cm_stages m)"

definition drop_pipelines :: "string \<Rightarrow> bridge_state \<Rightarrow> bridge_state" where
  "drop_pipelines a b =
     b\<lparr>br_pipelines := foldl (\<lambda>ps m. if spans a m then del (cm_id m) ps else ps) (br_pipelines b) (ct_models (br_catalog b))\<rparr>"

definition is_open :: "nat \<Rightarrow> bridge_state \<Rightarrow> bool" where
  "is_open c b \<longleftrightarrow> c \<notin> set (br_closed b)"

datatype ensured = Ready nat | Wait nat | Denied bridge_error

definition start_dial :: "string \<Rightarrow> int \<Rightarrow> bridge_state \<Rightarrow> bridge_state" where
  "start_dial a now b =
     b\<lparr>br_connecting := put a (br_next b) (br_connecting b), br_next := Suc (br_next b),
       br_dials := br_dials b @ [(a, now)], br_flights := br_flights b @ [(br_next b, a)]\<rparr>"

definition existing :: "string \<Rightarrow> bridge_state \<Rightarrow> nat option" where
  "existing a b = (case get (br_clients b) a of Some c \<Rightarrow> if is_open c b then Some c else None | None \<Rightarrow> None)"

definition ensureClient :: "dial_config \<Rightarrow> string \<Rightarrow> int \<Rightarrow> bridge_state \<Rightarrow> bridge_state \<times> ensured" where
  "ensureClient cfg a now b =
     (case existing a b of
        Some c \<Rightarrow> (b, Ready c)
      | None \<Rightarrow>
          (case get (br_connecting b) a of
             Some d \<Rightarrow> (b, Wait d)
           | None \<Rightarrow>
               (case admitDial cfg a now b of
                  (b1, Some e) \<Rightarrow> (b1, Denied e)
                | (b1, None) \<Rightarrow> (start_dial a now b1, Wait (br_next b1)))))"

text \<open>A dial settles: the three reactions chained on its promise.\<close>

definition dial_settled :: "nat \<Rightarrow> string \<Rightarrow> dial_error option \<Rightarrow> int \<Rightarrow> bridge_state \<Rightarrow> bridge_state" where
  "dial_settled d a err now b =
     (let b0 = b\<lparr>br_flights := filter (\<lambda>(k, _). k \<noteq> d) (br_flights b)\<rparr>;
          b1 = (case err of
                  Some e \<Rightarrow> (noteUnproductive a now b0)\<lparr>br_results := put d (Inl (DialFailed e)) (br_results b0)\<rparr>
                | None \<Rightarrow>
                    let c = br_next b0; b2 = drop_pipelines a (b0\<lparr>br_clients := put a c (br_clients b0), br_next := Suc c\<rparr>)
                    in (set_guard a ((guardFor a b2)\<lparr>gd_healthySince := 0\<rparr>) b2)\<lparr>br_results := put d (Inr c) (br_results b0)\<rparr>)
      in b1\<lparr>br_connecting := del a (br_connecting b1)\<rparr>)"

definition close_client :: "nat \<Rightarrow> bridge_state \<Rightarrow> bridge_state" where
  "close_client c b = b\<lparr>br_closed := List.insert c (br_closed b)\<rparr>"

definition dropClient :: "string \<Rightarrow> bridge_state \<Rightarrow> bridge_state" where
  "dropClient a b =
     (let b1 = (case get (br_clients b) a of Some c \<Rightarrow> close_client c b | None \<Rightarrow> b)
      in drop_pipelines a (b1\<lparr>br_clients := del a (br_clients b1), br_snapshots := del a (br_snapshots b1)\<rparr>))"

section \<open>Refresh\<close>

abbreviation set_task :: "nat \<Rightarrow> task \<Rightarrow> bridge_state \<Rightarrow> bridge_state" where
  "set_task i t b \<equiv> b\<lparr>br_tasks := put i t (br_tasks b)\<rparr>"

definition refresh_start :: "bridge_state \<Rightarrow> bridge_state" where
  "refresh_start b = (set_task (br_next b) (Visit (agents (br_catalog b)) []) b)\<lparr>br_next := Suc (br_next b)\<rparr>"

definition refresh_visit :: "dial_config \<Rightarrow> nat \<Rightarrow> string \<Rightarrow> string list \<Rightarrow> (string \<times> bridge_error) list \<Rightarrow> int \<Rightarrow> bridge_state \<Rightarrow> bridge_state" where
  "refresh_visit cfg i a as fs now b =
     (if get (br_inspecting b) a \<noteq> None then set_task i (Visit as fs) b
      else if (case get (br_probe b) a of Some p \<Rightarrow> now < pb_nextAt p | None \<Rightarrow> False) then set_task i (Visit as fs) b
      else case ensureClient cfg a now b of
             (b1, Ready c) \<Rightarrow> set_task i (Got a as fs (Inr c)) b1
           | (b1, Wait d) \<Rightarrow> set_task i (Dialling a as fs d) b1
           | (b1, Denied e) \<Rightarrow> set_task i (Got a as fs (Inl e)) b1)"

definition probe_failed :: "nat \<Rightarrow> string \<Rightarrow> string list \<Rightarrow> (string \<times> bridge_error) list \<Rightarrow> bridge_error \<Rightarrow> int \<Rightarrow> bridge_state \<Rightarrow> bridge_state" where
  "probe_failed i a as fs e now b =
     (let n = (case get (br_probe b) a of None \<Rightarrow> 0 | Some p \<Rightarrow> pb_failures p) + 1;
          p = \<lparr>pb_failures = n, pb_nextAt = now + INSPECT_BACKOFF_MS ! min (n - 1) (length INSPECT_BACKOFF_MS - 1)\<rparr>;
          b1 = b\<lparr>br_probe := put a p (br_probe b)\<rparr>;
          b2 = set_guard a ((guardFor a b1)\<lparr>gd_healthySince := 0\<rparr>) b1;
          b3 = drop_pipelines a (b2\<lparr>br_snapshots := del a (br_snapshots b2)\<rparr>);
          b4 = (case get (br_clients b3) a of
                  Some c \<Rightarrow> if is_open c b3 then b3 else dropClient a b3
                | None \<Rightarrow> dropClient a b3)
      in set_task i (Visit as (fs @ [(a, e)])) b4)"

definition refresh_resume :: "nat \<Rightarrow> string \<Rightarrow> string list \<Rightarrow> (string \<times> bridge_error) list \<Rightarrow> bridge_error + nat \<Rightarrow> int \<Rightarrow> bridge_state \<Rightarrow> bridge_state" where
  "refresh_resume i a as fs res now b =
     (case res of
        Inl e \<Rightarrow> probe_failed i a as fs e now b
      | Inr c \<Rightarrow>
          if get (br_inspecting b) a \<noteq> None then set_task i (Visit as fs) b
          else set_task i (Probing a as fs c) (b\<lparr>br_inspecting := put a i (br_inspecting b)\<rparr>))"

definition refresh_inspected ::
  "nat \<Rightarrow> string \<Rightarrow> string list \<Rightarrow> (string \<times> bridge_error) list \<Rightarrow> client_error + snapshot \<Rightarrow> int \<Rightarrow> bridge_state \<Rightarrow> bridge_state" where
  "refresh_inspected i a as fs res now b =
     (let b1 = b\<lparr>br_inspecting := del a (br_inspecting b)\<rparr>
      in case res of
           Inl e \<Rightarrow> probe_failed i a as fs (InspectFailed e) now b1
         | Inr sn \<Rightarrow>
             set_task i (Visit as fs)
               (noteSteady a now (b1\<lparr>br_snapshots := put a sn (br_snapshots b1), br_probe := del a (br_probe b1)\<rparr>)))"

definition refresh_verify :: "nat \<Rightarrow> catalog_model \<Rightarrow> catalog_model list \<Rightarrow> (string \<times> bridge_error) list \<Rightarrow> bridge_state \<Rightarrow> bridge_state" where
  "refresh_verify i m ms fs b =
     set_task i (Verifying ms fs) (b\<lparr>br_serving := put (cm_id m) (verify m (br_snapshots b)) (br_serving b)\<rparr>)"

definition refresh_end :: "nat \<Rightarrow> (string \<times> bridge_error) list \<Rightarrow> bridge_state \<Rightarrow> bridge_state" where
  "refresh_end i fs b = b\<lparr>br_lastInspectError := fs, br_tasks := del i (br_tasks b)\<rparr>"

section \<open>Pipelines and release\<close>

definition pipeline_start :: "catalog_model \<Rightarrow> bridge_state \<Rightarrow> bridge_state" where
  "pipeline_start m b =
     (set_task (br_next b)
        (case get (br_pipelines b) (cm_id m) of
           Some p \<Rightarrow> Answered (Inr (pl_sessionId p))
         | None \<Rightarrow> Connecting m (rev (remdups (rev (map st_agent (cm_stages m)))))) b)\<lparr>br_next := Suc (br_next b)\<rparr>"

definition pipeline_visit :: "dial_config \<Rightarrow> nat \<Rightarrow> catalog_model \<Rightarrow> string \<Rightarrow> string list \<Rightarrow> int \<Rightarrow> bridge_state \<Rightarrow> bridge_state" where
  "pipeline_visit cfg i m a as now b =
     (case ensureClient cfg a now b of
        (b1, Ready c) \<Rightarrow> set_task i (Connecting m as) b1
      | (b1, Wait d) \<Rightarrow> set_task i (Awaiting m as d) b1
      | (b1, Denied e) \<Rightarrow> set_task i (Answered (Inl e)) b1)"

definition pipeline_woken :: "nat \<Rightarrow> catalog_model \<Rightarrow> string list \<Rightarrow> bridge_error + nat \<Rightarrow> bridge_state \<Rightarrow> bridge_state" where
  "pipeline_woken i m as res b =
     set_task i (case res of Inl e \<Rightarrow> Answered (Inl e) | Inr c \<Rightarrow> Connecting m as) b"

text \<open>The session is installed, or refused, over the connections as \<open>Bridge_Pipeline\<close> has it.\<close>

definition pipeline_installed :: "nat \<Rightarrow> catalog_model \<Rightarrow> pl_error + pipeline \<Rightarrow> bridge_state \<Rightarrow> bridge_state" where
  "pipeline_installed i m res b =
     (case res of
        Inl e \<Rightarrow> set_task i (Answered (Inl (InstallFailed e))) b
      | Inr p \<Rightarrow> set_task i (Answered (Inr (pl_sessionId p))) (b\<lparr>br_pipelines := put (cm_id m) p (br_pipelines b)\<rparr>))"

text \<open>
  \<open>releaseClients\<close>: no dial is admitted from here on. Every connection is finished, or closed when the agent
  does not answer (\<open>answers\<close>), and forgotten.
\<close>

definition releaseClients :: "(string \<Rightarrow> bool) \<Rightarrow> bridge_state \<Rightarrow> bridge_state \<times> (string \<times> string) list" where
  "releaseClients answers b =
     (let outcome = map (\<lambda>(a, c). (a, if \<not> is_open c b then ''already gone'' else if answers a then ''finished'' else ''destroyed'')) (br_clients b);
          b1 = foldl (\<lambda>b (a, c). close_client c b) (b\<lparr>br_stopping := True\<rparr>) (br_clients b)
      in (b1\<lparr>br_clients := [], br_pipelines := []\<rparr>, outcome))"

text \<open>The guard state as an operator reads it; waits are in whole seconds, rounded up.\<close>

record ledger_row =
  lr_agent :: string
  lr_spent :: nat
  lr_unproductive :: nat
  lr_lastHour :: nat
  lr_nextDialIn :: int
  lr_failedProbes :: nat
  lr_nextProbeIn :: int
  lr_connected :: bool
  lr_stopped :: bool

definition seconds_until :: "int \<Rightarrow> int \<Rightarrow> int" where
  "seconds_until now t = (if now < t then (t - now + 999) div 1000 else 0)"

definition dialLedger :: "int \<Rightarrow> bridge_state \<Rightarrow> ledger_row list" where
  "dialLedger now b =
     map (\<lambda>(a, g). \<lparr>lr_agent = a, lr_spent = gd_spent g, lr_unproductive = gd_unproductive g,
            lr_lastHour = length (filter (\<lambda>t. now - t < HOUR_MS) (gd_recent g)),
            lr_nextDialIn = seconds_until now (gd_nextDialAt g),
            lr_failedProbes = (case get (br_probe b) a of None \<Rightarrow> 0 | Some p \<Rightarrow> pb_failures p),
            lr_nextProbeIn = (case get (br_probe b) a of None \<Rightarrow> 0 | Some p \<Rightarrow> seconds_until now (pb_nextAt p)),
            lr_connected = (existing a b \<noteq> None), lr_stopped = gd_stopped g\<rparr>) (br_guards b)"

section \<open>Runs of the bridge\<close>

inductive bridge_step :: "dial_config \<Rightarrow> bridge_state \<Rightarrow> bridge_state \<Rightarrow> bool" for cfg where
  timer: "bridge_step cfg b (refresh_start b)"
| visit: "get (br_tasks b) i = Some (Visit (a # as) fs) \<Longrightarrow> br_clock b \<le> now \<Longrightarrow>
    bridge_step cfg b (refresh_visit cfg i a as fs now (b\<lparr>br_clock := now\<rparr>))"
| probed_all: "get (br_tasks b) i = Some (Visit [] fs) \<Longrightarrow>
    bridge_step cfg b (set_task i (Verifying (ct_models (br_catalog b)) fs) b)"
| woken: "get (br_tasks b) i = Some (Dialling a as fs d) \<Longrightarrow> get (br_results b) d = Some res \<Longrightarrow>
    bridge_step cfg b (set_task i (Got a as fs res) b)"
| resumed: "get (br_tasks b) i = Some (Got a as fs res) \<Longrightarrow> br_clock b \<le> now \<Longrightarrow>
    bridge_step cfg b (refresh_resume i a as fs res now (b\<lparr>br_clock := now\<rparr>))"
| inspected: "get (br_tasks b) i = Some (Probing a as fs c) \<Longrightarrow> br_clock b \<le> now \<Longrightarrow>
    bridge_step cfg b (refresh_inspected i a as fs res now (b\<lparr>br_clock := now\<rparr>))"
| verified: "get (br_tasks b) i = Some (Verifying (m # ms) fs) \<Longrightarrow> bridge_step cfg b (refresh_verify i m ms fs b)"
| ended: "get (br_tasks b) i = Some (Verifying [] fs) \<Longrightarrow> bridge_step cfg b (refresh_end i fs b)"
| settled: "(d, a) \<in> set (br_flights b) \<Longrightarrow> br_clock b \<le> now \<Longrightarrow>
    bridge_step cfg b (dial_settled d a err now (b\<lparr>br_clock := now\<rparr>))"
| closed: "bridge_step cfg b (close_client c b)"
| asked: "m \<in> set (ct_models (br_catalog b)) \<Longrightarrow> bridge_step cfg b (pipeline_start m b)"
| connects: "get (br_tasks b) i = Some (Connecting m (a # as)) \<Longrightarrow> br_clock b \<le> now \<Longrightarrow>
    bridge_step cfg b (pipeline_visit cfg i m a as now (b\<lparr>br_clock := now\<rparr>))"
| connected: "get (br_tasks b) i = Some (Awaiting m as d) \<Longrightarrow> get (br_results b) d = Some res \<Longrightarrow>
    bridge_step cfg b (pipeline_woken i m as res b)"
| installs: "get (br_tasks b) i = Some (Connecting m []) \<Longrightarrow> bridge_step cfg b (set_task i (Installing m) b)"
| installed: "get (br_tasks b) i = Some (Installing m) \<Longrightarrow> bridge_step cfg b (pipeline_installed i m res b)"
| released: "bridge_step cfg b (fst (releaseClients answers b))"

section \<open>What the operations leave alone\<close>

lemma drop_pipelines_keeps [simp]:
  "br_snapshots (drop_pipelines a b) = br_snapshots b" "br_clients (drop_pipelines a b) = br_clients b"
  "br_connecting (drop_pipelines a b) = br_connecting b" "br_inspecting (drop_pipelines a b) = br_inspecting b"
  "br_probe (drop_pipelines a b) = br_probe b" "br_guards (drop_pipelines a b) = br_guards b"
  "br_tasks (drop_pipelines a b) = br_tasks b" "br_results (drop_pipelines a b) = br_results b"
  "br_next (drop_pipelines a b) = br_next b" "br_clock (drop_pipelines a b) = br_clock b"
  "br_dials (drop_pipelines a b) = br_dials b" "br_flights (drop_pipelines a b) = br_flights b"
  "br_closed (drop_pipelines a b) = br_closed b" "br_catalog (drop_pipelines a b) = br_catalog b"
  by (simp_all add: drop_pipelines_def)

lemma dropClient_keeps [simp]:
  "br_connecting (dropClient a b) = br_connecting b" "br_inspecting (dropClient a b) = br_inspecting b"
  "br_probe (dropClient a b) = br_probe b" "br_guards (dropClient a b) = br_guards b"
  "br_tasks (dropClient a b) = br_tasks b" "br_results (dropClient a b) = br_results b"
  "br_next (dropClient a b) = br_next b" "br_clock (dropClient a b) = br_clock b"
  "br_dials (dropClient a b) = br_dials b" "br_flights (dropClient a b) = br_flights b"
  "br_snapshots (dropClient a b) = del a (br_snapshots b)" "br_catalog (dropClient a b) = br_catalog b"
  by (simp_all add: dropClient_def Let_def close_client_def split: option.split)

lemma release_keeps [simp]:
  "br_connecting (fst (releaseClients f b)) = br_connecting b" "br_inspecting (fst (releaseClients f b)) = br_inspecting b"
  "br_probe (fst (releaseClients f b)) = br_probe b" "br_guards (fst (releaseClients f b)) = br_guards b"
  "br_tasks (fst (releaseClients f b)) = br_tasks b" "br_next (fst (releaseClients f b)) = br_next b"
  "br_clock (fst (releaseClients f b)) = br_clock b" "br_dials (fst (releaseClients f b)) = br_dials b"
  "br_flights (fst (releaseClients f b)) = br_flights b" "br_snapshots (fst (releaseClients f b)) = br_snapshots b"
proof -
  have "\<exists>xs. foldl (\<lambda>b (a, c). close_client c b) b cs = b\<lparr>br_closed := xs\<rparr>" for cs b
  proof (induction cs arbitrary: b)
    case Nil
    show ?case by (rule exI [of _ "br_closed b"]) simp
  next
    case (Cons x cs)
    obtain a c where x: "x = (a, c)" by (cases x)
    from Cons.IH [of "close_client c b"] show ?case by (auto simp: x close_client_def)
  qed
  then obtain xs where "foldl (\<lambda>b (a, c). close_client c b) (b\<lparr>br_stopping := True\<rparr>) (br_clients b) = b\<lparr>br_stopping := True, br_closed := xs\<rparr>"
    by blast
  then show "br_connecting (fst (releaseClients f b)) = br_connecting b" "br_inspecting (fst (releaseClients f b)) = br_inspecting b"
    "br_probe (fst (releaseClients f b)) = br_probe b" "br_guards (fst (releaseClients f b)) = br_guards b"
    "br_tasks (fst (releaseClients f b)) = br_tasks b" "br_next (fst (releaseClients f b)) = br_next b"
    "br_clock (fst (releaseClients f b)) = br_clock b" "br_dials (fst (releaseClients f b)) = br_dials b"
    "br_flights (fst (releaseClients f b)) = br_flights b" "br_snapshots (fst (releaseClients f b)) = br_snapshots b"
    by (simp_all add: releaseClients_def Let_def)
qed

lemma probe_failed_keeps [simp]:
  "br_connecting (probe_failed i a as fs e now b) = br_connecting b" "br_inspecting (probe_failed i a as fs e now b) = br_inspecting b"
  "br_results (probe_failed i a as fs e now b) = br_results b" "br_next (probe_failed i a as fs e now b) = br_next b"
  "br_clock (probe_failed i a as fs e now b) = br_clock b" "br_dials (probe_failed i a as fs e now b) = br_dials b"
  "br_flights (probe_failed i a as fs e now b) = br_flights b"
  "br_tasks (probe_failed i a as fs e now b) = put i (Visit as (fs @ [(a, e)])) (br_tasks b)"
  by (simp_all add: probe_failed_def Let_def split: option.split)

lemma note_keeps [simp]:
  "br_connecting (noteUnproductive a now b) = br_connecting b" "br_inspecting (noteUnproductive a now b) = br_inspecting b"
  "br_tasks (noteUnproductive a now b) = br_tasks b" "br_next (noteUnproductive a now b) = br_next b"
  "br_clock (noteUnproductive a now b) = br_clock b" "br_dials (noteUnproductive a now b) = br_dials b"
  "br_flights (noteUnproductive a now b) = br_flights b" "br_probe (noteUnproductive a now b) = br_probe b"
  "br_snapshots (noteUnproductive a now b) = br_snapshots b"
  "br_connecting (noteSteady a now b) = br_connecting b" "br_inspecting (noteSteady a now b) = br_inspecting b"
  "br_tasks (noteSteady a now b) = br_tasks b" "br_next (noteSteady a now b) = br_next b"
  "br_clock (noteSteady a now b) = br_clock b" "br_dials (noteSteady a now b) = br_dials b"
  "br_flights (noteSteady a now b) = br_flights b" "br_probe (noteSteady a now b) = br_probe b"
  "br_snapshots (noteSteady a now b) = br_snapshots b"
  by (simp_all add: noteUnproductive_def noteSteady_def Let_def)

lemma dial_settled_keeps [simp]:
  "br_inspecting (dial_settled d a err now b) = br_inspecting b" "br_tasks (dial_settled d a err now b) = br_tasks b"
  "br_clock (dial_settled d a err now b) = br_clock b" "br_dials (dial_settled d a err now b) = br_dials b"
  "br_probe (dial_settled d a err now b) = br_probe b" "br_snapshots (dial_settled d a err now b) = br_snapshots b"
  "br_connecting (dial_settled d a err now b) = del a (br_connecting b)"
  "br_flights (dial_settled d a err now b) = filter (\<lambda>(k, _). k \<noteq> d) (br_flights b)"
  "br_next b \<le> br_next (dial_settled d a err now b)"
  by (simp_all add: dial_settled_def Let_def split: option.split)

lemma admit_keeps:
  assumes "admitDial cfg a now b = (b', e)"
  shows "br_connecting b' = br_connecting b" "br_inspecting b' = br_inspecting b" "br_tasks b' = br_tasks b" "br_next b' = br_next b"
    "br_clock b' = br_clock b" "br_dials b' = br_dials b" "br_flights b' = br_flights b" "br_probe b' = br_probe b"
    "br_snapshots b' = br_snapshots b"
  using assms by (auto simp: admitDial_def Let_def split: if_splits)

lemma ensure_keeps:
  assumes "ensureClient cfg a now b = (b', e)"
  shows "br_inspecting b' = br_inspecting b" "br_tasks b' = br_tasks b" "br_next b \<le> br_next b'"
    "br_clock b' = br_clock b" "br_probe b' = br_probe b" "br_snapshots b' = br_snapshots b"
  using assms by (auto simp: ensureClient_def start_dial_def admit_keeps split: option.splits prod.splits)

section \<open>One probe and one dial per agent\<close>

fun probe_of :: "task \<Rightarrow> string option" where
  "probe_of (Probing a as fs c) = Some a"
| "probe_of _ = None"

definition probed :: "nat \<Rightarrow> bridge_state \<Rightarrow> string option" where
  "probed i b = Option.bind (get (br_tasks b) i) probe_of"

definition inspect_ok :: "bridge_state \<Rightarrow> bool" where
  "inspect_ok b \<longleftrightarrow> (\<forall>i a. get (br_inspecting b) a = Some i \<longleftrightarrow> probed i b = Some a) \<and> (\<forall>i. br_next b \<le> i \<longrightarrow> get (br_tasks b) i = None)"

lemma probed_put: "br_tasks b' = put i t (br_tasks b) \<Longrightarrow> probed j b' = (if j = i then probe_of t else probed j b)"
  by (simp add: probed_def update_conv')

lemma task_known: "inspect_ok b \<Longrightarrow> get (br_tasks b) i = Some t \<Longrightarrow> i < br_next b"
  by (metis inspect_ok_def linorder_not_less option.distinct(1))

text \<open>A task that neither was nor becomes a probe changes nothing here.\<close>

lemma inspect_same:
  assumes ok: "inspect_ok b" and b': "br_inspecting b' = br_inspecting b" "br_next b \<le> br_next b'" "br_tasks b' = put i t (br_tasks b)"
    and t: "probe_of t = None" "probed i b = None" "i < br_next b'"
  shows "inspect_ok b'"
proof -
  have "probed j b' = probed j b" for j using t by (simp add: probed_put [OF b'(3)])
  then show ?thesis using ok b' t(3) by (simp add: inspect_ok_def update_conv')
qed

lemma inspect_tasks:
  "inspect_ok b \<Longrightarrow> br_inspecting b' = br_inspecting b \<Longrightarrow> br_next b \<le> br_next b' \<Longrightarrow> br_tasks b' = br_tasks b \<Longrightarrow> inspect_ok b'"
  by (simp add: inspect_ok_def probed_def)

lemma inspect_probe:
  assumes ok: "inspect_ok b" and t: "get (br_tasks b) i = Some t" "probe_of t = None" and free: "get (br_inspecting b) a = None"
    and b': "br_inspecting b' = put a i (br_inspecting b)" "br_tasks b' = put i (Probing a as fs c) (br_tasks b)" "br_next b' = br_next b"
  shows "inspect_ok b'"
proof -
  have p: "probed j b' = (if j = i then Some a else probed j b)" for j using probed_put [OF b'(2)] by simp
  have i: "probed i b = None" using t by (simp add: probed_def)
  have no: "probed j b \<noteq> Some a" for j using ok free unfolding inspect_ok_def by (metis option.distinct(1))
  have "get (br_inspecting b') k = Some j \<longleftrightarrow> probed j b' = Some k" for j k
  proof (cases "k = a")
    case True
    then show ?thesis using no [of j] by (auto simp: p b'(1) update_conv')
  next
    case False
    then show ?thesis using ok i by (auto simp: p b'(1) update_conv' inspect_ok_def)
  qed
  then show ?thesis using ok b' task_known [OF ok t(1)] by (simp add: inspect_ok_def update_conv')
qed

lemma inspect_done:
  assumes ok: "inspect_ok b" and t: "get (br_tasks b) i = Some (Probing a as fs c)"
    and b': "br_inspecting b' = del a (br_inspecting b)" "br_tasks b' = put i (Visit as' fs') (br_tasks b)" "br_next b' = br_next b"
  shows "inspect_ok b'"
proof -
  have i: "probed i b = Some a" using t by (simp add: probed_def)
  have p: "probed j b' = (if j = i then None else probed j b)" for j using probed_put [OF b'(2)] by simp
  have "get (br_inspecting b') k = Some j \<longleftrightarrow> probed j b' = Some k" for j k
  proof (cases "k = a")
    case True
    have "probed j b = Some a \<Longrightarrow> j = i" using ok i unfolding inspect_ok_def by (metis option.inject)
    then show ?thesis using True by (auto simp: p b'(1) delete_conv')
  next
    case False
    then show ?thesis using ok i by (auto simp: p b'(1) delete_conv' inspect_ok_def)
  qed
  then show ?thesis using ok b' task_known [OF ok t] by (simp add: inspect_ok_def update_conv')
qed

lemma visit_task:
  "\<exists>t. br_tasks (refresh_visit cfg i a as fs now b) = put i t (br_tasks b) \<and> probe_of t = None"
  "br_inspecting (refresh_visit cfg i a as fs now b) = br_inspecting b" "br_next b \<le> br_next (refresh_visit cfg i a as fs now b)"
  by (auto simp: refresh_visit_def ensure_keeps split: prod.split ensured.split)

lemma pipeline_task:
  "\<exists>t. br_tasks (pipeline_visit cfg i m a as now b) = put i t (br_tasks b) \<and> probe_of t = None"
  "br_inspecting (pipeline_visit cfg i m a as now b) = br_inspecting b" "br_next b \<le> br_next (pipeline_visit cfg i m a as now b)"
  by (auto simp: pipeline_visit_def ensure_keeps split: prod.split ensured.split)

lemma inspect_move:
  assumes ok: "inspect_ok b" and t: "get (br_tasks b) i = Some s" "probe_of s = None"
    and b': "\<exists>t. br_tasks b' = put i t (br_tasks b) \<and> probe_of t = None" "br_inspecting b' = br_inspecting b" "br_next b \<le> br_next b'"
  shows "inspect_ok b'"
proof -
  from b'(1) obtain u where "br_tasks b' = put i u (br_tasks b)" "probe_of u = None" by blast
  moreover have "probed i b = None" "i < br_next b'" using t task_known [OF ok t(1)] b'(3) by (simp_all add: probed_def)
  ultimately show ?thesis using inspect_same [OF ok b'(2,3)] by blast
qed

lemma bridge_step_inspect: "bridge_step cfg b b' \<Longrightarrow> inspect_ok b \<Longrightarrow> inspect_ok b'"
proof (induction rule: bridge_step.induct)
  case (timer b)
  then have "probed (br_next b) b = None" by (simp add: inspect_ok_def probed_def)
  then show ?case by (intro inspect_same [OF timer, of _ "br_next b" "Visit (agents (br_catalog b)) []"]) (simp_all add: refresh_start_def)
next
  case (visit b i a as fs now)
  show ?case
    by (rule inspect_move [OF visit(3,1)]) (use visit_task [where cfg = cfg and i = i and a = a and as = as and fs = fs and now = now and b = "b\<lparr>br_clock := now\<rparr>"] in simp_all)
next
  case (probed_all b i fs)
  show ?case by (rule inspect_move [OF probed_all(2,1)]) auto
next
  case (woken b i a as fs d res)
  show ?case by (rule inspect_move [OF woken(3,1)]) auto
next
  case (resumed b i a as fs res now)
  have ok: "inspect_ok (b\<lparr>br_clock := now\<rparr>)" using resumed(3) by (rule inspect_tasks) simp_all
  have t: "get (br_tasks (b\<lparr>br_clock := now\<rparr>)) i = Some (Got a as fs res)" using resumed(1) by simp
  show ?case
  proof (cases "\<exists>c. res = Inr c \<and> get (br_inspecting b) a = None")
    case True
    then obtain c where "res = Inr c" "get (br_inspecting (b\<lparr>br_clock := now\<rparr>)) a = None" by auto
    then show ?thesis by (auto simp: refresh_resume_def intro!: inspect_probe [OF ok t])
  next
    case False
    then show ?thesis by (cases res) (auto simp: refresh_resume_def intro!: inspect_move [OF resumed(3,1)])
  qed
next
  case (inspected b i a as fs c now res)
  show ?case
    by (cases res) (auto simp: refresh_inspected_def Let_def intro!: inspect_done [OF inspected(3,1)])
next
  case (verified b i m ms fs)
  show ?case by (rule inspect_move [OF verified(2,1)]) (auto simp: refresh_verify_def)
next
  case (ended b i fs)
  then have "probed i b = None" by (simp add: probed_def)
  moreover have "probed j (refresh_end i fs b) = (if j = i then None else probed j b)" for j
    by (simp add: probed_def refresh_end_def delete_conv')
  ultimately have "probed j (refresh_end i fs b) = probed j b" for j by simp
  then show ?case using ended(2) by (simp add: inspect_ok_def) (simp add: refresh_end_def delete_conv')
next
  case (settled d a b now err)
  show ?case by (rule inspect_tasks [OF settled(3)]) (use dial_settled_keeps(9) [of "b\<lparr>br_clock := now\<rparr>" d a err now] in simp_all)
next
  case (closed b c)
  then show ?case by (rule inspect_tasks) (simp_all add: close_client_def)
next
  case (asked m b)
  then have "probed (br_next b) b = None" by (simp add: inspect_ok_def probed_def)
  then show ?case
    by (cases "get (br_pipelines b) (cm_id m)") (auto simp: pipeline_start_def intro!: inspect_same [OF asked(2)])
next
  case (connects b i m a as now)
  show ?case
    by (rule inspect_move [OF connects(3,1)]) (use pipeline_task [where cfg = cfg and i = i and m = m and a = a and as = as and now = now and b = "b\<lparr>br_clock := now\<rparr>"] in simp_all)
next
  case (connected b i m as d res)
  show ?case by (rule inspect_move [OF connected(3,1)]) (auto simp: pipeline_woken_def split: sum.split)
next
  case (installs b i m)
  show ?case by (rule inspect_move [OF installs(2,1)]) auto
next
  case (installed b i m res)
  show ?case by (rule inspect_move [OF installed(2,1)]) (auto simp: pipeline_installed_def split: sum.split)
next
  case (released b answers)
  then show ?case by (rule inspect_tasks) simp_all
qed

text \<open>The in-flight table is exactly the dials under way, so an agent has at most one.\<close>

definition flights_ok :: "bridge_state \<Rightarrow> bool" where
  "flights_ok b \<longleftrightarrow> br_connecting b = map (\<lambda>(d, a). (a, d)) (br_flights b) \<and> distinct (map fst (br_flights b)) \<and>
     distinct (map snd (br_flights b)) \<and> (\<forall>(d, a) \<in> set (br_flights b). d < br_next b)"

lemma flights_same:
  "flights_ok b \<Longrightarrow> br_connecting b' = br_connecting b \<Longrightarrow> br_flights b' = br_flights b \<Longrightarrow> br_next b \<le> br_next b' \<Longrightarrow> flights_ok b'"
  by (fastforce simp: flights_ok_def)

lemma flights_dial:
  assumes ok: "flights_ok b" and free: "get (br_connecting b) a = None"
  shows "flights_ok (start_dial a now b)"
proof -
  have "a \<notin> snd ` set (br_flights b)" using ok free by (force simp: flights_ok_def map_of_eq_None_iff)
  moreover have "br_next b \<notin> fst ` set (br_flights b)" using ok by (fastforce simp: flights_ok_def)
  ultimately show ?thesis using ok put_absent [OF free] by (fastforce simp: flights_ok_def start_dial_def)
qed

lemma flights_ensure: "flights_ok b \<Longrightarrow> flights_ok (fst (ensureClient cfg a now b))"
proof -
  assume ok: "flights_ok b"
  have "flights_ok b1 \<and> (get (br_connecting b) a = None \<longrightarrow> flights_ok (start_dial a now b1))"
    if "admitDial cfg a now b = (b1, e)" for b1 e
    using flights_same [OF ok, of b1] flights_dial [of b1 a now] admit_keeps [OF that] by simp
  then show ?thesis using ok by (auto simp: ensureClient_def split: option.split prod.split)
qed

lemma flights_settled:
  assumes ok: "flights_ok b" and d: "(d, a) \<in> set (br_flights b)"
  shows "flights_ok (dial_settled d a err now b)"
proof -
  have "k = d \<longleftrightarrow> c = a" if "(k, c) \<in> set (br_flights b)" for k c
    using ok d that unfolding flights_ok_def distinct_map by (metis fst_conv inj_onD snd_conv)
  then have "filter (\<lambda>(k, _). k \<noteq> d) (br_flights b) = filter (\<lambda>(_, c). c \<noteq> a) (br_flights b)" by (auto intro!: filter_cong)
  then have "del a (br_connecting b) = map (\<lambda>(d, a). (a, d)) (filter (\<lambda>(k, _). k \<noteq> d) (br_flights b))"
    using ok by (simp add: flights_ok_def AList.delete_eq filter_map comp_def case_prod_unfold eq_commute)
  moreover have "br_next b \<le> br_next (dial_settled d a err now b)" by simp
  ultimately show ?thesis using ok unfolding flights_ok_def
    by (auto simp: distinct_map inj_on_def intro: less_le_trans)
qed

lemma moves_flights:
  "flights_ok b \<Longrightarrow> flights_ok (refresh_visit cfg i a as fs now b)"
  "flights_ok b \<Longrightarrow> flights_ok (pipeline_visit cfg i m a as now b)"
proof -
  assume "flights_ok b"
  then have "flights_ok (fst (ensureClient cfg a now b))" by (rule flights_ensure)
  then have e: "flights_ok (set_task i t b1)" if "ensureClient cfg a now b = (b1, r)" for t b1 r using that by (simp add: flights_ok_def)
  show "flights_ok (refresh_visit cfg i a as fs now b)"
    using e \<open>flights_ok b\<close> by (auto simp: refresh_visit_def flights_same [OF \<open>flights_ok b\<close>] split: prod.split ensured.split)
  show "flights_ok (pipeline_visit cfg i m a as now b)"
    using e by (auto simp: pipeline_visit_def split: prod.split ensured.split)
qed

lemma bridge_step_flights: "bridge_step cfg b b' \<Longrightarrow> flights_ok b \<Longrightarrow> flights_ok b'"
proof (induction rule: bridge_step.induct)
  case (visit b i a as fs now)
  have "flights_ok (b\<lparr>br_clock := now\<rparr>)" using visit(3) by (rule flights_same) simp_all
  then show ?case by (rule moves_flights)
next
  case (connects b i m a as now)
  have "flights_ok (b\<lparr>br_clock := now\<rparr>)" using connects(3) by (rule flights_same) simp_all
  then show ?case by (rule moves_flights)
next
  case (settled d a b now err)
  have "flights_ok (b\<lparr>br_clock := now\<rparr>)" using settled(3) by (rule flights_same) simp_all
  then show ?case using settled(1) by (intro flights_settled) simp_all
qed (auto simp: refresh_resume_def refresh_inspected_def refresh_verify_def refresh_start_def refresh_end_def Let_def
    pipeline_start_def pipeline_woken_def pipeline_installed_def close_client_def elim!: flights_same split: sum.split)

section \<open>A failing agent is not served\<close>

definition snaps_ok :: "bridge_state \<Rightarrow> bool" where
  "snaps_ok b \<longleftrightarrow> (\<forall>a. get (br_probe b) a \<noteq> None \<longrightarrow> get (br_snapshots b) a = None)"

lemma snaps_same: "snaps_ok b \<Longrightarrow> br_probe b' = br_probe b \<Longrightarrow> br_snapshots b' = br_snapshots b \<Longrightarrow> snaps_ok b'"
  by (simp add: snaps_ok_def)

lemma snaps_failed: "snaps_ok b \<Longrightarrow> snaps_ok (probe_failed i a as fs e now b)"
  by (auto simp: snaps_ok_def probe_failed_def Let_def update_conv' delete_conv' split: option.split)

lemma snaps_steps [simp]:
  "br_probe (refresh_visit cfg i a as fs now b) = br_probe b" "br_snapshots (refresh_visit cfg i a as fs now b) = br_snapshots b"
  "br_probe (pipeline_visit cfg i m a as now b) = br_probe b" "br_snapshots (pipeline_visit cfg i m a as now b) = br_snapshots b"
  by (auto simp: refresh_visit_def pipeline_visit_def ensure_keeps split: prod.split ensured.split)

lemma bridge_step_snaps: "bridge_step cfg b b' \<Longrightarrow> snaps_ok b \<Longrightarrow> snaps_ok b'"
proof (induction rule: bridge_step.induct)
  case (resumed b i a as fs res now)
  have "snaps_ok (b\<lparr>br_clock := now\<rparr>)" using resumed(3) by (rule snaps_same) simp_all
  then show ?case by (cases res) (auto simp: refresh_resume_def snaps_failed elim: snaps_same)
next
  case (inspected b i a as fs c now res)
  have "snaps_ok (b\<lparr>br_clock := now, br_inspecting := del a (br_inspecting b)\<rparr>)" using inspected(3) by (rule snaps_same) simp_all
  then show ?case by (cases res) (auto simp: refresh_inspected_def Let_def snaps_failed, auto simp: snaps_ok_def update_conv' delete_conv')
qed (auto simp: refresh_verify_def refresh_start_def refresh_end_def pipeline_start_def pipeline_woken_def pipeline_installed_def
    close_client_def elim!: snaps_same split: sum.split)

section \<open>The dial budget\<close>

definition dial_times :: "string \<Rightarrow> bridge_state \<Rightarrow> int list" where
  "dial_times a b = map snd (filter (\<lambda>(k, _). k = a) (br_dials b))"

definition in_hour :: "int \<Rightarrow> int list \<Rightarrow> int list" where
  "in_hour now ts = filter (\<lambda>t. now - t < HOUR_MS) ts"

definition within_caps :: "dial_config \<Rightarrow> int list \<Rightarrow> bool" where
  "within_caps cfg ts \<longleftrightarrow> length ts \<le> DIAL_LIFETIME_CAP cfg \<and>
     (\<forall>t. length (filter (\<lambda>x. t \<le> x \<and> x < t + HOUR_MS) ts) \<le> DIAL_HOURLY_CAP cfg)"

definition guard_ok :: "dial_config \<Rightarrow> int \<Rightarrow> guard \<Rightarrow> int list \<Rightarrow> bool" where
  "guard_ok cfg clock g ts \<longleftrightarrow> gd_spent g = length ts \<and> (\<forall>t \<in> set ts. t \<le> clock) \<and>
     (\<forall>now. clock \<le> now \<longrightarrow> in_hour now (gd_recent g) = in_hour now ts) \<and> within_caps cfg ts"

definition budget_ok :: "dial_config \<Rightarrow> bridge_state \<Rightarrow> bool" where
  "budget_ok cfg b \<longleftrightarrow> (\<forall>a. guard_ok cfg (br_clock b) (guardFor a b) (dial_times a b))"

lemma guard_later: "guard_ok cfg clock g ts \<Longrightarrow> clock \<le> now \<Longrightarrow> guard_ok cfg now g ts"
  by (fastforce simp: guard_ok_def)

lemma guard_same:
  "guard_ok cfg clock g ts \<Longrightarrow> gd_spent g' = gd_spent g \<Longrightarrow> gd_recent g' = gd_recent g \<Longrightarrow> guard_ok cfg clock g' ts"
  by (simp add: guard_ok_def)

text \<open>The guard forgets only dials that are out of every later hour.\<close>

lemma guard_trim:
  "guard_ok cfg now g ts \<Longrightarrow> gd_spent g' = gd_spent g \<Longrightarrow> gd_recent g' = in_hour now (gd_recent g) \<Longrightarrow> guard_ok cfg now g' ts"
proof -
  assume g: "guard_ok cfg now g ts" "gd_spent g' = gd_spent g" "gd_recent g' = in_hour now (gd_recent g)"
  have "in_hour t (in_hour now xs) = in_hour t xs" if "now \<le> t" for t xs
    using that by (auto simp: in_hour_def intro!: filter_cong)
  then show ?thesis using g by (simp add: guard_ok_def)
qed

lemma guard_dial:
  assumes g: "guard_ok cfg now g ts" and free: "gd_spent g < DIAL_LIFETIME_CAP cfg" "length (in_hour now (gd_recent g)) < DIAL_HOURLY_CAP cfg"
    and g': "gd_spent g' = gd_spent g + 1" "gd_recent g' = in_hour now (gd_recent g) @ [now]"
  shows "guard_ok cfg now g' (ts @ [now])"
proof -
  have "in_hour t (in_hour now xs) = in_hour t xs" if "now \<le> t" for t xs
    using that by (auto simp: in_hour_def intro!: filter_cong)
  then have r: "in_hour t (gd_recent g') = in_hour t (ts @ [now])" if "now \<le> t" for t
    using that g g'(2) by (simp add: guard_ok_def) (simp add: in_hour_def)
  have "length (filter (\<lambda>x. t \<le> x \<and> x < t + HOUR_MS) (ts @ [now])) \<le> DIAL_HOURLY_CAP cfg" for t
  proof (cases "t \<le> now \<and> now < t + HOUR_MS")
    case True
    then have "filter (\<lambda>x. t \<le> x \<and> x < t + HOUR_MS) ts = filter (\<lambda>x. t \<le> x \<and> x < t + HOUR_MS) (in_hour now ts)"
      by (auto simp: in_hour_def intro!: filter_cong)
    then have "length (filter (\<lambda>x. t \<le> x \<and> x < t + HOUR_MS) ts) \<le> length (in_hour now ts)" by (simp add: length_filter_le)
    also have "\<dots> < DIAL_HOURLY_CAP cfg" using g free(2) by (simp add: guard_ok_def)
    finally show ?thesis using True by simp
  next
    case False
    then show ?thesis using g by (auto simp: guard_ok_def within_caps_def)
  qed
  then show ?thesis using g g'(1) free(1) r by (auto simp: guard_ok_def within_caps_def)
qed

lemma budget_same:
  assumes "budget_ok cfg b" and "br_dials b' = br_dials b" and "br_clock b \<le> br_clock b'"
    and "\<And>a. gd_spent (guardFor a b') = gd_spent (guardFor a b) \<and> gd_recent (guardFor a b') = gd_recent (guardFor a b)"
  shows "budget_ok cfg b'"
  using assms guard_later guard_same unfolding budget_ok_def dial_times_def by metis

lemma guardFor_put: "guardFor k (set_guard a g b) = (if k = a then g else guardFor k b)"
  by (simp add: guardFor_def update_conv')

lemma guardFor_upd [simp]:
  "guardFor k (b\<lparr>br_tasks := ts\<rparr>) = guardFor k b" "guardFor k (b\<lparr>br_clock := now\<rparr>) = guardFor k b"
  "guardFor k (b\<lparr>br_inspecting := is\<rparr>) = guardFor k b" "guardFor k (b\<lparr>br_snapshots := sn\<rparr>) = guardFor k b"
  "guardFor k (b\<lparr>br_probe := ps\<rparr>) = guardFor k b"
  by (simp_all add: guardFor_def)

lemma budget_admit:
  assumes ok: "budget_ok cfg b" and now: "br_clock b = now" and ad: "admitDial cfg a now b = (b1, e)"
  shows "if e = None then budget_ok cfg (start_dial a now b1) else budget_ok cfg b1"
proof -
  let ?g = "guardFor a b" and ?h = "\<lambda>a b. guard_ok cfg now (guardFor a b) (dial_times a b)"
  have g: "guard_ok cfg now (guardFor k b) (dial_times k b)" for k using ok now by (simp add: budget_ok_def)
  show ?thesis
  proof (cases "br_stopping b")
    case True
    then show ?thesis using ad ok by (auto simp: admitDial_def)
  next
    case False
    obtain g' where b1: "b1 = set_guard a g' b" and
      g': "if e = None then gd_spent ?g < DIAL_LIFETIME_CAP cfg \<and> length (in_hour now (gd_recent ?g)) < DIAL_HOURLY_CAP cfg \<and>
          gd_spent g' = gd_spent ?g + 1 \<and> gd_recent g' = in_hour now (gd_recent ?g) @ [now]
        else gd_spent g' = gd_spent ?g \<and> gd_recent g' = in_hour now (gd_recent ?g)"
      using ad False by (auto simp: admitDial_def Let_def in_hour_def split: if_splits)
    show ?thesis
    proof (cases "e = None")
      case True
      have "guard_ok cfg now g' (dial_times a b @ [now])" using guard_dial [OF g] g' True by simp
      then have "guard_ok cfg now (guardFor k (start_dial a now b1)) (dial_times k (start_dial a now b1))" for k
        using g [of k] by (cases "k = a") (simp_all add: b1 start_dial_def guardFor_def dial_times_def update_conv')
      then show ?thesis using True now by (simp add: budget_ok_def) (simp add: b1 start_dial_def)
    next
      case False
      then have "guard_ok cfg now g' (dial_times a b)" using guard_trim [OF g] g' by simp
      then have "guard_ok cfg now (guardFor k b1) (dial_times k b1)" for k
        using g [of k] by (cases "k = a") (simp_all add: b1 guardFor_put dial_times_def)
      then have "budget_ok cfg b1" using now by (simp add: budget_ok_def) (simp add: b1)
      then show ?thesis using False by auto
    qed
  qed
qed

lemma budget_ensure:
  "budget_ok cfg b \<Longrightarrow> br_clock b = now \<Longrightarrow> budget_ok cfg (fst (ensureClient cfg a now b))"
  using budget_admit [of cfg b now a]
  by (auto simp: ensureClient_def split: option.split prod.split)

lemma budget_tasks: "budget_ok cfg (b\<lparr>br_tasks := ts\<rparr>) = budget_ok cfg b"
  by (simp add: budget_ok_def guardFor_def dial_times_def)

lemma budget_moves:
  assumes "budget_ok cfg b" and "br_clock b = now"
  shows "budget_ok cfg (refresh_visit cfg i a as fs now b)" "budget_ok cfg (pipeline_visit cfg i m a as now b)"
  using assms budget_ensure [OF assms, of a]
  by (auto simp: refresh_visit_def pipeline_visit_def budget_tasks split: prod.split ensured.split)

lemma budget_notes:
  "gd_spent (guardFor k (noteUnproductive a now b)) = gd_spent (guardFor k b)" "gd_recent (guardFor k (noteUnproductive a now b)) = gd_recent (guardFor k b)"
  "gd_spent (guardFor k (noteSteady a now b)) = gd_spent (guardFor k b)" "gd_recent (guardFor k (noteSteady a now b)) = gd_recent (guardFor k b)"
  "gd_spent (guardFor k (probe_failed i a as fs e now b)) = gd_spent (guardFor k b)" "gd_recent (guardFor k (probe_failed i a as fs e now b)) = gd_recent (guardFor k b)"
  "gd_spent (guardFor k (dial_settled d a err now b)) = gd_spent (guardFor k b)" "gd_recent (guardFor k (dial_settled d a err now b)) = gd_recent (guardFor k b)"
  by (simp_all add: noteUnproductive_def noteSteady_def probe_failed_def dial_settled_def guardFor_def Let_def update_conv' split: option.split)

lemma bridge_step_budget: "bridge_step cfg b b' \<Longrightarrow> budget_ok cfg b \<Longrightarrow> budget_ok cfg b'"
proof (induction rule: bridge_step.induct)
  case (visit b i a as fs now)
  have "budget_ok cfg (b\<lparr>br_clock := now\<rparr>)"
    by (rule budget_same [OF visit(3)]) (use visit(2) in \<open>simp_all add: guardFor_def\<close>)
  then show ?case by (rule budget_moves) simp
next
  case (connects b i m a as now)
  have "budget_ok cfg (b\<lparr>br_clock := now\<rparr>)"
    by (rule budget_same [OF connects(3)]) (use connects(2) in \<open>simp_all add: guardFor_def\<close>)
  then show ?case by (rule budget_moves) simp
next
  case (settled d a b now err)
  show ?case by (rule budget_same [OF settled(3)]) (use settled(2) in \<open>simp_all add: budget_notes\<close>)
next
  case (resumed b i a as fs res now)
  show ?case
    by (rule budget_same [OF resumed(3)]) (use resumed(2) in \<open>simp_all add: refresh_resume_def budget_notes split: sum.split\<close>)
next
  case (inspected b i a as fs c now res)
  show ?case
    by (rule budget_same [OF inspected(3)])
      (use inspected(2) in \<open>simp_all add: refresh_inspected_def Let_def budget_notes split: sum.split\<close>)
qed (auto simp: refresh_verify_def refresh_start_def refresh_end_def pipeline_start_def pipeline_woken_def pipeline_installed_def
    close_client_def guardFor_def elim!: budget_same split: sum.split)

lemma bridge_reach:
  assumes "(bridge_step cfg)\<^sup>*\<^sup>* (new_bridge cat) b"
  shows "budget_ok cfg b \<and> flights_ok b \<and> inspect_ok b \<and> snaps_ok b"
  using assms
proof (induction rule: rtranclp_induct)
  case base
  then show ?case
    by (simp add: new_bridge_def budget_ok_def guard_ok_def guardFor_def new_guard_def dial_times_def in_hour_def within_caps_def
        flights_ok_def inspect_ok_def probed_def snaps_ok_def)
next
  case (step y z)
  then show ?case
    using bridge_step_budget bridge_step_flights bridge_step_inspect bridge_step_snaps by blast
qed

text \<open>
  C15: An agent's connection slots are rationed whatever the refreshes and requests do: over the life of the
  bridge it is dialled at most the lifetime cap, in no hour more than the hourly cap, never twice at the same
  time, and never probed by two INSPECTs at once.
\<close>
theorem dial_budget:
  assumes "(bridge_step cfg)\<^sup>*\<^sup>* (new_bridge cat) b"
  shows "length (dial_times a b) \<le> DIAL_LIFETIME_CAP cfg \<and>
    (\<forall>t. length (filter (\<lambda>x. t \<le> x \<and> x < t + 3600000) (dial_times a b)) \<le> DIAL_HOURLY_CAP cfg) \<and>
    length (filter (\<lambda>(d, k). k = a) (br_flights b)) \<le> 1 \<and>
    (\<forall>i j. probed i b = Some a \<and> probed j b = Some a \<longrightarrow> i = j)"
proof -
  note ok = bridge_reach [OF assms]
  have "within_caps cfg (dial_times a b)" using ok by (simp add: budget_ok_def guard_ok_def)
  moreover have "length (filter (\<lambda>(d, k). k = a) xs) \<le> 1" if "distinct (map snd xs)" for xs :: "(nat \<times> string) list"
    using that by (induction xs) (auto simp: filter_empty_conv, force)
  moreover have "i = j" if "probed i b = Some a" "probed j b = Some a" for i j
    using ok that unfolding inspect_ok_def by (metis option.inject)
  ultimately show ?thesis using ok by (auto simp: within_caps_def HOUR_MS_def flights_ok_def)
qed

theorem dial_budget_witness:
  "length (dial_times ''tcp://a'' (refresh_start (new_bridge \<lparr>ct_ingressAgent = ''tcp://a'', ct_models = [demo_model]\<rparr>))) \<le> 64"
proof -
  let ?cat = "\<lparr>ct_ingressAgent = ''tcp://a'', ct_models = [demo_model]\<rparr>"
  have "(bridge_step \<lparr>DIAL_HOURLY_CAP = 6, DIAL_LIFETIME_CAP = 64\<rparr>)\<^sup>*\<^sup>* (new_bridge ?cat) (refresh_start (new_bridge ?cat))"
    by (intro r_into_rtranclp timer)
  from dial_budget [OF this] show ?thesis by simp
qed

text \<open>
  An agent that failed its last probe has no snapshot left, so, until a probe of it succeeds, every model
  with a stage on it is verified as not serving, by whichever refresh gets there, while the other models are
  untouched by it.
\<close>
theorem failing_agent_not_served:
  assumes "(bridge_step cfg)\<^sup>*\<^sup>* (new_bridge cat) b" and "get (br_probe b) a \<noteq> None"
  shows "get (br_snapshots b) a = None \<and>
    (if spans a m then \<not> sv_serving (verify m (br_snapshots b))
     else verify m (br_snapshots (probe_failed i a as fs e now b)) = verify m (br_snapshots b))"
proof -
  have none: "get (br_snapshots b) a = None" using bridge_reach [OF assms(1)] assms(2) by (auto simp: snaps_ok_def)
  have "\<not> sv_serving (verify m (br_snapshots b))" if span: "spans a m"
  proof
    assume "sv_serving (verify m (br_snapshots b))"
    moreover obtain s where "s \<in> set (cm_stages m)" "st_agent s = a" using span by (auto simp: spans_def list_ex_iff)
    ultimately show False using none by (auto elim!: serving_stage simp: find_node_def)
  qed
  moreover have "verify m (br_snapshots (probe_failed i a as fs e now b)) = verify m (br_snapshots b)" if "\<not> spans a m"
  proof -
    have "get (br_snapshots (probe_failed i a as fs e now b)) k = get (br_snapshots b) k" if "k \<noteq> a" for k
      using that by (auto simp: probe_failed_def Let_def delete_conv' split: option.split)
    then have "verify_stage g (br_snapshots (probe_failed i a as fs e now b)) s = verify_stage g (br_snapshots b) s"
      if "s \<in> set (cm_stages m)" for s g
      using that \<open>\<not> spans a m\<close> by (auto simp: verify_stage_def find_node_def spans_def list_ex_iff)
    then have "map (verify_stage (cm_loadGeneration m) (br_snapshots (probe_failed i a as fs e now b))) (cm_stages m) =
      map (verify_stage (cm_loadGeneration m) (br_snapshots b)) (cm_stages m)" by simp
    then show ?thesis unfolding verify_def by (simp only:)
  qed
  ultimately show ?thesis using none by simp
qed

definition demo_bridge :: bridge_state where
  "demo_bridge = new_bridge \<lparr>ct_ingressAgent = ''tcp://a'', ct_models = [demo_model]\<rparr>"

definition no_dials :: dial_config where
  "no_dials = \<lparr>DIAL_HOURLY_CAP = 6, DIAL_LIFETIME_CAP = 0\<rparr>"

lemma demo_refused:
  "\<exists>b. (bridge_step no_dials)\<^sup>*\<^sup>* demo_bridge b \<and> get (br_probe b) ''tcp://a'' \<noteq> None"
proof -
  let ?b1 = "refresh_start demo_bridge"
  let ?b2 = "refresh_visit no_dials 0 ''tcp://a'' [] [] 0 (?b1\<lparr>br_clock := 0\<rparr>)"
  let ?b3 = "refresh_resume 0 ''tcp://a'' [] [] (Inl LifetimeSpent) 0 (?b2\<lparr>br_clock := 0\<rparr>)"
  have t1: "get (br_tasks ?b1) 0 = Some (Visit [''tcp://a''] [])" "br_clock ?b1 = 0"
    by (simp_all add: refresh_start_def demo_bridge_def new_bridge_def agents_def demo_model_def demo_stage_def)
  have t2: "get (br_tasks ?b2) 0 = Some (Got ''tcp://a'' [] [] (Inl LifetimeSpent))" "br_clock ?b2 = 0"
    by (simp_all add: refresh_visit_def refresh_start_def demo_bridge_def new_bridge_def ensureClient_def existing_def
        admitDial_def no_dials_def guardFor_def new_guard_def Let_def update_conv')
  have "bridge_step no_dials demo_bridge ?b1" by (rule timer)
  moreover have "bridge_step no_dials ?b1 ?b2" by (rule visit [OF t1(1)]) (simp add: t1)
  moreover have "bridge_step no_dials ?b2 ?b3" by (rule resumed [OF t2(1)]) (simp add: t2)
  ultimately have "(bridge_step no_dials)\<^sup>*\<^sup>* demo_bridge ?b3" by (meson converse_rtranclp_into_rtranclp rtranclp.rtrancl_refl)
  moreover have "get (br_probe ?b3) ''tcp://a'' \<noteq> None"
    by (simp add: refresh_resume_def probe_failed_def Let_def update_conv' split: option.split)
  ultimately show ?thesis by blast
qed

theorem failing_agent_not_served_witness:
  "\<exists>b :: bridge_state. get (br_probe b) ''tcp://a'' \<noteq> None \<and> \<not> sv_serving (verify demo_model (br_snapshots b))"
proof -
  obtain b where b: "(bridge_step no_dials)\<^sup>*\<^sup>* demo_bridge b" "get (br_probe b) ''tcp://a'' \<noteq> None"
    using demo_refused by blast
  have "spans ''tcp://a'' demo_model" by (simp add: spans_def demo_model_def demo_stage_def)
  then have "\<not> sv_serving (verify demo_model (br_snapshots b))"
    using failing_agent_not_served [OF b(1) [unfolded demo_bridge_def] b(2), of demo_model] by simp
  then show ?thesis using b(2) by blast
qed

end
