(* ===== verification/Bridge_NodeAuth.thy ===== *)
theory Bridge_NodeAuth
  imports Gateway_Auth
begin

text \<open>
  Node tokens of the bridge (\<^verbatim>\<open>p4bridge/nodeauth.js\<close>): challenges, the wallet signature, bearer tokens
  and who a request speaks for. Cryptography is the record \<open>crypto\<close> of \<^verbatim>\<open>Gateway_Auth\<close>; random nonces
  and the clock (milliseconds) are arguments. \<^verbatim>\<open>crypto.timingSafeEqual\<close> on equal lengths is equality.
\<close>

section \<open>Signatures\<close>

definition verifyWalletSignature :: "crypto \<Rightarrow> string \<Rightarrow> string \<Rightarrow> string \<Rightarrow> bool" where
  "verifyWalletSignature cr wallet message signatureBase64 =
     (case base58Decode wallet of
        None \<Rightarrow> False
      | Some raw \<Rightarrow>
          if length raw \<noteq> 32 then False
          else let signature = unb64 cr signatureBase64
               in if length signature \<noteq> 64 then False else ed25519_verify cr signature message raw)"

definition timingSafeEqual :: "string \<Rightarrow> string \<Rightarrow> bool" where
  "timingSafeEqual a b = (if length a \<noteq> length b then False else a = b)"

section \<open>Challenges\<close>

record node_auth =
  na_secret :: string
  na_serviceToken :: string
  na_nonces :: "(string \<times> (string \<times> int)) list"

definition NODE_NONCE_TTL_MS :: int where "NODE_NONCE_TTL_MS = 5 * 60 * 1000"
definition MAX_OUTSTANDING_NONCES :: nat where "MAX_OUTSTANDING_NONCES = 10000"

text \<open>No secret, no authority: the constructor throws.\<close>

definition new_node_auth :: "string \<Rightarrow> string \<Rightarrow> node_auth option" where
  "new_node_auth secret serviceToken =
     (if secret = '''' then None
      else Some \<lparr>na_secret = secret, na_serviceToken = serviceToken, na_nonces = []\<rparr>)"

text \<open>The participation policy: none configured allows everyone; a policy that throws (\<open>None\<close>) refuses.\<close>

definition allows :: "(string \<Rightarrow> bool option) option \<Rightarrow> string \<Rightarrow> bool" where
  "allows eligible wallet =
     (case eligible of
        None \<Rightarrow> True
      | Some f \<Rightarrow> (case f wallet of None \<Rightarrow> False | Some b \<Rightarrow> b))"

definition messageFor :: "string \<Rightarrow> string \<Rightarrow> string" where
  "messageFor wallet nonce =
     ''Kvasir bridge '' @ [char_of (226 :: nat), char_of (128 :: nat), char_of (148 :: nat)]
     @ '' prove you operate this node.'' @ [newline] @ ''wallet: '' @ wallet @ [newline] @ ''nonce: '' @ nonce"

definition node_newChallenge :: "string \<Rightarrow> string \<Rightarrow> int \<Rightarrow> node_auth \<Rightarrow> node_auth \<times> (string \<times> string) option" where
  "node_newChallenge wallet nonce now a =
     (let ns = filter (\<lambda>(k, (w, expires)). \<not> expires < now) (na_nonces a)
      in if MAX_OUTSTANDING_NONCES \<le> length ns then (a\<lparr>na_nonces := ns\<rparr>, None)
         else (a\<lparr>na_nonces := put nonce (wallet, now + NODE_NONCE_TTL_MS) ns\<rparr>, Some (nonce, messageFor wallet nonce)))"

definition node_consumeChallenge :: "string \<Rightarrow> string \<Rightarrow> int \<Rightarrow> node_auth \<Rightarrow> node_auth \<times> string option" where
  "node_consumeChallenge wallet nonce now a =
     (case get (na_nonces a) nonce of
        None \<Rightarrow> (a, None)
      | Some (w, expires) \<Rightarrow>
          (a\<lparr>na_nonces := del nonce (na_nonces a)\<rparr>,
           if expires < now then None
           else if w \<noteq> wallet then None
           else Some (messageFor wallet nonce)))"

section \<open>Tokens\<close>

text \<open>\<open>ttl\<close> is \<^verbatim>\<open>Math.round(ttlDays * 86400)\<close>; \<open>now\<close> is in seconds.\<close>

definition node_makeToken :: "crypto \<Rightarrow> node_auth \<Rightarrow> string \<Rightarrow> nat \<Rightarrow> nat \<Rightarrow> string \<times> nat" where
  "node_makeToken cr a wallet now ttl =
     (let body = ''node|'' @ wallet @ [bar] @ show_nat (now + ttl);
          mac = hmac_sha256 cr (na_secret a) body
      in (b64url cr (body @ [bar] @ mac), ttl))"

definition node_verifyToken :: "crypto \<Rightarrow> node_auth \<Rightarrow> string \<Rightarrow> nat \<Rightarrow> string option" where
  "node_verifyToken cr a token now =
     (if token = '''' then None
      else case split_on bar (unb64url cr token) of
             [kind, wallet, expText, mac] \<Rightarrow>
               if kind \<noteq> ''node'' \<or> wallet = '''' then None
               else (case string_number expText of
                       Fin v \<Rightarrow>
                         if v < of_nat now then None
                         else if \<not> timingSafeEqual mac
                                (hmac_sha256 cr (na_secret a) (kind @ [bar] @ wallet @ [bar] @ expText)) then None
                         else Some wallet
                     | _ \<Rightarrow> None)
           | _ \<Rightarrow> None)"

section \<open>Who is asking\<close>

datatype node_caller = Service | Node string | Nobody

definition strip_bearer :: "string \<Rightarrow> string" where
  "strip_bearer s =
     (if to_lower (take 6 s) = ''bearer'' \<and> 6 < length s \<and> is_space (s ! 6)
      then dropWhile is_space (drop 6 s) else s)"

definition identify :: "crypto \<Rightarrow> node_auth \<Rightarrow> string \<Rightarrow> string \<Rightarrow> nat \<Rightarrow> node_caller" where
  "identify cr a service_header authorization now =
     (let service = trim service_header; bearer = strip_bearer (trim authorization)
      in if na_serviceToken a \<noteq> '''' \<and> service \<noteq> '''' \<and> timingSafeEqual service (na_serviceToken a) then Service
         else case node_verifyToken cr a bearer now of
                Some w \<Rightarrow> Node w
              | None \<Rightarrow> (case node_verifyToken cr a service now of Some w \<Rightarrow> Node w | None \<Rightarrow> Nobody))"

section \<open>Properties\<close>

lemma timingSafeEqual_iff [simp]: "timingSafeEqual a b \<longleftrightarrow> a = b"
  by (auto simp: timingSafeEqual_def)

text \<open>
  A node token verifies to the wallet it was issued for until its expiry second, and to nobody after.
\<close>
theorem node_token_roundtrip:
  assumes codec: "\<And>s. unb64url cr (b64url cr s) = s" and nonempty: "\<And>s. b64url cr s = '''' \<Longrightarrow> s = ''''"
    and mac: "\<And>k s. bar \<notin> set (hmac_sha256 cr k s)"
    and wallet: "wallet \<noteq> ''''" "bar \<notin> set wallet" and small: "now + ttl \<le> 2 ^ 53"
  shows "node_verifyToken cr a (fst (node_makeToken cr a wallet now ttl)) later =
    (if now + ttl < later then None else Some wallet)"
proof -
  let ?ds = "show_nat (now + ttl)" and ?body = "''node|'' @ wallet @ [bar] @ show_nat (now + ttl)"
  let ?mac = "hmac_sha256 cr (na_secret a) ?body"
  have ds: "bar \<notin> set ?ds" using show_nat_no [of bar] by (simp add: is_digit_def)
  have "split_on bar (?body @ [bar] @ ?mac) = [''node'', wallet, ?ds, ?mac]"
    using split_on_sep [of bar "''node''" "wallet @ bar # ?ds @ bar # ?mac"]
      split_on_sep [OF wallet(2), of "?ds @ bar # ?mac"] split_on_sep [OF ds, of ?mac]
      split_on_absent [OF mac] by simp
  moreover have "b64url cr (?body @ [bar] @ ?mac) \<noteq> ''''" using nonempty by fastforce
  moreover have "fl (of_nat (now + ttl)) = of_nat (now + ttl)"
  proof -
    have "\<bar>int (now + ttl)\<bar> \<le> 2 ^ 53" using small by (metis abs_of_nat of_nat_le_iff of_nat_numeral of_nat_power)
    from fl_of_int [OF this] show ?thesis by simp
  qed
  then have "string_number ?ds = Fin (of_nat (now + ttl))" by (simp add: string_number_show_nat)
  ultimately show ?thesis
    using wallet by (simp add: node_verifyToken_def node_makeToken_def Let_def codec flip: of_nat_less_iff [where 'a = rat])
qed

text \<open>
  Only the holder of the machine secret is a service: whatever a caller puts into its headers, a node
  token among them, it is taken for the service only if the header is the configured secret itself; and it is
  taken for a node only on a token that carries the authority's MAC over that wallet and has not expired.
\<close>
theorem identify_no_escalation:
  "case identify cr a service authorization now of
     Service \<Rightarrow> na_serviceToken a \<noteq> '''' \<and> trim service = na_serviceToken a
   | Node w \<Rightarrow> w \<noteq> '''' \<and> (\<exists>token expText v. unb64url cr token = ''node'' @ [bar] @ w @ [bar] @ expText @ [bar] @
       hmac_sha256 cr (na_secret a) (''node'' @ [bar] @ w @ [bar] @ expText) \<and>
       string_number expText = Fin v \<and> of_nat now \<le> v)
   | Nobody \<Rightarrow> True"
proof -
  have join: "split_on c s = ps \<Longrightarrow> s = concat (map (\<lambda>p. p @ [c]) (butlast ps)) @ last ps" for c s ps
  proof (induction s arbitrary: ps)
    case (Cons x s)
    obtain p qs where pq: "split_on c s = p # qs" using split_on_nonempty [of c s] by (cases "split_on c s") auto
    from Cons.IH [OF pq] Cons.prems pq show ?case by (auto split: if_splits)
  qed auto
  have tok: "w \<noteq> '''' \<and> (\<exists>expText v. unb64url cr token = ''node'' @ [bar] @ w @ [bar] @ expText @ [bar] @
       hmac_sha256 cr (na_secret a) (''node'' @ [bar] @ w @ [bar] @ expText) \<and>
       string_number expText = Fin v \<and> of_nat now \<le> v)" if "node_verifyToken cr a token now = Some w" for token w
  proof -
    from that obtain e m v where s: "split_on bar (unb64url cr token) = [''node'', w, e, m]" "w \<noteq> ''''"
      and v: "string_number e = Fin v" "of_nat now \<le> v" "m = hmac_sha256 cr (na_secret a) (''node'' @ [bar] @ w @ [bar] @ e)"
      by (auto simp: node_verifyToken_def split: if_splits list.splits jsnum.splits)
    from join [OF s(1)] s(2) v show ?thesis by auto
  qed
  show ?thesis
    using tok by (auto simp: identify_def Let_def split: node_caller.split option.split) blast+
qed

inductive auth_step :: "node_auth \<Rightarrow> node_auth \<Rightarrow> bool" where
  challenged: "auth_step a (fst (node_newChallenge w n now a))"
| consumed: "auth_step a (fst (node_consumeChallenge w n now a))"

lemma length_put_le: "length (put k v t) \<le> length t + 1"
  by (induction t) auto

lemma length_del_le: "length (del k t) \<le> length t"
  by (rule length_delete_le)

text \<open>
  However many challenges strangers ask for, the authority never holds more than the cap, and a challenge
  answers once: consuming it, rightly or wrongly, leaves nothing to consume.
\<close>
theorem challenges_bounded:
  assumes "auth_step\<^sup>*\<^sup>* (\<lparr>na_secret = s, na_serviceToken = st, na_nonces = []\<rparr>) a"
  shows "length (na_nonces a) \<le> MAX_OUTSTANDING_NONCES \<and>
    snd (node_consumeChallenge w' n now' (fst (node_consumeChallenge w n now a))) = None"
proof -
  from assms have "length (na_nonces a) \<le> MAX_OUTSTANDING_NONCES"
  proof (induction rule: rtranclp_induct)
    case (step b c)
    from step.hyps(2) show ?case
    proof cases
      case (challenged w n now)
      have "length (filter P (na_nonces b)) \<le> MAX_OUTSTANDING_NONCES" for P
        using step.IH length_filter_le le_trans by blast
      then show ?thesis
        using length_put_le [of n "(w, now + NODE_NONCE_TTL_MS)" "filter (\<lambda>(k, w, expires). \<not> expires < now) (na_nonces b)"]
        by (auto simp: challenged node_newChallenge_def Let_def)
    next
      case (consumed w n now)
      then show ?thesis
        using step.IH length_del_le [of n "na_nonces b"]
        by (auto simp: node_consumeChallenge_def split: option.split)
    qed
  qed simp
  then show ?thesis
    by (auto simp: node_consumeChallenge_def table_simps split: option.split)
qed

section \<open>Witnesses\<close>

definition toy_auth :: node_auth where
  "toy_auth = \<lparr>na_secret = ''k'', na_serviceToken = ''svc'', na_nonces = []\<rparr>"

theorem node_token_roundtrip_witness:
  "node_verifyToken toy_crypto toy_auth (fst (node_makeToken toy_crypto toy_auth ''w'' 10 5)) 15 = Some ''w'' \<and>
   node_verifyToken toy_crypto toy_auth (fst (node_makeToken toy_crypto toy_auth ''w'' 10 5)) 16 = None"
  using node_token_roundtrip [of toy_crypto "''w''" 10 5 toy_auth 15] node_token_roundtrip [of toy_crypto "''w''" 10 5 toy_auth 16]
  by (simp add: toy_crypto_def)

theorem challenges_bounded_witness:
  "length (na_nonces (fst (node_newChallenge ''w'' ''n'' 0 toy_auth))) \<le> MAX_OUTSTANDING_NONCES \<and>
   length (na_nonces (fst (node_newChallenge ''w'' ''n'' 0 toy_auth))) = 1"
proof -
  have "auth_step\<^sup>*\<^sup>* toy_auth (fst (node_newChallenge ''w'' ''n'' 0 toy_auth))"
    by (intro r_into_rtranclp challenged)
  from challenges_bounded [OF this [unfolded toy_auth_def]] show ?thesis
    by (simp add: toy_auth_def node_newChallenge_def MAX_OUTSTANDING_NONCES_def)
qed

end
