(* ===== verification/Bridge_Participation.thy ===== *)
theory Bridge_Participation
  imports Bridge_NodeAuth
begin

text \<open>
  The participation surface of the bridge (\<^verbatim>\<open>p4bridge/participation.js\<close>): the census of workers and what
  they hold, promised windows, per-expert coverage folded into runs, the assignment of a window to a
  volunteer, relay sessions and their ports, and the contribution credited for the bytes a relay carried.

  The clock is an argument, in milliseconds. Numbers of a request are finite doubles (\<^typ>\<open>rat\<close>); a request
  field is read as the code reads it, absent text being \<open>''''\<close>. \<^verbatim>\<open>Map\<close> objects are tables. Fields
  that are stored and never read by the bridge (the layer and expert totals of a report, the opening time of
  a session, the constant host of a target) are left out.
\<close>

section \<open>State\<close>

definition WORKER_STALE_MS :: int where "WORKER_STALE_MS = 120000"
definition PENDING_ASSIGNMENT_MS :: int where "PENDING_ASSIGNMENT_MS = 120000"
definition PORT_BASE :: nat where "PORT_BASE = 52970"
definition PORT_SPAN :: nat where "PORT_SPAN = 60"
definition MAX_SEGMENTS_PER_WORKER :: nat where "MAX_SEGMENTS_PER_WORKER = 256"
definition MAX_WORKERS :: nat where "MAX_WORKERS = 4096"
definition MAX_WALLET_LENGTH :: nat where "MAX_WALLET_LENGTH = 64"
definition MAX_SESSION_LENGTH :: nat where "MAX_SESSION_LENGTH = 128"

type_synonym segment = "rat \<times> rat \<times> rat"

record model_info =
  mi_id :: string
  mi_name :: string
  mi_nEmbd :: nat
  mi_nLayer :: nat
  mi_nExpert :: nat
  mi_expertLayers :: "nat list"

record platform =
  pf_os :: string
  pf_deviceKind :: string
  pf_accelerator :: string
  pf_backend :: string

record worker =
  wk_model :: string
  wk_segments :: "segment list"
  wk_url :: string
  wk_owner :: string
  wk_platform :: platform
  wk_ts :: int

record pending_claim =
  pc_owner :: string
  pc_model :: string
  pc_layer :: nat
  pc_experts :: "rat \<times> rat"
  pc_ts :: int

record relay_target =
  rt_port :: nat
  rt_model :: string
  rt_layer :: rat
  rt_experts :: "rat \<times> rat"
  rt_owner :: string
  rt_platform :: platform
  rt_nodeId :: string
  rt_ts :: int

record relay_stat =
  rs_closed :: int
  rs_ws2tcp :: nat
  rs_tcp2ws :: nat
  rs_credited :: nat

record credit_line =
  cl_node :: string
  cl_units :: rat
  cl_owner :: string
  cl_model :: string
  cl_platform :: platform

record participation =
  pa_workers :: "worker table"
  pa_targets :: "relay_target table"
  pa_pending :: "pending_claim table"
  pa_stats :: "relay_stat table"
  pa_ports :: "nat table"
  pa_credits :: "credit_line list"

definition new_participation :: participation where
  "new_participation = \<lparr>pa_workers = [], pa_targets = [], pa_pending = [], pa_stats = [], pa_ports = [], pa_credits = []\<rparr>"

record pconfig =
  TARGET_REPLICAS :: nat
  UNITS_PER_MB :: rat
  pmodels :: "model_info list"
  frozen :: bool

section \<open>The census\<close>

definition drop_worker :: "string \<Rightarrow> participation \<Rightarrow> participation" where
  "drop_worker i p =
     (let gone = map fst (filter (\<lambda>(s, t). rt_nodeId t = i) (pa_targets p))
      in p\<lparr>pa_workers := del i (pa_workers p), pa_ports := del i (pa_ports p),
           pa_targets := filter (\<lambda>(s, t). rt_nodeId t \<noteq> i) (pa_targets p),
           pa_stats := filter (\<lambda>(s, _). s \<notin> set gone) (pa_stats p)\<rparr>)"

definition stale :: "int \<Rightarrow> worker \<Rightarrow> bool" where
  "stale now w \<longleftrightarrow> \<not> now - WORKER_STALE_MS \<le> wk_ts w"

text \<open>\<open>liveWorkers\<close> returns the live workers and forgets everything the others held.\<close>

definition liveWorkers :: "int \<Rightarrow> participation \<Rightarrow> worker table \<times> participation" where
  "liveWorkers now p =
     (filter (\<lambda>(i, w). \<not> stale now w) (pa_workers p),
      foldl (\<lambda>p (i, w). if stale now w then drop_worker i p else p) p (pa_workers p))"

definition last_part :: "string \<Rightarrow> string" where
  "last_part s = last (split_on (CHR ''/'') s)"

definition modelInfo :: "pconfig \<Rightarrow> string \<Rightarrow> model_info option" where
  "modelInfo cfg ref =
     List.find (\<lambda>m. mi_id m = ref \<or> mi_id m = last_part ref \<or> mi_name m = ref) (pmodels cfg)"

definition canonical :: "pconfig \<Rightarrow> string \<Rightarrow> string" where
  "canonical cfg model = (case modelInfo cfg model of None \<Rightarrow> model | Some m \<Rightarrow> mi_id m)"

section \<open>Promised windows\<close>

definition live_claim :: "int \<Rightarrow> pending_claim \<Rightarrow> bool" where
  "live_claim now c \<longleftrightarrow> now - PENDING_ASSIGNMENT_MS \<le> pc_ts c"

definition livePending :: "int \<Rightarrow> participation \<Rightarrow> pending_claim list \<times> participation" where
  "livePending now p =
     (let live = filter (\<lambda>(k, c). live_claim now c) (pa_pending p)
      in (map snd live, p\<lparr>pa_pending := live\<rparr>))"

text \<open>
  The key of a promise is the owner, model, layer and range joined into a string; \<open>show_rat\<close> is the text of
  a number.
\<close>

definition claim_key :: "(rat \<Rightarrow> string) \<Rightarrow> string \<Rightarrow> string \<Rightarrow> nat \<Rightarrow> rat \<times> rat \<Rightarrow> string" where
  "claim_key show_rat owner model layer experts =
     owner @ [bar] @ model @ [bar] @ show_nat layer @ [bar] @ show_rat (fst experts) @ ''-'' @ show_rat (snd experts)"

definition claim ::
  "(rat \<Rightarrow> string) \<Rightarrow> pconfig \<Rightarrow> string \<Rightarrow> string \<Rightarrow> nat \<Rightarrow> rat \<times> rat \<Rightarrow> int \<Rightarrow> participation \<Rightarrow> participation" where
  "claim show_rat cfg owner model layer experts now p =
     (if owner = '''' then p
      else let i = canonical cfg model
           in p\<lparr>pa_pending := put (claim_key show_rat owner i layer experts)
                  \<lparr>pc_owner = owner, pc_model = i, pc_layer = layer, pc_experts = experts, pc_ts = now\<rparr> (pa_pending p)\<rparr>)"

definition fulfilled :: "segment list \<Rightarrow> pending_claim \<Rightarrow> bool" where
  "fulfilled segments c \<longleftrightarrow>
     (\<exists>(layer, begin, fin) \<in> set segments.
        layer = of_nat (pc_layer c) \<and> begin \<le> fst (pc_experts c) \<and> snd (pc_experts c) \<le> fin)"

definition settle_claims :: "pconfig \<Rightarrow> string \<Rightarrow> string \<Rightarrow> segment list \<Rightarrow> participation \<Rightarrow> participation" where
  "settle_claims cfg owner model segments p =
     (if owner = '''' then p
      else let i = canonical cfg model
           in p\<lparr>pa_pending := filter (\<lambda>(k, c). \<not> (pc_owner c = owner \<and> pc_model c = i \<and> fulfilled segments c)) (pa_pending p)\<rparr>)"

section \<open>Coverage\<close>

text \<open>
  The counting loop \<^verbatim>\<open>for (e = max(0, begin); e < min(end, nExpert); e += 1) replicas[e] += 1\<close>. It starts at
  \<open>begin\<close>, so a fractional start touches no element of the array.
\<close>

definition counts_expert :: "rat \<Rightarrow> rat \<Rightarrow> nat \<Rightarrow> bool" where
  "counts_expert begin fin e \<longleftrightarrow>
     (let s = max 0 begin in s \<in> \<int> \<and> s \<le> of_nat e \<and> of_nat e < fin)"

definition add_window :: "rat \<Rightarrow> rat \<Rightarrow> nat list \<Rightarrow> nat list" where
  "add_window begin fin reps =
     map (\<lambda>e. reps ! e + (if counts_expert begin fin e then 1 else 0)) [0..<length reps]"

definition add_segment :: "nat \<Rightarrow> segment \<Rightarrow> nat list \<Rightarrow> nat list" where
  "add_segment layer seg reps =
     (case seg of (l, begin, fin) \<Rightarrow> if l = of_nat layer then add_window begin fin reps else reps)"

definition add_worker :: "model_info \<Rightarrow> nat \<Rightarrow> worker \<Rightarrow> nat list \<Rightarrow> nat list" where
  "add_worker info layer w reps =
     (if wk_model w \<noteq> mi_id info \<and> wk_model w \<noteq> mi_name info then reps
      else foldl (\<lambda>r seg. add_segment layer seg r) reps (wk_segments w))"

definition add_claim :: "model_info \<Rightarrow> nat \<Rightarrow> pending_claim \<Rightarrow> nat list \<Rightarrow> nat list" where
  "add_claim info layer c reps =
     (if pc_model c \<noteq> mi_id info \<or> pc_layer c \<noteq> layer then reps
      else add_window (fst (pc_experts c)) (snd (pc_experts c)) reps)"

definition replicas :: "model_info \<Rightarrow> worker list \<Rightarrow> pending_claim list \<Rightarrow> nat \<Rightarrow> nat list" where
  "replicas info ws cs layer =
     foldl (\<lambda>r c. add_claim info layer c r)
       (foldl (\<lambda>r w. add_worker info layer w r) (replicate (mi_nExpert info) 0) ws) cs"

record run =
  rn_from :: nat
  rn_to :: nat
  rn_count :: nat

text \<open>The loop that folds the counts into runs: \<open>e\<close> runs to the length, \<open>start\<close> is where the run began.\<close>

function fold_runs :: "nat list \<Rightarrow> nat \<Rightarrow> nat \<Rightarrow> run list" where
  "fold_runs reps start e =
     (if length reps < e then []
      else if e = length reps \<or> reps ! e \<noteq> reps ! start
      then \<lparr>rn_from = start, rn_to = e, rn_count = reps ! start\<rparr> # fold_runs reps e (e + 1)
      else fold_runs reps start (e + 1))"
  by pat_completeness auto
termination
  by (relation "measure (\<lambda>(reps, start, e). Suc (length reps) - e)") auto

declare fold_runs.simps [simp del]

definition runs :: "nat list \<Rightarrow> run list" where
  "runs reps = fold_runs reps 0 1"

definition scarcity :: "nat \<Rightarrow> nat \<Rightarrow> rat" where
  "scarcity target n =
     fl (of_int (js_round (fl (max 0 (fl (fl (of_int (int target - int n)) / of_nat target)) * 1000))) / 1000)"

definition coverage :: "pconfig \<Rightarrow> string \<Rightarrow> int \<Rightarrow> participation \<Rightarrow> (nat \<times> run list) list \<times> participation" where
  "coverage cfg model now p =
     (case modelInfo cfg model of
        None \<Rightarrow> ([], p)
      | Some info \<Rightarrow>
          let (live, p1) = liveWorkers now p; (claims, p2) = livePending now p1
          in (map (\<lambda>l. (l, runs (replicas info (map snd live) claims l))) (rev (remdups (rev (mi_expertLayers info)))), p2))"

section \<open>Ports and contribution\<close>

definition portFor :: "string \<Rightarrow> participation \<Rightarrow> nat option \<times> participation" where
  "portFor workerId p =
     (case get (pa_ports p) workerId of
        Some port \<Rightarrow> (Some port, p)
      | None \<Rightarrow>
          (case List.find (\<lambda>port. port \<notin> set (map snd (pa_ports p))) (map (\<lambda>i. PORT_BASE + i) [0..<PORT_SPAN]) of
             Some port \<Rightarrow> (Some port, p\<lparr>pa_ports := put workerId port (pa_ports p)\<rparr>)
           | None \<Rightarrow> (None, p)))"

definition carried :: "relay_stat \<Rightarrow> nat" where
  "carried s = max (rs_ws2tcp s) (rs_tcp2ws s)"

definition credit_for :: "pconfig \<Rightarrow> relay_target \<Rightarrow> relay_stat \<Rightarrow> credit_line" where
  "credit_for cfg t s =
     \<lparr>cl_node = rt_nodeId t,
      cl_units = fl (fl (of_nat (carried s - rs_credited s) / 1000000) * UNITS_PER_MB cfg),
      cl_owner = rt_owner t, cl_model = rt_model t, cl_platform = rt_platform t\<rparr>"

definition flush_one :: "pconfig \<Rightarrow> relay_target table \<Rightarrow> string \<times> relay_stat \<Rightarrow> (string \<times> relay_stat) \<times> credit_line list" where
  "flush_one cfg targets row =
     (case row of (session, s) \<Rightarrow>
        (case get targets session of
           None \<Rightarrow> (row, [])
         | Some t \<Rightarrow>
             if carried s \<le> rs_credited s then (row, [])
             else ((session, s\<lparr>rs_credited := carried s\<rparr>), [credit_for cfg t s])))"

definition flushContributions :: "pconfig \<Rightarrow> participation \<Rightarrow> participation" where
  "flushContributions cfg p =
     p\<lparr>pa_stats := map (fst \<circ> flush_one cfg (pa_targets p)) (pa_stats p),
       pa_credits := pa_credits p @ concat (map (snd \<circ> flush_one cfg (pa_targets p)) (pa_stats p))\<rparr>"

datatype direction = Ws2tcp | Tcp2ws

definition noteRelayBytes :: "string \<Rightarrow> direction \<Rightarrow> nat \<Rightarrow> participation \<Rightarrow> participation" where
  "noteRelayBytes session d bytes p =
     (let s = (case get (pa_stats p) session of
                 None \<Rightarrow> \<lparr>rs_closed = 0, rs_ws2tcp = 0, rs_tcp2ws = 0, rs_credited = 0\<rparr> | Some s \<Rightarrow> s);
          s' = (case d of Ws2tcp \<Rightarrow> s\<lparr>rs_ws2tcp := rs_ws2tcp s + bytes\<rparr>
                        | Tcp2ws \<Rightarrow> s\<lparr>rs_tcp2ws := rs_tcp2ws s + bytes\<rparr>)
      in p\<lparr>pa_stats := put session s' (pa_stats p)\<rparr>)"

definition noteRelayClosed :: "pconfig \<Rightarrow> string \<Rightarrow> int \<Rightarrow> participation \<Rightarrow> participation" where
  "noteRelayClosed cfg session now p =
     flushContributions cfg
       (case get (pa_stats p) session of
          None \<Rightarrow> p
        | Some s \<Rightarrow> p\<lparr>pa_stats := put session (s\<lparr>rs_closed := now\<rparr>) (pa_stats p)\<rparr>)"

section \<open>Routes\<close>

text \<open>\<open>needsNode\<close>: \<open>Inr ()\<close> when the caller may use the surface now.\<close>

definition needsNode :: "(string \<Rightarrow> bool option) option \<Rightarrow> node_caller \<Rightarrow> unit answer" where
  "needsNode eligible who =
     (case who of
        Service \<Rightarrow> Inr ()
      | Node w \<Rightarrow> if allows eligible w then Inr () else refuse 403 ''this wallet is no longer admitted to the ring''
      | Nobody \<Rightarrow> refuse 401 ''authentication required'')"

definition post_challenge ::
  "(string \<Rightarrow> bool option) option \<Rightarrow> string \<Rightarrow> string \<Rightarrow> int \<Rightarrow> node_auth \<Rightarrow> node_auth \<times> (string \<times> string) answer" where
  "post_challenge eligible body_wallet nonce now a =
     (let wallet = trim body_wallet
      in if wallet = '''' then (a, refuse 400 ''wallet is required'')
         else if MAX_WALLET_LENGTH < length wallet then (a, refuse 400 ''that is not a wallet address'')
         else if \<not> allows eligible wallet then (a, refuse 403 ''this wallet has not been admitted to the ring yet'')
         else case node_newChallenge wallet nonce now a of
                (a', None) \<Rightarrow> (a', refuse 429 ''too many challenges are outstanding; try again shortly'')
              | (a', Some c) \<Rightarrow> (a', Inr c))"

definition post_node_token ::
  "crypto \<Rightarrow> (string \<Rightarrow> bool option) option \<Rightarrow> string \<Rightarrow> string \<Rightarrow> string \<Rightarrow> int \<Rightarrow> nat \<Rightarrow> node_auth
   \<Rightarrow> node_auth \<times> (string \<times> nat) answer" where
  "post_node_token cr eligible body_wallet body_nonce signature now ttl a =
     (let wallet = trim body_wallet; nonce = trim body_nonce
      in if wallet = '''' \<or> nonce = '''' \<or> signature = '''' then (a, refuse 400 ''wallet, nonce and signature are required'')
         else if \<not> allows eligible wallet then (a, refuse 403 ''this wallet has not been admitted to the ring yet'')
         else case node_consumeChallenge wallet nonce now a of
                (a', None) \<Rightarrow> (a', refuse 401 ''that challenge is unknown, expired, or already used'')
              | (a', Some message) \<Rightarrow>
                  if \<not> verifyWalletSignature cr wallet message signature
                  then (a', refuse 401 ''the signature does not match that wallet'')
                  else (a', Inr (node_makeToken cr a' wallet (nat (now div 1000)) ttl)))"

definition ends_with :: "string \<Rightarrow> string \<Rightarrow> bool" where
  "ends_with s suf \<longleftrightarrow> length suf \<le> length s \<and> drop (length s - length suf) s = suf"

definition wanted :: "string \<Rightarrow> model_info \<Rightarrow> bool" where
  "wanted want m \<longleftrightarrow> want = '''' \<or> mi_id m = want \<or> mi_name m = want \<or> ends_with (mi_id m) want"

fun coverage_all :: "pconfig \<Rightarrow> model_info list \<Rightarrow> int \<Rightarrow> participation \<Rightarrow> (model_info \<times> (nat \<times> run list) list) list \<times> participation" where
  "coverage_all cfg [] now p = ([], p)"
| "coverage_all cfg (m # ms) now p =
     (let (c, p1) = coverage cfg (mi_id m) now p; (cs, p2) = coverage_all cfg ms now p1 in ((m, c) # cs, p2))"

definition get_demand ::
  "pconfig \<Rightarrow> (string \<Rightarrow> bool option) option \<Rightarrow> node_caller \<Rightarrow> string \<Rightarrow> int \<Rightarrow> participation
   \<Rightarrow> participation \<times> (model_info \<times> (nat \<times> run list) list) list answer" where
  "get_demand cfg eligible who want now p =
     (case needsNode eligible who of
        Inl e \<Rightarrow> (p, Inl e)
      | Inr _ \<Rightarrow> (let (cs, p') = coverage_all cfg (filter (wanted want) (pmodels cfg)) now p in (p', Inr cs)))"

type_synonym candidate = "model_info \<times> nat \<times> run"

definition width :: "candidate \<Rightarrow> nat" where
  "width c = (case c of (m, l, r) \<Rightarrow> rn_to r - rn_from r)"

definition cand_scarcity :: "pconfig \<Rightarrow> candidate \<Rightarrow> rat" where
  "cand_scarcity cfg c = (case c of (m, l, r) \<Rightarrow> scarcity (TARGET_REPLICAS cfg) (rn_count r))"

definition candidates :: "(model_info \<times> (nat \<times> run list) list) list \<Rightarrow> candidate list" where
  "candidates cs = concat (map (\<lambda>(m, layers). concat (map (\<lambda>(l, rs). map (\<lambda>r. (m, l, r)) rs) layers)) cs)"

definition better :: "pconfig \<Rightarrow> candidate option \<Rightarrow> candidate \<Rightarrow> candidate option" where
  "better cfg best c =
     (if cand_scarcity cfg c \<le> 0 then best
      else case best of
             None \<Rightarrow> Some c
           | Some b \<Rightarrow>
               if cand_scarcity cfg b < cand_scarcity cfg c
                  \<or> cand_scarcity cfg c = cand_scarcity cfg b \<and> width b < width c
               then Some c else Some b)"

record assignment =
  as_model :: model_info
  as_layer :: nat
  as_experts :: "rat \<times> rat"
  as_scarcity :: rat
  as_replicas :: nat

definition wallet_of :: "node_caller \<Rightarrow> string" where
  "wallet_of who = (case who of Node w \<Rightarrow> w | _ \<Rightarrow> '''')"

text \<open>\<open>maxExperts\<close> is \<^verbatim>\<open>Number(body.max_experts ?? 0) || 0\<close>. \<open>Inr None\<close> is an answer without an assignment.\<close>

definition post_volunteer ::
  "(rat \<Rightarrow> string) \<Rightarrow> pconfig \<Rightarrow> (string \<Rightarrow> bool option) option \<Rightarrow> node_caller \<Rightarrow> string \<Rightarrow> rat \<Rightarrow> int \<Rightarrow> participation
   \<Rightarrow> participation \<times> assignment option answer" where
  "post_volunteer show_rat cfg eligible who want maxExperts now p =
     (case needsNode eligible who of
        Inl e \<Rightarrow> (p, Inl e)
      | Inr _ \<Rightarrow>
          if frozen cfg then (p, Inr None)
          else let (cs, p1) = coverage_all cfg (filter (wanted want) (pmodels cfg)) now p
               in case foldl (better cfg) None (candidates cs) of
                    None \<Rightarrow> (p1, Inr None)
                  | Some (m, l, r) \<Rightarrow>
                      let begin = of_nat (rn_from r); endFull = of_nat (rn_to r);
                          fin = (if 0 < maxExperts then min endFull (fl (begin + maxExperts)) else endFull)
                      in (claim show_rat cfg (wallet_of who) (mi_id m) l (begin, fin) now p1,
                          Inr (Some \<lparr>as_model = m, as_layer = l, as_experts = (begin, fin),
                                     as_scarcity = scarcity (TARGET_REPLICAS cfg) (rn_count r),
                                     as_replicas = rn_count r\<rparr>)))"

text \<open>
  A coverage report. \<open>segs\<close> are the entries of the body's list that are arrays of three, each element
  already through \<^verbatim>\<open>Number\<close> (\<open>None\<close> when it is not finite).
\<close>

record coverage_body =
  cb_worker_id :: string
  cb_model :: string
  cb_segments :: "segment option list"
  cb_url :: string
  cb_owner :: string
  cb_platform :: platform

definition report_segments :: "coverage_body \<Rightarrow> segment list" where
  "report_segments b = List.map_filter id (take MAX_SEGMENTS_PER_WORKER (cb_segments b))"

definition no_platform :: platform where
  "no_platform = \<lparr>pf_os = '''', pf_deviceKind = '''', pf_accelerator = '''', pf_backend = ''''\<rparr>"

definition merge_platform :: "platform \<Rightarrow> platform \<Rightarrow> platform" where
  "merge_platform new old =
     \<lparr>pf_os = or_else (pf_os new) (pf_os old), pf_deviceKind = or_else (pf_deviceKind new) (pf_deviceKind old),
      pf_accelerator = or_else (pf_accelerator new) (pf_accelerator old),
      pf_backend = or_else (pf_backend new) (pf_backend old)\<rparr>"

definition session_of :: "string \<Rightarrow> string \<Rightarrow> string" where
  "session_of url workerId = take MAX_SESSION_LENGTH (or_else (drop 6 url) (''expert-'' @ workerId))"

definition wire_relay ::
  "string \<Rightarrow> string \<Rightarrow> segment list \<Rightarrow> string \<Rightarrow> platform \<Rightarrow> string \<Rightarrow> int \<Rightarrow> participation \<Rightarrow> participation \<times> nat option" where
  "wire_relay session model segments owner plat workerId now p =
     (case portFor workerId p of
        (None, p1) \<Rightarrow> (p1, None)
      | (Some port, p1) \<Rightarrow>
          let prior = (case get (pa_targets p1) session of None \<Rightarrow> '''' | Some t \<Rightarrow> rt_owner t);
              (l, b, e) = (case segments of [] \<Rightarrow> (0, 0, 0) | s # _ \<Rightarrow> s)
          in (p1\<lparr>pa_targets := put session
                  \<lparr>rt_port = port, rt_model = model, rt_layer = l, rt_experts = (b, e),
                   rt_owner = or_else owner prior, rt_platform = plat, rt_nodeId = workerId, rt_ts = now\<rparr>
                  (pa_targets p1)\<rparr>, Some port))"

record coverage_reply =
  cr_workers :: nat
  cr_port :: "nat option"
  cr_session :: "string option"

definition post_coverage ::
  "pconfig \<Rightarrow> (string \<Rightarrow> bool option) option \<Rightarrow> node_caller \<Rightarrow> coverage_body \<Rightarrow> int \<Rightarrow> participation
   \<Rightarrow> participation \<times> coverage_reply answer" where
  "post_coverage cfg eligible who b now p =
     (case needsNode eligible who of
        Inl e \<Rightarrow> (p, Inl e)
      | Inr _ \<Rightarrow>
          let workerId = trim (cb_worker_id b); model = trim (cb_model b)
          in if workerId = '''' \<or> model = '''' then (p, refuse 400 ''worker_id and model are required'')
             else let segments = report_segments b; previous = get (pa_workers p) workerId;
                      full = (previous = None \<and> MAX_WORKERS \<le> length (fst (liveWorkers now p)));
                      p0 = (if previous = None then snd (liveWorkers now p) else p)
                  in if full then (p0, refuse 503 ''the coverage census is full; try again shortly'')
                     else let owner = or_else (cb_owner b) (case previous of None \<Rightarrow> '''' | Some w \<Rightarrow> wk_owner w);
                              plat = merge_platform (cb_platform b) (case previous of None \<Rightarrow> no_platform | Some w \<Rightarrow> wk_platform w);
                              p1 = settle_claims cfg (case who of Node w \<Rightarrow> w | _ \<Rightarrow> owner) (last_part model) segments p0;
                              p2 = p1\<lparr>pa_workers := put workerId
                                     \<lparr>wk_model = last_part model, wk_segments = segments, wk_url = cb_url b,
                                      wk_owner = owner, wk_platform = plat, wk_ts = now\<rparr> (pa_workers p1)\<rparr>;
                              relay = starts_with (cb_url b) ''relay:'';
                              session = session_of (cb_url b) workerId;
                              (p3, port) = (if relay then wire_relay session (last_part model) segments owner plat workerId now p2
                                            else (p2, None));
                              (live, p4) = liveWorkers now p3
                          in (p4, Inr \<lparr>cr_workers = length live, cr_port = port,
                                       cr_session = (if relay then Some session else None)\<rparr>))"

definition get_sessions :: "node_caller \<Rightarrow> participation \<Rightarrow> (string \<times> relay_target \<times> bool) list answer" where
  "get_sessions who p =
     (if who \<noteq> Service then refuse 403 ''a service token is required to list relay sessions''
      else Inr (map (\<lambda>(s, t). (s, t, case get (pa_stats p) s of None \<Rightarrow> False | Some st \<Rightarrow> rs_closed st = 0)) (pa_targets p)))"

text \<open>Resolving an upgrade: the TCP endpoint, or the close code; \<open>None\<close> when the path is not a relay.\<close>

definition adopt_owner :: "string \<Rightarrow> string \<Rightarrow> participation \<Rightarrow> participation" where
  "adopt_owner session wallet p =
     (case get (pa_targets p) session of
        None \<Rightarrow> p
      | Some t \<Rightarrow> if rt_owner t = '''' \<and> wallet \<noteq> ''''
                  then p\<lparr>pa_targets := put session (t\<lparr>rt_owner := wallet\<rparr>) (pa_targets p)\<rparr> else p)"

definition resolveUpgrade ::
  "crypto \<Rightarrow> node_auth \<Rightarrow> string \<Rightarrow> string \<Rightarrow> string \<Rightarrow> string \<Rightarrow> nat \<Rightarrow> participation
   \<Rightarrow> participation \<times> ((nat \<times> string) + (string \<times> nat)) option" where
  "resolveUpgrade cr a path token session controllerId now p =
     (let wallet = (case node_verifyToken cr a token now of None \<Rightarrow> '''' | Some w \<Rightarrow> w);
          service = (na_serviceToken a \<noteq> '''' \<and> timingSafeEqual token (na_serviceToken a));
          dial = (\<lambda>s why. case get (pa_targets p) s of
                      None \<Rightarrow> (p, Some (Inl (4404, why)))
                    | Some t \<Rightarrow> (adopt_owner s wallet p, Some (Inr (s, rt_port t))))
      in if wallet = '''' \<and> \<not> service then (p, Some (Inl (4401, ''authentication required'')))
         else if path = ''/api/expert-relay'' then dial session ''unknown relay session''
         else if path = ''/api/ring-relay'' then dial (''ring-'' @ controllerId) ''unknown ring controller''
         else (p, None))"

text \<open>
  Which handler answers a request. \<open>shard_model\<close> is the capture of the pattern
  \<^verbatim>\<open>/^\/api\/proxy\/models\/([^/]+)\/expert-shard$/\<close>.
\<close>

definition shard_model :: "string \<Rightarrow> string option" where
  "shard_model path =
     (let pre = ''/api/proxy/models/''; suf = ''/expert-shard'';
          name = take (length path - length pre - length suf) (drop (length pre) path)
      in if path = pre @ name @ suf \<and> name \<noteq> '''' \<and> CHR ''/'' \<notin> set name then Some name else None)"

definition ALLOWED_METHOD :: "((string \<Rightarrow> bool) \<times> string) list" where
  "ALLOWED_METHOD =
     [(\<lambda>p. p = ''/api/auth/challenge'' \<or> p = ''/api/auth/node-token'', ''POST''),
      (\<lambda>p. p = ''/api/expert-volunteer'' \<or> p = ''/api/expert-coverage'', ''POST''),
      (\<lambda>p. p = ''/api/expert-demand'', ''GET''),
      (\<lambda>p. p = ''/api/expert-relay/sessions'', ''GET''),
      (\<lambda>p. shard_model p \<noteq> None, ''GET'')]"

datatype proute =
  Challenge | NodeToken | Demand | Volunteer | Coverage | Sessions | Shard string | WrongMethod string | NotOurs

definition handle_route :: "string \<Rightarrow> string \<Rightarrow> proute" where
  "handle_route meth path =
     (if meth = ''POST'' \<and> path = ''/api/auth/challenge'' then Challenge
      else if meth = ''POST'' \<and> path = ''/api/auth/node-token'' then NodeToken
      else if meth = ''GET'' \<and> path = ''/api/expert-demand'' then Demand
      else if meth = ''POST'' \<and> path = ''/api/expert-volunteer'' then Volunteer
      else if meth = ''POST'' \<and> path = ''/api/expert-coverage'' then Coverage
      else if meth = ''GET'' \<and> path = ''/api/expert-relay/sessions'' then Sessions
      else if meth = ''GET'' \<and> shard_model path \<noteq> None then Shard (the (shard_model path))
      else case List.find (\<lambda>(pat, _). pat path) ALLOWED_METHOD of
             Some (_, allowed) \<Rightarrow> WrongMethod allowed
           | None \<Rightarrow> NotOurs)"

text \<open>
  The shard download up to the request it sends to the reader: the reader's address and token and the query
  it forwards; \<open>decoded\<close> is the model name through \<^verbatim>\<open>decodeURIComponent\<close>.
\<close>

fun shard_query :: "(string \<Rightarrow> string option) \<Rightarrow> string list \<Rightarrow> (string \<times> string) list answer" where
  "shard_query query [] = Inr []"
| "shard_query query (key # keys) =
     (case query key of
        None \<Rightarrow> refuse 400 (key @ '' is required'')
      | Some v \<Rightarrow> (case shard_query query keys of Inl e \<Rightarrow> Inl e | Inr qs \<Rightarrow> Inr ((key, v) # qs)))"

definition get_shard ::
  "(string \<times> string) option \<Rightarrow> (string \<Rightarrow> bool option) option \<Rightarrow> node_caller \<Rightarrow> string \<Rightarrow> (string \<Rightarrow> string option)
   \<Rightarrow> (string \<times> string \<times> (string \<times> string) list) answer" where
  "get_shard shard eligible who decoded query =
     (case needsNode eligible who of
        Inl e \<Rightarrow> Inl e
      | Inr _ \<Rightarrow>
          (case shard of
             None \<Rightarrow> refuse 503 ''this bridge serves no expert shards''
           | Some (origin, token) \<Rightarrow>
               (case shard_query query [''layer'', ''expert_begin'', ''expert_end''] of
                  Inl e \<Rightarrow> Inl e
                | Inr qs \<Rightarrow> Inr (origin @ ''/shard'', token, (''model'', decoded) # qs))))"

text \<open>
  A path of the surface is never passed on to the gate behind it: with the right method it is served, with
  any other it is answered 405 naming the right one.
\<close>
lemma surface_never_falls_through:
  "handle_route meth path = NotOurs \<longleftrightarrow> (\<forall>(pat, _) \<in> set ALLOWED_METHOD. \<not> pat path)"
  by (auto simp: handle_route_def ALLOWED_METHOD_def)

section \<open>Runs\<close>

definition expand :: "run list \<Rightarrow> nat list" where
  "expand rs = concat (map (\<lambda>r. replicate (rn_to r - rn_from r) (rn_count r)) rs)"

text \<open>\<open>tiles a b rs\<close>: the runs follow one another from \<open>a\<close> to \<open>b\<close>, none empty, neighbours with different counts.\<close>

fun tiles :: "nat \<Rightarrow> nat \<Rightarrow> run list \<Rightarrow> bool" where
  "tiles a b [] = (a = b)"
| "tiles a b (r # rs) =
     (rn_from r = a \<and> a < rn_to r \<and> tiles (rn_to r) b rs \<and> (rs \<noteq> [] \<longrightarrow> rn_count (hd rs) \<noteq> rn_count r))"

lemma fold_runs_spec:
  "start < e \<Longrightarrow> e \<le> Suc (length reps) \<Longrightarrow> \<forall>i. start \<le> i \<and> i < e \<and> i < length reps \<longrightarrow> reps ! i = reps ! start \<Longrightarrow>
   e = Suc (length reps) \<longrightarrow> start = length reps \<Longrightarrow>
   tiles start (length reps) (fold_runs reps start e) \<and> expand (fold_runs reps start e) = drop start reps \<and>
   (start < length reps \<longrightarrow> fold_runs reps start e \<noteq> [] \<and> rn_count (hd (fold_runs reps start e)) = reps ! start)"
proof (induction reps start e rule: fold_runs.induct)
  case (1 reps start e)
  show ?case
  proof (cases "length reps < e")
    case True
    then have "start = length reps" using 1(4,6) by simp
    then show ?thesis using True by (subst (1 2 3 4) fold_runs.simps) (auto simp: expand_def)
  next
    case False
    show ?thesis
    proof (cases "e = length reps \<or> reps ! e \<noteq> reps ! start")
      case True
      let ?r = "\<lparr>rn_from = start, rn_to = e, rn_count = reps ! start\<rparr>"
      have eq: "fold_runs reps start e = ?r # fold_runs reps e (e + 1)"
        using False True by (subst fold_runs.simps) simp
      have ih: "e < e + 1" "e + 1 \<le> Suc (length reps)"
        "\<forall>i. e \<le> i \<and> i < e + 1 \<and> i < length reps \<longrightarrow> reps ! i = reps ! e"
        "e + 1 = Suc (length reps) \<longrightarrow> e = length reps"
        using False le_less_Suc_eq by auto
      have IH: "tiles e (length reps) (fold_runs reps e (e + 1))" "expand (fold_runs reps e (e + 1)) = drop e reps"
        "e < length reps \<longrightarrow> fold_runs reps e (e + 1) \<noteq> [] \<and> rn_count (hd (fold_runs reps e (e + 1))) = reps ! e"
        using 1(1) [OF False True ih] by blast+
      have none: "e = length reps \<Longrightarrow> fold_runs reps e (e + 1) = []" by (subst fold_runs.simps) simp
      have "replicate (e - start) (reps ! start) = take (e - start) (drop start reps)"
      proof (rule nth_equalityI)
        show "length (replicate (e - start) (reps ! start)) = length (take (e - start) (drop start reps))"
          using 1(3) False by simp
        fix i assume "i < length (replicate (e - start) (reps ! start))"
        then have i: "i < e - start" by simp
        then have "reps ! (start + i) = reps ! start"
          using 1(5) [rule_format, of "start + i"] False by linarith
        then show "replicate (e - start) (reps ! start) ! i = take (e - start) (drop start reps) ! i"
          using i False 1(3) by simp
      qed
      then have "expand (?r # fold_runs reps e (e + 1)) = take (e - start) (drop start reps) @ drop e reps"
        using IH(2) by (simp add: expand_def)
      also have "\<dots> = drop start reps"
        using 1(3) append_take_drop_id [of "e - start" "drop start reps"] by simp
      finally show ?thesis using eq IH True none 1(3) False by (auto simp: less_le)
    next
      case F2: False
      have eq: "fold_runs reps start e = fold_runs reps start (e + 1)" using False F2 by (subst fold_runs.simps) simp
      have a: "\<forall>i. start \<le> i \<and> i < e + 1 \<and> i < length reps \<longrightarrow> reps ! i = reps ! start"
      proof (intro allI impI)
        fix i assume i: "start \<le> i \<and> i < e + 1 \<and> i < length reps"
        show "reps ! i = reps ! start"
          using 1(5) [rule_format, of i] F2 i by (cases "i = e") simp_all
      qed
      have b: "start < e + 1" "e + 1 \<le> Suc (length reps)" "e + 1 = Suc (length reps) \<longrightarrow> start = length reps"
        using 1(3) False F2 by auto
      show ?thesis unfolding eq by (rule 1(2) [OF False F2 b(1,2) a b(3)])
    qed
  qed
qed

text \<open>
  The runs handed to volunteers are exactly the coverage: laid end to end they give every expert its
  replica count, they tile the experts from the first to the last without gap or overlap, and no two
  neighbours could have been one.
\<close>
theorem runs_exact: "expand (runs reps) = reps \<and> tiles 0 (length reps) (runs reps)"
proof (cases "reps = []")
  case True
  then show ?thesis by (simp add: runs_def fold_runs.simps expand_def)
next
  case False
  then show ?thesis using fold_runs_spec [of 0 1 reps] by (auto simp: runs_def)
qed

section \<open>Counts\<close>

definition covers :: "nat \<Rightarrow> nat \<Rightarrow> segment \<Rightarrow> bool" where
  "covers layer e seg = (case seg of (l, begin, fin) \<Rightarrow> l = of_nat layer \<and> counts_expert begin fin e)"

lemma length_add_window [simp]: "length (add_window b f reps) = length reps"
  by (simp add: add_window_def)

lemma nth_add_window: "e < length reps \<Longrightarrow> add_window b f reps ! e = reps ! e + (if counts_expert b f e then 1 else 0)"
  by (simp add: add_window_def)

lemma fold_segments:
  "length (foldl (\<lambda>r seg. add_segment layer seg r) reps segs) = length reps \<and>
   (e < length reps \<longrightarrow> foldl (\<lambda>r seg. add_segment layer seg r) reps segs ! e =
     reps ! e + length (filter (covers layer e) segs))"
  by (induction segs arbitrary: reps) (auto simp: add_segment_def covers_def nth_add_window split: prod.splits)

lemma fold_workers:
  "length (foldl (\<lambda>r w. add_worker info layer w r) reps ws) = length reps \<and>
   (e < length reps \<longrightarrow> foldl (\<lambda>r w. add_worker info layer w r) reps ws ! e =
     reps ! e + sum_list (map (\<lambda>w. if wk_model w = mi_id info \<or> wk_model w = mi_name info
       then length (filter (covers layer e) (wk_segments w)) else 0) ws))"
  by (induction ws arbitrary: reps) (auto simp: add_worker_def fold_segments)

lemma fold_claims:
  "length (foldl (\<lambda>r c. add_claim info layer c r) reps cs) = length reps \<and>
   (e < length reps \<longrightarrow> foldl (\<lambda>r c. add_claim info layer c r) reps cs ! e =
     reps ! e + length (filter (\<lambda>c. pc_model c = mi_id info \<and> pc_layer c = layer
       \<and> counts_expert (fst (pc_experts c)) (snd (pc_experts c)) e) cs))"
  by (induction cs arbitrary: reps) (auto simp: add_claim_def nth_add_window)

text \<open>
  The replica count of an expert is the number of segments reported by live workers of that model that
  hold it, plus the number of live promises of a window that contains it.
\<close>
theorem replicas_exact:
  assumes "e < mi_nExpert info"
  shows "length (replicas info ws cs layer) = mi_nExpert info \<and>
    replicas info ws cs layer ! e =
      sum_list (map (\<lambda>w. if wk_model w = mi_id info \<or> wk_model w = mi_name info
        then length (filter (covers layer e) (wk_segments w)) else 0) ws) +
      length (filter (\<lambda>c. pc_model c = mi_id info \<and> pc_layer c = layer
        \<and> counts_expert (fst (pc_experts c)) (snd (pc_experts c)) e) cs)"
  using assms fold_workers [of info layer "replicate (mi_nExpert info) 0" ws e]
    fold_claims [of info layer "foldl (\<lambda>r w. add_worker info layer w r) (replicate (mi_nExpert info) 0) ws" cs e]
  by (simp add: replicas_def)

theorem replicas_exact_witness:
  "replicas \<lparr>mi_id = ''m'', mi_name = ''M'', mi_nEmbd = 1, mi_nLayer = 1, mi_nExpert = 3, mi_expertLayers = [0]\<rparr> [] [] 0 ! 1 = 0"
  using replicas_exact [where e = 1 and ws = "[]" and cs = "[]" and layer = 0 and
      info = "\<lparr>mi_id = ''m'', mi_name = ''M'', mi_nEmbd = 1, mi_nLayer = 1, mi_nExpert = 3, mi_expertLayers = [0]\<rparr>"]
  by simp

section \<open>The assignment\<close>

lemma scarcity_at_target: "target \<le> n \<Longrightarrow> scarcity target n = 0"
proof -
  assume "target \<le> n"
  then have "fl (of_int (int target - int n)) \<le> 0" by (intro dbl.nonpos) simp
  then have "fl (fl (of_int (int target - int n)) / of_nat target) \<le> 0"
    by (intro dbl.nonpos) (simp add: divide_nonpos_nonneg)
  then have "max 0 (fl (fl (of_int (int target - int n)) / of_nat target)) = 0" by simp
  moreover have "js_round 0 = 0" using js_round_near [of 0 0] by simp
  ultimately show ?thesis by (simp only: scarcity_def) simp
qed

definition rank :: "pconfig \<Rightarrow> candidate \<Rightarrow> candidate \<Rightarrow> bool" where
  "rank cfg c b \<longleftrightarrow> cand_scarcity cfg c < cand_scarcity cfg b \<or>
     cand_scarcity cfg c = cand_scarcity cfg b \<and> width c \<le> width b"

lemma rank_trans: "rank cfg a b \<Longrightarrow> rank cfg b c \<Longrightarrow> rank cfg a c"
  by (auto simp: rank_def)

lemma fold_better:
  "(case foldl (better cfg) best cs of
      None \<Rightarrow> best = None \<and> (\<forall>c \<in> set cs. cand_scarcity cfg c \<le> 0)
    | Some b \<Rightarrow> (best = Some b \<or> b \<in> set cs \<and> 0 < cand_scarcity cfg b) \<and> (\<forall>b0. best = Some b0 \<longrightarrow> rank cfg b0 b)
        \<and> (\<forall>c \<in> set cs. 0 < cand_scarcity cfg c \<longrightarrow> rank cfg c b))"
proof (induction cs arbitrary: best)
  case Nil
  then show ?case by (cases best) (auto simp: rank_def)
next
  case (Cons c cs)
  have step: "better cfg best c = None \<Longrightarrow> best = None \<and> cand_scarcity cfg c \<le> 0"
    by (auto simp: better_def split: if_splits option.splits)
  have some: "better cfg best c = Some b \<Longrightarrow> (best = Some b \<or> b = c \<and> 0 < cand_scarcity cfg c) \<and>
      (\<forall>b0. best = Some b0 \<longrightarrow> rank cfg b0 b) \<and> (0 < cand_scarcity cfg c \<longrightarrow> rank cfg c b)" for b
    by (auto simp: better_def rank_def split: if_splits option.splits)
  show ?case
  proof (cases "foldl (better cfg) (better cfg best c) cs")
    case None
    then show ?thesis using Cons.IH [of "better cfg best c"] step by auto
  next
    case (Some b)
    from Cons.IH [of "better cfg best c"] Some
    have IH: "better cfg best c = Some b \<or> b \<in> set cs \<and> 0 < cand_scarcity cfg b"
      "\<forall>b0. better cfg best c = Some b0 \<longrightarrow> rank cfg b0 b" "\<forall>c \<in> set cs. 0 < cand_scarcity cfg c \<longrightarrow> rank cfg c b"
      by auto
    have "\<forall>b0. best = Some b0 \<longrightarrow> rank cfg b0 b" "0 < cand_scarcity cfg c \<longrightarrow> rank cfg c b"
      using IH(2) some step rank_trans by (metis not_le option.exhaust option.simps(3))+
    moreover have "best = Some b \<or> b \<in> set (c # cs) \<and> 0 < cand_scarcity cfg b"
      using IH(1) some [of b] by fastforce
    ultimately show ?thesis using Some IH(3) by simp
  qed
qed


section \<open>The census is bounded and ports are exclusive\<close>

definition part_ok :: "participation \<Rightarrow> bool" where
  "part_ok p \<longleftrightarrow>
     keyed (pa_workers p) \<and> keyed (pa_ports p) \<and> length (pa_workers p) \<le> MAX_WORKERS \<and>
     distinct (map snd (pa_ports p)) \<and> (\<forall>port \<in> snd ` set (pa_ports p). PORT_BASE \<le> port \<and> port < PORT_BASE + PORT_SPAN) \<and>
     fst ` set (pa_ports p) \<subseteq> fst ` set (pa_workers p) \<and>
     (\<forall>w \<in> snd ` set (pa_workers p). length (wk_segments w) \<le> MAX_SEGMENTS_PER_WORKER)"

lemma set_del: "set (del k t) = {x \<in> set t. fst x \<noteq> k}"
  by (auto simp: AList.delete_eq)

lemma distinct_snd_del: "distinct (map snd t) \<Longrightarrow> distinct (map snd (del k t))"
  by (simp add: AList.delete_eq distinct_map_filter)

lemma drop_worker_ok: "part_ok p \<Longrightarrow> part_ok (drop_worker i p)"
  using length_del_le [of i "pa_workers p"]
  by (auto simp: part_ok_def drop_worker_def Let_def tab.wf_rem distinct_snd_del set_del)

abbreviation sweep :: "int \<Rightarrow> worker table \<Rightarrow> participation \<Rightarrow> participation" where
  "sweep now ws p \<equiv> foldl (\<lambda>p (i, w). if stale now w then drop_worker i p else p) p ws"

lemma sweep_ok: "part_ok p \<Longrightarrow> part_ok (sweep now ws p)"
  by (induction ws arbitrary: p) (auto simp: drop_worker_ok)

lemma sweep_workers:
  "pa_workers (sweep now ws p) = filter (\<lambda>(i, _). \<forall>w. (i, w) \<in> set ws \<longrightarrow> \<not> stale now w) (pa_workers p)"
proof (induction ws arbitrary: p)
  case (Cons x ws)
  obtain i w where x: "x = (i, w)" by (cases x)
  show ?case
  proof (cases "stale now w")
    case True
    have "pa_workers (drop_worker i p) = filter (\<lambda>(k, _). k \<noteq> i) (pa_workers p)"
      by (simp add: drop_worker_def Let_def AList.delete_eq eq_commute)
    then show ?thesis using Cons.IH [of "drop_worker i p"] True
      by (auto simp: x intro!: filter_cong)
  next
    case False
    then show ?thesis using Cons.IH [of p] by (auto simp: x intro!: filter_cong)
  qed
qed (simp add: case_prod_beta)

lemma live_workers:
  assumes "keyed (pa_workers p)"
  shows "pa_workers (snd (liveWorkers now p)) = fst (liveWorkers now p)"
proof -
  have "(\<forall>w. (i, w) \<in> set (pa_workers p) \<longrightarrow> \<not> stale now w) \<longleftrightarrow> \<not> stale now v" if "(i, v) \<in> set (pa_workers p)" for i v
    using keyed_get [OF assms] that by (metis option.inject)
  then show ?thesis by (auto simp: liveWorkers_def sweep_workers intro!: filter_cong)
qed

lemma live_ok: "part_ok p \<Longrightarrow> part_ok (snd (liveWorkers now p))"
  by (simp add: liveWorkers_def sweep_ok)

lemma part_ok_same:
  "part_ok p \<Longrightarrow> pa_workers p' = pa_workers p \<Longrightarrow> pa_ports p' = pa_ports p \<Longrightarrow> part_ok p'"
  by (simp add: part_ok_def)

lemma set_put_table: "set (put k v t) \<subseteq> insert (k, v) (set t)" "fst ` set (put k v t) = insert k (fst ` set t)"
proof -
  show "set (put k v t) \<subseteq> insert (k, v) (set t)" by (induction t) auto
  show "fst ` set (put k v t) = insert k (fst ` set t)"
    using dom_update [of k v t] by (simp add: dom_map_of_conv_image_fst)
qed

lemma put_absent_set: "get t k = None \<Longrightarrow> map snd (put k v t) = map snd t @ [v]"
  by (simp add: put_absent)

lemma portFor_ok:
  assumes ok: "part_ok p" and w: "i \<in> fst ` set (pa_workers p)"
  shows "part_ok (snd (portFor i p))"
proof (cases "get (pa_ports p) i")
  case None
  show ?thesis
  proof (cases "List.find (\<lambda>port. port \<notin> set (map snd (pa_ports p))) (map (\<lambda>i. PORT_BASE + i) [0..<PORT_SPAN])")
    case (Some port)
    then have "port \<in> set (map (\<lambda>i. PORT_BASE + i) [0..<PORT_SPAN])" "port \<notin> set (map snd (pa_ports p))"
      using find_SomeD by fast+
    moreover have "snd (portFor i p) = p\<lparr>pa_ports := put i port (pa_ports p)\<rparr>"
      using None Some by (simp add: portFor_def)
    moreover have "map snd (put i port (pa_ports p)) = map snd (pa_ports p) @ [port]" "put i port (pa_ports p) = pa_ports p @ [(i, port)]"
      using None by (simp_all add: put_absent)
    moreover have "keyed (put i port (pa_ports p))" using ok by (simp add: part_ok_def tab.wf_upd)
    ultimately show ?thesis using ok w by (auto simp: part_ok_def)
  qed (simp add: portFor_def None ok)
qed (simp add: portFor_def ok)

lemma wire_relay_ok:
  "part_ok p \<Longrightarrow> i \<in> fst ` set (pa_workers p) \<Longrightarrow> part_ok (fst (wire_relay s m segs ow pl i now p))"
  using portFor_ok [of p i] by (auto simp: wire_relay_def Let_def part_ok_same split: prod.split option.split)

lemma settle_claims_keeps [simp]:
  "pa_workers (settle_claims cfg ow m segs p) = pa_workers p" "pa_ports (settle_claims cfg ow m segs p) = pa_ports p"
  by (simp_all add: settle_claims_def Let_def)

lemma report_segments_bound: "length (report_segments b) \<le> MAX_SEGMENTS_PER_WORKER"
proof -
  have "length (List.map_filter id xs) \<le> length xs" for xs :: "segment option list"
    by (induction xs) (auto simp: List.map_filter_simps split: option.split)
  from this [of "take MAX_SEGMENTS_PER_WORKER (cb_segments b)"] show ?thesis
    by (simp add: report_segments_def)
qed

lemma add_worker_ok:
  assumes ok: "part_ok p" and room: "get (pa_workers p) i \<noteq> None \<or> length (pa_workers p) < MAX_WORKERS"
    and segs: "length (wk_segments w) \<le> MAX_SEGMENTS_PER_WORKER" and ws: "pa_workers p' = put i w (pa_workers p)" "pa_ports p' = pa_ports p"
  shows "part_ok p'"
proof -
  have "length (put i w t) = length t" if "get t i \<noteq> None" for t :: "worker table"
    using that by (induction t) (auto split: if_splits)
  then have "length (put i w (pa_workers p)) \<le> MAX_WORKERS"
    using room ok length_put_le [of i w "pa_workers p"] by (fastforce simp: part_ok_def)
  moreover have "v \<in> snd ` set (put i w (pa_workers p)) \<Longrightarrow> length (wk_segments v) \<le> MAX_SEGMENTS_PER_WORKER" for v
    using set_put_table(1) [of i w "pa_workers p"] ok segs by (auto simp: part_ok_def)
  ultimately show ?thesis using ok set_put_table(2) [of i w "pa_workers p"] by (auto simp: part_ok_def ws tab.wf_upd)
qed

lemma post_coverage_ok:
  assumes ok: "part_ok p"
  shows "part_ok (fst (post_coverage cfg el who b now p))"
proof (cases "needsNode el who")
  case (Inr u)
  let ?i = "trim (cb_worker_id b)"
  let ?p0 = "if get (pa_workers p) ?i = None then snd (liveWorkers now p) else p"
  have ok0: "part_ok ?p0" using ok live_ok by simp
  have room: "get (pa_workers ?p0) ?i \<noteq> None \<or> length (pa_workers ?p0) < MAX_WORKERS"
    if "\<not> (get (pa_workers p) ?i = None \<and> MAX_WORKERS \<le> length (fst (liveWorkers now p)))"
    using that live_workers ok by (auto simp: part_ok_def)
  have "part_ok p2" if "pa_workers p2 = put ?i w (pa_workers ?p0)" "pa_ports p2 = pa_ports ?p0"
    "wk_segments w = report_segments b"
    "\<not> (get (pa_workers p) ?i = None \<and> MAX_WORKERS \<le> length (fst (liveWorkers now p)))" for p2 w
    by (rule add_worker_ok [OF ok0 room [OF that(4)] _ that(1,2)]) (simp add: that(3) report_segments_bound)
  moreover have "?i \<in> fst ` set (put ?i w t)" for w and t :: "worker table" by (simp add: set_put_table)
  ultimately show ?thesis
    using ok0 ok Inr
    by (auto simp: post_coverage_def Let_def case_prod_unfold intro!: live_ok wire_relay_ok)
qed (simp add: post_coverage_def ok)

lemma coverage_ok: "part_ok p \<Longrightarrow> part_ok (snd (coverage cfg m now p))"
  using live_ok [of p now]
  by (auto simp: coverage_def livePending_def Let_def case_prod_unfold part_ok_same split: option.split)

lemma coverage_all_ok: "part_ok p \<Longrightarrow> part_ok (snd (coverage_all cfg ms now p))"
  by (induction ms arbitrary: p) (auto simp: Let_def case_prod_unfold coverage_ok)

lemma claim_keeps [simp]:
  "pa_workers (claim sr cfg ow m l ex now p) = pa_workers p" "pa_ports (claim sr cfg ow m l ex now p) = pa_ports p"
  by (simp_all add: claim_def Let_def)

inductive part_step :: "pconfig \<Rightarrow> participation \<Rightarrow> participation \<Rightarrow> bool" for cfg where
  demand: "part_step cfg p (fst (get_demand cfg el who want now p))"
| volunteer: "part_step cfg p (fst (post_volunteer sr cfg el who want mx now p))"
| report: "part_step cfg p (fst (post_coverage cfg el who b now p))"
| upgrade: "part_step cfg p (fst (resolveUpgrade cr a path token session ctl sec p))"
| bytes: "part_step cfg p (noteRelayBytes session d n p)"
| closed_relay: "part_step cfg p (noteRelayClosed cfg session now p)"
| flush: "part_step cfg p (flushContributions cfg p)"

lemma part_step_ok: "part_step cfg p p' \<Longrightarrow> part_ok p \<Longrightarrow> part_ok p'"
proof (induction rule: part_step.induct)
  case (demand p el who want now)
  then show ?case
    using coverage_all_ok by (auto simp: get_demand_def case_prod_unfold Let_def split: sum.split)
next
  case (volunteer p sr el who want mx now)
  let ?p1 = "snd (coverage_all cfg (filter (wanted want) (pmodels cfg)) now p)"
  have "part_ok ?p1" using volunteer coverage_all_ok by blast
  then have "part_ok (claim sr cfg ow m l ex now ?p1)" for ow m l ex by (rule part_ok_same) simp_all
  then show ?case
    using volunteer \<open>part_ok ?p1\<close>
    by (auto simp: post_volunteer_def case_prod_unfold Let_def split: sum.split option.split)
next
  case (report p el who b now)
  then show ?case by (rule post_coverage_ok)
next
  case (upgrade p cr a path token session ctl sec)
  have "part_ok (adopt_owner s w p)" for s w
    by (rule part_ok_same [OF upgrade]) (simp_all add: adopt_owner_def split: option.split)
  then show ?case using upgrade by (simp add: resolveUpgrade_def Let_def split: option.split)
next
  case (bytes p session d n)
  then show ?case by (rule part_ok_same) (simp_all add: noteRelayBytes_def Let_def)
next
  case (closed_relay p session now)
  then show ?case
    by (rule part_ok_same) (simp_all add: noteRelayClosed_def flushContributions_def split: option.split)
next
  case (flush p)
  then show ?case by (rule part_ok_same) (simp_all add: flushContributions_def)
qed

text \<open>
  No participant can turn its bookkeeping into the host's problem: the census never exceeds its cap, no
  worker holds more than 256 segments, no two workers share a relay port, every port is one of the sixty of
  the span, and a port is held only by a worker of the census, so it is freed when that worker goes stale.
\<close>
theorem census_bounded:
  assumes "(part_step cfg)\<^sup>*\<^sup>* new_participation p"
  shows "length (pa_workers p) \<le> MAX_WORKERS \<and>
    (\<forall>i w. get (pa_workers p) i = Some w \<longrightarrow> length (wk_segments w) \<le> MAX_SEGMENTS_PER_WORKER) \<and>
    (\<forall>i j port. get (pa_ports p) i = Some port \<and> get (pa_ports p) j = Some port \<longrightarrow> i = j) \<and>
    (\<forall>i port. get (pa_ports p) i = Some port \<longrightarrow>
       PORT_BASE \<le> port \<and> port < PORT_BASE + PORT_SPAN \<and> get (pa_workers p) i \<noteq> None)"
proof -
  from assms have ok: "part_ok p"
  proof (induction rule: rtranclp_induct)
    case base
    then show ?case by (simp add: part_ok_def new_participation_def)
  next
    case (step a b)
    then show ?case using part_step_ok by blast
  qed
  have "i = j" if "get (pa_ports p) i = Some port" "get (pa_ports p) j = Some port" for i j port
  proof -
    from that have "(i, port) \<in> set (pa_ports p)" "(j, port) \<in> set (pa_ports p)" by (auto dest: get_in_set)
    moreover have "inj_on snd (set (pa_ports p))" using ok by (simp add: part_ok_def distinct_map)
    ultimately have "(i, port) = (j, port)" by (metis inj_onD snd_conv)
    then show ?thesis by simp
  qed
  moreover have "get (pa_workers p) i \<noteq> None" if "get (pa_ports p) i = Some port" for i port
    using ok get_in_set [OF that] unfolding part_ok_def map_of_eq_None_iff by (metis fst_conv imageI subsetD)
  moreover have "PORT_BASE \<le> port \<and> port < PORT_BASE + PORT_SPAN" if "get (pa_ports p) i = Some port" for i port
    using ok get_in_set [OF that] by (force simp: part_ok_def)
  moreover have "length (wk_segments w) \<le> MAX_SEGMENTS_PER_WORKER" if "get (pa_workers p) i = Some w" for i w
    using ok get_in_set [OF that] by (force simp: part_ok_def)
  moreover have "length (pa_workers p) \<le> MAX_WORKERS" using ok by (simp add: part_ok_def)
  ultimately show ?thesis by simp
qed

section \<open>Contribution\<close>

lemma flush_one_twice: "flush_one cfg ts (fst (flush_one cfg ts row)) = (fst (flush_one cfg ts row), [])"
  by (cases row) (auto simp: flush_one_def carried_def split: option.split)

text \<open>
  Relay bytes are paid once: a flush brings the credited bytes of every session that has a target up to
  what it carried in its larger direction, and flushing again credits nothing.
\<close>
theorem flush_credits_once:
  "flushContributions cfg (flushContributions cfg p) = flushContributions cfg p \<and>
   (\<forall>(session, s) \<in> set (pa_stats (flushContributions cfg p)).
      get (pa_targets p) session \<noteq> None \<longrightarrow> carried s \<le> rs_credited s)"
proof
  have "map (fst \<circ> flush_one cfg ts) (map (fst \<circ> flush_one cfg ts) rows) = map (fst \<circ> flush_one cfg ts) rows"
    "concat (map (snd \<circ> flush_one cfg ts) (map (fst \<circ> flush_one cfg ts) rows)) = []" for ts rows
    by (simp_all add: flush_one_twice comp_def)
  then show "flushContributions cfg (flushContributions cfg p) = flushContributions cfg p"
    by (simp add: flushContributions_def)
  show "\<forall>(session, s) \<in> set (pa_stats (flushContributions cfg p)).
      get (pa_targets p) session \<noteq> None \<longrightarrow> carried s \<le> rs_credited s"
    by (auto simp: flushContributions_def flush_one_def carried_def split: option.splits if_splits prod.splits)
qed

lemma all_live: "(\<And>j v. (j, v) \<in> set (pa_workers p) \<Longrightarrow> \<not> stale now v) \<Longrightarrow> snd (liveWorkers now p) = p"
proof -
  assume fresh: "\<And>j v. (j, v) \<in> set (pa_workers p) \<Longrightarrow> \<not> stale now v"
  have "sweep now ws q = q" if "\<And>j v. (j, v) \<in> set ws \<Longrightarrow> \<not> stale now v" for ws q
    using that by (induction ws arbitrary: q) fastforce+
  then show ?thesis using fresh by (simp add: liveWorkers_def)
qed

text \<open>
  A relay session is not bound to the wallet that opened it: any admitted node that reports coverage with
  another worker's session name in its url takes the session over, owner and node id included, so what crosses
  that worker's relay is credited to the newcomer.
\<close>
theorem coverage_takes_over_session:
  assumes "get (pa_targets p) session = Some t" and "session \<noteq> ''''" and "length session \<le> MAX_SESSION_LENGTH"
    and "allows el w" and "trim (cb_worker_id b) = i" and "i \<noteq> ''''" and "trim (cb_model b) \<noteq> ''''"
    and "get (pa_workers p) i = Some wk" and "\<not> stale now wk" and "get (pa_ports p) i = Some port"
    and "cb_url b = ''relay:'' @ session" and "cb_owner b = thief" and "thief \<noteq> ''''"
    and "\<forall>j v. (j, v) \<in> set (pa_workers p) \<longrightarrow> \<not> stale now v"
  shows "\<exists>t'. get (pa_targets (fst (post_coverage cfg el (Node w) b now p))) session = Some t' \<and>
    rt_nodeId t' = i \<and> rt_owner t' = thief"
proof -
  let ?v = "\<lparr>wk_model = last_part (trim (cb_model b)), wk_segments = report_segments b, wk_url = cb_url b,
    wk_owner = thief, wk_platform = merge_platform (cb_platform b) (wk_platform wk), wk_ts = now\<rparr>"
  let ?p2 = "(settle_claims cfg w (last_part (trim (cb_model b))) (report_segments b) p)\<lparr>pa_workers := put i ?v (pa_workers p)\<rparr>"
  let ?p3 = "fst (wire_relay session (last_part (trim (cb_model b))) (report_segments b) thief (merge_platform (cb_platform b) (wk_platform wk)) i now ?p2)"
  have s: "session_of (cb_url b) i = session" "starts_with (cb_url b) ''relay:''"
    using assms(2,3,11) by (simp_all add: session_of_def or_else_def starts_with_def)
  have wired: "pa_workers ?p3 = put i ?v (pa_workers p)"
    "\<exists>t'. get (pa_targets ?p3) session = Some t' \<and> rt_nodeId t' = i \<and> rt_owner t' = thief"
    using assms(10,13) by (auto simp: wire_relay_def portFor_def Let_def case_prod_unfold or_else_def table_simps)
  have "\<not> stale now v" if "(j, v) \<in> set (pa_workers ?p3)" for j v
    using that assms(14) set_put_table(1) [of i ?v "pa_workers p"] unfolding wired(1)
    by (auto simp: stale_def WORKER_STALE_MS_def)
  then have "snd (liveWorkers now ?p3) = ?p3" by (simp add: all_live)
  moreover have "fst (post_coverage cfg el (Node w) b now p) = snd (liveWorkers now ?p3)"
    using assms s by (simp add: post_coverage_def needsNode_def Let_def case_prod_unfold or_else_def)
  ultimately show ?thesis using wired(2) by simp
qed

section \<open>A small census\<close>

definition demo_platform :: platform where "demo_platform = no_platform"

definition demo_worker :: worker where
  "demo_worker = \<lparr>wk_model = ''m'', wk_segments = [(0, 0, 2)], wk_url = ''relay:s'', wk_owner = ''alice'',
    wk_platform = demo_platform, wk_ts = 0\<rparr>"

definition demo_target :: relay_target where
  "demo_target = \<lparr>rt_port = 52970, rt_model = ''m'', rt_layer = 0, rt_experts = (0, 2), rt_owner = ''alice'',
    rt_platform = demo_platform, rt_nodeId = ''w1'', rt_ts = 0\<rparr>"

definition demo_census :: participation where
  "demo_census = \<lparr>pa_workers = [(''w1'', demo_worker), (''w2'', demo_worker)], pa_targets = [(''s'', demo_target)],
    pa_pending = [], pa_stats = [(''s'', \<lparr>rs_closed = 0, rs_ws2tcp = 7, rs_tcp2ws = 3, rs_credited = 2\<rparr>)],
    pa_ports = [(''w1'', 52970), (''w2'', 52971)], pa_credits = []\<rparr>"

definition demo_config :: pconfig where
  "demo_config = \<lparr>TARGET_REPLICAS = 1, UNITS_PER_MB = 1,
    pmodels = [\<lparr>mi_id = ''m'', mi_name = ''M'', mi_nEmbd = 1, mi_nLayer = 1, mi_nExpert = 3, mi_expertLayers = [0]\<rparr>],
    frozen = False\<rparr>"

definition demo_report :: coverage_body where
  "demo_report = \<lparr>cb_worker_id = ''w2'', cb_model = ''m'', cb_segments = [Some (0, 0, 2)], cb_url = ''relay:s'',
    cb_owner = ''mallory'', cb_platform = demo_platform\<rparr>"

lemmas demo_defs = demo_platform_def demo_worker_def demo_target_def demo_census_def demo_config_def demo_report_def

theorem coverage_takes_over_session_witness:
  "\<exists>t'. get (pa_targets (fst (post_coverage demo_config (Some (\<lambda>w. Some True)) (Node ''mallory'') demo_report 1 demo_census))) ''s''
     = Some t' \<and> rt_nodeId t' = ''w2'' \<and> rt_owner t' = ''mallory''"
  by (rule coverage_takes_over_session [where t = demo_target and wk = demo_worker and port = 52971])
    (auto simp: demo_defs MAX_SESSION_LENGTH_def allows_def trim_def is_space_def stale_def WORKER_STALE_MS_def)

theorem flush_credits_once_witness:
  "pa_stats (flushContributions demo_config demo_census) =
     [(''s'', \<lparr>rs_closed = 0, rs_ws2tcp = 7, rs_tcp2ws = 3, rs_credited = 7\<rparr>)] \<and>
   flushContributions demo_config (flushContributions demo_config demo_census) = flushContributions demo_config demo_census"
  using flush_credits_once [of demo_config demo_census]
  by (simp add: flushContributions_def flush_one_def carried_def demo_defs)

theorem census_bounded_witness:
  "length (pa_workers (fst (post_coverage demo_config None Service demo_report 1 new_participation))) \<le> MAX_WORKERS"
proof -
  have "(part_step demo_config)\<^sup>*\<^sup>* new_participation
    (fst (post_coverage demo_config None Service demo_report 1 new_participation))"
    by (intro r_into_rtranclp part_step.report)
  from census_bounded [OF this] show ?thesis by blast
qed

lemma demo_scarcity: "scarcity 1 0 = 1"
proof -
  have "fl 1 = 1" "fl 1000 = 1000" using fl_of_int [of 1] fl_of_int [of 1000] by simp_all
  moreover have "js_round 1000 = 1000" using js_round_near [of 1000 1000] by simp
  ultimately show ?thesis by (simp add: scarcity_def)
qed

lemma demo_volunteer:
  "coverage_all demo_config (filter (wanted '''') (pmodels demo_config)) 1 new_participation =
     ([(hd (pmodels demo_config), [(0, [\<lparr>rn_from = 0, rn_to = 3, rn_count = 0\<rparr>])])], new_participation)"
  by (simp add: demo_config_def wanted_def coverage_def modelInfo_def liveWorkers_def livePending_def new_participation_def
      replicas_def runs_def fold_runs.simps numeral_3_eq_3)


end
