(* ===== verification/Bridge_Http.thy ===== *)
theory Bridge_Http
  imports Bridge_Dial Bridge_Participation
begin

text \<open>
  The HTTP face of the bridge (\<^verbatim>\<open>p4bridge/server.js\<close>): the service-token gate and the routing, the prompt a chat
  body asks for, the chat answer whole or streamed, the contribution ledger the gateway polls, the nodes it is
  told are alive, the relay upgrades, and who may take a node token.

  \<open>stringify\<close> is \<^verbatim>\<open>JSON.stringify\<close> of a frame.
\<close>

section \<open>The gate\<close>

text \<open>The presented token: the first non-empty of the service header and the bearer value.\<close>

definition authorized :: "string \<Rightarrow> string \<Rightarrow> string \<Rightarrow> bool" where
  "authorized SERVICE_TOKEN service authorization =
     (SERVICE_TOKEN = '''' \<or>
      (case List.find (\<lambda>v. v \<noteq> '''') [service, strip_bearer authorization] of
         None \<Rightarrow> False
       | Some presented \<Rightarrow> presented = SERVICE_TOKEN))"

definition PARTICIPATION_PATHS :: "string \<Rightarrow> bool" where
  "PARTICIPATION_PATHS p \<longleftrightarrow>
     p = ''/api/auth/challenge'' \<or> p = ''/api/auth/node-token'' \<or>
     p = ''/api/expert-demand'' \<or> p = ''/api/expert-volunteer'' \<or> p = ''/api/expert-coverage'' \<or>
     shard_model p \<noteq> None \<or> p = ''/api/expert-relay/sessions''"

text \<open>\<^verbatim>\<open>/^\/c\/([^/]+)(\/.*)$/\<close>\<close>

definition controller_path :: "string \<Rightarrow> (string \<times> string) option" where
  "controller_path p =
     (if starts_with p ''/c/''
      then let r = drop 3 p; i = takeWhile (\<lambda>c. c \<noteq> CHR ''/'') r; rest = dropWhile (\<lambda>c. c \<noteq> CHR ''/'') r
           in if i \<noteq> '''' \<and> rest \<noteq> '''' then Some (i, rest) else None
      else None)"

definition placement_path :: "string \<Rightarrow> bool" where
  "placement_path p \<longleftrightarrow>
     (case split_on (CHR ''/'') p of
        [e, api, ctl, i, act] \<Rightarrow> e = '''' \<and> api = ''api'' \<and> ctl = ''controllers'' \<and> i \<noteq> '''' \<and> act \<in> {''serve'', ''unload''}
      | _ \<Rightarrow> False)"

datatype broute =
  Participate proute | Unauthorized | Health | Controllers | Runtime | Contributions
  | UnknownController | NotServing | Models catalog_model | Chat catalog_model | UnsupportedPath | Admit | PlacementExternal | NotFound

definition serves :: "bridge_state \<Rightarrow> catalog_model \<Rightarrow> bool" where
  "serves b m = (case get (br_serving b) (cm_id m) of None \<Rightarrow> False | Some s \<Rightarrow> sv_serving s)"

definition controller_route :: "bridge_state \<Rightarrow> string \<Rightarrow> string \<Rightarrow> string \<Rightarrow> broute" where
  "controller_route b meth i rest =
     (case List.find (\<lambda>m. cm_id m = i) (ct_models (br_catalog b)) of
        None \<Rightarrow> UnknownController
      | Some m \<Rightarrow>
          if \<not> serves b m then NotServing
          else if meth = ''GET'' \<and> rest = ''/v1/models'' then Models m
          else if meth = ''POST'' \<and> rest = ''/v1/chat/completions'' then Chat m
          else UnsupportedPath)"

text \<open>
  \<open>createServer\<close>: which answer a request gets, behind the gate and before it. \<open>part\<close> says whether the
  participation surface is on.
\<close>

definition gated_route :: "string \<Rightarrow> bridge_state \<Rightarrow> string \<Rightarrow> string \<Rightarrow> string \<Rightarrow> string \<Rightarrow> broute" where
  "gated_route SERVICE_TOKEN b meth path service authorization =
     (if path \<noteq> ''/health'' \<and> path \<noteq> ''/api/health'' \<and> \<not> authorized SERVICE_TOKEN service authorization then Unauthorized
      else if meth = ''GET'' \<and> (path = ''/health'' \<or> path = ''/api/health'') then Health
      else if meth = ''GET'' \<and> path = ''/api/controllers'' then Controllers
      else if meth = ''GET'' \<and> path = ''/api/runtime'' then Runtime
      else if meth = ''GET'' \<and> path = ''/api/contributions'' then Contributions
      else case controller_path path of
             Some (i, rest) \<Rightarrow> controller_route b meth i rest
           | None \<Rightarrow>
               if meth = ''POST'' \<and> path = ''/api/admissions'' then Admit
               else if meth = ''POST'' \<and> placement_path path then PlacementExternal
               else NotFound)"

definition server_route :: "string \<Rightarrow> bool \<Rightarrow> bridge_state \<Rightarrow> string \<Rightarrow> string \<Rightarrow> string \<Rightarrow> string \<Rightarrow> broute" where
  "server_route SERVICE_TOKEN part b meth path service authorization =
     (if part \<and> PARTICIPATION_PATHS path \<and> handle_route meth path \<noteq> NotOurs then Participate (handle_route meth path)
      else gated_route SERVICE_TOKEN b meth path service authorization)"

definition health :: "bridge_state \<Rightarrow> nat \<times> nat" where
  "health b =
     (let serving = length (filter (\<lambda>(i, s). sv_serving s) (br_serving b)) in (if 0 < serving then 200 else 503, serving))"

record controller_row =
  ctl_id :: string
  ctl_name :: string
  ctl_serving :: bool
  ctl_phase :: string
  ctl_generation :: int
  ctl_stages :: "stage_state list"

definition controllers :: "bridge_state \<Rightarrow> controller_row list" where
  "controllers b =
     map (\<lambda>m. let st = (case get (br_serving b) (cm_id m) of
                          None \<Rightarrow> \<lparr>sv_serving = False, sv_stages = [], sv_reported = False\<rparr> | Some s \<Rightarrow> s)
              in \<lparr>ctl_id = cm_id m, ctl_name = cm_name m, ctl_serving = sv_serving st,
                  ctl_phase = (if sv_serving st then ''serving'' else ''unloaded''),
                  ctl_generation = cm_loadGeneration m, ctl_stages = sv_stages st\<rparr>) (ct_models (br_catalog b))"

section \<open>Prompts\<close>

datatype content = Parts "string option list" | Text string

record chat_message =
  ms_role :: "string option"
  ms_content :: content

definition textOf :: "chat_message \<Rightarrow> string" where
  "textOf m = (case ms_content m of
     Parts ps \<Rightarrow> concat (map (\<lambda>p. case p of None \<Rightarrow> '''' | Some t \<Rightarrow> t) ps) | Text t \<Rightarrow> t)"

definition role_of :: "chat_message \<Rightarrow> string" where
  "role_of m = (case ms_role m of None \<Rightarrow> ''user'' | Some r \<Rightarrow> r)"

fun join :: "string \<Rightarrow> string list \<Rightarrow> string" where
  "join sep [] = ''''"
| "join sep [x] = x"
| "join sep (x # y # xs) = x @ sep @ join sep (y # xs)"

record chat_body =
  bd_prompt :: "string option"
  bd_messages :: "chat_message list"
  bd_max_tokens :: "jsval option"
  bd_stream :: bool
  bd_thinking_off :: bool

definition think_tag :: string where "think_tag = ''</think>''"

definition promptFrom :: "chat_body \<Rightarrow> string \<Rightarrow> bool \<Rightarrow> bool \<Rightarrow> string" where
  "promptFrom body format reasoning thinkingOpen =
     (case bd_prompt body of
        Some p \<Rightarrow> p
      | None \<Rightarrow>
          if format = ''chatml'' then
            (let turns = concat (map (\<lambda>m. ''<|im_start|>'' @ role_of m @ [newline] @ textOf m @ ''<|im_end|>'' @ [newline]) (bd_messages body));
                 think = (if \<not> reasoning then '''' else if thinkingOpen then ''<think>'' @ [newline]
                          else ''<think>'' @ [newline, newline] @ think_tag @ [newline, newline])
             in turns @ ''<|im_start|>assistant'' @ [newline] @ think)
          else join [newline, newline]
                 (map (\<lambda>m. if role_of m = ''user'' then textOf m else role_of m @ '': '' @ textOf m) (bd_messages body)))"

fun find_sub :: "string \<Rightarrow> string \<Rightarrow> nat option" where
  "find_sub pat [] = (if pat = '''' then Some 0 else None)"
| "find_sub pat (c # s) = (if starts_with (c # s) pat then Some 0 else map_option Suc (find_sub pat s))"

text \<open>The answer and the thought.\<close>

definition splitReasoning :: "string \<Rightarrow> string \<times> string" where
  "splitReasoning text =
     (case find_sub think_tag text of
        None \<Rightarrow> ('''', trim text)
      | Some k \<Rightarrow> (trim (drop (k + length think_tag) text), trim (take k text)))"

section \<open>Chat\<close>

record usage =
  us_prompt :: nat
  us_completion :: nat

definition chat_usage :: "generated \<Rightarrow> usage" where
  "chat_usage g = \<lparr>us_prompt = (case gn_promptTokens g of None \<Rightarrow> 0 | Some n \<Rightarrow> n), us_completion = gn_completionTokens g\<rparr>"

text \<open>\<open>total_tokens\<close> is the sum of the two.\<close>

datatype frame = RoleFrame | ContentFrame string | FinishFrame string | UsageFrame usage | ErrorFrame | DoneFrame

datatype chat_answer =
    ChatRefused nat
  | Completion string "string option" string usage
  | EventStream "frame list"

definition thinking_open :: "catalog_model \<Rightarrow> chat_body \<Rightarrow> bool" where
  "thinking_open m body \<longleftrightarrow> cm_reasoning m \<and> \<not> bd_thinking_off body"

definition max_tokens :: "catalog_model \<Rightarrow> chat_body \<Rightarrow> jsnum" where
  "max_tokens m body =
     num_min (case bd_max_tokens body of None \<Rightarrow> Fin (of_nat (cm_maxTokens m)) | Some v \<Rightarrow> to_number v) (Fin (of_nat (cm_maxTokens m)))"

text \<open>
  \<open>chatCompletions\<close>. \<open>piped\<close> is the outcome of \<open>pipelineFor\<close>, \<open>run\<close> that of the request on it: an error with
  the tokens that had been delivered, or the result. The flag asks for the contribution to be recorded.
\<close>

definition chatCompletions ::
  "catalog_model \<Rightarrow> chat_body \<Rightarrow> bool \<Rightarrow> string list \<times> (pl_error + generated) \<Rightarrow> chat_answer \<times> bool" where
  "chatCompletions m body piped outcome =
     (if promptFrom body (cm_promptFormat m) (cm_reasoning m) (thinking_open m body) = '''' then (ChatRefused 400, False)
      else if \<not> piped then (ChatRefused 503, False)
      else let (tokens, res) = outcome
           in if \<not> bd_stream body then
                (case res of
                   Inl e \<Rightarrow> (ChatRefused 502, False)
                 | Inr g \<Rightarrow>
                     (if thinking_open m body
                      then Completion (fst (splitReasoning (gn_text g))) (Some (snd (splitReasoning (gn_text g)))) (gn_finishReason g) (chat_usage g)
                      else Completion (gn_text g) None (gn_finishReason g) (chat_usage g), True))
              else (case res of
                      Inl e \<Rightarrow> (EventStream (RoleFrame # map ContentFrame tokens @ [ErrorFrame]), False)
                    | Inr g \<Rightarrow>
                        (EventStream (RoleFrame # map ContentFrame tokens @
                           [FinishFrame (gn_finishReason g), UsageFrame (chat_usage g), DoneFrame]), True)))"

text \<open>The bytes of a frame on the wire: \<^verbatim>\<open>data: ...\<close> and a blank line.\<close>

definition chunkFrame :: "(frame \<Rightarrow> string) \<Rightarrow> frame \<Rightarrow> string" where
  "chunkFrame stringify f =
     ''data: '' @ (if f = DoneFrame then ''[DONE]'' else stringify f) @ [newline, newline]"

section \<open>The contribution ledger\<close>

record contribution =
  cn_units :: rat
  cn_rows :: nat
  cn_requests :: nat
  cn_agent :: "string option"
  cn_tps :: "rat option"
  cn_owner :: string
  cn_platform :: platform

definition relay_platform :: platform where
  "relay_platform = \<lparr>pf_os = ''mobile'', pf_deviceKind = ''phone'', pf_accelerator = ''gpu'', pf_backend = ''relay''\<rparr>"

definition creditRelay :: "credit_line \<Rightarrow> contribution table \<Rightarrow> contribution table" where
  "creditRelay l t =
     (if \<not> 0 < cl_units l then t
      else let current = (case get t (cl_node l) of
                 Some c \<Rightarrow> c
               | None \<Rightarrow> \<lparr>cn_units = 0, cn_rows = 0, cn_requests = 0, cn_agent = None, cn_tps = None, cn_owner = cl_owner l,
                          cn_platform = relay_platform\<rparr>)
           in put (cl_node l)
                (current\<lparr>cn_units := fl (cn_units current + cl_units l), cn_owner := or_else (cl_owner l) (cn_owner current),
                         cn_platform := merge_platform (cl_platform l) (cn_platform current)\<rparr>) t)"

definition request_tps :: "nat \<Rightarrow> int \<Rightarrow> rat option" where
  "request_tps completionTokens elapsedMs =
     (if 0 < elapsedMs \<and> 0 < completionTokens then Some (fl (of_nat completionTokens / fl (of_int elapsedMs / 1000))) else None)"

definition mix_tps :: "rat option \<Rightarrow> rat option \<Rightarrow> rat option" where
  "mix_tps old new =
     (case new of
        None \<Rightarrow> old
      | Some v \<Rightarrow> (case old of None \<Rightarrow> Some v
                    | Some u \<Rightarrow> Some (fl (fl (u * fl (7 / 10)) + fl (v * fl (3 / 10))))))"

definition record_stage :: "rat \<Rightarrow> catalog_model \<Rightarrow> rat option \<Rightarrow> string \<times> nat \<Rightarrow> contribution table \<Rightarrow> contribution table" where
  "record_stage UNITS_PER_ROW m tps row t =
     (case row of (node, rows) \<Rightarrow>
        let stg = (case List.find (\<lambda>s. st_node s = node) (cm_stages m) of Some s \<Rightarrow> s | None \<Rightarrow> hd (cm_stages m));
            current = (case get t node of
                         Some c \<Rightarrow> c
                       | None \<Rightarrow> \<lparr>cn_units = 0, cn_rows = 0, cn_requests = 0, cn_agent = Some (st_agent stg), cn_tps = None, cn_owner = '''',
                                  cn_platform = no_platform\<rparr>)
        in put node (current\<lparr>cn_rows := cn_rows current + rows, cn_units := fl (cn_units current + fl (of_nat rows * UNITS_PER_ROW)),
                             cn_requests := cn_requests current + 1, cn_tps := mix_tps (cn_tps current) tps\<rparr>) t)"

definition recordContribution ::
  "rat \<Rightarrow> catalog_model \<Rightarrow> nat table \<Rightarrow> nat \<Rightarrow> int \<Rightarrow> contribution table \<Rightarrow> contribution table" where
  "recordContribution UNITS_PER_ROW m stageRows completionTokens elapsedMs t =
     foldl (\<lambda>t row. record_stage UNITS_PER_ROW m (request_tps completionTokens elapsedMs) row t) t stageRows"

text \<open>\<^verbatim>\<open>Number(x.toFixed(k))\<close> of a number that is not negative.\<close>

definition to_fixed :: "nat \<Rightarrow> rat \<Rightarrow> rat" where
  "to_fixed k x = fl (of_int \<lfloor>x * 10 ^ k + 1 / 2\<rfloor> / 10 ^ k)"

record contribution_row =
  cw_node :: string
  cw_owner :: string
  cw_units :: rat
  cw_platform :: platform
  cw_tps :: "rat option"
  cw_rows :: nat
  cw_requests :: nat
  cw_agent :: "string option"

definition get_contributions :: "string \<Rightarrow> contribution table \<Rightarrow> contribution_row list" where
  "get_contributions operatorWallet t =
     map (\<lambda>(node, e). \<lparr>cw_node = node, cw_owner = or_else (cn_owner e) operatorWallet, cw_units = to_fixed 6 (cn_units e),
            cw_platform = merge_platform (cn_platform e) \<lparr>pf_os = ''linux'', pf_deviceKind = ''server'', pf_accelerator = ''gpu'', pf_backend = ''p4''\<rparr>,
            cw_tps = map_option (to_fixed 2) (cn_tps e), cw_rows = cn_rows e, cw_requests = cn_requests e, cw_agent = cn_agent e\<rparr>) t"

section \<open>Liveness for the gateway\<close>

definition liveNodeNames :: "bridge_state \<Rightarrow> participation option \<Rightarrow> string list" where
  "liveNodeNames b p =
     (let stages = concat (map (\<lambda>m. if serves b m then map st_node (cm_stages m) else []) (ct_models (br_catalog b)));
          relays = (case p of
                      None \<Rightarrow> []
                    | Some p \<Rightarrow> concat (map (\<lambda>(session, t).
                        case get (pa_stats p) session of
                          Some st \<Rightarrow> if rs_closed st = 0 \<and> rt_nodeId t \<noteq> '''' then [rt_nodeId t] else []
                        | None \<Rightarrow> []) (pa_targets p)))
      in rev (remdups (rev (stages @ relays))))"

definition is_hex :: "char \<Rightarrow> bool" where
  "is_hex c \<longleftrightarrow> is_digit c \<or> (97 \<le> (of_char c :: nat) \<and> (of_char c :: nat) \<le> 102)"

text \<open>\<^verbatim>\<open>/^infer-([0-9a-f]+)-(.+)$/\<close>: the key is the longest run of hexadecimal digits that a dash follows.\<close>

definition infer_key :: "string \<Rightarrow> (string \<times> string) option" where
  "infer_key i =
     (if \<not> starts_with i ''infer-'' then None
      else let r = drop 6 i; key = takeWhile is_hex r; rest = dropWhile is_hex r
           in if key \<noteq> '''' \<and> starts_with rest ''-'' \<and> drop 1 rest \<noteq> '''' then Some (key, drop 1 rest) else None)"

definition count_keys :: "string list \<Rightarrow> string list \<Rightarrow> nat table" where
  "count_keys live ids =
     foldl (\<lambda>t i. case infer_key i of
                    Some (key, name) \<Rightarrow>
                      if name \<in> set live then put key ((case get t key of None \<Rightarrow> 0 | Some n \<Rightarrow> n) + 1) t else t
                  | None \<Rightarrow> t) [] ids"

text \<open>The first key with the highest count, as a stable descending sort puts it first.\<close>

definition best_key :: "nat table \<Rightarrow> string option" where
  "best_key t =
     (case filter (\<lambda>(k, n). \<forall>(j, m) \<in> set t. m \<le> n) t of [] \<Rightarrow> None | (k, n) # _ \<Rightarrow> Some k)"

definition gatewayHeartbeat :: "string list \<Rightarrow> string list \<Rightarrow> string list" where
  "gatewayHeartbeat live listed =
     (let ids = filter (\<lambda>i. starts_with i ''infer-'') listed
      in if live = [] then []
         else case best_key (count_keys live ids) of
                None \<Rightarrow> []
              | Some key \<Rightarrow> filter (\<lambda>i. i \<in> set ids) (map (\<lambda>name. ''infer-'' @ key @ ''-'' @ name) live))"

section \<open>Relays\<close>

datatype upgrade = Destroyed | RefusedUpgrade nat string | Bridged string nat

definition attachRelays ::
  "crypto \<Rightarrow> node_auth \<Rightarrow> participation option \<Rightarrow> string \<Rightarrow> string \<Rightarrow> string \<Rightarrow> string \<Rightarrow> nat \<Rightarrow> participation option \<times> upgrade" where
  "attachRelays cr a p path token session controllerId now =
     (case p of
        None \<Rightarrow> (None, Destroyed)
      | Some p \<Rightarrow>
          if path \<notin> {''/api/expert-relay'', ''/api/ring-relay''} then (Some p, Destroyed)
          else (case resolveUpgrade cr a path token session controllerId now p of
                  (p', None) \<Rightarrow> (Some p', RefusedUpgrade 4404 ''unknown relay'')
                | (p', Some (Inl (code, why))) \<Rightarrow> (Some p', RefusedUpgrade code why)
                | (p', Some (Inr (s, port))) \<Rightarrow> (Some p', Bridged s port)))"

section \<open>Who may take a node token\<close>

text \<open>
  The admitted list on disk: its modification time and its entries as wallet and admitter; \<open>Inl\<close> is a file
  that does not parse, \<open>None\<close> no file. The cache keeps the time it last read.
\<close>

type_synonym admitted_file = "(nat \<times> (unit + (string \<times> string) list)) option"

record admitted_cache =
  ac_at :: nat
  ac_wallets :: "string list"

definition admittedWallets :: "admitted_file \<Rightarrow> admitted_cache \<Rightarrow> admitted_cache" where
  "admittedWallets file c =
     (case file of
        None \<Rightarrow> c
      | Some (stamp, content) \<Rightarrow>
          if stamp = ac_at c then c
          else case content of
                 Inl _ \<Rightarrow> c
               | Inr es \<Rightarrow> \<lparr>ac_at = stamp, ac_wallets = filter (\<lambda>w. w \<noteq> '''') (map (trim \<circ> fst) es)\<rparr>)"

text \<open>\<open>admitWallet\<close>, declared inside \<^verbatim>\<open>main\<close>: the new file, the new cache, and whether the wallet was added.\<close>

definition admitWallet :: "string \<Rightarrow> string \<Rightarrow> nat \<Rightarrow> admitted_file \<Rightarrow> admitted_cache \<Rightarrow> string + (admitted_file \<times> admitted_cache \<times> bool)" where
  "admitWallet wallet by_whom stamp file c =
     (let w = trim wallet; entries = (case file of Some (_, Inr es) \<Rightarrow> es | _ \<Rightarrow> [])
      in if w = '''' then Inl ''wallet required''
         else if w \<in> set (map (trim \<circ> fst) entries) then Inr (file, c, False)
         else Inr (Some (stamp, Inr (entries @ [(w, or_else by_whom ''unknown'')])), \<lparr>ac_at = 0, ac_wallets = []\<rparr>, True))"

text \<open>
  The policy as it answers while the file and the cache are as given; \<open>None\<close> is no policy: anyone who proves
  a key may join.
\<close>

definition participationPolicy ::
  "string list \<Rightarrow> bool \<Rightarrow> rat \<Rightarrow> admitted_file \<Rightarrow> admitted_cache \<Rightarrow> (string \<Rightarrow> bool option) option" where
  "participationPolicy bootstrap restrictedFlag minKvr file cache =
     (if 0 < minKvr then Some (\<lambda>w. Some False)
      else if \<not> (restrictedFlag \<or> bootstrap \<noteq> []) then None
      else Some (\<lambda>w. Some (w \<in> set bootstrap \<or> w \<in> set (ac_wallets (admittedWallets file cache)))))"

text \<open>
  \<^verbatim>\<open>POST /api/admissions\<close>. The handler is in \<^verbatim>\<open>createServer\<close>, at module level; the \<open>admitWallet\<close> it calls is a
  function local to \<^verbatim>\<open>main\<close>, so the name is unbound there and the call throws a \<^verbatim>\<open>ReferenceError\<close> inside the
  handler's \<^verbatim>\<open>try\<close>. \<open>body\<close> is \<open>None\<close> when it is not JSON.
\<close>

definition post_admissions :: "string option \<Rightarrow> (string \<times> bool) answer" where
  "post_admissions body =
     (case body of
        None \<Rightarrow> refuse 400 ''request body is not JSON''
      | Some wallet \<Rightarrow>
          if trim wallet = '''' then refuse 400 ''wallet required''
          else refuse 500 ''could not record the admission: admitWallet is not defined'')"

section \<open>Properties\<close>


definition idle_bridge :: bridge_state where
  "idle_bridge = new_bridge \<lparr>ct_ingressAgent = ''tcp://a'', ct_models = [demo_model]\<rparr>"


text \<open>
  The ledger does not keep the ring's own stages apart from relay participants: a participant whose worker
  id is the name of a stage, and whose relay carried anything at all, becomes the owner of that stage's row, with
  the units the stage had earned and all it earns later.
\<close>
theorem relay_credit_takes_stage_row:
  assumes "get t node = Some row" and "cl_node l = node" and "0 < cl_units l" and "cl_owner l = thief" and "thief \<noteq> ''''"
    and "0 \<le> cn_units row" and "is_double (cn_units row)"
  shows "\<exists>w. w \<in> set (get_contributions operator (recordContribution u m rows ct ms (creditRelay l t))) \<and>
    cw_node w = node \<and> cw_owner w = thief \<and>
    (rows = [] \<longrightarrow> to_fixed 6 (cn_units row) \<le> cw_units w)"
proof -
  let ?t = "creditRelay l t"
  obtain r1 where r1: "get ?t node = Some r1" "cn_owner r1 = thief" "cn_units r1 = fl (cn_units row + cl_units l)"
    using assms by (simp add: creditRelay_def Let_def or_else_def table_simps)
  have step: "\<exists>r'. get (record_stage u m tps x t') node = Some r' \<and> cn_owner r' = cn_owner r" if "get t' node = Some r" for tps x t' r
    using that by (cases x) (auto simp: record_stage_def Let_def update_conv' split: option.split)
  have "\<exists>r'. get (foldl (\<lambda>t row. record_stage u m tps row t) t' rows') node = Some r' \<and> cn_owner r' = cn_owner r"
    if "get t' node = Some r" for tps t' r and rows'
    using that
  proof (induction rows' arbitrary: t' r)
    case (Cons x xs)
    obtain r2 where "get (record_stage u m tps x t') node = Some r2" "cn_owner r2 = cn_owner r" using step [OF Cons.prems] by blast
    then show ?case using Cons.IH by fastforce
  qed simp
  from this [OF r1(1)] obtain r2 where r2: "get (recordContribution u m rows ct ms ?t) node = Some r2" "cn_owner r2 = thief"
    unfolding recordContribution_def r1(2) by blast
  have "to_fixed 6 (cn_units row) \<le> to_fixed 6 (cn_units r1)"
  proof -
    have "cn_units row = fl (cn_units row)" using assms(7) by (simp add: is_double_def)
    also have "\<dots> \<le> fl (cn_units row + cl_units l)" using assms(3) by (intro fl_mono) simp
    finally show ?thesis unfolding r1(3) to_fixed_def by (intro fl_mono divide_right_mono) (auto intro!: floor_mono)
  qed
  moreover have "rows = [] \<Longrightarrow> r2 = r1" using r1 r2 by (simp add: recordContribution_def)
  moreover note get_in_set [OF r2(1)]
  ultimately show ?thesis using r2(2) assms(5) by (force simp: get_contributions_def or_else_def)
qed

theorem relay_credit_takes_stage_row_witness:
  "\<exists>w. w \<in> set (get_contributions ''operator'' (recordContribution 1 demo_model [(''s0'', 4)] 2 1000
       (creditRelay \<lparr>cl_node = ''s0'', cl_units = 1, cl_owner = ''mallory'', cl_model = ''m'', cl_platform = no_platform\<rparr>
         [(''s0'', \<lparr>cn_units = 0, cn_rows = 0, cn_requests = 0, cn_agent = None, cn_tps = None, cn_owner = '''', cn_platform = no_platform\<rparr>)]))) \<and>
     cw_node w = ''s0'' \<and> cw_owner w = ''mallory''"
proof -
  let ?l = "\<lparr>cl_node = ''s0'', cl_units = 1, cl_owner = ''mallory'', cl_model = ''m'', cl_platform = no_platform\<rparr>"
  let ?row = "\<lparr>cn_units = 0, cn_rows = 0, cn_requests = 0, cn_agent = None, cn_tps = None, cn_owner = '''', cn_platform = no_platform\<rparr>"
  have "get [(''s0'', ?row)] ''s0'' = Some ?row" "is_double (cn_units ?row)" by (simp_all add: is_double_def)
  from relay_credit_takes_stage_row [OF this(1) _ _ _ _ _ this(2), of ?l "''mallory''" "''operator''" 1 demo_model "[(''s0'', 4)]" 2 1000]
  show ?thesis by auto
qed

section \<open>Thoughts and answers\<close>

lemma find_sub_first:
  "pat \<noteq> '''' \<Longrightarrow> (\<And>k. k < length x \<Longrightarrow> \<not> starts_with (drop k (x @ pat @ y)) pat) \<Longrightarrow> find_sub pat (x @ pat @ y) = Some (length x)"
proof (induction x)
  case Nil
  then show ?case by (cases pat) (simp_all add: starts_with_def)
next
  case (Cons c x)
  have "\<not> starts_with (drop k (x @ pat @ y)) pat" if "k < length x" for k
    using Cons.prems(2) [of "Suc k"] that by simp
  then have "find_sub pat (x @ pat @ y) = Some (length x)" using Cons.IH Cons.prems(1) by blast
  then show ?case using Cons.prems(2) [of 0] by simp
qed

text \<open>
  The answer of a reasoning model is split at the first closing tag: what the model thought before it is
  returned beside the content and never in it, and everything after it is the content; without a tag the reply
  was cut off while thinking and the content is empty.
\<close>
theorem reasoning_kept_apart:
  assumes "\<And>k. k < length thought \<Longrightarrow> \<not> starts_with (drop k (thought @ think_tag @ answer)) think_tag"
    and "find_sub think_tag partial = None"
  shows "splitReasoning (thought @ think_tag @ answer) = (trim answer, trim thought) \<and> splitReasoning partial = ('''', trim partial)"
  using assms find_sub_first [of think_tag thought answer] by (simp add: splitReasoning_def) (simp add: think_tag_def)

theorem reasoning_kept_apart_witness: "splitReasoning (''hm'' @ think_tag @ '' 4'') = (''4'', ''hm'')"
proof -
  have "k < length ''hm'' \<Longrightarrow> \<not> starts_with (drop k (''hm'' @ think_tag @ '' 4'')) think_tag" for k
    by (cases k; cases "k - 1") (auto simp: starts_with_def think_tag_def)
  from reasoning_kept_apart [OF this, of "''hm''"] show ?thesis
    by (simp add: think_tag_def starts_with_def trim_def is_space_def)
qed

end
