(* ===== verification/Bridge_Relay.thy ===== *)
theory Bridge_Relay
  imports JS_Bytes
begin

text \<open>
  The bridge's WebSocket relay (\<^verbatim>\<open>p4bridge/wsrelay.js\<close>): the frame encoder, the incremental
  \<^verbatim>\<open>FrameDecoder\<close>, and the splice of an upgraded client socket onto a TCP connection. The decoder's
  callbacks are events it appends to a list; the splice applies them in order. A socket's bytes are the
  bytes handed to it; what TCP does with them afterwards is not modelled.
\<close>

unbundle bit_operations_syntax

section \<open>Encoding\<close>

definition MAX_FRAME_BYTES :: nat where
  "MAX_FRAME_BYTES = 16 * 1024 * 1024"

definition OP_CONTINUATION :: byte where "OP_CONTINUATION = 0"
definition OP_TEXT :: byte where "OP_TEXT = 1"
definition OP_BINARY :: byte where "OP_BINARY = 2"
definition OP_CLOSE :: byte where "OP_CLOSE = 8"
definition OP_PING :: byte where "OP_PING = 9"
definition OP_PONG :: byte where "OP_PONG = 10"

lemmas opcodes = OP_CONTINUATION_def OP_TEXT_def OP_BINARY_def OP_CLOSE_def OP_PING_def OP_PONG_def

definition acceptKey :: "(string \<Rightarrow> string) \<Rightarrow> string \<Rightarrow> string" where
  "acceptKey sha1_base64 key = sha1_base64 (key @ ''258EAFA5-E914-47DA-95CA-C5AB0DC85B11'')"

text \<open>The header's length field, with \<open>m\<close> the mask bit; the server's frames have \<open>m = 0\<close>.\<close>

definition length_field :: "byte \<Rightarrow> nat \<Rightarrow> buffer" where
  "length_field m n =
     (if n < 126 then [of_nat n OR m]
      else if n < 65536 then (126 OR m) # be_bytes 2 n
      else (127 OR m) # be_bytes 8 n)"

definition encodeFrame :: "byte \<Rightarrow> buffer \<Rightarrow> buffer" where
  "encodeFrame opcode payload = [128 OR opcode] @ length_field 0 (length payload) @ payload"

definition closeFrame :: "nat \<Rightarrow> string \<Rightarrow> buffer" where
  "closeFrame code why = encodeFrame OP_CLOSE (be_bytes 2 code @ from_text why)"

section \<open>The decoder\<close>

datatype ws_event = WsData buffer | WsPing buffer | WsClose nat string

datatype ws_length = NeedMore | TooLarge | Sized nat nat

definition frame_length :: "buffer \<Rightarrow> ws_length" where
  "frame_length b =
     (let l = unat (b ! 1 AND 127)
      in if l = 126 then
           (if length b < 4 then NeedMore else Sized (be_val (take 2 (drop 2 b))) 4)
         else if l = 127 then
           (if length b < 10 then NeedMore
            else let big = be_val (take 8 (drop 2 b))
                 in if MAX_FRAME_BYTES < big then TooLarge else Sized big 10)
         else Sized l 2)"

definition unmask :: "buffer \<Rightarrow> buffer \<Rightarrow> buffer" where
  "unmask mk payload = map (\<lambda>i. payload ! i XOR mk ! (i mod 4)) [0..<length payload]"

text \<open>What a complete frame makes the decoder report; a close also ends the loop.\<close>

definition frame_events :: "byte \<Rightarrow> buffer \<Rightarrow> ws_event list" where
  "frame_events opcode payload =
     (if opcode = OP_BINARY \<or> opcode = OP_CONTINUATION \<or> opcode = OP_TEXT then
        (if payload \<noteq> [] then [WsData payload] else [])
      else if opcode = OP_PING then [WsPing payload]
      else if opcode = OP_CLOSE then [WsClose 1000 ''peer closed'']
      else [])"

definition push_step :: "bool \<Rightarrow> ws_event list \<Rightarrow> buffer \<Rightarrow> ws_event list progress" where
  "push_step requireMask evs b =
     (if length b < 2 then Wait
      else let opcode = b ! 0 AND 15; masked = (b ! 1 AND 128 \<noteq> 0)
           in case frame_length b of
                NeedMore \<Rightarrow> Wait
              | TooLarge \<Rightarrow> Halt (evs @ [WsClose 1009 ''frame too large'']) b
              | Sized n off \<Rightarrow>
                  if MAX_FRAME_BYTES < n then Halt (evs @ [WsClose 1009 ''frame too large'']) b
                  else if requireMask \<and> \<not> masked
                  then Halt (evs @ [WsClose 1002 ''client frames must be masked'']) b
                  else if masked \<and> length b < off + 4 then Wait
                  else let start = (if masked then off + 4 else off);
                           mk = take 4 (drop off b)
                       in if length b < start + n then Wait
                          else let raw = take n (drop start b);
                                   payload = (if masked then unmask mk raw else raw);
                                   evs' = evs @ frame_events opcode payload;
                                   rest = drop (start + n) b
                               in if opcode = OP_CLOSE then Halt evs' rest else Frame evs' rest)"

lemma push_step_shorter: "push_step rm evs b = Frame evs' r \<Longrightarrow> length r < length b"
  by (auto simp: push_step_def frame_length_def Let_def split: if_splits ws_length.splits)

function push_loop :: "bool \<Rightarrow> ws_event list \<Rightarrow> buffer \<Rightarrow> ws_event list \<times> buffer \<times> bool" where
  "push_loop rm evs b =
     (case push_step rm evs b of
        Wait \<Rightarrow> (evs, b, False)
      | Frame evs' r \<Rightarrow> push_loop rm evs' r
      | Halt evs' r \<Rightarrow> (evs', r, True))"
  by pat_completeness auto
termination
  by (relation "measure (\<lambda>(rm, evs, b). length b)") (auto simp: push_step_shorter)

declare push_loop.simps [simp del]

section \<open>The splice\<close>

record splice =
  sp_closed :: bool
  sp_ended :: bool
  sp_buffer :: buffer
  sp_toUpstream :: buffer
  sp_toClient :: buffer
  sp_ws2tcp :: nat
  sp_tcp2ws :: nat

definition new_splice :: "buffer \<Rightarrow> splice" where
  "new_splice greeting =
     \<lparr>sp_closed = False, sp_ended = False, sp_buffer = [], sp_toUpstream = [], sp_toClient = greeting,
      sp_ws2tcp = 0, sp_tcp2ws = 0\<rparr>"

text \<open>\<^verbatim>\<open>socket.end(frame)\<close>: a second end on the same socket writes nothing.\<close>

definition end_with :: "buffer \<Rightarrow> splice \<Rightarrow> splice" where
  "end_with frame s =
     (if sp_ended s then s else s\<lparr>sp_ended := True, sp_toClient := sp_toClient s @ frame\<rparr>)"

definition teardown :: "splice \<Rightarrow> splice" where
  "teardown s =
     (if sp_closed s then s
      else (end_with (closeFrame 1000 ''bridge closed'') s)\<lparr>sp_closed := True\<rparr>)"

fun on_ws_event :: "ws_event \<Rightarrow> splice \<Rightarrow> splice" where
  "on_ws_event (WsData payload) s =
     s\<lparr>sp_ws2tcp := sp_ws2tcp s + length payload, sp_toUpstream := sp_toUpstream s @ payload\<rparr>"
| "on_ws_event (WsPing payload) s = s\<lparr>sp_toClient := sp_toClient s @ encodeFrame OP_PONG payload\<rparr>"
| "on_ws_event (WsClose _ _) s = teardown s"

definition decoder_push :: "buffer \<Rightarrow> splice \<Rightarrow> splice" where
  "decoder_push chunk s =
     (case push_loop True [] (sp_buffer s @ chunk) of
        (evs, r, _) \<Rightarrow> foldl (\<lambda>s ev. on_ws_event ev s) (s\<lparr>sp_buffer := r\<rparr>) evs)"

datatype splice_event =
    UpstreamData buffer | UpstreamError | UpstreamClose | UpstreamEnd
  | ClientData buffer | ClientError | ClientClose | ClientEnd

text \<open>A torn-down splice has destroyed both sockets, which deliver no more data.\<close>

fun on_splice_event :: "splice_event \<Rightarrow> splice \<Rightarrow> splice" where
  "on_splice_event (UpstreamData chunk) s =
     (if sp_closed s then s
      else s\<lparr>sp_tcp2ws := sp_tcp2ws s + length chunk, sp_toClient := sp_toClient s @ encodeFrame OP_BINARY chunk\<rparr>)"
| "on_splice_event UpstreamError s =
     teardown (if sp_closed s then s else end_with (closeFrame 1011 ''upstream unavailable'') s)"
| "on_splice_event UpstreamClose s = teardown s"
| "on_splice_event UpstreamEnd s = teardown s"
| "on_splice_event (ClientData chunk) s = (if sp_closed s then s else decoder_push chunk s)"
| "on_splice_event ClientError s = teardown s"
| "on_splice_event ClientClose s = teardown s"
| "on_splice_event ClientEnd s = teardown s"

definition upgrade_reply :: "(string \<Rightarrow> string) \<Rightarrow> string \<Rightarrow> buffer" where
  "upgrade_reply sha1_base64 key =
     from_text (''HTTP/1.1 101 Switching Protocols'' @ [char_of (13::nat), char_of (10::nat)]
       @ ''Upgrade: websocket'' @ [char_of (13::nat), char_of (10::nat)]
       @ ''Connection: Upgrade'' @ [char_of (13::nat), char_of (10::nat)]
       @ ''Sec-WebSocket-Accept: '' @ acceptKey sha1_base64 key
       @ [char_of (13::nat), char_of (10::nat), char_of (13::nat), char_of (10::nat)])"

text \<open>\<^verbatim>\<open>bridge\<close>: no key, no splice; bytes already read past the headers are pushed first.\<close>

definition bridge :: "(string \<Rightarrow> string) \<Rightarrow> string \<Rightarrow> buffer \<Rightarrow> splice option" where
  "bridge sha1_base64 key head =
     (if key = '''' then None
      else let s = new_splice (upgrade_reply sha1_base64 key)
           in Some (if head = [] then s else decoder_push head s))"

text \<open>\<^verbatim>\<open>refuse\<close>: the bytes written before the socket is destroyed.\<close>

definition refuse_upgrade :: "(string \<Rightarrow> string) \<Rightarrow> string \<Rightarrow> nat \<Rightarrow> string \<Rightarrow> buffer" where
  "refuse_upgrade sha1_base64 key code why =
     (if key = '''' then [] else upgrade_reply sha1_base64 key @ closeFrame code why)"

section \<open>The stream\<close>

lemma frame_length_cases:
  assumes "2 \<le> length b"
  shows "frame_length b \<noteq> NeedMore \<Longrightarrow> frame_length (b @ x) = frame_length b"
  using assms by (auto simp: frame_length_def Let_def nth_append split: if_splits)

lemma frame_length_Sized: "frame_length b = Sized n off \<Longrightarrow> 2 \<le> length b \<Longrightarrow> 2 \<le> off \<and> off \<le> length b"
  by (auto simp: frame_length_def Let_def split: if_splits)

lemma push_step_more:
  assumes "push_step rm evs b \<noteq> Wait"
  shows "push_step rm evs (b @ x) =
    (case push_step rm evs b of Wait \<Rightarrow> Wait | Frame e r \<Rightarrow> Frame e (r @ x) | Halt e r \<Rightarrow> Halt e (r @ x))"
proof -
  have two: "2 \<le> length b" by (rule ccontr) (use assms in \<open>simp add: push_step_def\<close>)
  have "frame_length b \<noteq> NeedMore" using assms two by (auto simp: push_step_def Let_def)
  then have fl: "frame_length (b @ x) = frame_length b" by (rule frame_length_cases [OF two])
  have hd: "(b @ x) ! 0 = b ! 0" "(b @ x) ! Suc 0 = b ! Suc 0" by (rule nth_append_left; use two in linarith)+
  show ?thesis
  proof (cases "frame_length b")
    case (Sized n off)
    note off = frame_length_Sized [OF this two]
    let ?m = "b ! 1 AND 128 \<noteq> 0"
    let ?start = "if ?m then off + 4 else off"
    show ?thesis
    proof (cases "MAX_FRAME_BYTES < n \<or> (rm \<and> \<not> ?m)")
      case True
      then show ?thesis using two by (auto simp: push_step_def Let_def fl hd Sized)
    next
      case False
      then have s: "?start \<le> length b" "?start + n \<le> length b"
        using assms two off by (auto simp: push_step_def Let_def Sized split: if_splits)
      then have d: "take n (drop ?start (b @ x)) = take n (drop ?start b)"
        "drop (?start + n) (b @ x) = drop (?start + n) b @ x" by simp_all
      have m: "?m \<Longrightarrow> take 4 (drop off (b @ x)) = take 4 (drop off b)" "?m \<Longrightarrow> off + 4 \<le> length b"
        using s by auto
      show ?thesis
        using False two s m d
        by (cases ?m) (auto simp: push_step_def Let_def fl hd Sized simp del: take_append drop_append)
    qed
  qed (use two fl hd in \<open>simp_all add: push_step_def Let_def\<close>)
qed

interpretation ws_stream: incremental "push_step rm" "push_loop rm" for rm
proof
  show "push_loop rm c b = (case push_step rm c b of Wait \<Rightarrow> (c, b, False)
    | Frame c' r \<Rightarrow> push_loop rm c' r | Halt c' r \<Rightarrow> (c', r, True))" for c b
    by (rule push_loop.simps)
  show "push_step rm c b = Frame c' r \<Longrightarrow> push_step rm c (b @ x) = Frame c' (r @ x)" for c b c' r x
    using push_step_more [of rm c b x] by simp
  show "push_step rm c b = Halt c' r \<Longrightarrow> push_step rm c (b @ x) = Halt c' (r @ x)" for c b c' r x
    using push_step_more [of rm c b x] by simp
  show "push_step rm c b = Frame c' r \<Longrightarrow> length r < length b" for c b c' r
    by (rule push_step_shorter)
qed

section \<open>Frames\<close>

text \<open>
  A frame as RFC 6455 has a client send it: the mask bit set, four mask bytes, the payload masked
  with the mask rotated by one byte after each byte. A client chooses the mask; it is the specification the decoder of client frames is held to.
\<close>

fun masked_with :: "buffer \<Rightarrow> buffer \<Rightarrow> buffer" where
  "masked_with mk [] = []"
| "masked_with mk (x # xs) = (x XOR hd mk) # masked_with (rotate1 mk) xs"

definition client_frame :: "byte \<Rightarrow> buffer \<Rightarrow> buffer \<Rightarrow> buffer" where
  "client_frame opcode mk payload =
     [128 OR opcode] @ length_field 128 (length payload) @ mk @ masked_with mk payload"

lemma length_masked_with [simp]: "length (masked_with mk p) = length p"
  by (induction mk p rule: masked_with.induct) simp_all

lemma nth_masked_with: "mk \<noteq> [] \<Longrightarrow> i < length p \<Longrightarrow> masked_with mk p ! i = p ! i XOR mk ! (i mod length mk)"
proof (induction mk p arbitrary: i rule: masked_with.induct)
  case (2 mk x xs)
  then show ?case by (cases i) (simp_all add: hd_conv_nth nth_rotate1 mod_Suc_eq)
qed simp

lemma unmask_masked_with [simp]:
  assumes "length mk = 4"
  shows "unmask mk (masked_with mk p) = p"
proof (rule nth_equalityI)
  have "mk \<noteq> []" using assms by auto
  then show "unmask mk (masked_with mk p) ! i = p ! i" if "i < length (unmask mk (masked_with mk p))" for i
    using that assms nth_masked_with [of mk i p] by (simp add: unmask_def xor.assoc)
qed (simp add: unmask_def)

lemma length_bits:
  assumes "n < 128"
  shows "unat ((of_nat n OR 128 :: byte) AND 127) = n" "unat ((of_nat n :: byte) AND 127) = n"
    "(of_nat n OR 128 :: byte) AND 128 \<noteq> 0" "(of_nat n :: byte) AND 128 = 0"
proof -
  have m: "(127 :: byte) = mask 7" by (simp add: mask_eq_exp_minus_1)
  have "(of_nat n :: byte) AND 127 = of_nat n"
    using assms unfolding m by (simp add: take_bit_eq_mask [symmetric] take_bit_nat_eq_self flip: of_nat_take_bit)
  moreover have "(of_nat n OR 128 :: byte) AND 127 = (of_nat n AND 127) OR (128 AND 127)"
    by (rule bit.conj_disj_distrib2)
  ultimately have "(of_nat n OR 128 :: byte) AND 127 = of_nat n" by simp
  then show "unat ((of_nat n OR 128 :: byte) AND 127) = n" "unat ((of_nat n :: byte) AND 127) = n"
    using assms \<open>(of_nat n :: byte) AND 127 = of_nat n\<close> by (simp_all add: unat_byte)
  have "(of_nat n :: byte) AND 128 = of_nat n AND (127 AND 128)"
    using \<open>(of_nat n :: byte) AND 127 = of_nat n\<close> by (simp only: and.assoc [symmetric])
  then show "(of_nat n :: byte) AND 128 = 0" by simp
  have "bit (of_nat n OR 128 :: byte) 7"
    by (simp add: bit_or_iff bit_numeral_rec flip: numeral_2_eq_2)
  then show "(of_nat n OR 128 :: byte) AND 128 \<noteq> 0"
    using and_exp_eq_0_iff_not_bit [of "of_nat n OR 128 :: byte" 7] by simp
qed

definition known_op :: "byte \<Rightarrow> bool" where
  "known_op op \<longleftrightarrow> op \<in> {OP_CONTINUATION, OP_TEXT, OP_BINARY, OP_CLOSE, OP_PING, OP_PONG}"

lemma opcode_bits: "known_op op \<Longrightarrow> (128 OR op) AND 15 = op"
  by (auto simp: known_op_def opcodes)

lemma length_field_read:
  assumes "m = 0 \<or> m = 128" and "n \<le> MAX_FRAME_BYTES"
  shows "frame_length (h # length_field m n @ rest) = Sized n (Suc (length (length_field m n)))"
    and "hd (length_field m n) AND 128 = m" "length_field m n \<noteq> []"
proof -
  have big: "n < 256 ^ 8" using assms(2) by (simp add: MAX_FRAME_BYTES_def)
  consider "n < 126" | "126 \<le> n" "n < 65536" | "65536 \<le> n" by linarith
  then have "frame_length (h # length_field m n @ rest) = Sized n (Suc (length (length_field m n)))
      \<and> hd (length_field m n) AND 128 = m"
  proof cases
    case 1
    then have "(of_nat n OR 128 :: byte) AND 128 = 128"
      by (simp only: bit.conj_disj_distrib2) (simp add: length_bits(4))
    with 1 show ?thesis using assms(1) length_bits [of n] by (auto simp: length_field_def frame_length_def)
  next
    case 2
    then show ?thesis using assms(1) be_val_be_bytes [of n 2] by (auto simp: length_field_def frame_length_def)
  next
    case 3
    then show ?thesis using assms be_val_be_bytes [OF big] by (auto simp: length_field_def frame_length_def)
  qed
  then show "frame_length (h # length_field m n @ rest) = Sized n (Suc (length (length_field m n)))"
    and "hd (length_field m n) AND 128 = m" by simp_all
  show "length_field m n \<noteq> []" by (simp add: length_field_def)
qed

definition after_frame :: "byte \<Rightarrow> ws_event list \<Rightarrow> buffer \<Rightarrow> ws_event list progress" where
  "after_frame op evs rest = (if op = OP_CLOSE then Halt evs rest else Frame evs rest)"

lemma push_step_complete:
  assumes b: "b = pre @ mk @ raw @ rest" and fl: "frame_length b = Sized (length raw) (length pre)"
    and n: "length raw \<le> MAX_FRAME_BYTES" and pre: "2 \<le> length pre"
    and mk: "if b ! 1 AND 128 \<noteq> 0 then length mk = 4 else mk = [] \<and> \<not> rm"
  shows "push_step rm evs b = after_frame (b ! 0 AND 15)
     (evs @ frame_events (b ! 0 AND 15) (if b ! 1 AND 128 \<noteq> 0 then unmask mk raw else raw)) rest"
proof (cases "b ! 1 AND 128 \<noteq> 0")
  case True
  then have d: "take 4 (drop (length pre) b) = mk" "drop (length pre + 4) b = raw @ rest"
    "drop (length pre + 4 + length raw) b = rest" using b mk by simp_all
  have l: "\<not> length b < 2" "\<not> length b < length pre + 4" "\<not> length b < length pre + 4 + length raw"
    using b mk True pre by simp_all
  show ?thesis using True n l d by (simp add: push_step_def Let_def fl after_frame_def)
next
  case False
  then have d: "drop (length pre) b = raw @ rest" "drop (length pre + length raw) b = rest"
    using b mk by simp_all
  have l: "\<not> length b < 2" "\<not> length b < length pre + length raw" using b pre by simp_all
  show ?thesis using False n mk l d by (simp add: push_step_def Let_def fl after_frame_def)
qed

lemma push_client_frame:
  assumes "known_op op" and "length mk = 4" and "length p \<le> MAX_FRAME_BYTES"
  shows "push_step rm evs (client_frame op mk p @ rest) = after_frame op (evs @ frame_events op p) rest"
proof -
  let ?pre = "(128 OR op) # length_field 128 (length p)" and ?b = "client_frame op mk p @ rest"
  note lf = length_field_read [of 128, OF disjI2 [OF refl] assms(3)]
  have b: "?b = ?pre @ mk @ masked_with mk p @ rest" by (simp add: client_frame_def)
  have "?b ! 1 AND 128 = 128" "?b ! 0 AND 15 = op"
    using lf(2,3) opcode_bits [OF assms(1)] by (simp_all add: b nth_append hd_conv_nth)
  moreover have "frame_length ?b = Sized (length (masked_with mk p)) (length ?pre)"
    using lf(1) [of "128 OR op" "mk @ masked_with mk p @ rest"] by (simp add: b)
  ultimately show ?thesis
    using push_step_complete [OF b] assms lf(3) by (simp add: Suc_le_eq)
qed

lemma push_server_frame:
  assumes "known_op op" and "length p \<le> MAX_FRAME_BYTES"
  shows "push_step False evs (encodeFrame op p @ rest) = after_frame op (evs @ frame_events op p) rest"
proof -
  let ?pre = "(128 OR op) # length_field 0 (length p)" and ?b = "encodeFrame op p @ rest"
  note lf = length_field_read [of 0, OF disjI1 [OF refl] assms(2)]
  have b: "?b = ?pre @ [] @ p @ rest" by (simp add: encodeFrame_def)
  have "?b ! 1 AND 128 = 0" "?b ! 0 AND 15 = op"
    using lf(2,3) opcode_bits [OF assms(1)] by (simp_all add: b nth_append hd_conv_nth)
  moreover have "frame_length ?b = Sized (length p) (length ?pre)"
    using lf(1) [of "128 OR op" "p @ rest"] by (simp add: b)
  ultimately show ?thesis
    using push_step_complete [OF b] assms lf(3) by (simp add: Suc_le_eq)
qed

lemma push_frames:
  assumes "\<And>f g evs rest. (f, g) \<in> set fgs \<Longrightarrow> push_step rm evs (f @ rest) = Frame (evs @ g) rest"
  shows "push_loop rm evs (concat (map fst fgs)) = (evs @ concat (map snd fgs), [], False)"
  using assms
proof (induction fgs arbitrary: evs)
  case Nil
  then show ?case by (simp add: push_loop.simps push_step_def)
next
  case (Cons fg fgs)
  have "push_step rm evs (fst fg @ concat (map fst fgs)) = Frame (evs @ snd fg) (concat (map fst fgs))"
    using Cons.prems [of "fst fg" "snd fg"] by simp
  then have "push_loop rm evs (concat (map fst (fg # fgs))) = push_loop rm (evs @ snd fg) (concat (map fst fgs))"
    by (simp add: ws_stream.run_Frame)
  then show ?case using Cons by simp
qed

section \<open>What crosses\<close>

text \<open>A client's stream: data frames and pings, each with its mask.\<close>

definition client_msg_ok :: "byte \<times> buffer \<times> buffer \<Rightarrow> bool" where
  "client_msg_ok m = (case m of (op, mk, p) \<Rightarrow>
     known_op op \<and> op \<noteq> OP_CLOSE \<and> length mk = 4 \<and> length p \<le> MAX_FRAME_BYTES)"

definition data_of :: "byte \<times> buffer \<times> buffer \<Rightarrow> buffer" where
  "data_of m = (case m of (op, mk, p) \<Rightarrow>
     if op = OP_BINARY \<or> op = OP_CONTINUATION \<or> op = OP_TEXT then p else [])"

definition pong_of :: "byte \<times> buffer \<times> buffer \<Rightarrow> buffer" where
  "pong_of m = (case m of (op, mk, p) \<Rightarrow> if op = OP_PING then encodeFrame OP_PONG p else [])"

abbreviation wire_of :: "byte \<times> buffer \<times> buffer \<Rightarrow> buffer" where
  "wire_of m \<equiv> case m of (op, mk, p) \<Rightarrow> client_frame op mk p"

abbreviation events_of :: "byte \<times> buffer \<times> buffer \<Rightarrow> ws_event list" where
  "events_of m \<equiv> case m of (op, mk, p) \<Rightarrow> frame_events op p"

abbreviation apply_events :: "splice \<Rightarrow> ws_event list \<Rightarrow> splice" where
  "apply_events s evs \<equiv> foldl (\<lambda>s ev. on_ws_event ev s) s evs"

lemma push_client_stream:
  assumes "\<forall>m \<in> set ms. client_msg_ok m"
  shows "push_loop rm evs (concat (map wire_of ms)) = (evs @ concat (map events_of ms), [], False)"
proof -
  have "push_step rm evs (f @ rest) = Frame (evs @ g) rest"
    if "(f, g) \<in> set (map (\<lambda>m. (wire_of m, events_of m)) ms)" for f g evs rest
    using that assms push_client_frame by (fastforce simp: client_msg_ok_def after_frame_def)
  from push_frames [OF this, of "map (\<lambda>m. (wire_of m, events_of m)) ms"] show ?thesis
    by (simp add: comp_def)
qed

text \<open>Decoder events accumulate: processing a chunk from a state is processing it from no events.\<close>

lemma push_step_acc:
  "push_step rm evs b = (case push_step rm [] b of Wait \<Rightarrow> Wait
     | Frame e r \<Rightarrow> Frame (evs @ e) r | Halt e r \<Rightarrow> Halt (evs @ e) r)"
  by (auto simp: push_step_def Let_def split: ws_length.split)

lemma push_loop_acc:
  "push_loop rm evs b = (case push_loop rm [] b of (e, r, h) \<Rightarrow> (evs @ e, r, h))"
proof (induction "length b" arbitrary: evs b rule: less_induct)
  case less
  show ?case
  proof (cases "push_step rm [] b")
    case Wait
    then show ?thesis using push_step_acc [of rm evs b] by (simp add: push_loop.simps)
  next
    case (Halt e r)
    then show ?thesis using push_step_acc [of rm evs b] by (simp add: push_loop.simps)
  next
    case (Frame e r)
    then have "push_loop rm evs b = push_loop rm (evs @ e) r" "push_loop rm [] b = push_loop rm e r"
      using push_step_acc [of rm evs b] by (simp_all add: ws_stream.run_Frame)
    then show ?thesis
      using less [OF push_step_shorter [OF Frame], of "evs @ e"] less [OF push_step_shorter [OF Frame], of e]
      by (simp split: prod.split)
  qed
qed

lemma on_ws_event_buffer: "on_ws_event ev (s\<lparr>sp_buffer := r\<rparr>) = (on_ws_event ev s)\<lparr>sp_buffer := r\<rparr>"
  by (cases ev) (simp_all add: teardown_def end_with_def)

lemma apply_events_buffer: "apply_events (s\<lparr>sp_buffer := r\<rparr>) evs = (apply_events s evs)\<lparr>sp_buffer := r\<rparr>"
  by (induction evs arbitrary: s) (simp_all add: on_ws_event_buffer)

lemma decoder_push_chunks:
  assumes "push_step True [] (sp_buffer s) = Wait"
    and "push_loop True [] (sp_buffer s @ concat xs) = (evs, r, False)"
  shows "foldl (\<lambda>s x. decoder_push x s) s xs = apply_events (s\<lparr>sp_buffer := r\<rparr>) evs"
  using assms
proof (induction xs arbitrary: s evs)
  case Nil
  then show ?case by (simp add: ws_stream.run_Wait)
next
  case (Cons x xs)
  obtain e1 r1 h where 1: "push_loop True [] (sp_buffer s @ x) = (e1, r1, h)"
    by (cases "push_loop True [] (sp_buffer s @ x)") auto
  have "\<not> h" using ws_stream.halted [of True "[]" "sp_buffer s @ x" e1 r1 "concat xs"] 1 Cons.prems(2)
    by (cases h) auto
  with 1 have 2: "push_loop True [] (sp_buffer s @ x) = (e1, r1, False)" by simp
  let ?s1 = "decoder_push x s"
  have s1: "?s1 = apply_events (s\<lparr>sp_buffer := r1\<rparr>) e1" by (simp add: decoder_push_def 2)
  then have b1: "sp_buffer ?s1 = r1" by (simp add: apply_events_buffer)
  obtain e2 r2 h2 where 3: "push_loop True [] (r1 @ concat xs) = (e2, r2, h2)"
    by (cases "push_loop True [] (r1 @ concat xs)") auto
  with ws_stream.chunked [OF 2, of "concat xs"] push_loop_acc [of True e1] Cons.prems(2)
  have e: "evs = e1 @ e2" "push_loop True [] (r1 @ concat xs) = (e2, r, False)" by simp_all
  have "push_step True [] r1 = Wait"
    using ws_stream.run_waits [OF 2] push_step_acc [of True e1 r1] by (auto split: progress.splits)
  from Cons.IH [of ?s1 e2] this e(2) b1 have "foldl (\<lambda>s x. decoder_push x s) ?s1 xs = apply_events (?s1\<lparr>sp_buffer := r\<rparr>) e2"
    by simp
  then show ?case by (simp add: s1 e(1) apply_events_buffer)
qed

lemma apply_client_events:
  assumes "\<forall>m \<in> set ms. client_msg_ok m"
  shows "apply_events s (concat (map events_of ms)) =
    s\<lparr>sp_ws2tcp := sp_ws2tcp s + length (concat (map data_of ms)),
      sp_toUpstream := sp_toUpstream s @ concat (map data_of ms),
      sp_toClient := sp_toClient s @ concat (map pong_of ms)\<rparr>"
  using assms
proof (induction ms arbitrary: s)
  case (Cons m ms)
  obtain op mk p where m: "m = (op, mk, p)" by (cases m)
  have "apply_events s (events_of m) =
    s\<lparr>sp_ws2tcp := sp_ws2tcp s + length (data_of m), sp_toUpstream := sp_toUpstream s @ data_of m,
      sp_toClient := sp_toClient s @ pong_of m\<rparr>"
    using Cons.prems by (auto simp: m client_msg_ok_def frame_events_def data_of_def pong_of_def opcodes)
  then show ?case using Cons by simp
qed simp

lemma splice_open_chunks:
  "foldl (\<lambda>s x. decoder_push x s) s xs = s' \<Longrightarrow> \<not> sp_closed s' \<Longrightarrow>
   foldl (\<lambda>s x. on_splice_event (ClientData x) s) s xs = s'"
proof (induction xs arbitrary: s)
  case (Cons x xs)
  have mono: "sp_closed s \<Longrightarrow> sp_closed (foldl (\<lambda>s x. decoder_push x s) s ys)" for s ys
  proof (induction ys arbitrary: s)
    case (Cons y ys)
    have "sp_closed (on_ws_event ev t)" if "sp_closed t" for ev t
      using that by (cases ev) (simp_all add: teardown_def)
    then have "sp_closed (apply_events t evs)" if "sp_closed t" for evs t
      using that by (induction evs arbitrary: t) auto
    then have "sp_closed (decoder_push y s)" using Cons.prems by (simp add: decoder_push_def split: prod.split)
    then show ?case using Cons.IH by simp
  qed simp
  from Cons.prems have "\<not> sp_closed s" using mono [of s "x # xs"] by auto
  with Cons show ?case by simp
qed simp

text \<open>
  The relay is transparent towards the TCP side. However a client's masked frames are cut into
  chunks, the upstream connection is given exactly the payloads of its data frames, in order, every ping
  is answered with its payload, and the splice stays open.
\<close>
theorem relay_client_to_tcp:
  assumes "\<forall>m \<in> set ms. client_msg_ok m" and "concat xs = concat (map wire_of ms)"
    and "\<not> sp_closed s" and "sp_buffer s = []"
  shows "foldl (\<lambda>s x. on_splice_event (ClientData x) s) s xs =
    s\<lparr>sp_ws2tcp := sp_ws2tcp s + length (concat (map data_of ms)),
      sp_toUpstream := sp_toUpstream s @ concat (map data_of ms),
      sp_toClient := sp_toClient s @ concat (map pong_of ms)\<rparr>"
proof (rule splice_open_chunks)
  have "foldl (\<lambda>s x. decoder_push x s) s xs = apply_events (s\<lparr>sp_buffer := []\<rparr>) (concat (map events_of ms))"
    by (rule decoder_push_chunks)
      (use push_client_stream [OF assms(1), of True "[]"] assms(2,4) in \<open>simp_all add: push_step_def\<close>)
  moreover have "s\<lparr>sp_buffer := []\<rparr> = s" using assms(4) by simp
  ultimately show "foldl (\<lambda>s x. decoder_push x s) s xs =
    s\<lparr>sp_ws2tcp := sp_ws2tcp s + length (concat (map data_of ms)),
      sp_toUpstream := sp_toUpstream s @ concat (map data_of ms),
      sp_toClient := sp_toClient s @ concat (map pong_of ms)\<rparr>"
    using apply_client_events [OF assms(1)] by simp
qed (use assms(3) in simp)

lemma upstream_chunks:
  "\<not> sp_closed s \<Longrightarrow> foldl (\<lambda>s x. on_splice_event (UpstreamData x) s) s cs =
     s\<lparr>sp_tcp2ws := sp_tcp2ws s + length (concat cs),
       sp_toClient := sp_toClient s @ concat (map (encodeFrame OP_BINARY) cs)\<rparr>"
  by (induction cs arbitrary: s) simp_all

lemma push_server_stream:
  assumes "\<forall>c \<in> set cs. length c \<le> MAX_FRAME_BYTES"
  shows "push_loop False evs (concat (map (encodeFrame OP_BINARY) cs)) =
    (evs @ map WsData (filter (\<lambda>c. c \<noteq> []) cs), [], False)"
proof -
  have "push_step False evs (f @ rest) = Frame (evs @ g) rest"
    if "(f, g) \<in> set (map (\<lambda>c. (encodeFrame OP_BINARY c, frame_events OP_BINARY c)) cs)" for f g evs rest
    using that assms push_server_frame [of OP_BINARY]
    by (fastforce simp: after_frame_def known_op_def opcodes)
  from push_frames [OF this, of "map (\<lambda>c. (encodeFrame OP_BINARY c, frame_events OP_BINARY c)) cs"]
  have "push_loop False evs (concat (map (encodeFrame OP_BINARY) cs)) =
      (evs @ concat (map (frame_events OP_BINARY) cs), [], False)" by (simp add: comp_def)
  moreover have "concat (map (frame_events OP_BINARY) cs) = map WsData (filter (\<lambda>c. c \<noteq> []) cs)"
    by (induction cs) (simp_all add: frame_events_def)
  ultimately show ?thesis by simp
qed

text \<open>
  And towards the client: however the bytes written to the client's socket are cut up on the way, a
  decoder of server frames gets back the chunks the TCP side sent, in order (an empty chunk carries no
  bytes and no event).
\<close>
theorem relay_tcp_to_client:
  assumes "\<forall>c \<in> set cs. length c \<le> MAX_FRAME_BYTES" and "\<not> sp_closed s"
    and "sp_toClient (foldl (\<lambda>s x. on_splice_event (UpstreamData x) s) s cs) = sp_toClient s @ concat xs"
  shows "foldl (\<lambda>(evs, b) x. case push_loop False evs (b @ x) of (e, r, _) \<Rightarrow> (e, r)) ([], []) xs =
    (map WsData (filter (\<lambda>c. c \<noteq> []) cs), [])"
proof (rule ws_stream.fed_in_chunks)
  show "push_step False [] [] = Wait" by (simp add: push_step_def)
  have "concat xs = concat (map (encodeFrame OP_BINARY) cs)"
    using assms(3) unfolding upstream_chunks [OF assms(2)] by simp
  then show "push_loop False [] ([] @ concat xs) = (map WsData (filter (\<lambda>c. c \<noteq> []) cs), [], False)"
    using push_server_stream [OF assms(1), of "[]"] by simp
qed

text \<open>
  A peer cannot make the decoder hold more than one frame: whatever it has sent and however it was
  cut up, what a push leaves buffered is less than the largest header and payload together, or the
  decoder has told its owner to close.
\<close>
theorem decoder_bounded:
  assumes "push_loop rm evs b = (evs', r, h)"
  shows "length r < 14 + MAX_FRAME_BYTES \<or> h \<and> (\<exists>code why. WsClose code why \<in> set evs')"
proof (cases h)
  case False
  with assms have "push_step rm evs' r = Wait" using ws_stream.run_waits [of rm evs b evs' r] by simp
  then have "length r < 14 + MAX_FRAME_BYTES"
    by (auto simp: push_step_def Let_def frame_length_def split: if_splits ws_length.splits)
  then show ?thesis by simp
next
  case True
  have "\<exists>code why. WsClose code why \<in> set e" if "push_step rm evs b = Halt e r" for evs b e r
    using that
    by (auto simp: push_step_def Let_def frame_events_def opcodes split: if_splits ws_length.splits) blast+
  then have "push_loop rm evs b = (evs', r, True) \<Longrightarrow> \<exists>code why. WsClose code why \<in> set evs'"
    by (induction evs b rule: ws_stream.run_induct [where rm = rm])
      (auto simp: ws_stream.run_Wait ws_stream.run_Frame ws_stream.run_Halt)
  then show ?thesis using assms True by simp
qed

text \<open>
  An unmasked frame from a client ends the splice before a byte of it reaches the TCP side, and a
  splice that ended stays as it was, whatever its sockets still report.
\<close>
theorem unmasked_client_closed:
  assumes "\<not> sp_closed s" and "sp_buffer s = []" and "known_op op" and "length p \<le> MAX_FRAME_BYTES"
  shows "sp_closed (on_splice_event (ClientData (encodeFrame op p @ rest)) s) \<and>
    sp_toUpstream (on_splice_event (ClientData (encodeFrame op p @ rest)) s) = sp_toUpstream s \<and>
    on_splice_event ev (on_splice_event (ClientData (encodeFrame op p @ rest)) s) =
      on_splice_event (ClientData (encodeFrame op p @ rest)) s"
proof -
  let ?b = "encodeFrame op p @ rest" and ?pre = "(128 OR op) # length_field 0 (length p)"
  note lf = length_field_read [of 0, OF disjI1 [OF refl] assms(4)]
  have b: "?b = ?pre @ p @ rest" by (simp add: encodeFrame_def)
  have "?b ! 1 AND 128 = 0" using lf(2,3) by (simp add: b nth_append hd_conv_nth)
  moreover have "frame_length ?b = Sized (length p) (length ?pre)"
    using lf(1) [of "128 OR op" "p @ rest"] by (simp add: b)
  moreover have "2 \<le> length ?b" using lf(3) by (cases "length_field 0 (length p)") (simp_all add: b)
  ultimately have "push_step True [] ?b = Halt [WsClose 1002 ''client frames must be masked''] ?b"
    using assms(4) by (simp add: push_step_def)
  then have "on_splice_event (ClientData ?b) s = teardown (s\<lparr>sp_buffer := ?b\<rparr>)"
    using assms(1,2) by (simp add: decoder_push_def ws_stream.run_Halt)
  moreover have "sp_closed (teardown t)" "sp_toUpstream (teardown t) = sp_toUpstream t" for t
    by (simp_all add: teardown_def end_with_def)
  moreover have "on_splice_event ev t = t" if "sp_closed t" for t
    using that by (cases ev) (simp_all add: teardown_def)
  ultimately show ?thesis by simp
qed

section \<open>Witnesses\<close>

definition two_messages :: "(byte \<times> buffer \<times> buffer) list" where
  "two_messages = [(OP_BINARY, [1, 2, 3, 4], [80, 9]), (OP_PING, [5, 6, 7, 8], [1])]"

theorem relay_client_to_tcp_witness:
  "sp_toUpstream (foldl (\<lambda>s x. on_splice_event (ClientData x) s) (new_splice [])
     [take 3 (concat (map wire_of two_messages)), drop 3 (concat (map wire_of two_messages))]) = [80, 9]"
proof -
  have ok: "\<forall>m \<in> set two_messages. client_msg_ok m"
    by (simp add: two_messages_def client_msg_ok_def known_op_def MAX_FRAME_BYTES_def opcodes)
  have "concat (map data_of two_messages) = [80, 9]"
    by (simp add: two_messages_def data_of_def opcodes)
  then show ?thesis by (subst relay_client_to_tcp [OF ok]) (simp_all add: new_splice_def)
qed

theorem relay_tcp_to_client_witness:
  "foldl (\<lambda>(evs, b) x. case push_loop False evs (b @ x) of (e, r, _) \<Rightarrow> (e, r)) ([], [])
     [[130], [1, 7]] = ([WsData [7]], [])"
  using relay_tcp_to_client [of "[[7]]" "new_splice []" "[[130], [1, 7]]"]
  by (simp add: MAX_FRAME_BYTES_def new_splice_def encodeFrame_def length_field_def opcodes)

theorem decoder_bounded_witness:
  "length (fst (snd (push_loop True [] [130, 129]))) < 14 + MAX_FRAME_BYTES \<or>
   snd (snd (push_loop True [] [130, 129])) \<and>
   (\<exists>code why. WsClose code why \<in> set (fst (push_loop True [] [130, 129])))"
  by (rule decoder_bounded) simp

theorem unmasked_client_closed_witness:
  "sp_closed (on_splice_event (ClientData (encodeFrame OP_BINARY [7])) (new_splice [])) \<and>
   sp_toUpstream (on_splice_event (ClientData (encodeFrame OP_BINARY [7])) (new_splice [])) = []"
  using unmasked_client_closed [of "new_splice []" OP_BINARY "[7]" "[]" ClientEnd]
  by (simp add: new_splice_def known_op_def MAX_FRAME_BYTES_def)

end
