(* ===== verification/Tunnel_Protocol.thy ===== *)
theory Tunnel_Protocol
  imports JS_Bytes
begin

text \<open>
  The frames of the tunnel that makes a machine behind NAT dialable: \<^verbatim>\<open>tools/p4-relay/protocol.mjs\<close>,
  and the copy of it in the desktop wallet (\<^verbatim>\<open>wallet/desktop/electron/relay.cjs\<close>, here with the prefix
  \<open>rc_\<close>). A frame is the magic, a type byte, a stream number, a length and the payload, big-endian. The
  parser's calls of \<^verbatim>\<open>onFrame\<close> and \<^verbatim>\<open>onError\<close> are events; \<open>encode_frame\<close> is \<open>None\<close> where the code throws.
\<close>

section \<open>protocol.mjs\<close>

definition MAGIC :: buffer where "MAGIC = from_text ''KVR1''"
definition HEADER_BYTES :: nat where "HEADER_BYTES = 4 + 1 + 4 + 4"
definition MAX_PAYLOAD :: nat where "MAX_PAYLOAD = 4 * 1024 * 1024"

definition FRAME_TYPE :: "nat table" where
  "FRAME_TYPE = [(''CHALLENGE'', 8), (''HELLO'', 1), (''WELCOME'', 2), (''OPEN'', 3), (''DATA'', 4),
           (''CLOSE'', 5), (''PING'', 6), (''PONG'', 7)]"

abbreviation (input) T_CHALLENGE :: nat where "T_CHALLENGE \<equiv> 8"
abbreviation (input) T_HELLO :: nat where "T_HELLO \<equiv> 1"
abbreviation (input) T_WELCOME :: nat where "T_WELCOME \<equiv> 2"
abbreviation (input) T_OPEN :: nat where "T_OPEN \<equiv> 3"
abbreviation (input) T_DATA :: nat where "T_DATA \<equiv> 4"
abbreviation (input) T_CLOSE :: nat where "T_CLOSE \<equiv> 5"
abbreviation (input) T_PING :: nat where "T_PING \<equiv> 6"
abbreviation (input) T_PONG :: nat where "T_PONG \<equiv> 7"

definition typeName :: "nat \<Rightarrow> string" where
  "typeName v = (case List.find (\<lambda>(k, n). n = v) FRAME_TYPE of
                   Some (k, _) \<Rightarrow> k | None \<Rightarrow> ''unknown('' @ show_nat v @ '')'')"

definition encode_frame :: "nat \<Rightarrow> nat \<Rightarrow> buffer \<Rightarrow> buffer option" where
  "encode_frame ty st body =
     (if MAX_PAYLOAD < length body \<or> 256 \<le> ty \<or> 256 ^ 4 \<le> st then None
      else Some (MAGIC @ [of_nat ty] @ be_bytes 4 st @ be_bytes 4 (length body) @ body))"

datatype framing_error = BadMagic | PayloadTooLarge nat

datatype tun_event = OnFrame nat nat buffer | OnError framing_error

record parser =
  pr_buffer :: buffer
  pr_broken :: bool

definition new_parser :: parser where
  "new_parser = \<lparr>pr_buffer = [], pr_broken = False\<rparr>"

definition parse_step :: "tun_event list \<Rightarrow> buffer \<Rightarrow> tun_event list progress" where
  "parse_step evs b =
     (if length b < HEADER_BYTES then Wait
      else if take 4 b \<noteq> MAGIC then Halt (evs @ [OnError BadMagic]) b
      else let n = be_val (take 4 (drop 9 b))
           in if MAX_PAYLOAD < n then Halt (evs @ [OnError (PayloadTooLarge n)]) b
              else if length b < HEADER_BYTES + n then Wait
              else Frame (evs @ [OnFrame (unat (b ! 4)) (be_val (take 4 (drop 5 b)))
                                   (take n (drop HEADER_BYTES b))])
                     (drop (HEADER_BYTES + n) b))"

lemma parse_step_shorter: "parse_step evs b = Frame evs' r \<Longrightarrow> length r < length b"
  by (auto simp: parse_step_def HEADER_BYTES_def Let_def split: if_splits)

function parse_loop :: "tun_event list \<Rightarrow> buffer \<Rightarrow> tun_event list \<times> buffer \<times> bool" where
  "parse_loop evs b =
     (case parse_step evs b of
        Wait \<Rightarrow> (evs, b, False)
      | Frame evs' r \<Rightarrow> parse_loop evs' r
      | Halt evs' r \<Rightarrow> (evs', r, True))"
  by pat_completeness auto
termination
  by (relation "measure (\<lambda>(evs, b). length b)") (auto simp: parse_step_shorter)

declare parse_loop.simps [simp del]

text \<open>One call of the function \<^verbatim>\<open>createParser\<close> returns: the events of this chunk.\<close>

definition parse_chunk :: "buffer \<Rightarrow> parser \<Rightarrow> parser \<times> tun_event list" where
  "parse_chunk chunk p =
     (if pr_broken p then (p, [])
      else case parse_loop [] (pr_buffer p @ chunk) of
             (evs, r, h) \<Rightarrow> (\<lparr>pr_buffer = r, pr_broken = h\<rparr>, evs))"

fun parse_chunks :: "buffer list \<Rightarrow> parser \<Rightarrow> parser \<times> tun_event list" where
  "parse_chunks [] p = (p, [])"
| "parse_chunks (x # xs) p =
     (let (p1, e1) = parse_chunk x p; (p2, e2) = parse_chunks xs p1 in (p2, e1 @ e2))"

section \<open>relay.cjs\<close>

definition rc_MAGIC :: buffer where "rc_MAGIC = from_text ''KVR1''"
definition rc_HEADER :: nat where "rc_HEADER = 13"
definition rc_MAX_PAYLOAD :: nat where "rc_MAX_PAYLOAD = 4 * 1024 * 1024"

definition rc_T :: "nat table" where
  "rc_T = [(''HELLO'', 1), (''WELCOME'', 2), (''OPEN'', 3), (''DATA'', 4), (''CLOSE'', 5), (''PING'', 6),
           (''PONG'', 7), (''CHALLENGE'', 8)]"

definition rc_encode :: "nat \<Rightarrow> nat \<Rightarrow> buffer option \<Rightarrow> buffer option" where
  "rc_encode ty st payload =
     (let body = (case payload of None \<Rightarrow> [] | Some b \<Rightarrow> b)
      in if rc_MAX_PAYLOAD < length body \<or> 256 \<le> ty \<or> 256 ^ 4 \<le> st then None
         else Some (rc_MAGIC @ [of_nat ty] @ be_bytes 4 st @ be_bytes 4 (length body) @ body))"

definition rc_step :: "tun_event list \<Rightarrow> buffer \<Rightarrow> tun_event list progress" where
  "rc_step evs b =
     (if length b < rc_HEADER then Wait
      else if take 4 b \<noteq> rc_MAGIC then Halt (evs @ [OnError BadMagic]) b
      else let n = be_val (take 4 (drop 9 b))
           in if rc_MAX_PAYLOAD < n then Halt (evs @ [OnError (PayloadTooLarge n)]) b
              else if length b < rc_HEADER + n then Wait
              else Frame (evs @ [OnFrame (unat (b ! 4)) (be_val (take 4 (drop 5 b)))
                                   (take n (drop rc_HEADER b))])
                     (drop (rc_HEADER + n) b))"

lemma rc_step_shorter: "rc_step evs b = Frame evs' r \<Longrightarrow> length r < length b"
  by (auto simp: rc_step_def rc_HEADER_def Let_def split: if_splits)

function rc_loop :: "tun_event list \<Rightarrow> buffer \<Rightarrow> tun_event list \<times> buffer \<times> bool" where
  "rc_loop evs b =
     (case rc_step evs b of
        Wait \<Rightarrow> (evs, b, False)
      | Frame evs' r \<Rightarrow> rc_loop evs' r
      | Halt evs' r \<Rightarrow> (evs', r, True))"
  by pat_completeness auto
termination
  by (relation "measure (\<lambda>(evs, b). length b)") (auto simp: rc_step_shorter)

declare rc_loop.simps [simp del]

definition rc_parser :: "buffer \<Rightarrow> parser \<Rightarrow> parser \<times> tun_event list" where
  "rc_parser chunk p =
     (if pr_broken p then (p, [])
      else case rc_loop [] (pr_buffer p @ chunk) of
             (evs, r, h) \<Rightarrow> (\<lparr>pr_buffer = r, pr_broken = h\<rparr>, evs))"

section \<open>The stream\<close>

lemma take_drop_append: "k + n \<le> length b \<Longrightarrow> take n (drop k (b @ x)) = take n (drop k b)"
  by simp

lemma parse_step_more:
  assumes "parse_step evs b \<noteq> Wait"
  shows "parse_step evs (b @ x) =
    (case parse_step evs b of Wait \<Rightarrow> Wait | Frame e r \<Rightarrow> Frame e (r @ x) | Halt e r \<Rightarrow> Halt e (r @ x))"
proof -
  have l: "13 \<le> length b"
    by (rule ccontr) (use assms in \<open>simp add: parse_step_def HEADER_BYTES_def\<close>)
  have t: "take 4 (b @ x) = take 4 b" "take 4 (drop 9 (b @ x)) = take 4 (drop 9 b)"
    "take 4 (drop 5 (b @ x)) = take 4 (drop 5 b)"
    using take_drop_append [of 0 4 b x] take_drop_append [of 9 4 b x] take_drop_append [of 5 4 b x] l
    by simp_all
  have n: "(b @ x) ! 4 = b ! 4" by (rule nth_append_left) (use l in linarith)
  let ?n = "be_val (take 4 (drop 9 b))"
  show ?thesis
  proof (cases "take 4 b \<noteq> MAGIC \<or> MAX_PAYLOAD < ?n")
    case True
    then show ?thesis using l t by (auto simp: parse_step_def HEADER_BYTES_def Let_def)
  next
    case False
    then have "13 + ?n \<le> length b"
      by (intro leI notI) (use assms l in \<open>simp add: parse_step_def HEADER_BYTES_def Let_def\<close>)
    then have d: "take ?n (drop 13 (b @ x)) = take ?n (drop 13 b)" "drop (13 + ?n) (b @ x) = drop (13 + ?n) b @ x"
      "\<not> length b < 13 + ?n" "\<not> length (b @ x) < 13 + ?n"
      by simp_all
    show ?thesis using False l d
      by (simp add: parse_step_def HEADER_BYTES_def Let_def t n del: take_append drop_append length_append)
  qed
qed

interpretation tun_stream: incremental parse_step parse_loop
proof
  show "parse_loop c b = (case parse_step c b of Wait \<Rightarrow> (c, b, False)
    | Frame c' r \<Rightarrow> parse_loop c' r | Halt c' r \<Rightarrow> (c', r, True))" for c b
    by (rule parse_loop.simps)
  show "parse_step c b = Frame c' r \<Longrightarrow> parse_step c (b @ x) = Frame c' (r @ x)" for c b c' r x
    using parse_step_more [of c b x] by simp
  show "parse_step c b = Halt c' r \<Longrightarrow> parse_step c (b @ x) = Halt c' (r @ x)" for c b c' r x
    using parse_step_more [of c b x] by simp
  show "parse_step c b = Frame c' r \<Longrightarrow> length r < length b" for c b c' r
    by (rule parse_step_shorter)
qed

lemma parse_frame:
  assumes "encode_frame ty st body = Some f"
  shows "parse_step evs (f @ rest) = Frame (evs @ [OnFrame ty st body]) rest"
proof -
  from assms have lim: "length body \<le> MAX_PAYLOAD" "ty < 256" "st < 256 ^ 4"
    and f: "f @ rest = MAGIC @ [of_nat ty] @ be_bytes 4 st @ be_bytes 4 (length body) @ body @ rest"
    by (auto simp: encode_frame_def split: if_splits)
  have m: "length MAGIC = 4" by (simp add: MAGIC_def)
  have "length body < 256 ^ 4" using lim(1) by (simp add: MAX_PAYLOAD_def)
  then have n: "be_val (be_bytes 4 (length body)) = length body" "be_val (be_bytes 4 st) = st"
    "unat (of_nat ty :: byte) = ty"
    using lim be_val_be_bytes by (simp_all add: unat_byte)
  have p: "take 4 (f @ rest) = MAGIC" "take 4 (drop 9 (f @ rest)) = be_bytes 4 (length body)"
    "take 4 (drop 5 (f @ rest)) = be_bytes 4 st" "(f @ rest) ! 4 = of_nat ty"
    unfolding f by (simp_all add: m nth_append)
  define pre where "pre = MAGIC @ [of_nat ty] @ be_bytes 4 st @ be_bytes 4 (length body)"
  have pre: "f @ rest = pre @ body @ rest" "length pre = 13" by (simp_all add: f pre_def m)
  have q: "take (length body) (drop 13 (f @ rest)) = body" "drop (13 + length body) (f @ rest) = rest"
    "\<not> length (f @ rest) < 13 + length body" "\<not> length (f @ rest) < 13"
    unfolding pre(1) using pre(2) by simp_all
  show ?thesis
    using lim(1) p q
    by (simp add: parse_step_def HEADER_BYTES_def Let_def n del: take_append drop_append length_append)
qed

type_synonym tun_frame = "nat \<times> nat \<times> buffer"

abbreviation on_frame :: "tun_frame \<Rightarrow> tun_event" where
  "on_frame f \<equiv> case f of (ty, st, body) \<Rightarrow> OnFrame ty st body"

abbreviation encode_of :: "tun_frame \<Rightarrow> buffer option" where
  "encode_of f \<equiv> case f of (ty, st, body) \<Rightarrow> encode_frame ty st body"

lemma parse_frames:
  "map encode_of fs = map Some bs \<Longrightarrow> parse_loop evs (concat bs) = (evs @ map on_frame fs, [], False)"
proof (induction fs arbitrary: evs bs)
  case Nil
  then show ?case by (simp add: parse_loop.simps parse_step_def HEADER_BYTES_def)
next
  case (Cons f fs)
  obtain ty st body where f: "f = (ty, st, body)" by (cases f)
  from Cons.prems obtain b bs' where bs: "bs = b # bs'" "encode_frame ty st body = Some b"
    "map encode_of fs = map Some bs'" by (cases bs) (auto simp: f)
  have "parse_loop evs (concat bs) = parse_loop (evs @ [on_frame f]) (concat bs')"
    using tun_stream.run_Frame [OF parse_frame [OF bs(2), of evs "concat bs'"]] by (simp add: bs(1) f)
  then show ?case using Cons.IH [OF bs(3)] by simp
qed

lemma parse_step_acc:
  "parse_step evs b = (case parse_step [] b of Wait \<Rightarrow> Wait
     | Frame e r \<Rightarrow> Frame (evs @ e) r | Halt e r \<Rightarrow> Halt (evs @ e) r)"
  by (simp add: parse_step_def Let_def)

lemma parse_loop_acc: "parse_loop evs b = (case parse_loop [] b of (e, r, h) \<Rightarrow> (evs @ e, r, h))"
proof (induction "length b" arbitrary: evs b rule: less_induct)
  case less
  show ?case
  proof (cases "parse_step [] b")
    case Wait
    then show ?thesis using parse_step_acc [of evs b] by (simp add: parse_loop.simps)
  next
    case (Halt e r)
    then show ?thesis using parse_step_acc [of evs b] by (simp add: parse_loop.simps)
  next
    case (Frame e r)
    then have "parse_loop evs b = parse_loop (evs @ e) r" "parse_loop [] b = parse_loop e r"
      using parse_step_acc [of evs b] by (simp_all add: tun_stream.run_Frame)
    then show ?thesis
      using less [OF parse_step_shorter [OF Frame], of "evs @ e"] less [OF parse_step_shorter [OF Frame], of e]
      by (simp split: prod.split)
  qed
qed

text \<open>The parser's events, over any number of chunks, are those of the whole stream in one piece.\<close>

lemma parse_chunks_whole:
  assumes "\<not> pr_broken p" and "parse_step [] (pr_buffer p) = Wait"
    and "parse_loop [] (pr_buffer p @ concat xs) = (evs, r, h)"
  shows "snd (parse_chunks xs p) = evs \<and> pr_broken (fst (parse_chunks xs p)) = h
    \<and> (\<not> h \<longrightarrow> pr_buffer (fst (parse_chunks xs p)) = r)"
  using assms
proof (induction xs arbitrary: p evs)
  case Nil
  then show ?case by (simp add: tun_stream.run_Wait)
next
  case (Cons x xs)
  obtain e1 r1 h1 where 1: "parse_loop [] (pr_buffer p @ x) = (e1, r1, h1)"
    by (cases "parse_loop [] (pr_buffer p @ x)") auto
  have c: "parse_chunk x p = (\<lparr>pr_buffer = r1, pr_broken = h1\<rparr>, e1)"
    using Cons.prems(1) by (simp add: parse_chunk_def 1)
  show ?case
  proof (cases h1)
    case True
    have "parse_chunks xs q = (q, [])" if "pr_broken q" for q
      using that by (induction xs) (auto simp: parse_chunk_def)
    then show ?thesis
      using Cons.prems(3) tun_stream.halted [of "[]" "pr_buffer p @ x" e1 r1 "concat xs"] 1 True c by simp
  next
    case False
    with 1 have 2: "parse_loop [] (pr_buffer p @ x) = (e1, r1, False)" by simp
    obtain e2 r2 h2 where 3: "parse_loop [] (r1 @ concat xs) = (e2, r2, h2)"
      by (cases "parse_loop [] (r1 @ concat xs)") auto
    with tun_stream.chunked [OF 2, of "concat xs"] parse_loop_acc [of e1] Cons.prems(3)
    have e: "evs = e1 @ e2" "parse_loop [] (r1 @ concat xs) = (e2, r, h)" by simp_all
    have "parse_step [] r1 = Wait"
      using tun_stream.run_waits [OF 2] parse_step_acc [of e1 r1] by (auto split: progress.splits)
    from Cons.IH [of "\<lparr>pr_buffer = r1, pr_broken = h1\<rparr>" e2] this e(2) False c show ?thesis
      by (auto simp: e(1) split: prod.split)
  qed
qed

text \<open>
  The tunnel carries frames exactly: any sequence of encoded frames, delivered in chunks cut at any
  byte positions, makes the parser report those frames, unaltered and in order, and leaves nothing
  buffered.
\<close>
theorem tunnel_frames_exact:
  assumes "map encode_of fs = map Some bs" and "concat xs = concat bs"
  shows "parse_chunks xs new_parser = (new_parser, map on_frame fs)"
proof -
  have w: "parse_step [] [] = Wait" by (simp add: parse_step_def HEADER_BYTES_def)
  from parse_frames [OF assms(1), of "[]"] assms(2)
  have "parse_loop [] (pr_buffer new_parser @ concat xs) = (map on_frame fs, [], False)"
    by (simp add: new_parser_def)
  from parse_chunks_whole [OF _ _ this] w show ?thesis
    by (cases "parse_chunks xs new_parser") (auto simp: new_parser_def)
qed

text \<open>
  The parser never resynchronises: after a frame with a bad magic or an oversized length it reports
  that one error and ignores every later byte, however the stream is cut up.
\<close>
theorem tunnel_fails_closed:
  assumes "\<not> pr_broken p" and "parse_step [] (pr_buffer p) = Wait"
    and "parse_loop [] (pr_buffer p @ concat xs) = (evs, r, True)"
  shows "parse_chunks (xs @ ys) p = (fst (parse_chunks xs p), evs) \<and> (\<exists>e. last evs = OnError e)"
proof -
  from tun_stream.halted [OF assms(3), of "concat ys"]
  have "parse_loop [] (pr_buffer p @ concat (xs @ ys)) = (evs, r @ concat ys, True)" by simp
  note whole = parse_chunks_whole [OF assms] parse_chunks_whole [OF assms(1,2) this]
  have skip: "parse_chunks ys q = (q, [])" if "pr_broken q" for q
    using that by (induction ys) (auto simp: parse_chunk_def)
  have split: "parse_chunks (xs @ ys) p = (let (p1, e1) = parse_chunks xs p; (p2, e2) = parse_chunks ys p1 in (p2, e1 @ e2))" for p
    by (induction xs arbitrary: p) (auto split: prod.splits)
  have "\<exists>e. last e' = OnError e" if "parse_step evs b = Halt e' r'" for evs b e' r'
    using that by (auto simp: parse_step_def Let_def split: if_splits)
  then have "parse_loop evs0 b = (evs, r, True) \<Longrightarrow> \<exists>e. last evs = OnError e" for evs0 b
    by (induction evs0 b rule: tun_stream.run_induct)
      (auto simp: tun_stream.run_Wait tun_stream.run_Frame tun_stream.run_Halt)
  from this [OF assms(3)] obtain e where "last evs = OnError e" by blast
  moreover have "parse_chunks xs p = (fst (parse_chunks xs p), evs)" "pr_broken (fst (parse_chunks xs p))"
    using whole(1) by (simp_all add: prod_eq_iff)
  ultimately show ?thesis using skip split [of p] by (metis (no_types, lifting) append_Nil2 case_prod_conv)
qed

text \<open>
  The wallet's copy of the protocol is the protocol: it encodes every frame to the same bytes (a
  missing payload is an empty one) and its parser reports the same events from the same state.
\<close>
theorem tunnel_port_agrees:
  "rc_encode ty st payload = encode_frame ty st (case payload of None \<Rightarrow> [] | Some b \<Rightarrow> b) \<and>
   rc_parser chunk p = parse_chunk chunk p \<and> map_of rc_T = map_of FRAME_TYPE"
proof (intro conjI)
  have c: "rc_MAGIC = MAGIC" "rc_MAX_PAYLOAD = MAX_PAYLOAD" "rc_HEADER = HEADER_BYTES"
    by (simp_all add: rc_MAGIC_def MAGIC_def rc_MAX_PAYLOAD_def MAX_PAYLOAD_def rc_HEADER_def HEADER_BYTES_def)
  show "rc_encode ty st payload = encode_frame ty st (case payload of None \<Rightarrow> [] | Some b \<Rightarrow> b)"
    by (simp add: rc_encode_def encode_frame_def c Let_def)
  have step: "rc_step evs b = parse_step evs b" for evs b by (simp add: rc_step_def parse_step_def c Let_def)
  have "rc_loop evs b = parse_loop evs b" for evs b
    by (induction evs b rule: tun_stream.run_induct)
      (simp_all add: rc_loop.simps [of _ b for b] step tun_stream.run_Wait tun_stream.run_Frame tun_stream.run_Halt)
  then show "rc_parser chunk p = parse_chunk chunk p" by (simp add: rc_parser_def parse_chunk_def)
  show "map_of rc_T = map_of FRAME_TYPE" by (rule ext) (simp add: rc_T_def FRAME_TYPE_def)
qed

section \<open>Witnesses\<close>

lemma be4: "be_bytes 4 v = [of_nat (v div 256 div 256 div 256), of_nat (v div 256 div 256), of_nat (v div 256), of_nat v]"
proof -
  have four: "(4 :: nat) = Suc (Suc (Suc (Suc 0)))" by simp
  show ?thesis unfolding be_bytes_def four by (simp only: le_bytes.simps) simp
qed

theorem tunnel_frames_exact_witness:
  "parse_chunks [from_text ''KV'', from_text ''R1'' @ [4, 0, 0, 0, 9, 0, 0, 0], [2, 7], [8]] new_parser =
   (new_parser, [OnFrame 4 9 [7, 8]])"
  using tunnel_frames_exact [where fs = "[(4, 9, [7, 8])]" and bs = "[from_text ''KVR1'' @ [4, 0, 0, 0, 9, 0, 0, 0, 2, 7, 8]]"
      and xs = "[from_text ''KV'', from_text ''R1'' @ [4, 0, 0, 0, 9, 0, 0, 0], [2, 7], [8]]"]
  by (simp add: encode_frame_def MAX_PAYLOAD_def MAGIC_def be4 from_text_def)

theorem tunnel_fails_closed_witness:
  "parse_chunks ([replicate 13 0] @ [MAGIC]) new_parser = (fst (parse_chunks [replicate 13 0] new_parser), [OnError BadMagic])"
proof -
  have m: "take 4 (replicate 13 0) \<noteq> MAGIC" by (simp add: MAGIC_def from_text_def Cons_replicate_eq eq_commute [of "replicate n x" for n x])
  have "parse_step [] (replicate 13 0) = Halt [OnError BadMagic] (replicate 13 0)"
    using m by (simp add: parse_step_def HEADER_BYTES_def)
  then have "parse_loop [] (pr_buffer new_parser @ concat [replicate 13 0]) = ([OnError BadMagic], replicate 13 0, True)"
    by (simp add: tun_stream.run_Halt new_parser_def)
  from tunnel_fails_closed [OF _ _ this, of "[MAGIC]"] show ?thesis
    by (simp add: new_parser_def parse_step_def HEADER_BYTES_def)
qed

end
