(* ===== verification/Tunnel_Ends.thy ===== *)
theory Tunnel_Ends
  imports Tunnel_Protocol
begin

text \<open>
  The two ends of a tunnel. On the relay (\<^verbatim>\<open>tools/p4-relay/relay.mjs\<close>, class \<^verbatim>\<open>Node\<close>) every dialer
  gets a stream number and its bytes go down the tunnel as DATA frames; on the node's machine
  (\<^verbatim>\<open>tools/p4-relay/tunnel.mjs\<close>) a stream is a socket to the local agent. What each end has written to its
  sockets is part of the state; pausing a socket for backpressure changes when bytes are read, not which,
  and is not modelled. A frame the encoder refuses would be an uncaught exception in an event handler
  (\<open>crashed\<close>). The JSON text of control frames is an argument, parsed or to be sent.
\<close>

section \<open>The relay's end\<close>

record rnode =
  rn_streams :: "nat list"
  rn_next :: nat
  rn_sent :: "tun_frame list"
  rn_destroyed :: bool
  rn_crashed :: bool
  rn_opened :: nat
  rn_bytesIn :: nat
  rn_bytesOut :: nat
  rn_dialer :: "(nat \<times> buffer) list"

definition new_rnode :: rnode where
  "new_rnode = \<lparr>rn_streams = [], rn_next = 1, rn_sent = [], rn_destroyed = False, rn_crashed = False,
     rn_opened = 0, rn_bytesIn = 0, rn_bytesOut = 0, rn_dialer = []\<rparr>"

definition rn_send :: "nat \<Rightarrow> nat \<Rightarrow> buffer \<Rightarrow> rnode \<Rightarrow> rnode" where
  "rn_send ty st payload n =
     (if rn_destroyed n then n
      else if encode_frame ty st payload = None then n\<lparr>rn_crashed := True\<rparr>
      else n\<lparr>rn_sent := rn_sent n @ [(ty, st, payload)]\<rparr>)"

text \<open>\<^verbatim>\<open>(n + 1) >>> 0 || 1\<close>: stream numbers wrap at 32 bits and skip zero.\<close>

definition next_stream :: "nat \<Rightarrow> nat" where
  "next_stream n = (let m = (n + 1) mod 2 ^ 32 in if m = 0 then 1 else m)"

definition attach :: "buffer \<Rightarrow> rnode \<Rightarrow> rnode" where
  "attach greet n =
     (let st = rn_next n
      in rn_send T_OPEN st greet
           (n\<lparr>rn_next := next_stream st, rn_streams := List.insert st (rn_streams n),
              rn_opened := rn_opened n + 1, rn_dialer := put st [] (rn_dialer n)\<rparr>))"

definition dialer_data :: "nat \<Rightarrow> buffer \<Rightarrow> rnode \<Rightarrow> rnode" where
  "dialer_data st chunk n = rn_send T_DATA st chunk (n\<lparr>rn_bytesIn := rn_bytesIn n + length chunk\<rparr>)"

definition dialer_finish :: "nat \<Rightarrow> string \<Rightarrow> rnode \<Rightarrow> rnode" where
  "dialer_finish st why n =
     (if st \<notin> set (rn_streams n) then n
      else rn_send T_CLOSE st (from_text why) (n\<lparr>rn_streams := removeAll st (rn_streams n)\<rparr>))"

definition toDialer :: "nat \<Rightarrow> buffer \<Rightarrow> rnode \<Rightarrow> rnode" where
  "toDialer st payload n =
     (if st \<notin> set (rn_streams n) then n
      else n\<lparr>rn_bytesOut := rn_bytesOut n + length payload,
             rn_dialer := put st ((case get (rn_dialer n) st of None \<Rightarrow> [] | Some b \<Rightarrow> b) @ payload) (rn_dialer n)\<rparr>)"

definition closeStream :: "nat \<Rightarrow> rnode \<Rightarrow> rnode" where
  "closeStream st n = n\<lparr>rn_streams := removeAll st (rn_streams n)\<rparr>"

section \<open>The node's end\<close>

record tclient =
  tc_streams :: "nat list"
  tc_agent :: "(nat \<times> buffer) list"
  tc_out :: "tun_frame list"
  tc_socket :: bool
  tc_connected :: bool
  tc_registered :: bool
  tc_advertise :: "string option"
  tc_lastError :: "string option"
  tc_retry :: nat
  tc_timer :: bool
  tc_stopped :: bool
  tc_crashed :: bool

definition RETRY_MIN_MS :: nat where "RETRY_MIN_MS = 1000"
definition RETRY_MAX_MS :: nat where "RETRY_MAX_MS = 60000"

definition new_tclient :: tclient where
  "new_tclient = \<lparr>tc_streams = [], tc_agent = [], tc_out = [], tc_socket = False, tc_connected = False,
     tc_registered = False, tc_advertise = None, tc_lastError = None, tc_retry = RETRY_MIN_MS,
     tc_timer = False, tc_stopped = False, tc_crashed = False\<rparr>"

definition tc_send :: "nat \<Rightarrow> nat \<Rightarrow> buffer \<Rightarrow> tclient \<Rightarrow> tclient" where
  "tc_send ty st payload t =
     (if \<not> tc_socket t then t
      else if encode_frame ty st payload = None then t\<lparr>tc_crashed := True\<rparr>
      else t\<lparr>tc_out := tc_out t @ [(ty, st, payload)]\<rparr>)"

definition openStream :: "nat \<Rightarrow> tclient \<Rightarrow> tclient" where
  "openStream st t = t\<lparr>tc_streams := List.insert st (tc_streams t), tc_agent := put st [] (tc_agent t)\<rparr>"

definition agent_data :: "nat \<Rightarrow> buffer \<Rightarrow> tclient \<Rightarrow> tclient" where
  "agent_data st chunk t = tc_send T_DATA st chunk t"

definition agent_finish :: "nat \<Rightarrow> string \<Rightarrow> tclient \<Rightarrow> tclient" where
  "agent_finish st why t =
     (if st \<notin> set (tc_streams t) then t
      else tc_send T_CLOSE st (from_text why) (t\<lparr>tc_streams := removeAll st (tc_streams t)\<rparr>))"

definition toAgent :: "nat \<Rightarrow> buffer \<Rightarrow> tclient \<Rightarrow> tclient" where
  "toAgent st payload t =
     (if st \<notin> set (tc_streams t) then t
      else t\<lparr>tc_agent := put st ((case get (tc_agent t) st of None \<Rightarrow> [] | Some b \<Rightarrow> b) @ payload) (tc_agent t)\<rparr>)"

definition dropStreams :: "tclient \<Rightarrow> tclient" where
  "dropStreams t = t\<lparr>tc_streams := []\<rparr>"

text \<open>
  What the handlers of control frames learn from a payload: \<open>chal\<close> reads a challenge as relay host and
  nonce, \<open>welc\<close> a welcome as the advertised address or the refusal, both \<open>None\<close> on text that is not JSON;
  \<open>sign\<close> is the wallet (\<open>Inl\<close> the reason it cannot sign) and \<open>hello\<close> the text of the registration.
\<close>

record tunnel_env =
  chal :: "buffer \<Rightarrow> (string \<times> string) option"
  welc :: "buffer \<Rightarrow> (string option + string option) option"
  sign :: "string \<Rightarrow> string + string"
  hello :: "string \<Rightarrow> buffer"
  env_nodeId :: string
  env_owner :: string

definition nl :: string where "nl = [char_of (10 :: nat)]"

text \<open>\<^verbatim>\<open>auth.mjs\<close> builds the same text to verify the signature.\<close>

definition challenge_message :: "string \<Rightarrow> string \<Rightarrow> string \<Rightarrow> string \<Rightarrow> string" where
  "challenge_message relayHost nodeId owner nonce =
     ''kvasir p4 relay'' @ nl @ ''relay: '' @ relayHost @ nl @ ''node: '' @ nodeId @ nl
     @ ''wallet: '' @ owner @ nl @ ''nonce: '' @ nonce"

definition on_challenge :: "tunnel_env \<Rightarrow> buffer \<Rightarrow> tclient \<Rightarrow> tclient" where
  "on_challenge e payload t =
     (case chal e payload of
        None \<Rightarrow> t
      | Some (relayHost, nonce) \<Rightarrow>
          (case sign e (challenge_message relayHost (env_nodeId e) (env_owner e) nonce) of
             Inl why \<Rightarrow> t\<lparr>tc_lastError := Some (''could not sign: '' @ why), tc_socket := False\<rparr>
           | Inr signature \<Rightarrow> tc_send T_HELLO 0 (hello e signature) t))"

definition on_welcome :: "tunnel_env \<Rightarrow> buffer \<Rightarrow> tclient \<Rightarrow> tclient" where
  "on_welcome e payload t =
     (case welc e payload of
        None \<Rightarrow> t
      | Some (Inl err) \<Rightarrow>
          t\<lparr>tc_lastError := Some (case err of None \<Rightarrow> ''refused'' | Some m \<Rightarrow> m), tc_socket := False\<rparr>
      | Some (Inr adv) \<Rightarrow> t\<lparr>tc_registered := True, tc_advertise := adv, tc_retry := RETRY_MIN_MS\<rparr>)"

definition on_tunnel_frame :: "tunnel_env \<Rightarrow> nat \<Rightarrow> nat \<Rightarrow> buffer \<Rightarrow> tclient \<Rightarrow> tclient" where
  "on_tunnel_frame e ty st payload t =
     (if ty = T_CHALLENGE then on_challenge e payload t
      else if ty = T_WELCOME then on_welcome e payload t
      else if ty = T_OPEN then openStream st t
      else if ty = T_DATA then toAgent st payload t
      else if ty = T_CLOSE then t\<lparr>tc_streams := removeAll st (tc_streams t)\<rparr>
      else if ty = T_PING then tc_send T_PONG 0 payload t
      else t)"

fun on_tun_event :: "tunnel_env \<Rightarrow> tun_event \<Rightarrow> tclient \<Rightarrow> tclient" where
  "on_tun_event e (OnFrame ty st payload) t = on_tunnel_frame e ty st payload t"
| "on_tun_event e (OnError err) t =
     t\<lparr>tc_lastError := Some (case err of BadMagic \<Rightarrow> ''framing lost: bad magic''
                                        | PayloadTooLarge _ \<Rightarrow> ''framing lost: payload too large''),
       tc_socket := False\<rparr>"

definition tunnel_dial :: "tclient \<Rightarrow> tclient" where
  "tunnel_dial t = (if tc_stopped t then t else t\<lparr>tc_socket := True, tc_timer := False\<rparr>)"

definition tunnel_up :: "tclient \<Rightarrow> tclient" where
  "tunnel_up t = t\<lparr>tc_connected := True, tc_lastError := None\<rparr>"

definition tunnel_down :: "tclient \<Rightarrow> tclient" where
  "tunnel_down t =
     (let t1 = dropStreams (t\<lparr>tc_socket := False, tc_connected := False, tc_registered := False, tc_advertise := None\<rparr>)
      in if tc_stopped t then t1
         else t1\<lparr>tc_timer := True, tc_retry := min (tc_retry t * 2) RETRY_MAX_MS\<rparr>)"

definition tunnel_stop :: "tclient \<Rightarrow> tclient" where
  "tunnel_stop t = (dropStreams t)\<lparr>tc_stopped := True, tc_timer := False, tc_socket := False\<rparr>"

section \<open>From dialer to agent\<close>

datatype dial_event = Dialled buffer | Sent nat buffer | HungUp nat string

fun on_dial_event :: "dial_event \<Rightarrow> rnode \<Rightarrow> rnode" where
  "on_dial_event (Dialled greet) n = attach greet n"
| "on_dial_event (Sent st chunk) n = dialer_data st chunk n"
| "on_dial_event (HungUp st why) n = dialer_finish st why n"

abbreviation relay_run :: "dial_event list \<Rightarrow> rnode \<Rightarrow> rnode" where
  "relay_run es n \<equiv> foldl (\<lambda>n e. on_dial_event e n) n es"

abbreviation tunnel_run :: "tunnel_env \<Rightarrow> tun_event list \<Rightarrow> tclient \<Rightarrow> tclient" where
  "tunnel_run e evs t \<equiv> foldl (\<lambda>t ev. on_tun_event e ev t) t evs"

text \<open>A socket that was hung up sends no more; a dialer sends on the stream it was given.\<close>

fun dial_ok :: "rnode \<Rightarrow> dial_event list \<Rightarrow> bool" where
  "dial_ok n [] = True"
| "dial_ok n (e # es) =
     ((case e of Dialled greet \<Rightarrow> length greet \<le> MAX_PAYLOAD \<and> rn_next n < 2 ^ 32 - 1
       | Sent st chunk \<Rightarrow> st \<in> set (rn_streams n) \<and> length chunk \<le> MAX_PAYLOAD
       | HungUp st why \<Rightarrow> length why \<le> MAX_PAYLOAD)
      \<and> dial_ok (on_dial_event e n) es)"

fun sent_on :: "nat \<Rightarrow> dial_event list \<Rightarrow> buffer" where
  "sent_on st [] = []"
| "sent_on st (Sent st' chunk # es) = (if st' = st then chunk else []) @ sent_on st es"
| "sent_on st (_ # es) = sent_on st es"

definition agent_bytes :: "nat \<Rightarrow> tclient \<Rightarrow> buffer" where
  "agent_bytes st t = (case get (tc_agent t) st of None \<Rightarrow> [] | Some b \<Rightarrow> b)"

text \<open>Both ends hold the same streams, and no stream beyond the next number was ever used.\<close>

definition in_step :: "rnode \<Rightarrow> tclient \<Rightarrow> bool" where
  "in_step n t \<longleftrightarrow> set (rn_streams n) = set (tc_streams t) \<and> 1 \<le> rn_next n \<and>
     (\<forall>st \<in> set (rn_streams n). st < rn_next n) \<and> (\<forall>st. rn_next n \<le> st \<longrightarrow> get (tc_agent t) st = None) \<and>
     rn_next n < 2 ^ 32 \<and> \<not> rn_destroyed n"

lemma encode_ok: "length b \<le> MAX_PAYLOAD \<Longrightarrow> ty < 256 \<Longrightarrow> st < 2 ^ 32 \<Longrightarrow> encode_frame ty st b \<noteq> None"
  by (simp add: encode_frame_def)

lemma rn_send_sent:
  "length b \<le> MAX_PAYLOAD \<Longrightarrow> ty < 256 \<Longrightarrow> st < 2 ^ 32 \<Longrightarrow> \<not> rn_destroyed n \<Longrightarrow>
   rn_send ty st b n = n\<lparr>rn_sent := rn_sent n @ [(ty, st, b)]\<rparr>"
  using encode_ok [of b ty st] by (auto simp: rn_send_def)

lemma in_step_stream: "in_step n t \<Longrightarrow> st \<in> set (rn_streams n) \<Longrightarrow> st < 2 ^ 32 \<and> \<not> rn_destroyed n"
  unfolding in_step_def using less_trans by blast

text \<open>One event at the dialing end: the frames it puts on the tunnel, and what they do at the other end.\<close>

lemma dial_event_step:
  assumes sync: "in_step n t" and ok: "dial_ok n [ev]"
  shows "\<exists>fs. rn_sent (on_dial_event ev n) = rn_sent n @ fs \<and> (\<forall>f \<in> set fs. encode_of f \<noteq> None) \<and>
    (let t' = tunnel_run e (map on_frame fs) t
     in in_step (on_dial_event ev n) t' \<and> (\<forall>st. agent_bytes st t' = agent_bytes st t @ sent_on st [ev]))"
proof (cases ev)
  case (Dialled greet)
  let ?st = "rn_next n"
  from ok have o: "length greet \<le> MAX_PAYLOAD" "?st < 2 ^ 32 - 1" by (simp_all add: Dialled)
  then have nx: "next_stream ?st = ?st + 1" by (simp add: next_stream_def Let_def)
  have s: "on_dial_event ev n = n\<lparr>rn_next := ?st + 1, rn_streams := List.insert ?st (rn_streams n),
      rn_opened := rn_opened n + 1, rn_dialer := put ?st [] (rn_dialer n),
      rn_sent := rn_sent n @ [(T_OPEN, ?st, greet)]\<rparr>"
    using o sync by (simp add: Dialled attach_def Let_def nx rn_send_sent in_step_def)
  have "get (tc_agent t) ?st = None" using sync by (simp add: in_step_def)
  then have "agent_bytes st (openStream ?st t) = agent_bytes st t" for st
    by (simp add: agent_bytes_def openStream_def update_conv')
  moreover have "in_step (on_dial_event ev n) (openStream ?st t)"
    using sync o(2) by (auto simp: s in_step_def openStream_def update_conv' less_Suc_eq)
  ultimately show ?thesis
    using o encode_ok [of greet T_OPEN ?st] arg_cong [OF s, of rn_sent]
    by (intro exI [of _ "[(T_OPEN, ?st, greet)]"]) (simp add: Dialled on_tunnel_frame_def)
next
  case (Sent st chunk)
  from ok sync have o: "st \<in> set (rn_streams n)" "length chunk \<le> MAX_PAYLOAD" "st < 2 ^ 32" "\<not> rn_destroyed n"
    using in_step_stream [OF sync, of st] by (simp_all add: Sent)
  have s: "on_dial_event ev n = n\<lparr>rn_bytesIn := rn_bytesIn n + length chunk,
      rn_sent := rn_sent n @ [(T_DATA, st, chunk)]\<rparr>"
    using o by (simp add: Sent dialer_data_def rn_send_sent)
  have a: "toAgent st chunk t = t\<lparr>tc_agent := put st (agent_bytes st t @ chunk) (tc_agent t)\<rparr>"
    using sync o(1) by (simp add: toAgent_def in_step_def agent_bytes_def)
  have "st < rn_next n" using sync o(1) unfolding in_step_def by blast
  then have "in_step (on_dial_event ev n) (toAgent st chunk t)"
    using sync o(1) by (auto simp: s a in_step_def update_conv') (meson leD)?
  moreover have "\<forall>s'. agent_bytes s' (toAgent st chunk t) = agent_bytes s' t @ sent_on s' [ev]"
    by (auto simp: a agent_bytes_def Sent update_conv' split: option.split)
  ultimately show ?thesis
    using o encode_ok [of chunk T_DATA st] arg_cong [OF s, of rn_sent]
    by (intro exI [of _ "[(T_DATA, st, chunk)]"]) (simp add: Sent on_tunnel_frame_def)
next
  case (HungUp st why)
  show ?thesis
  proof (cases "st \<in> set (rn_streams n)")
    case True
    then have o: "length (from_text why) \<le> MAX_PAYLOAD" "st < 2 ^ 32" "\<not> rn_destroyed n"
      using ok in_step_stream [OF sync True] by (simp_all add: HungUp)
    have s: "on_dial_event ev n = n\<lparr>rn_streams := removeAll st (rn_streams n),
        rn_sent := rn_sent n @ [(T_CLOSE, st, from_text why)]\<rparr>"
      using o True by (simp add: HungUp dialer_finish_def rn_send_sent)
    have "in_step (on_dial_event ev n) (t\<lparr>tc_streams := removeAll st (tc_streams t)\<rparr>)"
      using sync by (auto simp: s in_step_def)
    then show ?thesis
      using o encode_ok [of "from_text why" T_CLOSE st] arg_cong [OF s, of rn_sent]
      by (intro exI [of _ "[(T_CLOSE, st, from_text why)]"])
        (simp add: HungUp on_tunnel_frame_def agent_bytes_def)
  next
    case False
    then show ?thesis using sync by (intro exI [of _ "[]"]) (simp add: HungUp dialer_finish_def)
  qed
qed

lemma dial_run:
  assumes "in_step n t" and "dial_ok n es"
  shows "\<exists>fs. rn_sent (relay_run es n) = rn_sent n @ fs \<and> (\<forall>f \<in> set fs. encode_of f \<noteq> None) \<and>
    (\<forall>st. agent_bytes st (tunnel_run e (map on_frame fs) t) = agent_bytes st t @ sent_on st es)"
  using assms
proof (induction es arbitrary: n t)
  case (Cons ev es)
  then have "dial_ok n [ev]" by simp
  from dial_event_step [OF Cons.prems(1) this, of e] obtain fs where
    1: "rn_sent (on_dial_event ev n) = rn_sent n @ fs" "\<forall>f \<in> set fs. encode_of f \<noteq> None"
      "in_step (on_dial_event ev n) (tunnel_run e (map on_frame fs) t)"
      "\<forall>st. agent_bytes st (tunnel_run e (map on_frame fs) t) = agent_bytes st t @ sent_on st [ev]"
    by (auto simp: Let_def)
  from Cons.IH [OF 1(3)] Cons.prems(2) obtain fs2 where
    2: "rn_sent (relay_run es (on_dial_event ev n)) = rn_sent (on_dial_event ev n) @ fs2"
      "\<forall>f \<in> set fs2. encode_of f \<noteq> None"
      "\<forall>st. agent_bytes st (tunnel_run e (map on_frame fs2) (tunnel_run e (map on_frame fs) t)) =
        agent_bytes st (tunnel_run e (map on_frame fs) t) @ sent_on st es"
    by auto
  have "sent_on st (ev # es) = sent_on st [ev] @ sent_on st es" for st by (cases ev) simp_all
  with 1 2 show ?case by (intro exI [of _ "fs @ fs2"]) auto
qed (intro exI [of _ "[]"], simp)

text \<open>
  C21: The tunnel keeps callers apart and loses nothing: whatever mix of callers dials the relay, sends and
  hangs up, and however the tunnel's bytes are cut into chunks on the way, the agent's socket for each
  stream is given exactly the bytes that stream's caller sent, in order.
\<close>
theorem tunnel_delivers:
  assumes "dial_ok new_rnode es" and "map encode_of (rn_sent (relay_run es new_rnode)) = map Some bs"
    and "concat xs = concat bs"
  shows "agent_bytes st (tunnel_run e (snd (parse_chunks xs new_parser)) new_tclient) = sent_on st es"
proof -
  have "in_step new_rnode new_tclient" by (simp add: in_step_def new_rnode_def new_tclient_def)
  from dial_run [OF this assms(1), of e] obtain fs where
    "rn_sent (relay_run es new_rnode) = rn_sent new_rnode @ fs"
    "\<forall>st. agent_bytes st (tunnel_run e (map on_frame fs) new_tclient) = agent_bytes st new_tclient @ sent_on st es"
    by blast
  then have "rn_sent (relay_run es new_rnode) = fs"
    "agent_bytes st (tunnel_run e (map on_frame fs) new_tclient) = sent_on st es"
    by (simp_all add: new_rnode_def new_tclient_def agent_bytes_def)
  then show ?thesis using tunnel_frames_exact [OF assms(2,3)] by simp
qed

section \<open>Reconnecting\<close>

text \<open>Everything that happens to a tunnel client.\<close>

inductive tunnel_step :: "tunnel_env \<Rightarrow> tclient \<Rightarrow> tclient \<Rightarrow> bool" for e where
  dialled: "tunnel_step e t (tunnel_dial t)"
| up: "tunnel_step e t (tunnel_up t)"
| event: "tunnel_step e t (on_tun_event e ev t)"
| local_data: "tunnel_step e t (agent_data st chunk t)"
| local_end: "tunnel_step e t (agent_finish st why t)"
| down: "tunnel_step e t (tunnel_down t)"
| stopped: "tunnel_step e t (tunnel_stop t)"

inductive_cases tunnel_stepE: "tunnel_step e t t'"

definition retry_ok :: "tclient \<Rightarrow> bool" where
  "retry_ok t \<longleftrightarrow> RETRY_MIN_MS \<le> tc_retry t \<and> tc_retry t \<le> RETRY_MAX_MS"

lemma tc_send_keeps [simp]:
  "tc_retry (tc_send ty st b t) = tc_retry t" "tc_stopped (tc_send ty st b t) = tc_stopped t"
  "tc_timer (tc_send ty st b t) = tc_timer t"
  by (simp_all add: tc_send_def)

lemma retry_bounds: "RETRY_MIN_MS \<le> RETRY_MAX_MS"
  by (simp add: RETRY_MIN_MS_def RETRY_MAX_MS_def)

lemma on_tun_event_retry:
  "tc_retry (on_tun_event e ev t) = tc_retry t \<or> tc_retry (on_tun_event e ev t) = RETRY_MIN_MS"
  "tc_stopped (on_tun_event e ev t) = tc_stopped t" "tc_timer (on_tun_event e ev t) = tc_timer t"
  by (cases ev; simp add: on_tunnel_frame_def on_challenge_def on_welcome_def openStream_def toAgent_def
      split: option.split sum.split prod.split)+

lemma tunnel_step_retry: "tunnel_step e t t' \<Longrightarrow> retry_ok t \<Longrightarrow> retry_ok t'"
proof (induction rule: tunnel_step.induct)
  case (event t ev)
  then show ?case using on_tun_event_retry(1) [of e ev t] retry_bounds by (auto simp: retry_ok_def)
qed (auto simp: retry_ok_def tunnel_dial_def tunnel_up_def agent_data_def agent_finish_def
      tunnel_down_def tunnel_stop_def dropStreams_def Let_def retry_bounds)

lemma tunnel_step_stopped:
  "tunnel_step e t t' \<Longrightarrow> tc_stopped t \<and> \<not> tc_timer t \<Longrightarrow> tc_stopped t' \<and> \<not> tc_timer t'"
  by (induction rule: tunnel_step.induct)
    (auto simp: on_tun_event_retry tunnel_dial_def tunnel_up_def agent_data_def agent_finish_def
      tunnel_down_def tunnel_stop_def dropStreams_def Let_def)

text \<open>
  A tunnel that keeps failing waits between one second and one minute before each attempt, each wait
  at most twice the one before, and a tunnel that was stopped never dials again.
\<close>
theorem tunnel_backoff:
  assumes "(tunnel_step e)\<^sup>*\<^sup>* new_tclient t"
  shows "RETRY_MIN_MS \<le> tc_retry t \<and> tc_retry t \<le> RETRY_MAX_MS \<and>
    tc_retry (tunnel_down t) \<le> 2 * tc_retry t \<and>
    ((tunnel_step e)\<^sup>*\<^sup>* (tunnel_stop t) t' \<longrightarrow> \<not> tc_timer t' \<and> tunnel_dial t' = t')"
proof -
  from assms have "retry_ok t"
  proof (induction rule: rtranclp_induct)
    case base
    then show ?case by (simp add: retry_ok_def new_tclient_def retry_bounds)
  next
    case (step t1 t2)
    then show ?case using tunnel_step_retry by blast
  qed
  moreover have "tc_stopped t' \<and> \<not> tc_timer t'" if "(tunnel_step e)\<^sup>*\<^sup>* (tunnel_stop t) t'" for t'
    using that
  proof (induction rule: rtranclp_induct)
    case base
    then show ?case by (simp add: tunnel_stop_def)
  next
    case (step t1 t2)
    then show ?case using tunnel_step_stopped by blast
  qed
  ultimately show ?thesis by (auto simp: retry_ok_def tunnel_down_def dropStreams_def tunnel_dial_def Let_def)
qed

section \<open>Witnesses\<close>

definition toy_env :: tunnel_env where
  "toy_env = \<lparr>chal = (\<lambda>_. None), welc = (\<lambda>_. None), sign = Inr, hello = from_text, env_nodeId = ''n'', env_owner = ''w''\<rparr>"

definition two_callers :: "dial_event list" where
  "two_callers = [Dialled [], Dialled [], Sent 2 [5], Sent 1 [6, 7], HungUp 2 ''x'', Sent 1 [8]]"

lemma two_callers_sent:
  "dial_ok new_rnode two_callers \<and> (\<exists>bs. map encode_of (rn_sent (relay_run two_callers new_rnode)) = map Some bs)"
  by (simp add: two_callers_def new_rnode_def attach_def dialer_data_def dialer_finish_def rn_send_def
      next_stream_def encode_frame_def MAX_PAYLOAD_def) 
    (simp add: map_eq_Cons_conv eq_commute [of "_ # _"])

theorem tunnel_delivers_witness:
  "\<exists>bs. agent_bytes 1 (tunnel_run toy_env (snd (parse_chunks bs new_parser)) new_tclient) = [6, 7, 8]"
proof -
  obtain bs where "map encode_of (rn_sent (relay_run two_callers new_rnode)) = map Some bs"
    using two_callers_sent by blast
  from tunnel_delivers [OF _ this refl, of 1 toy_env] two_callers_sent show ?thesis
    by (auto simp: two_callers_def)
qed

theorem tunnel_backoff_witness:
  "RETRY_MIN_MS \<le> tc_retry (tunnel_down new_tclient) \<and> tc_retry (tunnel_down new_tclient) = 2000 \<and>
   \<not> tc_timer (tunnel_stop (tunnel_down new_tclient))"
proof -
  have "(tunnel_step toy_env)\<^sup>*\<^sup>* new_tclient (tunnel_down new_tclient)" by (intro r_into_rtranclp down)
  from tunnel_backoff [OF this, of "tunnel_stop (tunnel_down new_tclient)"] show ?thesis
    by (simp add: tunnel_down_def new_tclient_def RETRY_MIN_MS_def RETRY_MAX_MS_def dropStreams_def)
qed

end
