(* ===== verification/Tunnel_Relay.thy ===== *)
theory Tunnel_Relay
  imports Tunnel_Ends Gateway_Auth
begin

text \<open>
  The tunnel relay as a whole: who may register (\<^verbatim>\<open>tools/p4-relay/auth.mjs\<close>) and the registrations and
  public ports of \<^verbatim>\<open>tools/p4-relay/relay.mjs\<close>. Opening a port is asynchronous in the code, so a HELLO and
  the moment its port is open are two steps; so are a refusal and the teardown its timer runs 50 ms later.
  The streams of a connection are those of \<^verbatim>\<open>Tunnel_Ends\<close>. JSON text, the clock, nonces and the outcome of
  \<^verbatim>\<open>listen\<close> are arguments.
\<close>

section \<open>Challenges\<close>

definition RELAY_NONCE_TTL_MS :: int where "RELAY_NONCE_TTL_MS = 120 * 1000"

type_synonym relay_nonces = "(string \<times> int) list"

definition relay_newChallenge :: "relay_nonces \<Rightarrow> string \<Rightarrow> int \<Rightarrow> relay_nonces" where
  "relay_newChallenge ns nonce now =
     (let ns' = put nonce (now + RELAY_NONCE_TTL_MS) ns
      in if 1000 < length ns' then filter (\<lambda>(k, expiry). \<not> expiry < now) ns' else ns')"

definition relay_verify ::
  "crypto \<Rightarrow> relay_nonces \<Rightarrow> string \<Rightarrow> string \<Rightarrow> string \<Rightarrow> string \<Rightarrow> string \<Rightarrow> int \<Rightarrow> (string + string) \<times> relay_nonces" where
  "relay_verify cr ns relayHost nodeId owner nonce signature now =
     (let ns' = del nonce ns
      in (case get ns nonce of
            None \<Rightarrow> Inl ''challenge expired''
          | Some expiry \<Rightarrow>
              if expiry = 0 \<or> expiry < now then Inl ''challenge expired''
              else if nodeId = '''' \<or> owner = '''' then Inl ''nodeId and owner required''
              else if length (unb64 cr signature) \<noteq> 64 then Inl ''signature must be 64 bytes''
              else (case relay_b58decode owner of
                      None \<Rightarrow> Inl ''owner is not base58''
                    | Some pub \<Rightarrow>
                        if length pub \<noteq> 32 then Inl ''owner is not a 32-byte key''
                        else if ed25519_verify cr (unb64 cr signature) (challenge_message relayHost nodeId owner nonce) pub
                        then Inr owner else Inl ''signature does not match owner''), ns'))"

section \<open>Connections and ports\<close>

record relay_config =
  ADVERTISED :: string
  PORT_FROM :: nat
  PORT_TO :: nat
  IDLE_MS :: int

record conn =
  co_nodeId :: "string option"
  co_owner :: string
  co_nonce :: string
  co_port :: "nat option"
  co_opening :: "nat option"
  co_listening :: bool
  co_lastSeen :: int
  co_destroyed :: bool

datatype relay_msg = Challenge string | Welcome nat | Refusal string | Ping | Pong

record relay_state =
  rl_conns :: "(nat \<times> conn) list"
  rl_nodes :: "nat table"
  rl_taken :: "nat list"
  rl_nonces :: relay_nonces
  rl_timers :: "nat list"
  rl_out :: "(nat \<times> relay_msg) list"

definition new_relay :: relay_state where
  "new_relay = \<lparr>rl_conns = [], rl_nodes = [], rl_taken = [], rl_nonces = [], rl_timers = [], rl_out = []\<rparr>"

definition claimPort :: "relay_config \<Rightarrow> nat list \<Rightarrow> nat option" where
  "claimPort cfg taken = List.find (\<lambda>p. p \<notin> set taken) [PORT_FROM cfg..<Suc (PORT_TO cfg)]"

abbreviation set_conn :: "nat \<Rightarrow> conn \<Rightarrow> relay_state \<Rightarrow> relay_state" where
  "set_conn c k r \<equiv> r\<lparr>rl_conns := put c k (rl_conns r)\<rparr>"

definition relay_send :: "nat \<Rightarrow> relay_msg \<Rightarrow> relay_state \<Rightarrow> relay_state" where
  "relay_send c m r =
     (case get (rl_conns r) c of
        None \<Rightarrow> r
      | Some k \<Rightarrow> if co_destroyed k then r else r\<lparr>rl_out := rl_out r @ [(c, m)]\<rparr>)"

definition relay_accept :: "nat \<Rightarrow> string \<Rightarrow> int \<Rightarrow> relay_state \<Rightarrow> relay_state" where
  "relay_accept c nonce now r =
     relay_send c (Challenge nonce)
       (set_conn c \<lparr>co_nodeId = None, co_owner = '''', co_nonce = nonce, co_port = None, co_opening = None,
                    co_listening = False, co_lastSeen = now, co_destroyed = False\<rparr>
          (r\<lparr>rl_nonces := relay_newChallenge (rl_nonces r) nonce now\<rparr>))"

definition relay_reject :: "nat \<Rightarrow> string \<Rightarrow> relay_state \<Rightarrow> relay_state" where
  "relay_reject c why r = (relay_send c (Refusal why) r)\<lparr>rl_timers := rl_timers r @ [c]\<rparr>"

definition relay_teardown :: "nat \<Rightarrow> relay_state \<Rightarrow> relay_state" where
  "relay_teardown c r =
     (case get (rl_conns r) c of
        None \<Rightarrow> r
      | Some k \<Rightarrow>
          set_conn c (k\<lparr>co_listening := False, co_destroyed := True\<rparr>)
            (r\<lparr>rl_taken := (case co_port k of None \<Rightarrow> rl_taken r | Some p \<Rightarrow> removeAll p (rl_taken r)),
               rl_nodes := (case co_nodeId k of None \<Rightarrow> rl_nodes r | Some i \<Rightarrow> del i (rl_nodes r))\<rparr>))"

text \<open>The HELLO of a registration; \<open>None\<close> is a payload that is not JSON.\<close>

definition on_hello ::
  "crypto \<Rightarrow> relay_config \<Rightarrow> nat \<Rightarrow> (string \<times> string \<times> string) option \<Rightarrow> int \<Rightarrow> relay_state \<Rightarrow> relay_state" where
  "on_hello cr cfg c msg now r0 =
     (case get (rl_conns r0) c of
        None \<Rightarrow> r0
      | Some k0 \<Rightarrow>
          let k = k0\<lparr>co_lastSeen := now\<rparr>; r = set_conn c k r0
          in if co_nodeId k \<noteq> None then relay_reject c ''already registered on this connection'' r
             else (case msg of
               None \<Rightarrow> relay_reject c ''hello is not json'' r
             | Some (nodeId, owner, signature) \<Rightarrow>
                 (case relay_verify cr (rl_nonces r) (ADVERTISED cfg) nodeId owner (co_nonce k) signature now of
                    (Inl err, ns) \<Rightarrow> relay_reject c err (r\<lparr>rl_nonces := ns\<rparr>)
                  | (Inr ow, ns) \<Rightarrow>
                      let r1 = r\<lparr>rl_nonces := ns\<rparr>
                      in if get (rl_nodes r1) nodeId \<noteq> None
                         then relay_reject c ''that node id already has a tunnel'' r1
                         else let k1 = k\<lparr>co_nodeId := Some nodeId, co_owner := ow\<rparr>
                              in (case claimPort cfg (rl_taken r1) of
                                    None \<Rightarrow> relay_reject c ''the relay has no free ports'' (set_conn c k1 r1)
                                  | Some p \<Rightarrow>
                                      set_conn c (k1\<lparr>co_opening := Some p\<rparr>)
                                        (r1\<lparr>rl_taken := rl_taken r1 @ [p]\<rparr>)))))"

text \<open>The port is open (or could not be opened), and the handler goes on where it awaited.\<close>

definition port_opened :: "nat \<Rightarrow> relay_state \<Rightarrow> relay_state" where
  "port_opened c r =
     (case get (rl_conns r) c of
        None \<Rightarrow> r
      | Some k \<Rightarrow>
          (case (co_opening k, co_nodeId k) of
             (Some p, Some i) \<Rightarrow>
               relay_send c (Welcome p)
                 (set_conn c (k\<lparr>co_port := Some p, co_opening := None, co_listening := True\<rparr>)
                    (r\<lparr>rl_nodes := put i c (rl_nodes r)\<rparr>))
           | _ \<Rightarrow> r))"

definition port_failed :: "nat \<Rightarrow> string \<Rightarrow> relay_state \<Rightarrow> relay_state" where
  "port_failed c why r =
     (case get (rl_conns r) c of
        None \<Rightarrow> r
      | Some k \<Rightarrow>
          (case co_opening k of
             None \<Rightarrow> r
           | Some p \<Rightarrow>
               relay_reject c why (set_conn c (k\<lparr>co_opening := None\<rparr>) (r\<lparr>rl_taken := removeAll p (rl_taken r)\<rparr>))))"

text \<open>The other frames a node may send; what DATA and CLOSE do to the streams is in \<^verbatim>\<open>Tunnel_Ends\<close>.\<close>

definition on_node_frame :: "nat \<Rightarrow> nat \<Rightarrow> int \<Rightarrow> relay_state \<Rightarrow> relay_state" where
  "on_node_frame c ty now r0 =
     (case get (rl_conns r0) c of
        None \<Rightarrow> r0
      | Some k0 \<Rightarrow>
          let k = k0\<lparr>co_lastSeen := now\<rparr>; r = set_conn c k r0
          in if ty = T_DATA then (if co_nodeId k = None then relay_reject c ''data before hello'' r else r)
             else if ty = T_CLOSE then r
             else if ty = T_PING then relay_send c Pong r
             else if ty = T_PONG then r
             else relay_reject c (''unexpected '' @ typeName ty @ '' from a node'') r)"

definition reject_timer :: "nat \<Rightarrow> relay_state \<Rightarrow> relay_state" where
  "reject_timer c r =
     (if c \<notin> set (rl_timers r) then r
      else relay_teardown c (r\<lparr>rl_timers := remove1 c (rl_timers r)\<rparr>))"

definition idle_one :: "relay_config \<Rightarrow> int \<Rightarrow> nat \<Rightarrow> relay_state \<Rightarrow> relay_state" where
  "idle_one cfg now c r =
     (case get (rl_conns r) c of
        None \<Rightarrow> r
      | Some k \<Rightarrow> if IDLE_MS cfg < now - co_lastSeen k then relay_teardown c r else relay_send c Ping r)"

definition idle_tick :: "relay_config \<Rightarrow> int \<Rightarrow> relay_state \<Rightarrow> relay_state" where
  "idle_tick cfg now r = foldl (\<lambda>r c. idle_one cfg now c r) r (map snd (rl_nodes r))"

definition dial_allowed :: "string list \<Rightarrow> string \<Rightarrow> bool" where
  "dial_allowed CALLERS from \<longleftrightarrow>
     CALLERS = [] \<or> (\<exists>a \<in> set CALLERS. length a \<le> length from \<and> drop (length from - length a) from = a)"

inductive relay_step :: "crypto \<Rightarrow> relay_config \<Rightarrow> relay_state \<Rightarrow> relay_state \<Rightarrow> bool" for cr cfg where
  accepted: "get (rl_conns r) c = None \<Longrightarrow> relay_step cr cfg r (relay_accept c nonce now r)"
| hello: "relay_step cr cfg r (on_hello cr cfg c msg now r)"
| opened: "relay_step cr cfg r (port_opened c r)"
| unopened: "relay_step cr cfg r (port_failed c why r)"
| frame: "relay_step cr cfg r (on_node_frame c ty now r)"
| broken: "relay_step cr cfg r (relay_reject c why r)"
| timer: "relay_step cr cfg r (reject_timer c r)"
| gone: "relay_step cr cfg r (relay_teardown c r)"
| tick: "relay_step cr cfg r (idle_tick cfg now r)"

section \<open>Who is registered\<close>

definition wallet_proved :: "crypto \<Rightarrow> relay_config \<Rightarrow> string \<Rightarrow> conn \<Rightarrow> bool" where
  "wallet_proved cr cfg i k \<longleftrightarrow>
     (\<exists>pub signature. relay_b58decode (co_owner k) = Some pub \<and> length pub = 32 \<and> length (unb64 cr signature) = 64 \<and>
        ed25519_verify cr (unb64 cr signature) (challenge_message (ADVERTISED cfg) i (co_owner k) (co_nonce k)) pub)"

definition conn_ok :: "crypto \<Rightarrow> relay_config \<Rightarrow> conn \<Rightarrow> bool" where
  "conn_ok cr cfg k \<longleftrightarrow>
     (case co_nodeId k of None \<Rightarrow> co_port k = None \<and> co_opening k = None | Some i \<Rightarrow> wallet_proved cr cfg i k) \<and>
     (\<forall>p. co_port k = Some p \<or> co_opening k = Some p \<longrightarrow> PORT_FROM cfg \<le> p \<and> p \<le> PORT_TO cfg)"

definition relay_ok :: "crypto \<Rightarrow> relay_config \<Rightarrow> relay_state \<Rightarrow> bool" where
  "relay_ok cr cfg r \<longleftrightarrow>
     (\<forall>c k. get (rl_conns r) c = Some k \<longrightarrow> conn_ok cr cfg k) \<and>
     (\<forall>i c. get (rl_nodes r) i = Some c \<longrightarrow> (\<exists>k. get (rl_conns r) c = Some k \<and> co_nodeId k = Some i))"

lemma relay_send_keeps [simp]:
  "rl_conns (relay_send c m r) = rl_conns r" "rl_nodes (relay_send c m r) = rl_nodes r"
  "rl_taken (relay_send c m r) = rl_taken r"
  by (simp_all add: relay_send_def split: option.split)

lemma relay_reject_keeps [simp]:
  "rl_conns (relay_reject c w r) = rl_conns r" "rl_nodes (relay_reject c w r) = rl_nodes r"
  "rl_taken (relay_reject c w r) = rl_taken r"
  by (simp_all add: relay_reject_def)

lemma relay_ok_same:
  "relay_ok cr cfg r \<Longrightarrow> rl_conns r' = rl_conns r \<Longrightarrow> rl_nodes r' = rl_nodes r \<Longrightarrow> relay_ok cr cfg r'"
  by (simp add: relay_ok_def)

lemma relay_ok_put:
  assumes ok: "relay_ok cr cfg r" and k: "conn_ok cr cfg k"
    and keep: "\<And>k0 i. get (rl_conns r) c = Some k0 \<Longrightarrow> co_nodeId k0 = Some i \<Longrightarrow> co_nodeId k = Some i"
    and conns: "rl_conns r' = put c k (rl_conns r)"
    and nodes: "\<And>i c'. get (rl_nodes r') i = Some c' \<Longrightarrow>
      get (rl_nodes r) i = Some c' \<or> c' = c \<and> co_nodeId k = Some i"
  shows "relay_ok cr cfg r'"
  unfolding relay_ok_def
proof (intro conjI allI impI)
  fix c' k' assume "get (rl_conns r') c' = Some k'"
  then show "conn_ok cr cfg k'" using ok k conns by (auto simp: relay_ok_def update_conv' split: if_splits)
next
  fix i c' assume "get (rl_nodes r') i = Some c'"
  from nodes [OF this] show "\<exists>k'. get (rl_conns r') c' = Some k' \<and> co_nodeId k' = Some i"
  proof
    assume "get (rl_nodes r) i = Some c'"
    with ok obtain k0 where "get (rl_conns r) c' = Some k0" "co_nodeId k0 = Some i"
      unfolding relay_ok_def by blast
    then show ?thesis using keep [of k0 i] by (auto simp: conns update_conv')
  qed (auto simp: conns update_conv')
qed

lemma claimPort_range: "claimPort cfg taken = Some p \<Longrightarrow> PORT_FROM cfg \<le> p \<and> p \<le> PORT_TO cfg \<and> p \<notin> set taken"
  unfolding claimPort_def by (drule find_SomeD) auto

lemma conn_ok_upd [simp]:
  "conn_ok cr cfg (k\<lparr>co_lastSeen := now\<rparr>) = conn_ok cr cfg k"
  "conn_ok cr cfg (k\<lparr>co_listening := b, co_destroyed := d\<rparr>) = conn_ok cr cfg k"
  by (cases "co_nodeId k"; simp add: conn_ok_def wallet_proved_def)+

lemma relay_verify_sound:
  assumes "relay_verify cr ns host i owner nonce signature now = (Inr ow, ns')"
  shows "ow = owner \<and> (\<exists>pub. relay_b58decode owner = Some pub \<and> length pub = 32 \<and> length (unb64 cr signature) = 64 \<and>
     ed25519_verify cr (unb64 cr signature) (challenge_message host i owner nonce) pub)"
  using assms by (auto simp: relay_verify_def Let_def split: option.splits if_splits)

lemma relay_touch:
  assumes "relay_ok cr cfg r" and "get (rl_conns r) c = Some k"
  shows "relay_ok cr cfg (set_conn c (k\<lparr>co_lastSeen := now\<rparr>) r)"
  by (rule relay_ok_put [OF assms(1), of "k\<lparr>co_lastSeen := now\<rparr>" c])
    (use assms in \<open>auto simp: relay_ok_def\<close>)

lemma hello_ok:
  assumes ok: "relay_ok cr cfg r"
  shows "relay_ok cr cfg (on_hello cr cfg c msg now r)"
proof (cases "get (rl_conns r) c")
  case (Some k0)
  let ?k = "k0\<lparr>co_lastSeen := now\<rparr>" and ?r = "set_conn c (k0\<lparr>co_lastSeen := now\<rparr>) r"
  note touched = relay_touch [OF ok Some, of now]
  show ?thesis
  proof (cases "co_nodeId k0 \<noteq> None \<or> msg = None")
    case True
    then show ?thesis
      using relay_ok_same [OF touched] Some by (auto simp: on_hello_def Let_def)
  next
    case False
    then obtain i owner signature where m: "msg = Some (i, owner, signature)" and none: "co_nodeId k0 = None"
      by (cases msg) auto
    obtain res ns where v: "relay_verify cr (rl_nonces r) (ADVERTISED cfg) i owner (co_nonce k0) signature now = (res, ns)"
      by fastforce
    show ?thesis
    proof (cases res)
      case (Inl err)
      then show ?thesis
        using relay_ok_same [OF touched] Some none by (simp add: on_hello_def Let_def m v)
    next
      case (Inr ow)
      let ?k1 = "?k\<lparr>co_nodeId := Some i, co_owner := ow\<rparr>"
      have "conn_ok cr cfg k0" using ok Some by (simp add: relay_ok_def)
      then have free: "co_port k0 = None" "co_opening k0 = None" using none by (simp_all add: conn_ok_def)
      have proved: "wallet_proved cr cfg i (?k1\<lparr>co_opening := q\<rparr>)" "wallet_proved cr cfg i ?k1" for q
        using relay_verify_sound [of cr "rl_nonces r" "ADVERTISED cfg" i owner "co_nonce k0" signature now ow ns] v Inr
        by (auto simp: wallet_proved_def)
      have k1: "conn_ok cr cfg ?k1" using proved(2) free by (simp add: conn_ok_def)
      have k2: "conn_ok cr cfg (?k1\<lparr>co_opening := Some p\<rparr>)" if "claimPort cfg (rl_taken r) = Some p" for p
        using proved(1) free claimPort_range [OF that] by (simp add: conn_ok_def)
      have put: "relay_ok cr cfg r'" if "conn_ok cr cfg k" "rl_conns r' = put c k (rl_conns r)" "rl_nodes r' = rl_nodes r" for k r'
        by (rule relay_ok_put [OF ok that(1) _ that(2)]) (use Some none that(3) in auto)
      have twice: "put c k (put c k' cs) = put c k cs" for k k' and cs :: "(nat \<times> conn) list" by (induction cs) auto
      show ?thesis
        using relay_ok_same [OF touched] put [OF k1] put [OF k2] Some none
        by (auto simp: on_hello_def Let_def m v Inr twice split: option.split)
    qed
  qed
qed (simp add: on_hello_def ok)

lemma teardown_ok:
  assumes ok: "relay_ok cr cfg r"
  shows "relay_ok cr cfg (relay_teardown c r)"
proof (cases "get (rl_conns r) c")
  case (Some k)
  show ?thesis
    by (rule relay_ok_put [OF ok, of "k\<lparr>co_listening := False, co_destroyed := True\<rparr>" c])
      (use ok Some in \<open>auto simp: relay_ok_def relay_teardown_def delete_conv' split: option.splits if_splits\<close>)
qed (simp add: relay_teardown_def ok)

lemma relay_step_ok:
  assumes "relay_step cr cfg r r'" and ok: "relay_ok cr cfg r"
  shows "relay_ok cr cfg r'"
  using assms(1)
proof cases
  case (accepted c nonce now)
  then show ?thesis
    by (intro relay_ok_put [OF ok, of "\<lparr>co_nodeId = None, co_owner = '''', co_nonce = nonce, co_port = None,
          co_opening = None, co_listening = False, co_lastSeen = now, co_destroyed = False\<rparr>" c])
      (auto simp: relay_accept_def conn_ok_def)
next
  case (opened c)
  show ?thesis
  proof (cases "get (rl_conns r) c")
    case (Some k)
    then have "conn_ok cr cfg k" using ok by (simp add: relay_ok_def)
    then have "conn_ok cr cfg (k\<lparr>co_port := Some p, co_opening := None, co_listening := True\<rparr>)"
      if "co_opening k = Some p" for p
      using that by (auto simp: conn_ok_def wallet_proved_def split: option.splits)
    then show ?thesis using ok Some
      by (auto simp: opened port_opened_def split: option.split intro!: relay_ok_put [OF ok, where c = c])
        (auto simp: update_conv' split: if_splits)
  qed (simp add: opened port_opened_def ok)
next
  case (unopened c why)
  show ?thesis
  proof (cases "get (rl_conns r) c")
    case (Some k)
    then have "conn_ok cr cfg k" using ok by (simp add: relay_ok_def)
    then have "conn_ok cr cfg (k\<lparr>co_opening := None\<rparr>)"
      by (auto simp: conn_ok_def wallet_proved_def split: option.splits)
    then show ?thesis using ok Some
      by (auto simp: unopened port_failed_def split: option.split intro!: relay_ok_put [OF ok, where c = c])
  qed (simp add: unopened port_failed_def ok)
next
  case (frame c ty now)
  then show ?thesis
    using relay_ok_same [OF relay_touch [OF ok]] relay_touch [OF ok] ok
    by (auto simp: on_node_frame_def Let_def split: option.split)
next
  case (tick now)
  have "relay_ok cr cfg r \<Longrightarrow> relay_ok cr cfg (foldl (\<lambda>r c. idle_one cfg now c r) r cs)" for r cs
    by (induction cs arbitrary: r) (auto simp: idle_one_def teardown_ok relay_ok_same split: option.split)
  then show ?thesis using tick ok by (simp add: idle_tick_def)
next
  case (timer c)
  have "relay_ok cr cfg (r\<lparr>rl_timers := ts\<rparr>)" for ts by (rule relay_ok_same [OF ok]) simp_all
  then show ?thesis using timer ok teardown_ok by (simp add: reject_timer_def)
qed (use ok hello_ok teardown_ok relay_ok_same in auto)

text \<open>
  C23: The relay is the authentication boundary it says it is: at every moment, a node id is registered only
  for a connection that proved its wallet, by a signature over the text that names this relay, this node,
  this wallet and the nonce issued to that very connection, and only on a port of the configured range.
\<close>
theorem registration_proved:
  assumes "(relay_step cr cfg)\<^sup>*\<^sup>* new_relay r" and "get (rl_nodes r) i = Some c"
  shows "\<exists>k. get (rl_conns r) c = Some k \<and> co_nodeId k = Some i \<and> wallet_proved cr cfg i k \<and>
    (\<forall>p. co_port k = Some p \<longrightarrow> PORT_FROM cfg \<le> p \<and> p \<le> PORT_TO cfg)"
proof -
  from assms(1) have "relay_ok cr cfg r"
  proof (induction rule: rtranclp_induct)
    case base
    then show ?case by (simp add: relay_ok_def new_relay_def)
  next
    case (step r1 r2)
    then show ?case using relay_step_ok by blast
  qed
  with assms(2) show ?thesis
    unfolding relay_ok_def conn_ok_def by (fastforce split: option.splits)
qed

section \<open>Two runs\<close>

text \<open>
  Concrete runs of the relay with a signature check that accepts: connections that prove their wallets. The
  first registers one node id on two connections, because the check that the id is free and the entry in the
  table are separated by the wait for the port. In the second a connection is refused, closes and reconnects
  before the refusal's timer fires.
\<close>

definition open_crypto :: crypto where
  "open_crypto = toy_crypto\<lparr>unb64 := \<lambda>_. replicate 64 0, ed25519_verify := \<lambda>_ _ _. True\<rparr>"

definition small_relay :: relay_config where
  "small_relay = \<lparr>ADVERTISED = ''h'', PORT_FROM = 100, PORT_TO = 103, IDLE_MS = 90000\<rparr>"

definition zero_wallet :: string where
  "zero_wallet = replicate 32 CHR ''1''"

definition hello_a :: "(string \<times> string \<times> string) option" where
  "hello_a = Some (''a'', zero_wallet, ''s'')"

lemma zero_wallet_key: "relay_b58decode zero_wallet = Some (replicate 32 0)" "zero_wallet \<noteq> ''''"
  using relay_decoder_agrees [of zero_wallet] b58_all_ones_extra_byte [of 32] by (simp_all add: zero_wallet_def)

lemma verify_open:
  "get ns nonce = Some expiry \<Longrightarrow> 0 < expiry \<Longrightarrow> now \<le> expiry \<Longrightarrow>
   relay_verify open_crypto ns host ''a'' zero_wallet nonce signature now = (Inr zero_wallet, del nonce ns)"
  by (simp add: relay_verify_def Let_def zero_wallet_key open_crypto_def)

definition race_run :: relay_state where
  "race_run =
     (let r2 = relay_accept 2 ''n2'' 0 (relay_accept 1 ''n1'' 0 new_relay);
          r4 = on_hello open_crypto small_relay 2 hello_a 1 (on_hello open_crypto small_relay 1 hello_a 1 r2)
      in port_opened 2 (port_opened 1 r4))"

definition stale_run :: relay_state where
  "stale_run =
     (let r1 = port_opened 1 (on_hello open_crypto small_relay 1 hello_a 1 (relay_accept 1 ''n1'' 0 new_relay));
          r2 = relay_teardown 1 (on_node_frame 1 9 2 r1);
          r3 = port_opened 2 (on_hello open_crypto small_relay 2 hello_a 3 (relay_accept 2 ''n2'' 3 r2))
      in reject_timer 1 r3)"

lemmas relay_defs = relay_accept_def on_hello_def port_opened_def relay_teardown_def on_node_frame_def
  reject_timer_def relay_reject_def relay_send_def relay_newChallenge_def RELAY_NONCE_TTL_MS_def
  new_relay_def hello_a_def Let_def claimPort_def small_relay_def

lemma reach:
  assumes "(relay_step cr cfg)\<^sup>*\<^sup>* a r"
  shows "get (rl_conns r) c = None \<Longrightarrow> (relay_step cr cfg)\<^sup>*\<^sup>* a (relay_accept c nonce now r)"
    and "(relay_step cr cfg)\<^sup>*\<^sup>* a (on_hello cr cfg c msg now r)"
    and "(relay_step cr cfg)\<^sup>*\<^sup>* a (port_opened c r)"
    and "(relay_step cr cfg)\<^sup>*\<^sup>* a (on_node_frame c ty now r)"
    and "(relay_step cr cfg)\<^sup>*\<^sup>* a (relay_teardown c r)"
    and "(relay_step cr cfg)\<^sup>*\<^sup>* a (reject_timer c r)"
  by (rule rtranclp.rtrancl_into_rtrancl [OF assms], (rule relay_step.intros; assumption?))+

lemma stale_mid:
  "relay_teardown 1 (on_node_frame 1 9 2 (port_opened 1 (on_hello open_crypto small_relay 1 hello_a 1
     (relay_accept 1 ''n1'' 0 new_relay)))) =
   \<lparr>rl_conns = [(1, \<lparr>co_nodeId = Some ''a'', co_owner = zero_wallet, co_nonce = ''n1'', co_port = Some 100,
      co_opening = None, co_listening = False, co_lastSeen = 2, co_destroyed = True\<rparr>)],
    rl_nodes = [], rl_taken = [], rl_nonces = [], rl_timers = [1],
    rl_out = [(1, Challenge ''n1''), (1, Welcome 100), (1, Refusal (''unexpected '' @ typeName 9 @ '' from a node''))]\<rparr>"
  by (simp add: relay_defs verify_open upt_rec [of 100])

lemma race_run_reached: "(relay_step open_crypto small_relay)\<^sup>*\<^sup>* new_relay race_run"
  unfolding race_run_def Let_def
  by (intro reach rtranclp.rtrancl_refl) (simp_all add: relay_accept_def relay_send_def new_relay_def)

lemma stale_run_reached: "(relay_step open_crypto small_relay)\<^sup>*\<^sup>* new_relay stale_run"
  unfolding stale_run_def Let_def
  by (intro reach rtranclp.rtrancl_refl) (simp add: new_relay_def, simp only: stale_mid, simp)

definition live_conn :: "nat \<Rightarrow> nat \<Rightarrow> relay_state \<Rightarrow> bool" where
  "live_conn c p r = (case get (rl_conns r) c of None \<Rightarrow> False
     | Some k \<Rightarrow> co_nodeId k = Some ''a'' \<and> co_port k = Some p \<and> co_listening k \<and> \<not> co_destroyed k
               \<and> (c, Welcome p) \<in> set (rl_out r))"

text \<open>
  Two connections can hold a tunnel for the same node id at the same time, both welcomed and both with a
  public port open.
\<close>
theorem node_id_two_tunnels:
  "\<exists>r. (relay_step open_crypto small_relay)\<^sup>*\<^sup>* new_relay r \<and> live_conn 1 100 r \<and> live_conn 2 101 r"
proof -
  have "live_conn 1 100 race_run \<and> live_conn 2 101 race_run"
    by (simp add: live_conn_def race_run_def relay_defs verify_open upt_rec [of 100] upt_rec [of 101])
  then show ?thesis using race_run_reached by blast
qed

text \<open>
  The teardown of a connection that is gone can evict its successor: a node that reconnects within the
  50 ms of a pending refusal stays connected and listening, but its registration is gone and its port is
  marked free.
\<close>
theorem stale_teardown_evicts:
  "\<exists>r. (relay_step open_crypto small_relay)\<^sup>*\<^sup>* new_relay r \<and> live_conn 2 100 r \<and>
     get (rl_nodes r) ''a'' = None \<and> 100 \<notin> set (rl_taken r)"
proof -
  have "live_conn 2 100 stale_run \<and> get (rl_nodes stale_run) ''a'' = None \<and> 100 \<notin> set (rl_taken stale_run)"
    unfolding stale_run_def Let_def stale_mid
    by (simp add: live_conn_def relay_defs verify_open upt_rec [of 100])
  then show ?thesis using stale_run_reached by blast
qed

theorem registration_proved_witness:
  "\<exists>k. get (rl_conns race_run) 2 = Some k \<and> co_nodeId k = Some ''a'' \<and> wallet_proved open_crypto small_relay ''a'' k"
proof -
  have "get (rl_nodes race_run) ''a'' = Some 2"
    by (simp add: race_run_def relay_defs verify_open upt_rec [of 100] upt_rec [of 101])
  from registration_proved [OF race_run_reached this] show ?thesis by blast
qed

end
