(* ===== verification/Admissions.thy ===== *)
theory Admissions
  imports Bridge_NodeAuth
begin

text \<open>
  The admissions desk (\<^verbatim>\<open>tools/kvasir-admissions/server.mjs\<close>): a machine asks to join, the request is mailed
  to a person, and the button behind the link of that mail has the bridge put the wallet on its list. The desk
  keeps one JSON file and a map of challenges. A handler that awaits holds the ledger it loaded before:
  \<open>flight\<close> is such a handler between its two halves, and the two halves are separate operations, so that
  every interleaving of requests is a sequence of operations. The clock is read once in each synchronous
  part. Random ids, tokens and nonces are arguments, and so are the two services the desk calls: whether the
  mail service and the bridge accepted (\<open>None\<close>) or the error they gave.
\<close>

section \<open>Requests and the file\<close>

datatype desk_request_state = Pending | MailFailed | Approved

record desk_request =
  aq_id :: string
  aq_wallet :: string
  aq_profile :: "(string \<times> string) list"
  aq_requestedBy :: string
  aq_token :: string
  aq_createdAt :: "int option"
  aq_expiresAt :: "int option"
  aq_state :: desk_request_state
  aq_approvedAt :: "int option"
  aq_error :: string

record desk_config =
  APPROVER :: string
  PUBLIC_URL :: string
  INTAKE_TOKEN :: string
  TTL_MS :: int
  MAX_PENDING :: nat
  KEEP_APPROVED_MS :: int

definition nullish_or :: "'a option \<Rightarrow> 'a \<Rightarrow> 'a" where
  "nullish_or x y = (case x of Some v \<Rightarrow> v | None \<Rightarrow> y)"

text \<open>What can no longer be acted on goes; the rest is counted.\<close>

fun prune :: "desk_config \<Rightarrow> int \<Rightarrow> desk_request table \<Rightarrow> desk_request table \<times> nat" where
  "prune cfg t [] = ([], 0)"
| "prune cfg t ((i, r) # db) =
     (let (rest, pending) = prune cfg t db
      in if aq_state r = Approved then
           if KEEP_APPROVED_MS cfg < t - nullish_or (aq_approvedAt r) (nullish_or (aq_createdAt r) 0) then (rest, pending)
           else ((i, r) # rest, pending)
         else if aq_state r = MailFailed \<or> nullish_or (aq_expiresAt r) 0 < t then (rest, pending)
         else ((i, r) # rest, pending + 1))"

definition waiting_for :: "string \<Rightarrow> int \<Rightarrow> desk_request table \<Rightarrow> desk_request option" where
  "waiting_for wallet t db =
     List.find (\<lambda>r. aq_state r = Pending \<and> aq_wallet r = wallet \<and> (case aq_expiresAt r of Some e \<Rightarrow> t \<le> e | None \<Rightarrow> False))
       (map snd db)"

section \<open>Proving a wallet\<close>

definition wallet_char :: "char \<Rightarrow> bool" where
  "wallet_char c =
     (let v = (of_char c :: nat)
      in 49 \<le> v \<and> v \<le> 57 \<or> 65 \<le> v \<and> v \<le> 72 \<or> 74 \<le> v \<and> v \<le> 78 \<or> 80 \<le> v \<and> v \<le> 90 \<or>
         97 \<le> v \<and> v \<le> 107 \<or> 109 \<le> v \<and> v \<le> 122)"

definition wallet_re :: "string \<Rightarrow> bool" where
  "wallet_re s \<longleftrightarrow> 32 \<le> length s \<and> length s \<le> 44 \<and> list_all wallet_char s"

definition desk_equal :: "string \<Rightarrow> string \<Rightarrow> bool" where
  "desk_equal a b \<longleftrightarrow> length a = length b \<and> a = b"

definition desk_messageFor :: "string \<Rightarrow> string \<Rightarrow> string" where
  "desk_messageFor wallet nonce =
     ''Kvasir admissions '' @ [char_of (226 :: nat), char_of (128 :: nat), char_of (148 :: nat)]
     @ '' ask to join the ring.'' @ [newline] @ ''wallet: '' @ wallet @ [newline] @ ''nonce: '' @ nonce"

definition CHALLENGE_TTL_MS :: int where "CHALLENGE_TTL_MS = 5 * 60000"
definition MAX_CHALLENGES :: nat where "MAX_CHALLENGES = 10000"

type_synonym challenge_map = "(string \<times> (string \<times> int)) list"

definition desk_newChallenge :: "string \<Rightarrow> string \<Rightarrow> int \<Rightarrow> challenge_map \<Rightarrow> challenge_map \<times> (string \<times> string) option" where
  "desk_newChallenge wallet nonce t cs =
     (let live = filter (\<lambda>(_, (_, expires)). \<not> expires < t) cs
      in if MAX_CHALLENGES \<le> length live then (live, None)
         else (put nonce (wallet, t + CHALLENGE_TTL_MS) live, Some (nonce, desk_messageFor wallet nonce)))"

definition desk_consumeChallenge :: "string \<Rightarrow> string \<Rightarrow> int \<Rightarrow> challenge_map \<Rightarrow> challenge_map \<times> string option" where
  "desk_consumeChallenge wallet nonce t cs =
     (case get cs nonce of
        None \<Rightarrow> (cs, None)
      | Some (w, expires) \<Rightarrow>
          (del nonce cs, if expires < t \<or> w \<noteq> wallet then None else Some (desk_messageFor wallet nonce)))"

section \<open>What is shown\<close>

definition escape_char :: "char \<Rightarrow> string" where
  "escape_char c =
     (if c = CHR ''&'' then ''&amp;'' else if c = CHR ''<'' then ''&lt;'' else if c = CHR ''>'' then ''&gt;''
      else if c = CHR 0x22 then ''&quot;'' else if c = CHR 0x27 then ''&#39;'' else [c])"

definition escape :: "string \<Rightarrow> string" where
  "escape s = concat (map escape_char s)"

definition mail_link :: "desk_config \<Rightarrow> desk_request \<Rightarrow> string" where
  "mail_link cfg r = PUBLIC_URL cfg @ ''/a/'' @ aq_id r @ ''?t='' @ aq_token r"

datatype desk_body =
    Health
  | Challenge (ch_nonce: string) (ch_message: string)
  | Asked (as_id: string) (as_expiresAt: "int option") (as_reused: bool)
  | ReviewPage (rp_wallet: string) (rp_rows: "(string \<times> string) list") (rp_token: string)
  | AlreadyApproved int
  | ApprovedPage string

definition reviewPage :: "desk_request \<Rightarrow> desk_body" where
  "reviewPage r =
     ReviewPage (escape (aq_wallet r)) (map (\<lambda>(k, v). (escape k, escape v)) (aq_profile r)) (escape (aq_token r))"

section \<open>The desk\<close>

text \<open>
  \<open>Mailing\<close> is the intake handler waiting for the mail service, \<open>Reading\<close> a handler behind the link waiting for
  the request body, \<open>Ringing\<close> the approval waiting for the bridge. Each holds the ledger object it loaded and the
  id of its request in it. The last two fields record what left the process: the mails and the admissions, each
  admission with the token that was presented and the time.
\<close>

datatype flight =
    Mailing (fl_db: "desk_request table") (fl_id: string)
  | Reading (fl_db: "desk_request table") (fl_id: string)
  | Ringing (fl_db: "desk_request table") (fl_id: string)

record adm_call =
  cl_wallet :: string
  cl_by :: string
  cl_presented :: string
  cl_time :: int

record desk =
  dk_file :: "desk_request table"
  dk_challenges :: challenge_map
  dk_flights :: "(nat \<times> flight) list"
  dk_mails :: "desk_request list"
  dk_calls :: "adm_call list"

definition new_desk :: desk where
  "new_desk = \<lparr>dk_file = [], dk_challenges = [], dk_flights = [], dk_mails = [], dk_calls = []\<rparr>"

section \<open>Routes\<close>

datatype desk_route = HealthRoute | ChallengeRoute | RequestsRoute | LinkRoute string | NoRoute

definition desk_strip_slashes :: "string \<Rightarrow> string" where
  "desk_strip_slashes p =
     (let r = rev (dropWhile (\<lambda>c. c = CHR ''/'') (rev p)) in if r = '''' then ''/'' else r)"

definition id_char :: "char \<Rightarrow> bool" where
  "id_char c = (let v = (of_char c :: nat) in 48 \<le> v \<and> v \<le> 57 \<or> 97 \<le> v \<and> v \<le> 102 \<or> v = 45)"

definition desk_route_of :: "string \<Rightarrow> string \<Rightarrow> desk_route" where
  "desk_route_of meth path =
     (let route = desk_strip_slashes path
      in if meth = ''GET'' \<and> (route = ''/health'' \<or> route = ''/'') then HealthRoute
         else if meth = ''POST'' \<and> route = ''/requests/challenge'' then ChallengeRoute
         else if meth = ''POST'' \<and> route = ''/requests'' then RequestsRoute
         else if take 3 route = ''/a/'' \<and> length (drop 3 route) = 36 \<and> list_all id_char (drop 3 route)
         then LinkRoute (drop 3 route)
         else NoRoute)"

text \<open>\<^verbatim>\<open>POST /requests/challenge\<close>; \<open>None\<close> is a body that is not JSON.\<close>

definition desk_post_challenge :: "string option \<Rightarrow> string \<Rightarrow> int \<Rightarrow> desk \<Rightarrow> desk_body answer \<times> desk" where
  "desk_post_challenge body nonce t d =
     (case body of
        None \<Rightarrow> (refuse 400 ''request body is not JSON'', d)
      | Some raw \<Rightarrow>
          let wallet = trim raw
          in if \<not> wallet_re wallet then (refuse 400 ''wallet must be a base58 Solana address'', d)
             else case desk_newChallenge wallet nonce t (dk_challenges d) of
                    (cs, None) \<Rightarrow> (refuse 503 ''too many challenges outstanding; try again shortly'', d\<lparr>dk_challenges := cs\<rparr>)
                  | (cs, Some (n, m)) \<Rightarrow> (Inr (Challenge n m), d\<lparr>dk_challenges := cs\<rparr>))"

record intake_body =
  ib_wallet :: string
  ib_nonce :: string
  ib_signature :: string
  ib_profile :: "(string \<times> string) list"
  ib_requestedBy :: string

text \<open>The two ways to be allowed to ask: the intake token, or a challenge signed by the wallet.\<close>

definition intake_proof :: "crypto \<Rightarrow> desk_config \<Rightarrow> string \<Rightarrow> intake_body \<Rightarrow> int \<Rightarrow> challenge_map \<Rightarrow> challenge_map \<times> bool" where
  "intake_proof cr cfg presented b t cs =
     (if desk_equal presented (INTAKE_TOKEN cfg) then (cs, True)
      else let wallet = trim (ib_wallet b); nonce = trim (ib_nonce b); signature = ib_signature b
           in if nonce = '''' \<or> signature = '''' then (cs, False)
              else case desk_consumeChallenge wallet nonce t cs of
                     (cs', None) \<Rightarrow> (cs', False)
                   | (cs', Some message) \<Rightarrow> (cs', verifyWalletSignature cr wallet message signature))"

definition desk_new_request :: "desk_config \<Rightarrow> intake_body \<Rightarrow> string \<Rightarrow> string \<Rightarrow> int \<Rightarrow> desk_request" where
  "desk_new_request cfg b i token t =
     \<lparr>aq_id = i, aq_wallet = trim (ib_wallet b), aq_profile = ib_profile b, aq_requestedBy = take 120 (ib_requestedBy b),
      aq_token = token, aq_createdAt = Some t, aq_expiresAt = Some (t + TTL_MS cfg), aq_state = Pending,
      aq_approvedAt = None, aq_error = ''''\<rparr>"

text \<open>
  \<^verbatim>\<open>POST /requests\<close> up to the mail: no answer yet (\<open>None\<close>) when the request was filed and the mail is on its way.
\<close>

definition post_requests ::
  "crypto \<Rightarrow> desk_config \<Rightarrow> string \<Rightarrow> intake_body option \<Rightarrow> string \<Rightarrow> string \<Rightarrow> int \<Rightarrow> nat \<Rightarrow> desk
   \<Rightarrow> desk_body answer option \<times> desk" where
  "post_requests cr cfg presented body i token t h d =
     (case body of
        None \<Rightarrow> (Some (refuse 400 ''request body is not JSON''), d)
      | Some b \<Rightarrow>
          let wallet = trim (ib_wallet b)
          in if \<not> wallet_re wallet then (Some (refuse 400 ''wallet must be a base58 Solana address''), d)
             else case intake_proof cr cfg presented b t (dk_challenges d) of
               (cs, False) \<Rightarrow> (Some (refuse 401 ''prove the wallet''), d\<lparr>dk_challenges := cs\<rparr>)
             | (cs, True) \<Rightarrow>
                 let d1 = d\<lparr>dk_challenges := cs\<rparr>; (db, pending) = prune cfg t (dk_file d)
                 in case waiting_for wallet t db of
                      Some r \<Rightarrow> (Some (Inr (Asked (aq_id r) (aq_expiresAt r) True)), d1\<lparr>dk_file := db\<rparr>)
                    | None \<Rightarrow>
                        if MAX_PENDING cfg \<le> pending
                        then (Some (refuse 429 ''too many requests are already waiting''), d1\<lparr>dk_file := db\<rparr>)
                        else let r = desk_new_request cfg b i token t; db' = put i r db
                             in (None, d1\<lparr>dk_file := db', dk_flights := put h (Mailing db' i) (dk_flights d1),
                                          dk_mails := dk_mails d1 @ [r]\<rparr>))"

text \<open>The second half of the intake, once the mail service has answered.\<close>

definition mail_answered :: "nat \<Rightarrow> string option \<Rightarrow> desk \<Rightarrow> desk_body answer option \<times> desk" where
  "mail_answered h err d =
     (case get (dk_flights d) h of
        Some (Mailing db i) \<Rightarrow>
          (case get db i of
             Some r \<Rightarrow>
               (let d1 = d\<lparr>dk_flights := del h (dk_flights d)\<rparr>
                in case err of
                     None \<Rightarrow> (Some (Inr (Asked i (aq_expiresAt r) False)), d1)
                   | Some e \<Rightarrow> (Some (refuse 502 e), d1\<lparr>dk_file := put i (r\<lparr>aq_state := MailFailed, aq_error := e\<rparr>) db\<rparr>))
           | None \<Rightarrow> (None, d))
      | _ \<Rightarrow> (None, d))"

text \<open>The checks behind the link, once the token is known: an answer, or (\<open>None\<close>) the bridge is to be called.\<close>

definition link_checked :: "string \<Rightarrow> string \<Rightarrow> int \<Rightarrow> desk_request \<Rightarrow> desk_body answer option" where
  "link_checked meth token t r =
     (if \<not> desk_equal token (aq_token r) then Some (refuse 403 ''That link is not valid'')
      else if aq_state r = Approved then
        Some (case aq_approvedAt r of Some a \<Rightarrow> Inr (AlreadyApproved a) | None \<Rightarrow> refuse 500 ''internal error'')
      else if (case aq_expiresAt r of Some e \<Rightarrow> e < t | None \<Rightarrow> False) then Some (refuse 410 ''That link has expired'')
      else if meth = ''GET'' then Some (Inr (reviewPage r))
      else if meth = ''POST'' then None
      else Some (refuse 404 ''no such endpoint''))"

text \<open>
  The link: a \<^verbatim>\<open>GET\<close> reads its token from the query and answers at once; any other method has loaded the file
  by the time it waits for the body.
\<close>

definition open_link :: "string \<Rightarrow> string \<Rightarrow> string \<Rightarrow> int \<Rightarrow> nat \<Rightarrow> desk \<Rightarrow> desk_body answer option \<times> desk" where
  "open_link meth i query_token t h d =
     (case get (dk_file d) i of
        None \<Rightarrow> (Some (refuse 404 ''No such request''), d)
      | Some r \<Rightarrow>
          if meth = ''GET'' then (link_checked meth query_token t r, d)
          else (None, d\<lparr>dk_flights := put h (Reading (dk_file d) i) (dk_flights d)\<rparr>))"

definition body_read :: "desk_config \<Rightarrow> string \<Rightarrow> nat \<Rightarrow> string \<Rightarrow> int \<Rightarrow> desk \<Rightarrow> desk_body answer option \<times> desk" where
  "body_read cfg meth h token t d =
     (case get (dk_flights d) h of
        Some (Reading db i) \<Rightarrow>
          (case get db i of
             Some r \<Rightarrow>
               (case link_checked meth token t r of
                  Some a \<Rightarrow> (Some a, d\<lparr>dk_flights := del h (dk_flights d)\<rparr>)
                | None \<Rightarrow>
                    (None, d\<lparr>dk_flights := put h (Ringing db i) (dk_flights d),
                             dk_calls := dk_calls d @ [\<lparr>cl_wallet = aq_wallet r, cl_by = ''approved by '' @ APPROVER cfg,
                                                        cl_presented = token, cl_time = t\<rparr>]\<rparr>))
           | None \<Rightarrow> (None, d))
      | _ \<Rightarrow> (None, d))"

definition ring_answered :: "nat \<Rightarrow> string option \<Rightarrow> int \<Rightarrow> desk \<Rightarrow> desk_body answer option \<times> desk" where
  "ring_answered h err t d =
     (case get (dk_flights d) h of
        Some (Ringing db i) \<Rightarrow>
          (case get db i of
             Some r \<Rightarrow>
               (let d1 = d\<lparr>dk_flights := del h (dk_flights d)\<rparr>
                in case err of
                     Some e \<Rightarrow> (Some (refuse 502 e), d1)
                   | None \<Rightarrow> (Some (Inr (ApprovedPage (escape (aq_wallet r)))),
                              d1\<lparr>dk_file := put i (r\<lparr>aq_state := Approved, aq_approvedAt := Some t\<rparr>) db\<rparr>))
           | None \<Rightarrow> (None, d))
      | _ \<Rightarrow> (None, d))"

section \<open>Interleavings\<close>

text \<open>
  What the bridge may answer when it is told to admit a wallet: \<open>None\<close> when it accepted, or its error.
\<close>

type_synonym bridge_answers = "string \<Rightarrow> string option \<Rightarrow> bool"

abbreviation any_answer :: bridge_answers where
  "any_answer \<equiv> \<lambda>_ _. True"

text \<open>\<open>h\<close> numbers a request that has not been answered; two of them never share a number.\<close>

inductive desk_step :: "crypto \<Rightarrow> desk_config \<Rightarrow> bridge_answers \<Rightarrow> desk \<Rightarrow> desk \<Rightarrow> bool" for cr cfg ring where
  challenged: "desk_step cr cfg ring d (snd (desk_post_challenge body nonce t d))"
| asked: "get (dk_flights d) h = None \<Longrightarrow> desk_step cr cfg ring d (snd (post_requests cr cfg presented body i token t h d))"
| mailed: "desk_step cr cfg ring d (snd (mail_answered h err d))"
| opened: "get (dk_flights d) h = None \<Longrightarrow> desk_step cr cfg ring d (snd (open_link meth i token t h d))"
| received: "desk_step cr cfg ring d (snd (body_read cfg meth h token t d))"
| rung: "get (dk_flights d) h = Some (Ringing db i) \<Longrightarrow> get db i = Some r \<Longrightarrow> ring (aq_wallet r) err
    \<Longrightarrow> desk_step cr cfg ring d (snd (ring_answered h err t d))"

abbreviation desk_run :: "crypto \<Rightarrow> desk_config \<Rightarrow> bridge_answers \<Rightarrow> desk \<Rightarrow> bool" where
  "desk_run cr cfg ring d \<equiv> (desk_step cr cfg ring)\<^sup>*\<^sup>* new_desk d"

text \<open>Every ledger the process knows: the file, and the objects its unfinished handlers hold.\<close>

definition ledgers :: "desk \<Rightarrow> desk_request table set" where
  "ledgers d = insert (dk_file d) ((fl_db \<circ> snd) ` set (dk_flights d))"

lemma set_put_sub: "set (put k v t) \<subseteq> insert (k, v) (set t)"
  by (induction t) auto

lemma set_del_sub: "set (del k t) \<subseteq> set t"
  by (induction t) auto

lemma ledgers_put: "ledgers (d\<lparr>dk_flights := put h f (dk_flights d)\<rparr>) \<subseteq> insert (fl_db f) (ledgers d)"
  using set_put_sub [of h f "dk_flights d"] by (fastforce simp: ledgers_def)

lemma ledgers_del: "ledgers (d\<lparr>dk_flights := del h (dk_flights d)\<rparr>) \<subseteq> ledgers d"
  using set_del_sub [of h "dk_flights d"] by (fastforce simp: ledgers_def)

lemma flight_ledger: "get (dk_flights d) h = Some f \<Longrightarrow> fl_db f \<in> ledgers d"
  unfolding ledgers_def by (force dest: map_of_SomeD)

lemma prune_sub: "set (fst (prune cfg t db)) \<subseteq> set db"
  by (induction db) (auto split: prod.splits if_splits)

text \<open>
  A property of ledgers, given the mails sent so far, that the three kinds of write keep holds of every ledger of
  every run: pruning, filing a new request in a pruned ledger that has room and no live request of that wallet,
  and closing a request.
\<close>

locale ledger_invariant =
  fixes cfg :: desk_config and ring :: bridge_answers and I :: "desk_request list \<Rightarrow> desk_request table \<Rightarrow> bool"
  assumes empty: "I [] []"
    and mono: "I ms db \<Longrightarrow> I (ms @ [m]) db"
    and pruned: "I ms db \<Longrightarrow> I ms (fst (prune cfg t db))"
    and filed: "I ms db \<Longrightarrow> prune cfg t db = (db', n) \<Longrightarrow> n < MAX_PENDING cfg \<Longrightarrow> waiting_for (trim (ib_wallet b)) t db' = None
        \<Longrightarrow> wallet_re (trim (ib_wallet b)) \<Longrightarrow> I (ms @ [desk_new_request cfg b i token t]) (put i (desk_new_request cfg b i token t) db')"
    and closed: "I ms db \<Longrightarrow> get db i = Some r \<Longrightarrow> s = MailFailed \<or> s = Approved \<and> ring (aq_wallet r) None
        \<Longrightarrow> I ms (put i (r\<lparr>aq_state := s, aq_error := e, aq_approvedAt := a\<rparr>) db)"
begin

lemma challenge_keeps:
  "ledgers (snd (desk_post_challenge body nonce t d)) = ledgers d" "dk_mails (snd (desk_post_challenge body nonce t d)) = dk_mails d"
  by (auto simp: desk_post_challenge_def ledgers_def Let_def split: option.split prod.split)

lemma ask_keeps:
  assumes all: "\<forall>db \<in> ledgers d. I (dk_mails d) db"
  shows "\<forall>db \<in> ledgers (snd (post_requests cr cfg presented body i token t h d)). I (dk_mails (snd (post_requests cr cfg presented body i token t h d))) db"
proof -
  let ?d = "snd (post_requests cr cfg presented body i token t h d)"
  have f: "I (dk_mails d) (dk_file d)" using all by (simp add: ledgers_def)
  consider (same) "ledgers ?d = ledgers d" "dk_mails ?d = dk_mails d" | (cut_down) "ledgers ?d \<subseteq> insert (fst (prune cfg t (dk_file d))) (ledgers d)" "dk_mails ?d = dk_mails d"
    | (added) b db' n where "prune cfg t (dk_file d) = (db', n)" "n < MAX_PENDING cfg" "waiting_for (trim (ib_wallet b)) t db' = None"
        "wallet_re (trim (ib_wallet b))" "ledgers ?d \<subseteq> insert (put i (desk_new_request cfg b i token t) db') (ledgers d)" "dk_mails ?d = dk_mails d @ [desk_new_request cfg b i token t]"
  proof (cases body)
    case (Some b)
    obtain cs ok where p: "intake_proof cr cfg presented b t (dk_challenges d) = (cs, ok)" by fastforce
    obtain db n where q: "prune cfg t (dk_file d) = (db, n)" by fastforce
    let ?new = "put i (desk_new_request cfg b i token t) db"
    consider "wallet_re (trim (ib_wallet b))" "ok" "waiting_for (trim (ib_wallet b)) t db = None" "n < MAX_PENDING cfg"
      | "\<not> (wallet_re (trim (ib_wallet b)) \<and> ok)" | "wallet_re (trim (ib_wallet b))" "ok" "waiting_for (trim (ib_wallet b)) t db \<noteq> None \<or> \<not> n < MAX_PENDING cfg"
      by blast
    then show ?thesis
    proof cases
      case 1
      have "ledgers ?d \<subseteq> insert ?new (ledgers d)"
        using set_put_sub [of h "Mailing ?new i" "dk_flights d"] 1
        by (fastforce simp: post_requests_def Some p q ledgers_def Let_def)
      moreover have "dk_mails ?d = dk_mails d @ [desk_new_request cfg b i token t]"
        using 1 by (simp add: post_requests_def Some p q Let_def)
      ultimately show ?thesis using 1 q added by blast
    next
      case 2
      then have "ledgers ?d = ledgers d" "dk_mails ?d = dk_mails d" by (auto simp: post_requests_def Some p ledgers_def Let_def split: bool.split)
      then show ?thesis by (rule same)
    next
      case 3
      then have "ledgers ?d \<subseteq> insert db (ledgers d)" "dk_mails ?d = dk_mails d"
        by (auto simp: post_requests_def Some p q ledgers_def Let_def split: option.split if_splits)
      then show ?thesis using q cut_down by simp
    qed
  qed (simp add: same post_requests_def)
  then show ?thesis
    using all f filed [OF f] pruned [OF f, of t] mono by cases (simp; blast)+
qed

lemma close_keeps:
  assumes all: "\<forall>db \<in> ledgers d. I (dk_mails d) db" and f: "get (dk_flights d) h = Some f" and r: "get (fl_db f) i = Some r" and s: "s = MailFailed \<or> s = Approved \<and> ring (aq_wallet r) None"
  shows "\<forall>db \<in> ledgers (d\<lparr>dk_flights := del h (dk_flights d), dk_file := put i (r\<lparr>aq_state := s, aq_error := e, aq_approvedAt := a\<rparr>) (fl_db f)\<rparr>). I (dk_mails d) db"
proof -
  have "I (dk_mails d) (put i (r\<lparr>aq_state := s, aq_error := e, aq_approvedAt := a\<rparr>) (fl_db f))"
    by (rule closed [OF _ r s]) (use all flight_ledger [OF f] in blast)
  then show ?thesis using all set_del_sub [of h "dk_flights d"] by (fastforce simp: ledgers_def)
qed

lemma step_keeps:
  assumes "desk_step cr cfg ring d d'" and all: "\<forall>db \<in> ledgers d. I (dk_mails d) db"
  shows "\<forall>db \<in> ledgers d'. I (dk_mails d') db"
  using assms(1)
proof cases
  case (mailed h err)
  show ?thesis
  proof (cases "\<exists>db i r e. get (dk_flights d) h = Some (Mailing db i) \<and> get db i = Some r \<and> err = Some e")
    case True
    then obtain db i r e where *: "get (dk_flights d) h = Some (Mailing db i)" "get db i = Some r" "err = Some e" by blast
    from close_keeps [OF all *(1), where i = i and r = r and s = MailFailed and e = e and a = "aq_approvedAt r"] * show ?thesis
      by (simp add: mailed mail_answered_def)
  next
    case False
    then have "ledgers d' \<subseteq> ledgers d" "dk_mails d' = dk_mails d"
      by (auto simp: mailed mail_answered_def dest: ledgers_del [THEN subsetD] split: option.splits flight.splits)
    then show ?thesis using all by auto
  qed
next
  case (opened h meth i token t)
  have "ledgers d' \<subseteq> ledgers d" "dk_mails d' = dk_mails d"
    using set_put_sub [of h "Reading (dk_file d) i" "dk_flights d"]
    by (force simp: opened open_link_def ledgers_def split: option.splits if_splits)+
  then show ?thesis using all by auto
next
  case (received meth h token t)
  show ?thesis
  proof (cases "get (dk_flights d) h")
    case (Some f)
    have "dk_mails d' = dk_mails d"
      using Some by (cases f) (auto simp: received body_read_def split: option.split)
    moreover have "ledgers d' \<subseteq> insert (fl_db f) (ledgers d)"
      using Some set_put_sub [of h "Ringing (fl_db f) (fl_id f)" "dk_flights d"] set_del_sub [of h "dk_flights d"]
      by (cases f) (fastforce simp: received body_read_def ledgers_def split: option.splits)+
    ultimately show ?thesis using all flight_ledger [OF Some] by auto
  qed (use all in \<open>simp add: received body_read_def\<close>)
next
  case (rung h db i r err t)
  show ?thesis
  proof (cases err)
    case None
    from close_keeps [OF all rung(2), where i = i and r = r and s = Approved and e = "aq_error r" and a = "Some t"] rung None
    show ?thesis by (simp add: ring_answered_def)
  next
    case (Some e)
    then have "d' = d\<lparr>dk_flights := del h (dk_flights d)\<rparr>" using rung by (simp add: ring_answered_def)
    then show ?thesis using all ledgers_del [of h d] by auto
  qed
qed (use all challenge_keeps ask_keeps in auto)

lemma run_keeps: "desk_run cr cfg ring d \<Longrightarrow> db \<in> ledgers d \<Longrightarrow> I (dk_mails d) db"
proof -
  have "desk_run cr cfg ring d \<Longrightarrow> \<forall>db \<in> ledgers d. I (dk_mails d) db"
  proof (induction rule: rtranclp_induct)
    case base
    show ?case using empty by (simp add: ledgers_def new_desk_def)
  qed (use step_keeps in blast)
  then show "desk_run cr cfg ring d \<Longrightarrow> db \<in> ledgers d \<Longrightarrow> I (dk_mails d) db" by blast
qed

end

section \<open>The approver's queue\<close>

definition pending_wallets :: "desk_request table \<Rightarrow> string list" where
  "pending_wallets db = map (aq_wallet \<circ> snd) (filter (\<lambda>(_, r). aq_state r = Pending) db)"

text \<open>A ledger row is what a mail told the approver, but for its state.\<close>

definition mailed_as :: "desk_request list \<Rightarrow> string \<Rightarrow> desk_request \<Rightarrow> bool" where
  "mailed_as ms k r \<longleftrightarrow> k = aq_id r \<and> aq_expiresAt r \<noteq> None \<and> wallet_re (aq_wallet r) \<and>
     (\<exists>m \<in> set ms. aq_id m = aq_id r \<and> aq_wallet m = aq_wallet r \<and> aq_token m = aq_token r \<and> aq_expiresAt m = aq_expiresAt r)"

definition queue_ok :: "desk_config \<Rightarrow> desk_request list \<Rightarrow> desk_request table \<Rightarrow> bool" where
  "queue_ok cfg ms db \<longleftrightarrow> length (pending_wallets db) \<le> MAX_PENDING cfg \<and> distinct (pending_wallets db) \<and>
     (\<forall>(k, r) \<in> set db. mailed_as ms k r)"

lemma pending_simps [simp]:
  "pending_wallets [] = []"
  "pending_wallets ((k, r) # db) = (if aq_state r = Pending then aq_wallet r # pending_wallets db else pending_wallets db)"
  by (simp_all add: pending_wallets_def)

lemma prune_pending:
  "set (pending_wallets (fst (prune cfg t db))) \<subseteq> set (pending_wallets db)"
  "distinct (pending_wallets db) \<Longrightarrow> distinct (pending_wallets (fst (prune cfg t db)))"
  "snd (prune cfg t db) = length (pending_wallets (fst (prune cfg t db)))"
  "snd (prune cfg t db) \<le> length (pending_wallets db)"
proof (induction db)
  case (Cons x db)
  obtain k r where x: "x = (k, r)" by fastforce
  obtain db' n where p: "prune cfg t db = (db', n)" by fastforce
  have "aq_state r = Pending \<or> aq_state r = MailFailed \<or> aq_state r = Approved" by (cases "aq_state r") auto
  with Cons.IH show
    "set (pending_wallets (fst (prune cfg t (x # db)))) \<subseteq> set (pending_wallets (x # db))"
    "distinct (pending_wallets (x # db)) \<Longrightarrow> distinct (pending_wallets (fst (prune cfg t (x # db))))"
    "snd (prune cfg t (x # db)) = length (pending_wallets (fst (prune cfg t (x # db))))"
    "snd (prune cfg t (x # db)) \<le> length (pending_wallets (x # db))"
    by (auto simp: x p split: if_splits)
qed simp_all

lemma prune_live:
  "(k, r) \<in> set (fst (prune cfg t db)) \<Longrightarrow> aq_state r = Pending \<Longrightarrow> t \<le> nullish_or (aq_expiresAt r) 0"
  by (induction db) (auto split: prod.splits if_splits)

lemma pending_put:
  "set (pending_wallets (put k r db)) \<subseteq> insert (aq_wallet r) (set (pending_wallets db))"
  "length (pending_wallets (put k r db)) \<le> length (pending_wallets db) + 1"
  "aq_wallet r \<notin> set (pending_wallets db) \<Longrightarrow> distinct (pending_wallets db) \<Longrightarrow> distinct (pending_wallets (put k r db))"
  by (induction db) (auto dest: subsetD split: if_splits)

lemma pending_close:
  assumes "aq_state r \<noteq> Pending"
  shows "set (pending_wallets (put k r db)) \<subseteq> set (pending_wallets db)"
    "length (pending_wallets (put k r db)) \<le> length (pending_wallets db)"
    "distinct (pending_wallets db) \<Longrightarrow> distinct (pending_wallets (put k r db))"
  using assms by (induction db) (auto dest: subsetD split: if_splits)

lemma not_waiting:
  assumes "waiting_for w t db = None" and "\<forall>(k, r) \<in> set db. aq_expiresAt r \<noteq> None"
    and "\<And>k r. (k, r) \<in> set db \<Longrightarrow> aq_state r = Pending \<Longrightarrow> t \<le> nullish_or (aq_expiresAt r) 0"
  shows "w \<notin> set (pending_wallets db)"
proof
  assume "w \<in> set (pending_wallets db)"
  then obtain k r where r: "(k, r) \<in> set db" "aq_state r = Pending" "aq_wallet r = w" by (auto simp: pending_wallets_def)
  moreover obtain e where e: "aq_expiresAt r = Some e" using assms(2) r(1) by fastforce
  ultimately have "t \<le> e" using assms(3) by (fastforce simp: nullish_or_def)
  with r e have "\<exists>v \<in> set (map snd db). aq_state v = Pending \<and> aq_wallet v = w \<and> (case aq_expiresAt v of Some e \<Rightarrow> t \<le> e | None \<Rightarrow> False)"
    by force
  then show False using assms(1) by (auto simp: waiting_for_def find_None_iff)
qed

interpretation queue: ledger_invariant cfg ring "queue_ok cfg" for cfg ring
proof
  show "queue_ok cfg [] []" by (simp add: queue_ok_def)
  show "queue_ok cfg (ms @ [m]) db" if "queue_ok cfg ms db" for ms db m
    using that by (fastforce simp: queue_ok_def mailed_as_def)
  show p: "queue_ok cfg ms (fst (prune cfg t db))" if "queue_ok cfg ms db" for ms db t
    using that prune_pending [where cfg = cfg and t = t and db = db] prune_sub [where cfg = cfg and t = t and db = db] by (auto simp: queue_ok_def)
  show "queue_ok cfg (ms @ [desk_new_request cfg b i token t]) (put i (desk_new_request cfg b i token t) db')"
    if I: "queue_ok cfg ms db" and pr: "prune cfg t db = (db', n)" and n: "n < MAX_PENDING cfg"
      and w: "waiting_for (trim (ib_wallet b)) t db' = None" "wallet_re (trim (ib_wallet b))" for ms db t db' n b i token
  proof -
    let ?r = "desk_new_request cfg b i token t"
    have q: "queue_ok cfg ms db'" using p [OF I, of t] pr by simp
    then have old: "\<forall>(k, r) \<in> set db'. mailed_as (ms @ [?r]) k r" by (fastforce simp: queue_ok_def mailed_as_def)
    have "aq_wallet ?r \<notin> set (pending_wallets db')"
      using not_waiting [OF w(1)] prune_live [where cfg = cfg and t = t and db = db] q pr by (fastforce simp: desk_new_request_def queue_ok_def mailed_as_def)
    moreover have "mailed_as (ms @ [?r]) i ?r" using w(2) by (simp add: mailed_as_def desk_new_request_def)
    then have "\<forall>(k, r) \<in> set (put i ?r db'). mailed_as (ms @ [?r]) k r" using old set_put_sub [of i ?r db'] by fastforce
    ultimately show ?thesis
      using q n prune_pending(3) [where cfg = cfg and t = t and db = db] pending_put [where k = i and r = ?r and db = db'] pr by (simp add: queue_ok_def)
  qed
  show "queue_ok cfg ms (put i (r\<lparr>aq_state := s, aq_error := e, aq_approvedAt := a\<rparr>) db)"
    if "queue_ok cfg ms db" "get db i = Some r" "s = MailFailed \<or> s = Approved \<and> ring (aq_wallet r) None" for ms db i r s e a
  proof -
    let ?r = "r\<lparr>aq_state := s, aq_error := e, aq_approvedAt := a\<rparr>"
    have "mailed_as ms i r" using that(1,2) map_of_SomeD [of db i r] by (auto simp: queue_ok_def)
    then have "mailed_as ms i ?r" by (simp add: mailed_as_def)
    then show ?thesis
      using that(1,3) pending_close [where r = ?r and k = i and db = db] set_put_sub [of i ?r db] by (fastforce simp: queue_ok_def)
  qed
qed

text \<open>
  However the handlers interleave, and although a handler that waited writes back the ledger it loaded before it
  waited, the file never holds more than the configured number of pending requests, nor two of one wallet: the
  approver has at most one decision about a machine in front of them.
\<close>
theorem approver_queue_bounded:
  assumes "desk_run cr cfg ring d"
  shows "length (pending_wallets (dk_file d)) \<le> MAX_PENDING cfg \<and> distinct (pending_wallets (dk_file d))"
  using queue.run_keeps [OF assms, of "dk_file d"] by (simp add: ledgers_def queue_ok_def)

section \<open>What an admission rests on\<close>

text \<open>
  The caller signed, with the key of the wallet it names, a challenge the desk had issued to that wallet and had
  not taken back.
\<close>

definition signed_challenge :: "crypto \<Rightarrow> desk \<Rightarrow> string \<Rightarrow> bool" where
  "signed_challenge cr d wallet \<longleftrightarrow>
     (\<exists>nonce signature expires. get (dk_challenges d) nonce = Some (wallet, expires) \<and>
        verifyWalletSignature cr wallet (desk_messageFor wallet nonce) signature)"

text \<open>
  A mail of a run comes from an intake earlier in that run whose caller held the intake token or signed.
\<close>

definition mail_origin :: "crypto \<Rightarrow> desk_config \<Rightarrow> bridge_answers \<Rightarrow> desk \<Rightarrow> desk_request \<Rightarrow> bool" where
  "mail_origin cr cfg ring d m \<longleftrightarrow>
     (\<exists>d0 presented body i token t h. desk_run cr cfg ring d0 \<and>
        dk_mails (snd (post_requests cr cfg presented body i token t h d0)) = dk_mails d0 @ [m] \<and>
        (desk_step cr cfg ring)\<^sup>*\<^sup>* (snd (post_requests cr cfg presented body i token t h d0)) d \<and>
        (presented = INTAKE_TOKEN cfg \<or> signed_challenge cr d0 (aq_wallet m)))"

lemma intake_grounds:
  assumes "intake_proof cr cfg presented b t (dk_challenges d) = (cs, True)"
  shows "presented = INTAKE_TOKEN cfg \<or> signed_challenge cr d (trim (ib_wallet b))"
  using assms
  by (auto simp: intake_proof_def desk_equal_def desk_consumeChallenge_def signed_challenge_def Let_def
      split: if_splits option.splits prod.splits)

lemma ask_mails:
  assumes d': "d' = snd (post_requests cr cfg presented body i token t h d)"
  shows "dk_mails d' = dk_mails d \<or>
    (\<exists>m. dk_mails d' = dk_mails d @ [m] \<and> (presented = INTAKE_TOKEN cfg \<or> signed_challenge cr d (aq_wallet m)))"
proof (cases body)
  case (Some b)
  obtain cs ok where p: "intake_proof cr cfg presented b t (dk_challenges d) = (cs, ok)" by fastforce
  show ?thesis
  proof (cases "dk_mails d' = dk_mails d")
    case False
    then have ok: ok "dk_mails d' = dk_mails d @ [desk_new_request cfg b i token t]"
      by (auto simp: d' post_requests_def Some p Let_def split: if_splits option.splits prod.splits bool.splits)
    with p intake_grounds show ?thesis by (fastforce simp: desk_new_request_def)
  qed simp
qed (simp add: d' post_requests_def)

lemma other_mails:
  "dk_mails (snd (desk_post_challenge body nonce t d)) = dk_mails d"
  "dk_mails (snd (mail_answered h err d)) = dk_mails d"
  "dk_mails (snd (open_link meth i token t h d)) = dk_mails d"
  "dk_mails (snd (body_read cfg meth h token t d)) = dk_mails d"
  "dk_mails (snd (ring_answered h err t d)) = dk_mails d"
  by (auto simp: desk_post_challenge_def mail_answered_def open_link_def body_read_def ring_answered_def Let_def
      split: option.split prod.split flight.split)

lemma mails_have_origin:
  assumes "desk_run cr cfg ring d" and "m \<in> set (dk_mails d)"
  shows "mail_origin cr cfg ring d m"
  using assms
proof (induction arbitrary: m rule: rtranclp_induct)
  case (step y z)
  have old: "mail_origin cr cfg ring z m" if "m \<in> set (dk_mails y)"
    using step.IH [OF that] rtranclp.rtrancl_into_rtrancl [where r = "desk_step cr cfg ring" and c = z] step.hyps(2) unfolding mail_origin_def by blast
  from step.hyps(2) show ?case
  proof cases
    case (asked h presented body i token t)
    show ?thesis
    proof (cases "m \<in> set (dk_mails y)")
      case False
      with step.prems ask_mails [of z cr cfg presented body i token t h y]
      have "dk_mails z = dk_mails y @ [m]" "presented = INTAKE_TOKEN cfg \<or> signed_challenge cr y (aq_wallet m)"
        by (auto simp: asked)
      with step.hyps(1) show ?thesis unfolding mail_origin_def asked(1) by blast
    qed (rule old)
  qed (use old step.prems in \<open>simp_all add: other_mails\<close>)
qed (simp add: new_desk_def)

lemma calls_of:
  assumes "desk_step cr cfg ring d d'"
  obtains "dk_calls d' = dk_calls d"
  | h db i r token t by_whom where "get (dk_flights d) h = Some (Reading db i)" "get db i = Some r" "link_checked ''POST'' token t r = None"
      "dk_calls d' = dk_calls d @ [\<lparr>cl_wallet = aq_wallet r, cl_by = by_whom, cl_presented = token, cl_time = t\<rparr>]"
  using assms
proof cases
  case (received meth h token t)
  show ?thesis
  proof (cases "\<exists>db i r. get (dk_flights d) h = Some (Reading db i) \<and> get db i = Some r \<and> link_checked meth token t r = None")
    case True
    then obtain db i r where *: "get (dk_flights d) h = Some (Reading db i)" "get db i = Some r" "link_checked meth token t r = None" by blast
    then have "link_checked ''POST'' token t r = None" by (auto simp: link_checked_def split: if_splits)
    with * that(2) show ?thesis by (simp add: received body_read_def)
  next
    case False
    then have "dk_calls d' = dk_calls d" by (auto simp: received body_read_def split: option.splits flight.splits)
    then show ?thesis by (rule that(1))
  qed
qed (auto intro!: that(1) simp: desk_post_challenge_def post_requests_def mail_answered_def open_link_def ring_answered_def Let_def
    split: option.split prod.split flight.split bool.split)

text \<open>
  C33: Nobody is admitted without the person's mail. Whenever the desk has told the bridge to admit a wallet, that
  wallet was named in a request that was mailed to the approver in this very run, the caller presented the
  one-time token of that mail before the link expired, and the request had been filed for a caller that held
  the intake token or signed a challenge issued to the wallet.
\<close>
theorem admission_needs_mail:
  assumes "desk_run cr cfg ring d" and "c \<in> set (dk_calls d)"
  shows "\<exists>m e. mail_origin cr cfg ring d m \<and> cl_wallet c = aq_wallet m \<and> cl_presented c = aq_token m \<and>
    aq_expiresAt m = Some e \<and> cl_time c \<le> e"
proof -
  have "\<exists>m \<in> set (dk_mails d). cl_wallet c = aq_wallet m \<and> cl_presented c = aq_token m \<and>
      (\<exists>e. aq_expiresAt m = Some e \<and> cl_time c \<le> e)" (is "\<exists>m \<in> set (dk_mails d). ?ok c m")
    using assms
  proof (induction rule: rtranclp_induct)
    case (step y z)
    have more: "set (dk_mails y) \<subseteq> set (dk_mails z)" using step.hyps(2)
    proof cases
      case (asked h presented body i token t)
      then show ?thesis using ask_mails [OF refl, of cr cfg presented body i token t h y] by fastforce
    qed (simp_all add: other_mails)
    from step.hyps(2) show ?case
    proof (cases rule: calls_of)
      case 1
      then show ?thesis using step more by auto
    next
      case (2 h db i r token t w)
      have "queue_ok cfg (dk_mails y) db"
        using queue.run_keeps [OF step.hyps(1)] flight_ledger [OF 2(1)] by simp
      then have "mailed_as (dk_mails y) i r" using 2(2) map_of_SomeD [of db i r] by (auto simp: queue_ok_def)
      moreover have "token = aq_token r" "\<And>e. aq_expiresAt r = Some e \<Longrightarrow> t \<le> e"
        using 2(3) by (auto simp: link_checked_def desk_equal_def split: if_splits)
      ultimately have "\<exists>m \<in> set (dk_mails y). ?ok \<lparr>cl_wallet = aq_wallet r, cl_by = w, cl_presented = token, cl_time = t\<rparr> m"
        by (auto simp: mailed_as_def) metis
      then show ?thesis using step more 2(4) by fastforce
    qed
  qed (simp add: new_desk_def)
  then show ?thesis using mails_have_origin [OF assms(1)] by blast
qed

text \<open>
  A \<^verbatim>\<open>GET\<close> of the link, by a person, a scanner or a preview, leaves the desk exactly as it found it.
\<close>
theorem get_changes_nothing: "snd (open_link ''GET'' i token t h d) = d"
  by (simp add: open_link_def split: option.split)

lemma escape_safe: "c \<in> {CHR ''<'', CHR ''>'', CHR 0x22, CHR 0x27} \<Longrightarrow> c \<notin> set (escape s)"
  by (auto simp: escape_def escape_char_def split: if_splits)

text \<open>
  The message a machine signs for the desk is never the message it signs for the bridge, so a signature given to
  the one is of no use at the other.
\<close>
lemma domains_apart: "desk_messageFor w n \<noteq> messageFor w' n'"
  by (simp add: desk_messageFor_def messageFor_def)

section \<open>A request that is lost\<close>

text \<open>
  Handlers write back the ledger they loaded before they waited. Here the approver's button for the first machine
  is pressed, and while that request is being read a second machine asks and is told that its mail went out; the
  approval then writes the older ledger, and the second machine's link leads nowhere.
\<close>

definition demo_desk_config :: desk_config where
  "demo_desk_config = \<lparr>APPROVER = ''tony'', PUBLIC_URL = ''u'', INTAKE_TOKEN = ''bot'', TTL_MS = 1800000, MAX_PENDING = 50,
     KEEP_APPROVED_MS = 0\<rparr>"

definition demo_ask :: "char \<Rightarrow> intake_body" where
  "demo_ask c = \<lparr>ib_wallet = replicate 32 c, ib_nonce = '''', ib_signature = '''', ib_profile = [], ib_requestedBy = ''''\<rparr>"

definition demo_id :: "char \<Rightarrow> string" where
  "demo_id c = replicate 36 c"

lemma demo_ids [simp]: "demo_id CHR ''a'' \<noteq> demo_id CHR ''b''" "demo_id CHR ''b'' \<noteq> demo_id CHR ''a''"
  by (simp_all add: demo_id_def)

lemma demo_wallet [simp]:
  assumes "\<not> is_space c" "wallet_char c"
  shows "trim (replicate 32 c) = replicate 32 c" "wallet_re (replicate 32 c)"
  using assms by (simp_all add: trim_def wallet_re_def list_all_iff eval_nat_numeral)

lemma demo_chars [simp]: "\<not> is_space CHR ''a''" "\<not> is_space CHR ''b''" "wallet_char CHR ''a''" "wallet_char CHR ''b''"
  by (simp_all add: is_space_def wallet_char_def)

lemma demo_wallets [simp]: "replicate 32 CHR ''a'' \<noteq> replicate 32 CHR ''b''"
  by simp

lemma ask_accepted:
  assumes "wallet_re (trim (ib_wallet b))" and "prune cfg t (dk_file d) = (db, n)"
    and "waiting_for (trim (ib_wallet b)) t db = None" and "n < MAX_PENDING cfg"
    and r: "r = desk_new_request cfg b i token t"
  shows "snd (post_requests cr cfg (INTAKE_TOKEN cfg) (Some b) i token t h d) =
    d\<lparr>dk_file := put i r db, dk_flights := put h (Mailing (put i r db) i) (dk_flights d), dk_mails := dk_mails d @ [r]\<rparr>"
  using assms by (simp add: post_requests_def intake_proof_def desk_equal_def Let_def)

definition demo_row :: "char \<Rightarrow> desk_request" where
  "demo_row c = desk_new_request demo_desk_config (demo_ask c) (demo_id c) [c] 0"

lemma demo_row_simps [simp]:
  "aq_state (demo_row c) = Pending" "aq_expiresAt (demo_row c) = Some 1800000" "aq_token (demo_row c) = [c]"
  "\<not> is_space c \<Longrightarrow> wallet_char c \<Longrightarrow> aq_wallet (demo_row c) = replicate 32 c"
  by (simp_all add: demo_row_def desk_new_request_def demo_desk_config_def demo_ask_def)

abbreviation ask_demo :: "char \<Rightarrow> nat \<Rightarrow> desk \<Rightarrow> desk" where
  "ask_demo c h d \<equiv> snd (post_requests toy_crypto demo_desk_config (INTAKE_TOKEN demo_desk_config) (Some (demo_ask c)) (demo_id c) [c] 0 h d)"

lemma ask_demo:
  assumes "\<not> is_space c" "wallet_char c" and f: "dk_file d = map (\<lambda>x. (demo_id x, demo_row x)) cs" "length cs < 50" "c \<notin> set cs"
    and "\<forall>x \<in> set cs. \<not> is_space x \<and> wallet_char x"
  shows "ask_demo c h d = d\<lparr>dk_file := put (demo_id c) (demo_row c) (dk_file d),
    dk_flights := put h (Mailing (put (demo_id c) (demo_row c) (dk_file d)) (demo_id c)) (dk_flights d), dk_mails := dk_mails d @ [demo_row c]\<rparr>"
proof (rule ask_accepted)
  have "prune demo_desk_config 0 (map (\<lambda>x. (demo_id x, demo_row x)) xs) = (map (\<lambda>x. (demo_id x, demo_row x)) xs, length xs)" for xs
    by (induction xs) (simp_all add: nullish_or_def)
  then show "prune demo_desk_config 0 (dk_file d) = (dk_file d, length cs)" by (simp add: f)
  show "waiting_for (trim (ib_wallet (demo_ask c))) 0 (dk_file d) = None"
    using assms by (auto simp: waiting_for_def find_None_iff demo_ask_def)
qed (use assms in \<open>simp_all add: demo_ask_def demo_row_def demo_desk_config_def\<close>)

definition one_waiting :: desk where
  "one_waiting = snd (mail_answered 5 None (ask_demo CHR ''a'' 5 new_desk))"

definition both_waiting :: desk where
  "both_waiting = ask_demo CHR ''b'' 7 (snd (open_link ''POST'' (demo_id CHR ''a'') '''' 0 6 one_waiting))"

definition pressed :: desk where
  "pressed = snd (body_read demo_desk_config ''POST'' 6 ''a'' 0 (snd (mail_answered 7 None both_waiting)))"

definition overwritten :: desk where
  "overwritten = snd (ring_answered 6 None 0 pressed)"

lemma one_waiting: "one_waiting = new_desk\<lparr>dk_file := [(demo_id CHR ''a'', demo_row CHR ''a'')], dk_mails := [demo_row CHR ''a'']\<rparr>"
  unfolding one_waiting_def by (subst ask_demo [where cs = "[]"]) (simp_all add: mail_answered_def new_desk_def)

lemma both_waiting: "both_waiting = new_desk\<lparr>
    dk_file := [(demo_id CHR ''a'', demo_row CHR ''a''), (demo_id CHR ''b'', demo_row CHR ''b'')],
    dk_flights := [(6, Reading [(demo_id CHR ''a'', demo_row CHR ''a'')] (demo_id CHR ''a'')),
      (7, Mailing [(demo_id CHR ''a'', demo_row CHR ''a''), (demo_id CHR ''b'', demo_row CHR ''b'')] (demo_id CHR ''b''))],
    dk_mails := [demo_row CHR ''a'', demo_row CHR ''b'']\<rparr>"
  unfolding both_waiting_def one_waiting
  by (subst ask_demo [where cs = "[CHR ''a'']"]) (simp_all add: open_link_def new_desk_def)

lemma overwritten: "dk_file overwritten = [(demo_id CHR ''a'', (demo_row CHR ''a'')\<lparr>aq_state := Approved, aq_approvedAt := Some 0\<rparr>)]"
  "dk_mails overwritten = [demo_row CHR ''a'', demo_row CHR ''b'']" "dk_calls overwritten \<noteq> []"
  unfolding overwritten_def pressed_def both_waiting
  by (simp_all add: mail_answered_def body_read_def ring_answered_def link_checked_def desk_equal_def new_desk_def)

lemma pressed_reached: "desk_run toy_crypto demo_desk_config ring pressed"
proof -
  let ?s = "desk_step toy_crypto demo_desk_config ring"
  have "?s new_desk (ask_demo CHR ''a'' 5 new_desk)" by (rule asked) (simp add: new_desk_def)
  moreover have "?s (ask_demo CHR ''a'' 5 new_desk) one_waiting" unfolding one_waiting_def by (rule mailed)
  moreover have "?s one_waiting (snd (open_link ''POST'' (demo_id CHR ''a'') '''' 0 6 one_waiting))"
    by (rule opened) (simp add: one_waiting new_desk_def)
  moreover have "?s \<dots> both_waiting" unfolding both_waiting_def
    by (rule asked) (simp add: one_waiting open_link_def new_desk_def)
  ultimately have "desk_run toy_crypto demo_desk_config ring both_waiting" by (meson converse_rtranclp_into_rtranclp rtranclp.rtrancl_refl)
  then show ?thesis
    unfolding pressed_def by (meson rtranclp.rtrancl_into_rtrancl mailed received)
qed

lemma pressed:
  "get (dk_flights pressed) 6 = Some (Ringing [(demo_id CHR ''a'', demo_row CHR ''a'')] (demo_id CHR ''a''))"
  "get [(demo_id CHR ''a'', demo_row CHR ''a'')] (demo_id CHR ''a'') = Some (demo_row CHR ''a'')"
  by (simp_all add: pressed_def both_waiting mail_answered_def body_read_def link_checked_def desk_equal_def new_desk_def)

lemma overwritten_reached: "desk_run toy_crypto demo_desk_config any_answer overwritten"
proof -
  have "desk_step toy_crypto demo_desk_config any_answer pressed overwritten"
    unfolding overwritten_def by (rule rung [OF pressed]) simp
  then show ?thesis using pressed_reached [of any_answer] by simp
qed

theorem approval_loses_request:
  "\<exists>d m. desk_run toy_crypto demo_desk_config any_answer d \<and> m \<in> set (dk_mails d) \<and> aq_expiresAt m = Some 1800000 \<and>
     (\<forall>meth token t h. fst (open_link meth (aq_id m) token t h d) = Some (refuse 404 ''No such request''))"
proof -
  have "aq_id (demo_row CHR ''b'') = demo_id CHR ''b''" by (simp add: demo_row_def desk_new_request_def)
  then show ?thesis
    using overwritten_reached by (intro exI [of _ overwritten] exI [of _ "demo_row CHR ''b''"]) (simp add: overwritten open_link_def)
qed

theorem approver_queue_bounded_witness:
  "length (pending_wallets (dk_file overwritten)) \<le> MAX_PENDING demo_desk_config \<and> distinct (pending_wallets (dk_file overwritten))"
  by (rule approver_queue_bounded [OF overwritten_reached])

theorem admission_needs_mail_witness:
  "\<exists>c m e. c \<in> set (dk_calls overwritten) \<and> mail_origin toy_crypto demo_desk_config any_answer overwritten m \<and> cl_wallet c = aq_wallet m \<and>
     cl_presented c = aq_token m \<and> aq_expiresAt m = Some e \<and> cl_time c \<le> e"
  using admission_needs_mail [OF overwritten_reached] overwritten(3) by (metis list.set_intros(1) neq_Nil_conv)

end
