(* ===== verification/Desktop_Participation.thy ===== *)
theory Desktop_Participation
  imports Bridge_Participation Admissions Gateway_Openai
begin

text \<open>
  The desktop node's side of the participation protocol (\<^verbatim>\<open>wallet/desktop/electron/participation.cjs\<close>): the
  node token and its cache, the authenticated call that re-authenticates once, volunteering, coverage reports,
  asking to be admitted, and the polling loop.

  The network is a parameter: a function from a request and the state of what lies beyond to a response and its new
  state. The last sections put the modelled gateway, bridge and admissions desk there. The loop is a separate
  state machine over its timers, since pokes, stops and starts can arrive while a poll is under way.
\<close>

section \<open>Requests\<close>

datatype pr_body =
    BWallet string
  | BProof string string string "(string \<times> string) list"
  | BVolunteer "string option" "rat option"
  | BCoverage coverage_body
  | BNone

record pr_request =
  pq_base :: string
  pq_method :: string
  pq_path :: string
  pq_body :: pr_body
  pq_token :: "string option"

text \<open>The parsed body of an answer, with the fields the client looks at.\<close>

record pr_data =
  pd_nonce :: string
  pd_message :: string
  pd_node_token :: string
  pd_expires_in :: "rat option"
  pd_assigned :: bool
  pd_model :: string
  pd_n_embd :: "nat option"
  pd_layer :: nat
  pd_experts :: "rat \<times> rat"
  pd_wired :: bool
  pd_reused :: bool
  pd_error :: string
  pd_code :: string

definition no_data :: pr_data where
  "no_data = \<lparr>pd_nonce = '''', pd_message = '''', pd_node_token = '''', pd_expires_in = None, pd_assigned = False, pd_model = '''',
     pd_n_embd = None, pd_layer = 0, pd_experts = (0, 0), pd_wired = False, pd_reused = False, pd_error = '''', pd_code = ''''\<rparr>"

datatype pr_response =
    NoAnswer
  | Response (pp_status: nat) (pp_x_kvasir_error: string) (pp_cf_mitigated: bool) (pp_data: "pr_data option")

record pr_error =
  er_status :: nat
  er_code :: string

type_synonym 's world = "pr_request \<Rightarrow> 's \<Rightarrow> pr_response \<times> 's"

text \<open>\<^verbatim>\<open>/not (admitted|allowed)/i\<close> in the sentence of an older bridge.\<close>

fun has_sub :: "string \<Rightarrow> string \<Rightarrow> bool" where
  "has_sub pat [] = (pat = [])"
| "has_sub pat (c # s) = (starts_with (c # s) pat \<or> has_sub pat s)"

definition errorCode :: "nat \<Rightarrow> string \<Rightarrow> bool \<Rightarrow> pr_data option \<Rightarrow> string" where
  "errorCode st named cf data =
     (if named \<noteq> '''' then named
      else case data of
        Some d \<Rightarrow>
          if pd_code d \<noteq> '''' then pd_code d
          else if st = 403 then
            (if cf then ''forbidden''
             else if has_sub ''not admitted'' (to_lower (pd_error d)) \<or> has_sub ''not allowed'' (to_lower (pd_error d)) then ''not_admitted''
             else ''forbidden'')
          else ''''
      | None \<Rightarrow> if st = 403 then ''forbidden'' else '''')"

definition pr_call :: "'s world \<Rightarrow> pr_request \<Rightarrow> 's \<Rightarrow> (pr_error + pr_data option) \<times> 's" where
  "pr_call net q s =
     (case net q s of
        (NoAnswer, s') \<Rightarrow> (Inl \<lparr>er_status = 0, er_code = ''network''\<rparr>, s')
      | (Response st named cf data, s') \<Rightarrow>
          if is_ok st then (Inr data, s')
          else (Inl \<lparr>er_status = st, er_code = errorCode st named cf data\<rparr>, s'))"

section \<open>The client\<close>

record pclient =
  pc_base :: string
  pc_admissionsBase :: string
  pc_wallet :: string
  pc_token :: string
  pc_expiresAt :: rat
  pc_store :: "(string \<times> rat) option"
  pc_hasStore :: bool
  pc_assignment :: "pr_data option"
  pc_admission :: "bool option"
  pc_requestedAt :: int
  pc_profile :: "(string \<times> string) list"

definition MAX_WALLET_LEN :: nat where "MAX_WALLET_LEN = 44"
definition ADMISSION_ASK_EVERY_MS :: int where "ADMISSION_ASK_EVERY_MS = 25 * 60000"

definition cachedToken :: "int \<Rightarrow> pclient \<Rightarrow> string option \<times> pclient" where
  "cachedToken now c =
     (let c1 = (if pc_token c = '''' \<and> pc_hasStore c then
                  (case pc_store c of Some (t, e) \<Rightarrow> if t = '''' then c else c\<lparr>pc_token := t, pc_expiresAt := e\<rparr> | None \<Rightarrow> c)
                else c)
      in (if pc_token c1 \<noteq> '''' \<and> (pc_expiresAt c1 = 0 \<or> of_int now + 60000 < pc_expiresAt c1) then Some (pc_token c1) else None, c1))"

definition forgetToken :: "pclient \<Rightarrow> pclient" where
  "forgetToken c = c\<lparr>pc_token := '''', pc_expiresAt := 0, pc_store := (if pc_hasStore c then None else pc_store c)\<rparr>"

text \<open>\<open>sign\<close> is the base64 of the wallet's signature over the bytes of a message.\<close>

definition mintToken ::
  "(string \<Rightarrow> string) \<Rightarrow> 's world \<Rightarrow> int \<Rightarrow> pclient \<Rightarrow> 's \<Rightarrow> (pr_error + string) \<times> pclient \<times> 's" where
  "mintToken sign net now c s =
     (let err = (\<lambda>code. \<lparr>er_status = 0, er_code = code\<rparr>); w = pc_wallet c;
          q = (\<lambda>path b. \<lparr>pq_base = pc_base c, pq_method = ''POST'', pq_path = path, pq_body = b, pq_token = None\<rparr>)
      in if w = '''' then (Inl (err ''wallet_locked''), c, s)
         else if MAX_WALLET_LEN < length w then (Inl (err ''wallet_too_long''), c, s)
         else case pr_call net (q ''/api/auth/challenge'' (BWallet w)) s of
           (Inl e, s1) \<Rightarrow> (Inl e, c, s1)
         | (Inr None, s1) \<Rightarrow> (Inl (err ''no_challenge''), c, s1)
         | (Inr (Some ch), s1) \<Rightarrow>
             if pd_message ch = '''' \<or> pd_nonce ch = '''' then (Inl (err ''no_challenge''), c, s1)
             else case pr_call net (q ''/api/auth/node-token'' (BProof w (pd_nonce ch) (sign (pd_message ch)) [])) s1 of
               (Inl e, s2) \<Rightarrow> (Inl e, c, s2)
             | (Inr None, s2) \<Rightarrow> (Inl (err ''no_token''), c, s2)
             | (Inr (Some d), s2) \<Rightarrow>
                 if pd_node_token d = '''' then (Inl (err ''no_token''), c, s2)
                 else let ex = (case pd_expires_in d of Some t \<Rightarrow> if 0 < t then fl (of_int now + fl (t * 1000)) else 0 | None \<Rightarrow> 0)
                      in (Inr (pd_node_token d),
                          c\<lparr>pc_token := pd_node_token d, pc_expiresAt := ex,
                            pc_store := (if pc_hasStore c then Some (pd_node_token d, ex) else pc_store c)\<rparr>, s2))"

definition ensureToken ::
  "(string \<Rightarrow> string) \<Rightarrow> 's world \<Rightarrow> int \<Rightarrow> pclient \<Rightarrow> 's \<Rightarrow> (pr_error + string) \<times> pclient \<times> 's" where
  "ensureToken sign net now c s =
     (case cachedToken now c of (Some t, c1) \<Rightarrow> (Inr t, c1, s) | (None, c1) \<Rightarrow> mintToken sign net now c1 s)"

text \<open>An authenticated call: once more with a new token after a 401.\<close>

definition authed ::
  "(string \<Rightarrow> string) \<Rightarrow> 's world \<Rightarrow> int \<Rightarrow> (string \<Rightarrow> pr_request) \<Rightarrow> pclient \<Rightarrow> 's \<Rightarrow> (pr_error + pr_data option) \<times> pclient \<times> 's" where
  "authed sign net now f c s =
     (case ensureToken sign net now c s of
        (Inl e, c1, s1) \<Rightarrow> (Inl e, c1, s1)
      | (Inr t, c1, s1) \<Rightarrow>
          (case pr_call net (f t) s1 of
             (Inr d, s2) \<Rightarrow> (Inr d, c1, s2)
           | (Inl e, s2) \<Rightarrow>
               if er_status e = 401 then
                 (case mintToken sign net now (forgetToken c1) s2 of
                    (Inl e', c2, s3) \<Rightarrow> (Inl e', c2, s3)
                  | (Inr t', c2, s3) \<Rightarrow> (case pr_call net (f t') s3 of (r, s4) \<Rightarrow> (r, c2, s4)))
               else (Inl e, c1, s2)))"

definition volunteer ::
  "(string \<Rightarrow> string) \<Rightarrow> 's world \<Rightarrow> int \<Rightarrow> string option \<Rightarrow> rat option \<Rightarrow> pclient \<Rightarrow> 's \<Rightarrow> pr_error option \<times> pclient \<times> 's" where
  "volunteer sign net now model maxExperts c s =
     (case authed sign net now (\<lambda>t. \<lparr>pq_base = pc_base c, pq_method = ''POST'', pq_path = ''/api/expert-volunteer'',
              pq_body = BVolunteer model maxExperts, pq_token = Some t\<rparr>) c s of
        (Inl e, c1, s1) \<Rightarrow> (Some e, c1, s1)
      | (Inr d, c1, s1) \<Rightarrow>
          (case d of
             Some a \<Rightarrow>
               if \<not> pd_assigned a then (None, c1\<lparr>pc_assignment := None\<rparr>, s1)
               else if pd_n_embd a = None then (Some \<lparr>er_status = 0, er_code = ''missing_n_embd''\<rparr>, c1\<lparr>pc_assignment := None\<rparr>, s1)
               else (None, c1\<lparr>pc_assignment := Some a\<rparr>, s1)
           | None \<Rightarrow> (None, c1\<lparr>pc_assignment := None\<rparr>, s1)))"

text \<open>The worker id is the one the settlement side uses for the machine.\<close>

definition worker_id :: "pclient \<Rightarrow> string" where
  "worker_id c = (if pc_wallet c = '''' then '''' else ''desktop-'' @ take 8 (pc_wallet c))"

definition reportCoverage ::
  "(string \<Rightarrow> string) \<Rightarrow> 's world \<Rightarrow> int \<Rightarrow> segment list \<Rightarrow> string \<Rightarrow> string \<Rightarrow> string \<Rightarrow> platform \<Rightarrow> pclient \<Rightarrow> 's
   \<Rightarrow> (pr_error + pr_data option) \<times> pclient \<times> 's" where
  "reportCoverage sign net now segs model workerId url plat c s =
     (let modelId = or_else model (case pc_assignment c of Some a \<Rightarrow> pd_model a | None \<Rightarrow> '''');
          worker = or_else workerId (worker_id c)
      in if modelId = '''' \<or> worker = '''' then (Inr None, c, s)
         else authed sign net now (\<lambda>t. \<lparr>pq_base = pc_base c, pq_method = ''POST'', pq_path = ''/api/expert-coverage'',
                pq_body = BCoverage \<lparr>cb_worker_id = worker, cb_model = modelId, cb_segments = map Some segs, cb_url = url,
                                     cb_owner = pc_wallet c, cb_platform = plat\<rparr>, pq_token = Some t\<rparr>) c s)"

text \<open>Asking to be admitted: whether the request went out.\<close>

definition requestAdmission ::
  "(string \<Rightarrow> string) \<Rightarrow> 's world \<Rightarrow> int \<Rightarrow> pclient \<Rightarrow> 's \<Rightarrow> bool \<times> pclient \<times> 's" where
  "requestAdmission sign net now c s =
     (if pc_admissionsBase c = '''' then (False, c, s)
      else if now - pc_requestedAt c < ADMISSION_ASK_EVERY_MS then (False, c, s)
      else if pc_wallet c = '''' then (False, c, s)
      else let c1 = c\<lparr>pc_requestedAt := now\<rparr>;
               q = (\<lambda>path b. \<lparr>pq_base = pc_admissionsBase c, pq_method = ''POST'', pq_path = path, pq_body = b, pq_token = None\<rparr>)
           in case pr_call net (q ''/requests/challenge'' (BWallet (pc_wallet c))) s of
                (Inr (Some ch), s1) \<Rightarrow>
                  if pd_message ch = '''' \<or> pd_nonce ch = '''' then (False, c1, s1)
                  else (case pr_call net (q ''/requests'' (BProof (pc_wallet c) (pd_nonce ch) (sign (pd_message ch)) (pc_profile c))) s1 of
                          (Inl e, s2) \<Rightarrow> (False, c1, s2)
                        | (Inr _, s2) \<Rightarrow> (True, c1, s2))
              | (_, s1) \<Rightarrow> (False, c1, s1))"

definition demand ::
  "(string \<Rightarrow> string) \<Rightarrow> 's world \<Rightarrow> int \<Rightarrow> pclient \<Rightarrow> 's \<Rightarrow> (pr_error + pr_data option) \<times> pclient \<times> 's" where
  "demand sign net now c s =
     authed sign net now (\<lambda>t. \<lparr>pq_base = pc_base c, pq_method = ''GET'', pq_path = ''/api/expert-demand'', pq_body = BNone, pq_token = Some t\<rparr>) c s"

text \<open>What the interface shows; reading it may load the saved token, as in the code.\<close>

definition pr_phase :: "bool \<Rightarrow> bool \<Rightarrow> bool \<Rightarrow> bool \<Rightarrow> pclient \<Rightarrow> string" where
  "pr_phase running locked hasToken serving c =
     (if pc_admission c = Some False \<and> \<not> hasToken then ''awaiting_admission''
      else if \<not> running then ''stopped''
      else if locked then ''awaiting_unlock''
      else if \<not> hasToken then ''authenticating''
      else if serving then ''serving''
      else if pc_assignment c \<noteq> None then ''assigned''
      else ''volunteering'')"

definition pr_status :: "int \<Rightarrow> bool \<Rightarrow> bool \<Rightarrow> bool \<Rightarrow> pclient \<Rightarrow> string \<times> pclient" where
  "pr_status now running locked serving c =
     (case cachedToken now c of (tk, c1) \<Rightarrow> (pr_phase running locked (tk \<noteq> None) serving c1, c1))"

text \<open>A node is never shown as working without a usable token, and reading the status changes only the token cache.\<close>

lemma pr_status_honest:
  assumes "pr_status now running locked serving c = (ph, c1)" "ph \<in> {''serving'', ''assigned'', ''volunteering''}"
  shows "running \<and> fst (cachedToken now c) \<noteq> None \<and> (ph = ''serving'' \<longrightarrow> serving) \<and>
    c1\<lparr>pc_token := pc_token c, pc_expiresAt := pc_expiresAt c\<rparr> = c"
proof -
  obtain tk c' where t: "cachedToken now c = (tk, c')" by fastforce
  have "c'\<lparr>pc_token := pc_token c, pc_expiresAt := pc_expiresAt c\<rparr> = c"
    using t by (auto simp: cachedToken_def Let_def split: if_splits option.splits)
  then show ?thesis using assms t by (auto simp: pr_status_def pr_phase_def split: if_splits)
qed

section \<open>One poll\<close>

text \<open>
  What the poll asks of the host that holds the experts, and what it tells it to do. A single-worker host is either
  busy or not; a pool says how large a window it still has room for and what its slots report.
\<close>

record host_view =
  hv_busy :: bool
  hv_heldExperts :: rat
  hv_canHost :: bool
  hv_coverageUrl :: string
  hv_segments :: "segment list"
  hv_heldModel :: string

record slot_report =
  sr_workerId :: string
  sr_model :: string
  sr_url :: string
  sr_segments :: "segment list"

record pool_view =
  pv_canHost :: bool
  pv_nextWindow :: rat
  pv_busySlots :: nat
  pv_reports :: "slot_report list"

datatype host_kind = NoHost | OneHost host_view | Pool pool_view

datatype host_action = HRelease | HTrim | HProvision pr_data | HWired string

datatype tick_end = PollAgain | RetrySoon | NotAdmitted

definition wired_in :: "string \<Rightarrow> string \<Rightarrow> (pr_error + pr_data option) \<Rightarrow> host_action list" where
  "wired_in url who r = (case r of Inr (Some d) \<Rightarrow> if url \<noteq> '''' \<and> pd_wired d then [HWired who] else [] | _ \<Rightarrow> [])"

fun report_slots ::
  "(string \<Rightarrow> string) \<Rightarrow> 's world \<Rightarrow> int \<Rightarrow> string \<Rightarrow> platform \<Rightarrow> slot_report list \<Rightarrow> pclient \<Rightarrow> 's
   \<Rightarrow> pr_error option \<times> host_action list \<times> pclient \<times> 's" where
  "report_slots sign net now model plat [] c s = (None, [], c, s)"
| "report_slots sign net now model plat (r # rs) c s =
     (case reportCoverage sign net now (sr_segments r) (or_else model (sr_model r)) (sr_workerId r) (sr_url r) plat c s of
        (Inl e, c1, s1) \<Rightarrow> (Some e, [], c1, s1)
      | (Inr d, c1, s1) \<Rightarrow>
          (case report_slots sign net now model plat rs c1 s1 of
             (e, acts, c2, s2) \<Rightarrow> (e, wired_in (sr_url r) (sr_workerId r) (Inr d) @ acts, c2, s2)))"

definition tickPool ::
  "(string \<Rightarrow> string) \<Rightarrow> 's world \<Rightarrow> int \<Rightarrow> string \<Rightarrow> platform \<Rightarrow> pool_view \<Rightarrow> pclient \<Rightarrow> 's
   \<Rightarrow> pr_error option \<times> host_action list \<times> pclient \<times> 's" where
  "tickPool sign net now model plat pv c s =
     (let window = (if pv_canHost pv then pv_nextWindow pv else 0);
          r = (if 0 < window then
                 (case volunteer sign net now (if model = '''' then None else Some model) (Some window) c s of
                    (Some e, c1, s1) \<Rightarrow> (Some e, [HTrim], c1, s1)
                  | (None, c1, s1) \<Rightarrow> (None, HTrim # (case pc_assignment c1 of Some a \<Rightarrow> [HProvision a] | None \<Rightarrow> []), c1, s1))
               else (None, [HTrim], if pv_busySlots pv = 0 then c\<lparr>pc_assignment := None\<rparr> else c, s))
      in case r of
           (Some e, acts, c1, s1) \<Rightarrow> (Some e, acts, c1, s1)
         | (None, acts, c1, s1) \<Rightarrow>
             (case report_slots sign net now model plat (pv_reports pv) c1 s1 of
                (e, acts', c2, s2) \<Rightarrow> (e, acts @ acts', c2, s2)))"

definition tickHost ::
  "(string \<Rightarrow> string) \<Rightarrow> 's world \<Rightarrow> int \<Rightarrow> string \<Rightarrow> platform \<Rightarrow> rat option \<Rightarrow> host_view option \<Rightarrow> pclient \<Rightarrow> 's
   \<Rightarrow> pr_error option \<times> host_action list \<times> pclient \<times> 's" where
  "tickHost sign net now model plat cap host c s =
     (let r = (case host of
                 Some h \<Rightarrow>
                   if hv_busy h then
                     (case cap of
                        Some k \<Rightarrow> if k < hv_heldExperts h then (None, [HRelease], c\<lparr>pc_assignment := None\<rparr>, s) else (None, [], c, s)
                      | None \<Rightarrow> (None, [], c, s))
                   else if cap = Some 0 \<or> \<not> hv_canHost h then (None, [], c\<lparr>pc_assignment := None\<rparr>, s)
                   else (case volunteer sign net now (if model = '''' then None else Some model) cap c s of
                           (Some e, c1, s1) \<Rightarrow> (Some e, [], c1, s1)
                         | (None, c1, s1) \<Rightarrow> (None, case pc_assignment c1 of Some a \<Rightarrow> [HProvision a] | None \<Rightarrow> [], c1, s1))
               | None \<Rightarrow>
                   if cap = Some 0 then (None, [], c\<lparr>pc_assignment := None\<rparr>, s)
                   else (case volunteer sign net now (if model = '''' then None else Some model) cap c s of
                           (Some e, c1, s1) \<Rightarrow> (Some e, [], c1, s1) | (None, c1, s1) \<Rightarrow> (None, [], c1, s1)))
      in case r of
           (Some e, acts, c1, s1) \<Rightarrow> (Some e, acts, c1, s1)
         | (None, acts, c1, s1) \<Rightarrow>
             (let url = (case host of Some h \<Rightarrow> hv_coverageUrl h | None \<Rightarrow> '''')
              in case reportCoverage sign net now (case host of Some h \<Rightarrow> hv_segments h | None \<Rightarrow> [])
                        (or_else model (case host of Some h \<Rightarrow> hv_heldModel h | None \<Rightarrow> '''')) '''' url plat c1 s1 of
                   (Inl e, c2, s2) \<Rightarrow> (Some e, acts, c2, s2)
                 | (Inr d, c2, s2) \<Rightarrow> (None, acts @ wired_in url '''' (Inr d), c2\<lparr>pc_admission := Some True\<rparr>, s2)))"

definition tickOnce ::
  "(string \<Rightarrow> string) \<Rightarrow> 's world \<Rightarrow> int \<Rightarrow> string \<Rightarrow> platform \<Rightarrow> rat option \<Rightarrow> host_kind \<Rightarrow> pclient \<Rightarrow> 's
   \<Rightarrow> tick_end \<times> host_action list \<times> pclient \<times> 's" where
  "tickOnce sign net now model plat cap host c s =
     (case (case host of
              NoHost \<Rightarrow> tickHost sign net now model plat cap None c s
            | OneHost h \<Rightarrow> tickHost sign net now model plat cap (Some h) c s
            | Pool pv \<Rightarrow> tickPool sign net now model plat pv c s) of
        (None, acts, c1, s1) \<Rightarrow> (PollAgain, acts, c1, s1)
      | (Some e, acts, c1, s1) \<Rightarrow>
          if er_code e = ''not_admitted''
          then (case requestAdmission sign net now (c1\<lparr>pc_admission := Some False\<rparr>) s1 of (_, c2, s2) \<Rightarrow> (NotAdmitted, acts, c2, s2))
          else (RetrySoon, acts, c1, s1))"

section \<open>The loop\<close>

text \<open>
  The timers that are armed, each with the time it is due, and the handle the object holds, which is the latest one.
  \<open>lp_active\<close> counts the polls under way.
\<close>

record ploop =
  lp_running :: bool
  lp_inTick :: bool
  lp_pokeWanted :: bool
  lp_timer :: "nat option"
  lp_pending :: "(nat \<times> int) list"
  lp_next :: nat
  lp_active :: nat

definition new_loop :: ploop where
  "new_loop = \<lparr>lp_running = False, lp_inTick = False, lp_pokeWanted = False, lp_timer = None, lp_pending = [], lp_next = 0, lp_active = 0\<rparr>"

definition arm :: "int \<Rightarrow> ploop \<Rightarrow> ploop" where
  "arm due l = l\<lparr>lp_timer := Some (lp_next l), lp_pending := lp_pending l @ [(lp_next l, due)], lp_next := lp_next l + 1\<rparr>"

definition clear_timer :: "ploop \<Rightarrow> ploop" where
  "clear_timer l =
     (case lp_timer l of None \<Rightarrow> l | Some i \<Rightarrow> l\<lparr>lp_pending := filter (\<lambda>(j, _). j \<noteq> i) (lp_pending l), lp_timer := None\<rparr>)"

definition tick :: "ploop \<Rightarrow> ploop" where
  "tick l =
     (if \<not> lp_running l then l
      else if lp_inTick l then l\<lparr>lp_pokeWanted := True\<rparr>
      else l\<lparr>lp_inTick := True, lp_active := lp_active l + 1\<rparr>)"

definition loop_start :: "ploop \<Rightarrow> ploop" where
  "loop_start l = (if lp_running l then l else tick (l\<lparr>lp_running := True\<rparr>))"

definition poke :: "int \<Rightarrow> ploop \<Rightarrow> ploop" where
  "poke now l = (if \<not> lp_running l then l else arm now (clear_timer l))"

definition loop_stop :: "ploop \<Rightarrow> ploop" where
  "loop_stop l = clear_timer (l\<lparr>lp_running := False\<rparr>)"

text \<open>The end of a poll: the next timer, then the poke that arrived meanwhile.\<close>

definition tick_done :: "int \<Rightarrow> int \<Rightarrow> ploop \<Rightarrow> ploop" where
  "tick_done now wait l =
     (let l1 = (if lp_running l then arm (now + wait) l else l);
          l2 = l1\<lparr>lp_inTick := False, lp_active := lp_active l1 - 1\<rparr>
      in if lp_pokeWanted l2 then poke now (l2\<lparr>lp_pokeWanted := False\<rparr>) else l2)"

definition fire :: "nat \<Rightarrow> ploop \<Rightarrow> ploop" where
  "fire i l = tick (l\<lparr>lp_pending := filter (\<lambda>(j, _). j \<noteq> i) (lp_pending l)\<rparr>)"

text \<open>Timers fire in the order in which they are due.\<close>

inductive loop_step :: "int \<times> ploop \<Rightarrow> int \<times> ploop \<Rightarrow> bool" where
  starts: "loop_step (t, l) (t, loop_start l)"
| stops: "loop_step (t, l) (t, loop_stop l)"
| pokes: "loop_step (t, l) (t, poke t l)"
| ends: "lp_inTick l \<Longrightarrow> 0 \<le> wait \<Longrightarrow> t \<le> now \<Longrightarrow> loop_step (t, l) (now, tick_done now wait l)"
| fires: "(i, due) \<in> set (lp_pending l) \<Longrightarrow> \<forall>(j, d) \<in> set (lp_pending l). due \<le> d \<Longrightarrow> t \<le> now \<Longrightarrow> due \<le> now \<Longrightarrow>
    loop_step (t, l) (now, fire i l)"

lemmas loop_defs = arm_def clear_timer_def tick_def loop_start_def poke_def loop_stop_def tick_done_def fire_def Let_def

definition loop_ok :: "ploop \<Rightarrow> bool" where
  "loop_ok l \<longleftrightarrow> (lp_running l \<longrightarrow> lp_inTick l \<or> lp_pending l \<noteq> []) \<and> lp_active l = (if lp_inTick l then 1 else 0) \<and>
     (lp_pokeWanted l \<longrightarrow> lp_inTick l)"

lemma loop_step_ok: "loop_step (t, l) (t', l') \<Longrightarrow> loop_ok l \<Longrightarrow> loop_ok l'"
  by (erule loop_step.cases) (auto simp: loop_ok_def loop_defs split: option.splits if_splits)

text \<open>
  The node keeps polling: in every state the loop can reach, while it is running either a poll is under way or a timer
  is armed that will start one; polls never overlap; and a poke that arrives during a poll is followed by
  another poll at once when it ends.
\<close>
theorem loop_never_stalls:
  assumes "loop_step\<^sup>*\<^sup>* (t0, new_loop) (t, l)"
  shows "(lp_running l \<longrightarrow> lp_inTick l \<or> lp_pending l \<noteq> []) \<and> lp_active l \<le> 1 \<and>
    (lp_running l \<and> lp_inTick l \<and> lp_pokeWanted l \<longrightarrow> (\<exists>i. (i, now) \<in> set (lp_pending (tick_done now wait l))))"
proof -
  have "loop_ok l" using assms
  proof (induction "(t, l)" arbitrary: t l rule: rtranclp_induct)
    case base
    show ?case by (simp add: loop_ok_def new_loop_def)
  next
    case (step y)
    then show ?case using loop_step_ok by (cases y) blast
  qed
  then show ?thesis by (auto simp: loop_ok_def loop_defs split: option.split)
qed

text \<open>
  Polls can multiply. A poke during a poll arms a timer, and the end of that poll arms another without clearing it:
  from then on two timers are pending, each poll arms one more for the one it used up, and the node polls twice
  per interval.
\<close>
theorem poke_doubles_polling:
  "\<exists>t l. loop_step\<^sup>*\<^sup>* (0, new_loop) (t, l) \<and> \<not> lp_inTick l \<and> lp_running l \<and> length (lp_pending l) = 2"
proof -
  let ?a = "loop_start new_loop" and ?w = "45000"
  have "loop_step (0, new_loop) (0, ?a)" by (rule starts)
  moreover have "loop_step (0, ?a) (0, poke 0 ?a)" by (rule pokes)
  moreover have "loop_step (0, poke 0 ?a) (0, tick_done 0 ?w (poke 0 ?a))"
    by (rule ends) (simp_all add: loop_defs new_loop_def)
  ultimately have "loop_step\<^sup>*\<^sup>* (0, new_loop) (0, tick_done 0 ?w (poke 0 ?a))" by (meson converse_rtranclp_into_rtranclp rtranclp.rtrancl_refl)
  moreover have "\<not> lp_inTick (tick_done 0 ?w (poke 0 ?a))" "lp_running (tick_done 0 ?w (poke 0 ?a))"
    "length (lp_pending (tick_done 0 ?w (poke 0 ?a))) = 2" by (simp_all add: loop_defs new_loop_def)
  ultimately show ?thesis by blast
qed

text \<open>It stays that way: from two timers, a poll without a poke leads back to two timers.\<close>

lemma two_timers_stay:
  assumes "lp_pending l = [(i, a), (j, b)]" "i \<noteq> j" "a \<le> b" "a \<le> now" "\<not> lp_inTick l" "lp_running l" "\<not> lp_pokeWanted l"
  shows "length (lp_pending (tick_done now wait (fire i l))) = 2"
  using assms by (simp add: loop_defs)

section \<open>The client against the bridge and the admissions desk\<close>

text \<open>
  The bridge's two open routes behind the gateway's pass-through. A refusal the bridge names carries its code in a
  header; every other refusal does not.
\<close>

definition bridge_net ::
  "crypto \<Rightarrow> (string \<Rightarrow> bool option) option \<Rightarrow> string \<Rightarrow> int \<Rightarrow> nat \<Rightarrow> node_auth world" where
  "bridge_net cr eligible nonce now ttl q a =
     (let refusal = (\<lambda>e. case e of
            Refused st why \<Rightarrow> Response st (if st = 403 then ''not_admitted'' else '''') False
              (Some (no_data\<lparr>pd_error := why, pd_code := (if st = 403 then ''not_admitted'' else '''')\<rparr>))
          | Uncaught \<Rightarrow> NoAnswer)
      in if pq_path q \<notin> set PASSED_PATHS \<or> pq_method q \<noteq> ''POST'' then (Response 404 '''' False (Some no_data), a)
         else case (handle_route (pq_method q) (pq_path q), pq_body q) of
           (proute.Challenge, BWallet w) \<Rightarrow>
             (case post_challenge eligible w nonce now a of
                (a', Inl e) \<Rightarrow> (refusal e, a')
              | (a', Inr (n, m)) \<Rightarrow> (Response 200 '''' False (Some (no_data\<lparr>pd_nonce := n, pd_message := m\<rparr>)), a'))
         | (NodeToken, BProof w n sig _) \<Rightarrow>
             (case post_node_token cr eligible w n sig now ttl a of
                (a', Inl e) \<Rightarrow> (refusal e, a')
              | (a', Inr (tok, ex)) \<Rightarrow> (Response 200 '''' False (Some (no_data\<lparr>pd_node_token := tok, pd_expires_in := Some (of_nat ex)\<rparr>)), a'))
         | _ \<Rightarrow> (NoAnswer, a))"

text \<open>The desk, with a mail service that accepts the message.\<close>

definition desk_net :: "crypto \<Rightarrow> desk_config \<Rightarrow> string \<Rightarrow> string \<Rightarrow> string \<Rightarrow> nat \<Rightarrow> int \<Rightarrow> desk world" where
  "desk_net cr cfg nonce i token h now q d =
     (let answer = (\<lambda>r. case r of
            Inr (Asked j e re) \<Rightarrow> Response 200 '''' False (Some (no_data\<lparr>pd_reused := re\<rparr>))
          | Inr (desk_body.Challenge n m) \<Rightarrow> Response 200 '''' False (Some (no_data\<lparr>pd_nonce := n, pd_message := m\<rparr>))
          | Inl (Refused st why) \<Rightarrow> Response st '''' False (Some (no_data\<lparr>pd_error := why\<rparr>))
          | _ \<Rightarrow> NoAnswer)
      in case (desk_route_of (pq_method q) (pq_path q), pq_body q) of
           (ChallengeRoute, BWallet w) \<Rightarrow> (case desk_post_challenge (Some w) nonce now d of (r, d') \<Rightarrow> (answer r, d'))
         | (RequestsRoute, BProof w n sig prof) \<Rightarrow>
             (case post_requests cr cfg '''' (Some \<lparr>ib_wallet = w, ib_nonce = n, ib_signature = sig, ib_profile = prof, ib_requestedBy = ''''\<rparr>) i token now h d of
                (Some r, d') \<Rightarrow> (answer r, d')
              | (None, d') \<Rightarrow> (case mail_answered h None d' of (Some r, d'') \<Rightarrow> (answer r, d'') | (None, d'') \<Rightarrow> (NoAnswer, d'')))
         | _ \<Rightarrow> (NoAnswer, d))"

text \<open>Both, told apart by the base of the request.\<close>

definition joint_net :: "string \<Rightarrow> node_auth world \<Rightarrow> desk world \<Rightarrow> (node_auth \<times> desk) world" where
  "joint_net gw bn dn q s =
     (case s of (a, d) \<Rightarrow>
        if pq_base q = gw then (case bn q a of (r, a') \<Rightarrow> (r, (a', d))) else (case dn q d of (r, d') \<Rightarrow> (r, (a, d'))))"

lemma routes [simp]:
  "handle_route ''POST'' ''/api/auth/challenge'' = proute.Challenge" "handle_route ''POST'' ''/api/auth/node-token'' = NodeToken"
  "desk_route_of ''POST'' ''/requests/challenge'' = ChallengeRoute" "desk_route_of ''POST'' ''/requests'' = RequestsRoute"
  by (simp_all add: handle_route_def desk_route_of_def desk_strip_slashes_def Let_def)

lemma ok_200 [simp]: "is_ok 200" "\<not> is_ok 403"
  by (simp_all add: is_ok_def)

lemma newChallenge_room:
  assumes "length (filter (\<lambda>(k, (w, expires)). \<not> expires < now) (na_nonces a)) < MAX_OUTSTANDING_NONCES"
  shows "node_newChallenge w n now a =
    (a\<lparr>na_nonces := put n (w, now + NODE_NONCE_TTL_MS) (filter (\<lambda>(k, (w, expires)). \<not> expires < now) (na_nonces a))\<rparr>, Some (n, messageFor w n))"
  using assms by (simp add: node_newChallenge_def Let_def)

lemma strip_bearer_token:
  assumes "t \<noteq> ''''" and "\<forall>c \<in> set t. \<not> is_space c"
  shows "strip_bearer (trim (''Bearer '' @ t)) = t"
proof -
  have id: "dropWhile is_space t = t" using assms by (simp add: dropWhile_eq_self_iff)
  have "rev (dropWhile is_space (rev (''Bearer '' @ t))) = ''Bearer '' @ t"
  proof -
    have "rev t \<noteq> []" "\<not> is_space (hd (rev t))" using assms by (simp_all add: hd_rev)
    then have "dropWhile is_space (rev t @ xs) = rev t @ xs" for xs by (cases "rev t") auto
    then show ?thesis by simp
  qed
  then have "trim (''Bearer '' @ t) = ''Bearer '' @ t" by (simp add: trim_def is_space_def)
  moreover have "to_lower ''Bearer'' = ''bearer''" by code_simp
  ultimately show ?thesis using id by (simp add: strip_bearer_def is_space_def)
qed

text \<open>
  C26: Client and bridge agree. A desktop node whose wallet is allowed, and whose signer signs as the bridge verifies,
  gets a token from the modelled bridge through the gateway, caches it, and the bridge takes the requests that
  carry it for that wallet until the token expires.
\<close>
theorem handshake_succeeds:
  assumes wallet: "pc_wallet c = w" "w \<noteq> ''''" "trim w = w" "length w \<le> MAX_WALLET_LEN" "bar \<notin> set w"
    and allowed: "allows eligible w"
    and nonce: "trim n = n" "n \<noteq> ''''" and room: "length (filter (\<lambda>(k, (w, expires)). \<not> expires < now) (na_nonces a)) < MAX_OUTSTANDING_NONCES"
    and signer: "sign (messageFor w n) \<noteq> ''''" "verifyWalletSignature cr w (messageFor w n) (sign (messageFor w n))"
    and codec: "\<And>s. unb64url cr (b64url cr s) = s" "\<And>s. b64url cr s = '''' \<Longrightarrow> s = ''''" "\<And>s. \<forall>x \<in> set (b64url cr s). \<not> is_space x"
    and mac: "\<And>k s. bar \<notin> set (hmac_sha256 cr k s)" and small: "nat (now div 1000) + ttl \<le> 2 ^ 53"
  shows "\<exists>t c' a'. mintToken sign (bridge_net cr eligible n now ttl) now c a = (Inr t, c', a') \<and> pc_token c' = t \<and>
    (\<forall>later. later \<le> nat (now div 1000) + ttl \<longrightarrow> identify cr a' '''' (''Bearer '' @ t) later = Node w)"
proof -
  let ?a1 = "a\<lparr>na_nonces := put n (w, now + NODE_NONCE_TTL_MS) (filter (\<lambda>(k, (w, expires)). \<not> expires < now) (na_nonces a))\<rparr>"
  let ?a2 = "?a1\<lparr>na_nonces := del n (na_nonces ?a1)\<rparr>"
  let ?t = "fst (node_makeToken cr ?a2 w (nat (now div 1000)) ttl)"
  have ex: "snd (node_makeToken cr ?a2 w (nat (now div 1000)) ttl) = ttl" by (simp add: node_makeToken_def Let_def)
  have len: "\<not> MAX_WALLET_LENGTH < length w" using wallet(4) by (simp add: MAX_WALLET_LENGTH_def MAX_WALLET_LEN_def)
  have ch: "post_challenge eligible w n now a = (?a1, Inr (n, messageFor w n))"
    using wallet allowed len by (simp add: post_challenge_def newChallenge_room [OF room] Let_def)
  have tk: "post_node_token cr eligible w n (sign (messageFor w n)) now ttl ?a1 = (?a2, Inr (?t, ttl))"
    using wallet nonce allowed signer ex
    by (simp add: post_node_token_def node_consumeChallenge_def table_simps NODE_NONCE_TTL_MS_def Let_def prod_eq_iff)
  have t0: "?t \<noteq> ''''" using codec(2) by (fastforce simp: node_makeToken_def Let_def)
  have m0: "messageFor w n \<noteq> ''''" by (simp add: messageFor_def)
  obtain c' where mint: "mintToken sign (bridge_net cr eligible n now ttl) now c a = (Inr ?t, c', ?a2)" "pc_token c' = ?t"
    using wallet nonce(2) t0 m0
    by (simp add: mintToken_def pr_call_def bridge_net_def PASSED_PATHS_def ch tk no_data_def Let_def)
  have "identify cr ?a2 '''' (''Bearer '' @ ?t) later = Node w" if "later \<le> nat (now div 1000) + ttl" for later
  proof -
    have "node_verifyToken cr ?a2 ?t later = Some w"
      using node_token_roundtrip [OF codec(1) codec(2) mac wallet(2) wallet(5) small, of ?a2 later] that by simp
    moreover have "\<forall>x \<in> set ?t. \<not> is_space x" using codec(3) by (simp add: node_makeToken_def Let_def)
    ultimately show ?thesis
      using strip_bearer_token [OF t0] by (simp add: identify_def Let_def trim_def)
  qed
  then show ?thesis using mint by blast
qed


section \<open>The pool path\<close>

lemma mint_admission: "mintToken sign net now c s = (r, c', s') \<Longrightarrow> pc_admission c' = pc_admission c"
  by (auto simp: mintToken_def Let_def split: if_splits prod.splits sum.splits option.splits)

lemma cached_admission: "cachedToken now c = (r, c') \<Longrightarrow> pc_admission c' = pc_admission c"
  by (auto simp: cachedToken_def Let_def split: if_splits option.splits)

lemma authed_admission: "authed sign net now f c s = (r, c', s') \<Longrightarrow> pc_admission c' = pc_admission c"
  by (auto simp: authed_def ensureToken_def forgetToken_def split: if_splits prod.splits sum.splits option.splits
      dest!: mint_admission cached_admission)

lemma volunteer_admission: "volunteer sign net now m k c s = (r, c', s') \<Longrightarrow> pc_admission c' = pc_admission c"
  by (auto simp: volunteer_def split: if_splits prod.splits sum.splits option.splits dest!: authed_admission)

lemma report_admission: "reportCoverage sign net now segs m w u p c s = (r, c', s') \<Longrightarrow> pc_admission c' = pc_admission c"
  by (auto simp: reportCoverage_def Let_def split: if_splits dest!: authed_admission)

lemma slots_admission: "report_slots sign net now m p rs c s = (r, acts, c', s') \<Longrightarrow> pc_admission c' = pc_admission c"
  by (induction rs arbitrary: c s r acts c' s') (auto split: prod.splits sum.splits dest!: report_admission)

text \<open>
  A node that hosts a pool of experts never learns that it was admitted: a successful poll on that path leaves the
  admission state as it was, so a machine that once waited keeps reporting that it waits.
\<close>
theorem pool_node_stays_pending:
  assumes "tickOnce sign net now model plat cap (Pool pv) c s = (PollAgain, acts, c', s')"
  shows "pc_admission c' = pc_admission c"
  using assms
  by (auto simp: tickOnce_def tickPool_def Let_def split: prod.splits option.splits if_splits dest!: volunteer_admission slots_admission)

section \<open>Witnesses\<close>

text \<open>A stand-in for base64url that is one to one and writes no white space.\<close>

definition hex_of :: "string \<Rightarrow> string" where
  "hex_of s = concat (map (\<lambda>c. [char_of (65 + of_char c div 16 :: nat), char_of (65 + of_char c mod 16 :: nat)]) s)"

fun unhex :: "string \<Rightarrow> string" where
  "unhex (a # b # r) = char_of ((of_char a - 65) * 16 + (of_char b - 65) :: nat) # unhex r"
| "unhex _ = []"

definition hex_crypto :: crypto where
  "hex_crypto = toy_crypto\<lparr>b64url := hex_of, unb64url := unhex, hmac_sha256 := (\<lambda>k s. ''m'')\<rparr>"

lemma hex_small: "of_char (char_of (65 + k :: nat)) = 65 + k" if "k < 16"
  using that by (simp add: of_char_of)

lemma char_div: "(of_char c :: nat) div 16 < 16"
proof -
  have "(of_char c :: nat) < 256" using of_char_mod_256 [where 'a = nat, of c] by (metis mod_less_divisor zero_less_numeral)
  then show ?thesis by (simp add: less_mult_imp_div_less)
qed

lemma unhex_hex: "unhex (hex_of s) = s"
proof (induction s)
  case (Cons c s)
  show ?case using char_div [of c] Cons hex_small [of "of_char c div 16"] hex_small [of "of_char c mod 16"] by (simp add: hex_of_def)
qed (simp add: hex_of_def)

lemma hex_plain: "x \<in> set (hex_of s) \<Longrightarrow> \<not> is_space x"
proof -
  assume "x \<in> set (hex_of s)"
  then obtain k where "x = char_of (65 + k :: nat)" "k < 16"
  proof -
    assume a: "\<And>k. x = char_of (65 + k :: nat) \<Longrightarrow> k < 16 \<Longrightarrow> thesis"
    from \<open>x \<in> set (hex_of s)\<close> show thesis using char_div by (auto simp: hex_of_def intro: a)
  qed
  then have "(of_char x :: nat) \<ge> 65" using hex_small by simp
  then show "\<not> is_space x" by (auto simp: is_space_def)
qed

definition demo_client :: pclient where
  "demo_client = \<lparr>pc_base = ''gate'', pc_admissionsBase = ''adm'', pc_wallet = sample_wallet, pc_token = '''', pc_expiresAt = 0, pc_store = None,
     pc_hasStore = True, pc_assignment = None, pc_admission = None, pc_requestedAt = 0, pc_profile = []\<rparr>"

lemma hex_signs: "verifyWalletSignature hex_crypto sample_wallet m s"
proof -
  have "base58Decode sample_wallet = Some (replicate 31 0 @ [1])" by code_simp
  then show ?thesis by (simp add: verifyWalletSignature_def hex_crypto_def toy_crypto_def)
qed

lemma sample_wallet_ok: "sample_wallet \<noteq> ''''" "trim sample_wallet = sample_wallet" "length sample_wallet = 32" "bar \<notin> set sample_wallet" "wallet_re sample_wallet"
  by code_simp+

theorem handshake_succeeds_witness:
  "\<exists>t c' a'. mintToken (\<lambda>m. ''s'') (bridge_net hex_crypto None ''n'' 1000000 60) 1000000 demo_client toy_auth = (Inr t, c', a') \<and> pc_token c' = t \<and>
    identify hex_crypto a' '''' (''Bearer '' @ t) 1060 = Node sample_wallet"
proof -
  have "\<exists>t c' a'. mintToken (\<lambda>m. ''s'') (bridge_net hex_crypto None ''n'' 1000000 60) 1000000 demo_client toy_auth = (Inr t, c', a') \<and> pc_token c' = t \<and>
    (\<forall>later. later \<le> nat (1000000 div 1000) + 60 \<longrightarrow> identify hex_crypto a' '''' (''Bearer '' @ t) later = Node sample_wallet)"
  proof (rule handshake_succeeds)
    show "\<And>s. unb64url hex_crypto (b64url hex_crypto s) = s" by (simp add: hex_crypto_def unhex_hex)
    show "\<And>s. b64url hex_crypto s = '''' \<Longrightarrow> s = ''''" by (auto simp: hex_crypto_def hex_of_def)
    show "\<And>s. \<forall>x \<in> set (b64url hex_crypto s). \<not> is_space x" by (simp add: hex_crypto_def hex_plain)
    show "\<And>k s. bar \<notin> set (hmac_sha256 hex_crypto k s)" by (simp add: hex_crypto_def)
  qed (use sample_wallet_ok hex_signs in \<open>simp_all add: demo_client_def MAX_WALLET_LEN_def allows_def toy_auth_def MAX_OUTSTANDING_NONCES_def trim_def is_space_def\<close>)
  then show ?thesis by auto
qed


theorem loop_never_stalls_witness:
  "lp_inTick (poke 0 (loop_start new_loop)) \<and> lp_active (poke 0 (loop_start new_loop)) \<le> 1 \<and>
   (lp_inTick (poke 0 (loop_start new_loop)) \<or> lp_pending (poke 0 (loop_start new_loop)) \<noteq> [])"
proof -
  have "loop_step (0, new_loop) (0, loop_start new_loop)" by (rule starts)
  moreover have "loop_step (0, loop_start new_loop) (0, poke 0 (loop_start new_loop))" by (rule pokes)
  ultimately have "loop_step\<^sup>*\<^sup>* (0, new_loop) (0, poke 0 (loop_start new_loop))" by (meson converse_rtranclp_into_rtranclp rtranclp.rtrancl_refl)
  from loop_never_stalls [OF this] show ?thesis by (simp add: loop_defs new_loop_def)
qed

end
