(* ===== verification/Desktop_Metrics.thy ===== *)
theory Desktop_Metrics
  imports JS_Bytes JS_Number
begin

text \<open>
  What a desktop node measures of its own work (\<^verbatim>\<open>wallet/desktop/electron/expertMetrics.cjs\<close>): the observer that
  follows the framing of the expert protocol on a relayed connection without keeping its contents
  (\<open>ExpertFrames\<close>), and the sliding window of completed calls (\<open>ExpertMetrics\<close>). Times are arguments; lengths
  stay far below \<open>2 ^ 53\<close>, so the code's integer arithmetic on doubles is exact.
\<close>

section \<open>The framing observer\<close>

definition int32le :: "buffer \<Rightarrow> int" where
  "int32le b = (let v = int (le_val b) in if v < 2 ^ 31 then v else v - 2 ^ 32)"

record call_item =
  it_rows :: int
  it_started :: rat
  it_left :: nat
  it_complete :: bool

text \<open>
  \<open>ef_header\<close> holds the header bytes read so far (\<^verbatim>\<open>used\<close> is their number); the code's \<^verbatim>\<open>current\<close> is the last pending
  item, which cannot be answered before its body is complete.
\<close>

record frames =
  ef_nEmbd :: nat
  ef_header :: buffer
  ef_bodyLeft :: nat
  ef_started :: rat
  ef_pending :: "call_item list"
  ef_disabled :: bool
  ef_recorded :: "(int \<times> rat) list"

definition PENDING_CALLS :: nat where "PENDING_CALLS = 128"

definition new_frames :: "nat option \<Rightarrow> frames" where
  "new_frames nEmbd =
     \<lparr>ef_nEmbd = (case nEmbd of Some n \<Rightarrow> n | None \<Rightarrow> 0), ef_header = [], ef_bodyLeft = 0, ef_started = 0, ef_pending = [],
      ef_disabled = (case nEmbd of Some n \<Rightarrow> n = 0 \<or> 65536 < n | None \<Rightarrow> True), ef_recorded = []\<rparr>"

definition disable :: "frames \<Rightarrow> frames" where
  "disable f = f\<lparr>ef_disabled := True, ef_pending := []\<rparr>"

text \<open>The header bytes are complete for now: read on, or open the call they announce, or give up.\<close>

definition read_header :: "frames \<Rightarrow> frames" where
  "read_header f =
     (let used = length (ef_header f); mode = int32le (take 4 (ef_header f)); rows = int32le (take 4 (drop 4 (ef_header f)))
      in if used < 8 then f
         else if rows < 1 \<or> 8192 < rows \<or> \<not> (1 \<le> mode \<and> mode \<le> 64 \<or> mode = -2 \<or> mode = -3) then disable f
         else if mode < 0 \<and> used < 12 then f
         else let pairs = (if mode < 0 then int32le (take 4 (drop 8 (ef_header f))) else mode * rows)
              in if pairs < 1 \<or> mode < 0 \<and> 65536 < pairs \<or> PENDING_CALLS \<le> length (ef_pending f) then disable f
                 else let width = (if mode = -3 then 2 else 4);
                          body = ef_nEmbd f * nat rows * width + (if mode < 0 then nat pairs * (8 + width) else nat pairs * 4);
                          resp = ef_nEmbd f * width * (if mode < 0 then nat rows else nat pairs)
                      in f\<lparr>ef_bodyLeft := body,
                           ef_pending := ef_pending f @ [\<lparr>it_rows = rows, it_started = ef_started f, it_left = resp, it_complete = False\<rparr>]\<rparr>)"

definition body_done :: "frames \<Rightarrow> frames" where
  "body_done f =
     f\<lparr>ef_pending := (if ef_pending f = [] then [] else butlast (ef_pending f) @ [(last (ef_pending f))\<lparr>it_complete := True\<rparr>]),
       ef_header := []\<rparr>"

definition header_need :: "frames \<Rightarrow> nat" where
  "header_need f = (if length (ef_header f) < 8 then 8 else 12)"

text \<open>
  \<open>request\<close> on the bytes of one chunk. The recursion stops when the header buffer has no room left, which does
  not happen (\<open>frames_ok\<close> below): the code would spin there.
\<close>

function request_loop :: "rat \<Rightarrow> buffer \<Rightarrow> frames \<Rightarrow> frames" where
  "request_loop now data f =
     (if ef_disabled f \<or> data = [] then f
      else if 0 < ef_bodyLeft f then
        (let size = min (ef_bodyLeft f) (length data); f1 = f\<lparr>ef_bodyLeft := ef_bodyLeft f - size\<rparr>
         in request_loop now (drop size data) (if ef_bodyLeft f1 = 0 then body_done f1 else f1))
      else if header_need f \<le> length (ef_header f) then f
      else (let f1 = (if ef_header f = [] then f\<lparr>ef_started := now\<rparr> else f);
                size = min (header_need f - length (ef_header f)) (length data)
            in request_loop now (drop size data) (read_header (f1\<lparr>ef_header := ef_header f1 @ take size data\<rparr>))))"
  by pat_completeness auto
termination
  by (relation "measure (\<lambda>(now, data, f). length data)") (auto simp: min_def not_le)

declare request_loop.simps [simp del]

definition request :: "rat \<Rightarrow> buffer \<Rightarrow> frames \<Rightarrow> frames" where
  "request now data f = (if ef_disabled f then f else request_loop now data f)"

text \<open>\<open>response\<close> looks at the number of bytes only.\<close>

function response :: "rat \<Rightarrow> nat \<Rightarrow> frames \<Rightarrow> frames" where
  "response now left f =
     (if ef_disabled f \<or> left = 0 then f
      else case ef_pending f of
             [] \<Rightarrow> disable f
           | item # rest \<Rightarrow>
               if \<not> it_complete item then disable f
               else let size = min (it_left item) left
                    in response now (left - size)
                         (if it_left item - size = 0
                          then f\<lparr>ef_recorded := ef_recorded f @ [(it_rows item, max 0 (now - it_started item))], ef_pending := rest\<rparr>
                          else f\<lparr>ef_pending := item\<lparr>it_left := it_left item - size\<rparr> # rest\<rparr>))"
  by pat_completeness auto
termination
  by (relation "measure (\<lambda>(now, left, f). left + length (ef_pending f))") (auto simp: min_def)

declare response.simps [simp del]

section \<open>One byte at a time\<close>

text \<open>The reference: what a byte of the request stream means, whatever chunk it comes in.\<close>

definition byte_step :: "rat \<Rightarrow> byte \<Rightarrow> frames \<Rightarrow> frames" where
  "byte_step now b f =
     (if ef_disabled f then f
      else if 0 < ef_bodyLeft f then
        (let f1 = f\<lparr>ef_bodyLeft := ef_bodyLeft f - 1\<rparr> in if ef_bodyLeft f1 = 0 then body_done f1 else f1)
      else (let f1 = (if ef_header f = [] then f\<lparr>ef_started := now\<rparr> else f)
            in read_header (f1\<lparr>ef_header := ef_header f1 @ [b]\<rparr>)))"

text \<open>
  The observer's state between two chunks. A header of eight bytes or more that is not yet opened announces one of
  the two modes with a third field, so there is always room for the byte that comes next.
\<close>

definition frames_ok :: "frames \<Rightarrow> bool" where
  "frames_ok f \<longleftrightarrow> ef_disabled f \<or>
     0 < ef_nEmbd f \<and> (ef_bodyLeft f = 0 \<longrightarrow> length (ef_header f) < 12 \<and>
       (8 \<le> length (ef_header f) \<longrightarrow> int32le (take 4 (ef_header f)) < 0 \<and> read_header f = f))"

lemma disable_ok [simp]: "frames_ok (disable f)" "ef_disabled (disable f)"
  by (simp_all add: frames_ok_def disable_def)

lemma new_frames_ok: "frames_ok (new_frames n)"
  by (cases n) (auto simp: new_frames_def frames_ok_def)

lemma body_done_ok: "0 < ef_nEmbd f \<Longrightarrow> frames_ok (body_done f)"
  by (simp add: frames_ok_def body_done_def)

lemma read_header_ok:
  assumes f: "0 < ef_nEmbd f" "ef_bodyLeft f = 0" "length (ef_header f) \<le> 12"
    and neg: "8 < length (ef_header f) \<longrightarrow> int32le (take 4 (ef_header f)) < 0"
  shows "frames_ok (read_header f)"
proof (cases "length (ef_header f) < 8")
  case True
  then show ?thesis using f by (simp add: frames_ok_def read_header_def Let_def)
next
  case False
  define mode rows where mr: "mode = int32le (take 4 (ef_header f))" "rows = int32le (take 4 (drop 4 (ef_header f)))"
  define bad where "bad \<longleftrightarrow> rows < 1 \<or> 8192 < rows \<or> \<not> (1 \<le> mode \<and> mode \<le> 64 \<or> mode = -2 \<or> mode = -3)"
  show ?thesis
  proof (cases "bad \<or> mode < 0 \<and> length (ef_header f) < 12")
    case True
    then have "read_header f = disable f \<or> mode < 0 \<and> length (ef_header f) < 12 \<and> read_header f = f"
      using False unfolding read_header_def mr bad_def Let_def by auto
    then show ?thesis using f False by (auto simp: frames_ok_def mr)
  next
    case ok: False
    then have "0 < ef_nEmbd f * nat rows * (if mode = -3 then 2 else 4)" using f by (simp add: bad_def)
    with ok False f show ?thesis
      unfolding read_header_def bad_def mr [symmetric] Let_def by (simp add: frames_ok_def)
  qed
qed

lemma byte_step_ok: "frames_ok f \<Longrightarrow> frames_ok (byte_step now b f)"
proof (cases "ef_disabled f \<or> 0 < ef_bodyLeft f")
  case True
  assume "frames_ok f"
  with True show ?thesis by (auto simp: byte_step_def frames_ok_def body_done_def Let_def)
next
  case False
  assume ok: "frames_ok f"
  let ?f = "(if ef_header f = [] then f\<lparr>ef_started := now\<rparr> else f)\<lparr>ef_header := ef_header f @ [b]\<rparr>"
  have "frames_ok (read_header ?f)"
    using False ok by (intro read_header_ok) (auto simp: frames_ok_def)
  moreover have "byte_step now b f = read_header ?f" using False by (simp add: byte_step_def Let_def)
  ultimately show ?thesis by simp
qed

lemma fold_body:
  "\<not> ef_disabled f \<Longrightarrow> length xs \<le> ef_bodyLeft f \<Longrightarrow> xs \<noteq> [] \<Longrightarrow> fold (byte_step now) xs f =
     (let f1 = f\<lparr>ef_bodyLeft := ef_bodyLeft f - length xs\<rparr> in if ef_bodyLeft f1 = 0 then body_done f1 else f1)"
proof (induction xs arbitrary: f)
  case (Cons b xs)
  show ?case
  proof (cases "xs = []")
    case True
    then show ?thesis using Cons.prems by (simp add: byte_step_def Let_def)
  next
    case False
    then have "1 < ef_bodyLeft f" using Cons.prems by (cases xs) auto
    then have "byte_step now b f = f\<lparr>ef_bodyLeft := ef_bodyLeft f - 1\<rparr>" using Cons.prems by (simp add: byte_step_def Let_def)
    then show ?thesis using Cons.IH [of "f\<lparr>ef_bodyLeft := ef_bodyLeft f - 1\<rparr>"] Cons.prems False by (simp add: Let_def)
  qed
qed simp

text \<open>A header that has not reached its next boundary stays as it is.\<close>

lemma read_header_waits:
  assumes "frames_ok f" "\<not> ef_disabled f" "ef_bodyLeft f = 0" "length (ef_header f) + length xs < header_need f"
  shows "read_header (f\<lparr>ef_header := ef_header f @ xs\<rparr>) = f\<lparr>ef_header := ef_header f @ xs\<rparr>"
proof (cases "length (ef_header f) < 8")
  case True
  then show ?thesis using assms by (simp add: header_need_def read_header_def Let_def)
next
  case False
  let ?h = "ef_header f"
  have t: "take 4 (?h @ xs) = take 4 ?h" "take 4 (drop 4 (?h @ xs)) = take 4 (drop 4 ?h)" using False by simp_all
  have "read_header f = f" "int32le (take 4 ?h) < 0" using assms False by (auto simp: frames_ok_def)
  then have "\<not> (int32le (take 4 (drop 4 ?h)) < 1 \<or> 8192 < int32le (take 4 (drop 4 ?h)) \<or>
      \<not> (1 \<le> int32le (take 4 ?h) \<and> int32le (take 4 ?h) \<le> 64 \<or> int32le (take 4 ?h) = -2 \<or> int32le (take 4 ?h) = -3))"
    using False assms(2) disable_ok(2) [of f] unfolding read_header_def Let_def by (metis not_less)
  then show ?thesis using False assms(4) \<open>int32le (take 4 ?h) < 0\<close> t
    by (simp add: read_header_def header_need_def Let_def)
qed

lemma fold_header:
  assumes "frames_ok f" "\<not> ef_disabled f" "ef_bodyLeft f = 0" "xs \<noteq> []" "length (ef_header f) + length xs \<le> header_need f"
  shows "fold (byte_step now) xs f =
    read_header ((if ef_header f = [] then f\<lparr>ef_started := now\<rparr> else f)\<lparr>ef_header := ef_header f @ xs\<rparr>)"
  using assms
proof (induction xs rule: rev_induct)
  case (snoc b xs)
  let ?f = "if ef_header f = [] then f\<lparr>ef_started := now\<rparr> else f"
  have s: "ef_header ?f = ef_header f" "ef_bodyLeft ?f = ef_bodyLeft f" "ef_disabled ?f = ef_disabled f" "header_need ?f = header_need f"
    "ef_started (?f\<lparr>ef_header := ys\<rparr>) = ef_started ?f" for ys
    by (simp_all add: header_need_def)
  have okf: "frames_ok ?f" using snoc.prems(1) by (auto simp: frames_ok_def)
  show ?case
  proof (cases "xs = []")
    case True
    then show ?thesis using snoc.prems by (simp add: byte_step_def Let_def)
  next
    case False
    then have "fold (byte_step now) xs f = read_header (?f\<lparr>ef_header := ef_header f @ xs\<rparr>)" using snoc by simp
    also have "\<dots> = ?f\<lparr>ef_header := ef_header f @ xs\<rparr>"
      using read_header_waits [OF okf, of xs] snoc.prems by (simp only: s) simp
    finally have "fold (byte_step now) (xs @ [b]) f = byte_step now b (?f\<lparr>ef_header := ef_header f @ xs\<rparr>)" by simp
    also have "\<dots> = read_header (?f\<lparr>ef_header := ef_header f @ xs @ [b]\<rparr>)"
      using snoc.prems False by (auto simp: byte_step_def Let_def)
    finally show ?thesis by simp
  qed
qed simp

lemma fold_disabled: "ef_disabled f \<Longrightarrow> fold (byte_step now) xs f = f"
  by (induction xs) (simp_all add: byte_step_def)

lemma fold_ok: "frames_ok f \<Longrightarrow> frames_ok (fold (byte_step now) xs f)"
  by (induction xs arbitrary: f) (simp_all add: byte_step_ok)

lemma request_loop_bytes: "frames_ok f \<Longrightarrow> request_loop now data f = fold (byte_step now) data f"
proof (induction now data f rule: request_loop.induct)
  case (1 now data f)
  show ?case
  proof (cases "ef_disabled f \<or> data = []")
    case True
    then show ?thesis by (subst request_loop.simps) (auto simp: fold_disabled)
  next
    case False
    define size where "size = (if 0 < ef_bodyLeft f then min (ef_bodyLeft f) (length data) else min (header_need f - length (ef_header f)) (length data))"
    have split: "fold (byte_step now) data f = fold (byte_step now) (drop size data) (fold (byte_step now) (take size data) f)"
      by (metis append_take_drop_id fold_append comp_apply)
    have ok: "frames_ok (fold (byte_step now) (take size data) f)" using "1.prems" by (rule fold_ok)
    show ?thesis
    proof (cases "0 < ef_bodyLeft f")
      case True
      then have f1: "fold (byte_step now) (take size data) f = (let f1 = f\<lparr>ef_bodyLeft := ef_bodyLeft f - size\<rparr> in if ef_bodyLeft f1 = 0 then body_done f1 else f1)"
        using False fold_body [of f "take size data" now] by (auto simp: size_def min_def)
      have "request_loop now data f = request_loop now (drop size data) (fold (byte_step now) (take size data) f)"
        using False True by (subst request_loop.simps) (simp only: f1, simp add: size_def Let_def)
      also have "\<dots> = fold (byte_step now) (drop size data) (fold (byte_step now) (take size data) f)"
      proof -
        note IH = "1.IH"(1) [OF False True refl refl]
        have "min (ef_bodyLeft f) (length data) = size" using True by (simp add: size_def)
        with IH f1 ok show ?thesis by (simp only: Let_def)
      qed
      finally show ?thesis by (simp only: split)
    next
      case h: False
      have room: "length (ef_header f) < header_need f" using "1.prems" False h by (auto simp: frames_ok_def header_need_def)
      have f1: "fold (byte_step now) (take size data) f =
          read_header ((if ef_header f = [] then f\<lparr>ef_started := now\<rparr> else f)\<lparr>ef_header := ef_header f @ take size data\<rparr>)"
        by (rule fold_header) (use False h room "1.prems" in \<open>auto simp: size_def min_def\<close>)
      let ?f = "if ef_header f = [] then f\<lparr>ef_started := now\<rparr> else f"
      have hd: "ef_header ?f = ef_header f" by simp
      have sz: "min (header_need f - length (ef_header f)) (length data) = size" using h by (simp add: size_def)
      have full: "\<not> header_need f \<le> length (ef_header f)" using room by simp
      have "request_loop now data f = request_loop now (drop size data) (fold (byte_step now) (take size data) f)"
        by (subst request_loop.simps) (simp only: f1 False h full if_False Let_def sz hd)
      also have "\<dots> = fold (byte_step now) (drop size data) (fold (byte_step now) (take size data) f)"
        using "1.IH"(2) [OF False h full refl refl] f1 ok by (simp only: sz hd)
      finally show ?thesis by (simp only: split)
    qed
  qed
qed

lemma request_bytes: "frames_ok f \<Longrightarrow> request now data f = fold (byte_step now) data f"
  using request_loop_bytes by (simp add: request_def fold_disabled)

lemma bytewise_chunks: "fold (request now) chunks (new_frames n) = fold (byte_step now) (concat chunks) (new_frames n)"
proof -
  have "fold (request now) cs f = fold (byte_step now) (concat cs) f" if "frames_ok f" for cs f
    using that
  proof (induction cs arbitrary: f)
    case (Cons x cs)
    from Cons.IH [OF fold_ok [OF Cons.prems]] request_bytes [OF Cons.prems] show ?case by simp
  qed simp
  then show ?thesis using new_frames_ok by blast
qed

text \<open>
  The observer reads the request stream byte by byte, whatever the chunks: its block-wise loop equals the byte-wise
  reference on every state it can be in, so that two chunkings of the same bytes that arrive at the same time lead
  to the same state. In particular the loop always has room for the next header byte and ends.
\<close>
theorem request_bytewise:
  "request now data (new_frames n) = fold (byte_step now) data (new_frames n) \<and>
   fold (request now) chunks (new_frames n) = fold (byte_step now) (concat chunks) (new_frames n)"
  using request_bytes [OF new_frames_ok] bytewise_chunks by blast

section \<open>Whole calls\<close>

text \<open>A call of the expert protocol and its bytes; a negative mode carries the number of pairs in a third field.\<close>

record ecall =
  ec_mode :: int
  ec_rows :: int
  ec_pairs :: int
  ec_body :: buffer

definition int32_bytes :: "int \<Rightarrow> buffer" where
  "int32_bytes v = le_bytes 4 (nat (v mod 2 ^ 32))"

definition ec_width :: "ecall \<Rightarrow> nat" where "ec_width c = (if ec_mode c = -3 then 2 else 4)"

definition ec_body_size :: "nat \<Rightarrow> ecall \<Rightarrow> nat" where
  "ec_body_size n c = n * nat (ec_rows c) * ec_width c + nat (ec_pairs c) * (if ec_mode c < 0 then 8 + ec_width c else 4)"

definition ec_answer_size :: "nat \<Rightarrow> ecall \<Rightarrow> nat" where
  "ec_answer_size n c = n * ec_width c * nat (if ec_mode c < 0 then ec_rows c else ec_pairs c)"

definition ecall_ok :: "nat \<Rightarrow> ecall \<Rightarrow> bool" where
  "ecall_ok n c \<longleftrightarrow> 1 \<le> ec_rows c \<and> ec_rows c \<le> 8192 \<and> length (ec_body c) = ec_body_size n c \<and>
     (1 \<le> ec_mode c \<and> ec_mode c \<le> 64 \<and> ec_pairs c = ec_mode c * ec_rows c \<or>
      ec_mode c \<in> {-2, -3} \<and> 1 \<le> ec_pairs c \<and> ec_pairs c \<le> 65536)"

definition ecall_head :: "ecall \<Rightarrow> buffer" where
  "ecall_head c = int32_bytes (ec_mode c) @ int32_bytes (ec_rows c) @ (if ec_mode c < 0 then int32_bytes (ec_pairs c) else [])"

definition ecall_bytes :: "ecall \<Rightarrow> buffer" where
  "ecall_bytes c = ecall_head c @ ec_body c"

lemma length_int32_bytes [simp]: "length (int32_bytes v) = 4"
  by (simp add: int32_bytes_def)

lemma int32_roundtrip: "- (2 ^ 31) \<le> v \<Longrightarrow> v < 2 ^ 31 \<Longrightarrow> int32le (int32_bytes v) = v"
proof -
  assume v: "- (2 ^ 31) \<le> v" "v < 2 ^ 31"
  have "nat (v mod 2 ^ 32) < 256 ^ 4" by (simp add: nat_less_iff)
  then have "le_val (int32_bytes v) = nat (v mod 2 ^ 32)" unfolding int32_bytes_def by (rule le_val_le_bytes)
  moreover have "v mod 2 ^ 32 = (if 0 \<le> v then v else v + 2 ^ 32)"
    using v mod_pos_pos_trivial [of v "2 ^ 32"] mod_pos_pos_trivial [of "v + 2 ^ 32" "2 ^ 32"] by auto
  ultimately show ?thesis using v by (simp add: int32le_def Let_def)
qed

lemma ecall_head_fields:
  assumes "ecall_ok n c"
  shows "int32le (take 4 (ecall_head c)) = ec_mode c" "int32le (take 4 (drop 4 (ecall_head c))) = ec_rows c"
    "ec_mode c < 0 \<Longrightarrow> int32le (take 4 (drop 8 (ecall_head c))) = ec_pairs c"
    "length (ecall_head c) = (if ec_mode c < 0 then 12 else 8)"
  using assms by (auto simp: ecall_head_def ecall_ok_def int32_roundtrip)

definition opened :: "nat \<Rightarrow> rat \<Rightarrow> ecall \<Rightarrow> call_item" where
  "opened n now c = \<lparr>it_rows = ec_rows c, it_started = now, it_left = ec_answer_size n c, it_complete = False\<rparr>"

text \<open>The observer between two calls.\<close>

definition between :: "frames \<Rightarrow> bool" where
  "between f \<longleftrightarrow> \<not> ef_disabled f \<and> 0 < ef_nEmbd f \<and> ef_header f = [] \<and> ef_bodyLeft f = 0"

lemma read_header_opens:
  assumes "ecall_ok (ef_nEmbd f) c" "ef_header f = ecall_head c" "length (ef_pending f) < PENDING_CALLS"
  shows "read_header f = f\<lparr>ef_bodyLeft := ec_body_size (ef_nEmbd f) c, ef_pending := ef_pending f @ [opened (ef_nEmbd f) (ef_started f) c]\<rparr>"
proof -
  note h = ecall_head_fields [OF assms(1)]
  have ok: "1 \<le> ec_rows c" "ec_rows c \<le> 8192" "1 \<le> ec_mode c \<and> ec_mode c \<le> 64 \<or> ec_mode c = -2 \<or> ec_mode c = -3"
    using assms(1) by (auto simp: ecall_ok_def)
  show ?thesis
  proof (cases "ec_mode c < 0")
    case True
    then show ?thesis using ok assms(1) h assms(3)
      by (auto simp: read_header_def assms(2) Let_def opened_def ec_body_size_def ec_answer_size_def ec_width_def ecall_ok_def)
  next
    case False
    then have "ec_pairs c = ec_mode c * ec_rows c" "1 \<le> ec_mode c" using ok assms(1) by (auto simp: ecall_ok_def)
    moreover from this ok have "1 \<le> ec_mode c * ec_rows c" using mult_mono [of 1 "ec_mode c" 1 "ec_rows c"] by simp
    ultimately have "ec_pairs c = ec_mode c * ec_rows c" "1 \<le> ec_mode c * ec_rows c" by blast+
    then show ?thesis using False ok h assms(3)
      by (auto simp: read_header_def assms(2) Let_def opened_def ec_body_size_def ec_answer_size_def ec_width_def)
  qed
qed

lemma head_bytes:
  assumes "ecall_ok (ef_nEmbd f) c" "between f" "length (ef_pending f) < PENDING_CALLS"
  shows "fold (byte_step now) (ecall_head c) f = f\<lparr>ef_header := ecall_head c, ef_started := now,
    ef_bodyLeft := ec_body_size (ef_nEmbd f) c, ef_pending := ef_pending f @ [opened (ef_nEmbd f) now c]\<rparr>"
proof -
  let ?a = "take 8 (ecall_head c)" and ?b = "drop 8 (ecall_head c)"
  define g where "g = f\<lparr>ef_started := now, ef_header := ?a\<rparr>"
  note h = ecall_head_fields [OF assms(1)]
  have f: "frames_ok f" "\<not> ef_disabled f" "ef_bodyLeft f = 0" "ef_header f = []" using assms(2) by (auto simp: between_def frames_ok_def)
  have "ecall_head c \<noteq> []" using h(4) by (auto split: if_splits)
  then have first: "fold (byte_step now) ?a f = read_header g"
    using fold_header [of f ?a now] f h(4) by (auto simp: header_need_def g_def split: if_splits)
  show ?thesis
  proof (cases "ec_mode c < 0")
    case False
    then have ab: "?a = ecall_head c" using h(4) by simp
    have "read_header g = g\<lparr>ef_bodyLeft := ec_body_size (ef_nEmbd g) c, ef_pending := ef_pending g @ [opened (ef_nEmbd g) (ef_started g) c]\<rparr>"
      by (rule read_header_opens) (use assms ab in \<open>simp_all add: g_def\<close>)
    then show ?thesis using first ab by (simp add: g_def)
  next
    case True
    then have m: "ec_mode c = -2 \<or> ec_mode c = -3" "1 \<le> ec_rows c" "ec_rows c \<le> 8192" and l: "length ?a = 8" "length ?b = 4"
      using assms(1) h(4) by (auto simp: ecall_ok_def)
    have fields: "int32le (take 4 ?a) = ec_mode c" "int32le (take 4 (drop 4 ?a)) = ec_rows c"
      using h(1,2) by (simp_all add: drop_take)
    have wait: "read_header g = g" using m l fields by (auto simp: read_header_def g_def Let_def)
    then have okg: "frames_ok g" using f assms(2) fields m l by (auto simp: frames_ok_def g_def between_def)
    have "?a \<noteq> []" using l by auto
    then have "fold (byte_step now) ?b g = read_header (g\<lparr>ef_header := ef_header g @ ?b\<rparr>)"
      using fold_header [OF okg, of ?b now] f l by (auto simp: header_need_def g_def)
    also have "g\<lparr>ef_header := ef_header g @ ?b\<rparr> = g\<lparr>ef_header := ecall_head c\<rparr>" by (simp add: g_def)
    also have "read_header \<dots> = \<dots>\<lparr>ef_bodyLeft := ec_body_size (ef_nEmbd g) c, ef_pending := ef_pending g @ [opened (ef_nEmbd g) (ef_started g) c]\<rparr>"
      using read_header_opens [of "g\<lparr>ef_header := ecall_head c\<rparr>" c] assms by (simp add: g_def)
    finally have "fold (byte_step now) ?b (fold (byte_step now) ?a f) = \<dots>" using first wait by simp
    moreover have "fold (byte_step now) (ecall_head c) f = fold (byte_step now) ?b (fold (byte_step now) ?a f)"
      by (metis append_take_drop_id fold_append comp_apply)
    ultimately show ?thesis by (simp add: g_def)
  qed
qed

lemma call_observed:
  assumes "ecall_ok (ef_nEmbd f) c" "between f" "length (ef_pending f) < PENDING_CALLS"
  shows "fold (byte_step now) (ecall_bytes c) f =
    f\<lparr>ef_started := now, ef_pending := ef_pending f @ [(opened (ef_nEmbd f) now c)\<lparr>it_complete := True\<rparr>]\<rparr>"
proof -
  define g where "g = f\<lparr>ef_header := ecall_head c, ef_started := now,
    ef_bodyLeft := ec_body_size (ef_nEmbd f) c, ef_pending := ef_pending f @ [opened (ef_nEmbd f) now c]\<rparr>"
  have "0 < ec_body_size (ef_nEmbd f) c" using assms(1,2) by (auto simp: ecall_ok_def between_def ec_body_size_def ec_width_def)
  moreover have "length (ec_body c) = ec_body_size (ef_nEmbd f) c" using assms(1) by (simp add: ecall_ok_def)
  moreover from calculation have "ec_body c \<noteq> []" by auto
  ultimately have "fold (byte_step now) (ec_body c) g = body_done (g\<lparr>ef_bodyLeft := 0\<rparr>)"
    using fold_body [of g "ec_body c" now] assms(2) by (simp add: g_def between_def)
  then show ?thesis using head_bytes [OF assms] assms(2)
    by (simp add: ecall_bytes_def g_def body_done_def between_def)
qed

lemma calls_observed:
  assumes "\<forall>c \<in> set cs. ecall_ok (ef_nEmbd f) c" "between f" "length (ef_pending f) + length cs \<le> PENDING_CALLS"
  shows "fold (byte_step now) (concat (map ecall_bytes cs)) f =
    f\<lparr>ef_started := (if cs = [] then ef_started f else now),
      ef_pending := ef_pending f @ map (\<lambda>c. (opened (ef_nEmbd f) now c)\<lparr>it_complete := True\<rparr>) cs\<rparr>"
  using assms
proof (induction cs arbitrary: f)
  case (Cons c cs)
  let ?g = "f\<lparr>ef_started := now, ef_pending := ef_pending f @ [(opened (ef_nEmbd f) now c)\<lparr>it_complete := True\<rparr>]\<rparr>"
  have "fold (byte_step now) (ecall_bytes c) f = ?g" using Cons.prems by (intro call_observed) auto
  moreover have "between ?g" using Cons.prems(2) by (simp add: between_def)
  ultimately show ?case using Cons.IH [of ?g] Cons.prems by simp
qed simp

section \<open>Answers\<close>

lemma response_0 [simp]: "response now 0 f = f"
  by (subst response.simps) simp

lemma response_disabled: "ef_disabled f \<Longrightarrow> response now left f = f"
  by (subst response.simps) simp

lemma response_part:
  assumes "\<not> ef_disabled f" "ef_pending f = item # rest" "it_complete item" "k < it_left item"
  shows "response now k f = f\<lparr>ef_pending := item\<lparr>it_left := it_left item - k\<rparr> # rest\<rparr>"
  using assms by (cases "k = 0") (simp_all add: response.simps [of now k f] Let_def)

lemma response_whole:
  assumes "\<not> ef_disabled f" "ef_pending f = item # rest" "it_complete item" "it_left item \<le> k" "0 < k"
  shows "response now k f = response now (k - it_left item)
    (f\<lparr>ef_recorded := ef_recorded f @ [(it_rows item, max 0 (now - it_started item))], ef_pending := rest\<rparr>)"
  using assms by (subst response.simps) (simp add: Let_def min_def)

text \<open>Answer bytes count the same however they are cut.\<close>

lemma response_split:
  assumes "\<forall>i \<in> set (ef_pending f). 0 < it_left i"
  shows "response now (a + b) f = response now b (response now a f)"
  using assms
proof (induction "ef_pending f" arbitrary: f a)
  case Nil
  then show ?case by (cases "a = 0") (simp_all add: response.simps [of now "a + b" f] response.simps [of now a f] response_disabled)
next
  case (Cons item rest)
  note p = Cons.hyps(2) [symmetric]
  consider "a = 0 \<or> ef_disabled f" | "0 < a" "\<not> ef_disabled f" "\<not> it_complete item"
    | "0 < a" "\<not> ef_disabled f" "it_complete item" "a < it_left item" | "0 < a" "\<not> ef_disabled f" "it_complete item" "it_left item \<le> a" by fastforce
  then show ?case
  proof cases
    case 1
    then show ?thesis by (auto simp: response_disabled)
  next
    case 2
    then show ?thesis using p by (simp add: response.simps [of now "a + b" f] response.simps [of now a f] response_disabled)
  next
    case 3
    define g where "g = f\<lparr>ef_pending := item\<lparr>it_left := it_left item - a\<rparr> # rest\<rparr>"
    have ra: "response now a f = g" using 3 p by (simp add: g_def response_part)
    show ?thesis
    proof (cases "a + b < it_left item")
      case True
      then have "response now b g = g\<lparr>ef_pending := item\<lparr>it_left := it_left item - a - b\<rparr> # rest\<rparr>"
        using 3 response_part [of g "item\<lparr>it_left := it_left item - a\<rparr>" rest b now] by (simp add: g_def)
      then show ?thesis using True 3 p ra response_part [of f item rest "a + b" now] by (simp add: g_def)
    next
      case False
      then show ?thesis
        using 3 p ra response_whole [of f item rest "a + b" now]
          response_whole [of g "item\<lparr>it_left := it_left item - a\<rparr>" rest b now] by (simp add: g_def add.commute)
    qed
  next
    case 4
    define g where "g = f\<lparr>ef_recorded := ef_recorded f @ [(it_rows item, max 0 (now - it_started item))], ef_pending := rest\<rparr>"
    have "response now (a + b) f = response now (a - it_left item + b) g" "response now a f = response now (a - it_left item) g"
      using 4 p response_whole [of f item rest "a + b" now] response_whole [of f item rest a now] by (simp_all add: g_def)
    moreover have "rest = ef_pending g" "\<forall>i \<in> set (ef_pending g). 0 < it_left i" using Cons.prems p by (simp_all add: g_def)
    ultimately show ?thesis using Cons.hyps(1) [of g "a - it_left item"] by simp
  qed
qed

lemma responses_split:
  assumes "\<forall>i \<in> set (ef_pending f). 0 < it_left i"
  shows "response now (sum_list ns) f = fold (response now) ns f"
proof -
  have keep: "\<forall>i \<in> set (ef_pending (response now k g)). 0 < it_left i" if "\<forall>i \<in> set (ef_pending g). 0 < it_left i" for k g
    using that
  proof (induction now k g rule: response.induct)
    case (1 now k g)
    show ?case
    proof (cases "ef_disabled g \<or> k = 0")
      case True
      then show ?thesis using "1.prems" by (auto simp: response_disabled)
    next
      case False
      show ?thesis
      proof (cases "ef_pending g")
        case Nil
        then show ?thesis using False by (simp add: response.simps [of now k g] disable_def)
      next
        case (Cons item rest)
        show ?thesis
        proof (cases "it_complete item")
          case True
          define g' where "g' = (if it_left item - min (it_left item) k = 0
            then g\<lparr>ef_recorded := ef_recorded g @ [(it_rows item, max 0 (now - it_started item))], ef_pending := rest\<rparr>
            else g\<lparr>ef_pending := item\<lparr>it_left := it_left item - min (it_left item) k\<rparr> # rest\<rparr>)"
          have pos: "\<forall>i \<in> set (ef_pending g'). 0 < it_left i" using "1.prems" Cons by (auto simp: g'_def)
          have eq: "response now k g = response now (k - min (it_left item) k) g'"
            by (subst response.simps) (simp only: False Cons True g'_def list.case if_False not_True_eq_False Let_def)
          have "\<not> \<not> it_complete item" using True by simp
          from "1.IH" [OF False Cons this refl, folded g'_def, OF pos] show ?thesis by (simp only: eq)
        qed (use False Cons in \<open>simp add: response.simps [of now k g] disable_def\<close>)
      qed
    qed
  qed
  show ?thesis using assms
  proof (induction ns arbitrary: f)
    case (Cons n ns)
    then show ?case using response_split [OF Cons.prems, of now n "sum_list ns"] keep by simp
  qed simp
qed

lemma answers_recorded:
  assumes "\<not> ef_disabled f" "ef_pending f = items" "\<forall>i \<in> set items. it_complete i \<and> 0 < it_left i"
  shows "response now (sum_list (map it_left items)) f =
    f\<lparr>ef_pending := [], ef_recorded := ef_recorded f @ map (\<lambda>i. (it_rows i, max 0 (now - it_started i))) items\<rparr>"
  using assms
proof (induction items arbitrary: f)
  case (Cons item items)
  define g where "g = f\<lparr>ef_recorded := ef_recorded f @ [(it_rows item, max 0 (now - it_started item))], ef_pending := items\<rparr>"
  have "response now (sum_list (map it_left (item # items))) f = response now (sum_list (map it_left items)) g"
    using response_whole [of f item items "sum_list (map it_left (item # items))" now] Cons.prems by (simp add: g_def)
  then show ?case using Cons.IH [of g] Cons.prems by (simp add: g_def)
qed simp


section \<open>The sliding window\<close>

record sample =
  sm_at :: int
  sm_rows :: int
  sm_latency :: rat

record metrics =
  em_startedAt :: int
  em_samples :: "sample list"
  em_lastWorkAt :: "int option"
  em_truncatedAt :: "int option"

definition WINDOW_MS :: int where "WINDOW_MS = 60000"
definition MAX_SAMPLES :: nat where "MAX_SAMPLES = 10000"

definition new_metrics :: "int \<Rightarrow> metrics" where
  "new_metrics now = \<lparr>em_startedAt = now, em_samples = [], em_lastWorkAt = None, em_truncatedAt = None\<rparr>"

definition prune_samples :: "int \<Rightarrow> metrics \<Rightarrow> metrics" where
  "prune_samples t m =
     (let kept = filter (\<lambda>s. t - sm_at s < WINDOW_MS) (em_samples m)
      in if MAX_SAMPLES < length kept
         then m\<lparr>em_truncatedAt := Some (sm_at (kept ! (length kept - MAX_SAMPLES - 1))), em_samples := slice_last MAX_SAMPLES kept\<rparr>
         else m\<lparr>em_samples := kept\<rparr>)"

definition record_call :: "sample \<Rightarrow> metrics \<Rightarrow> metrics" where
  "record_call s m = prune_samples (sm_at s) (m\<lparr>em_samples := em_samples m @ [s], em_lastWorkAt := Some (sm_at s)\<rparr>)"

text \<open>\<^verbatim>\<open>latencies[Math.ceil(latencies.length * p) - 1]\<close>; outside the array it is \<^verbatim>\<open>undefined\<close>.\<close>

definition percentile :: "rat \<Rightarrow> rat list \<Rightarrow> rat option" where
  "percentile p xs =
     (if xs = [] then None
      else let i = \<lceil>fl (of_nat (length xs) * p)\<rceil> - 1 in if 0 \<le> i \<and> nat i < length xs then Some (xs ! nat i) else None)"

definition recent_bucket :: "int \<Rightarrow> sample list \<Rightarrow> nat \<Rightarrow> int" where
  "recent_bucket t ss i =
     (let e = t - (11 - int i) * 5000 in sum_list (map sm_rows (filter (\<lambda>s. sm_at s \<le> e \<and> e - 5000 < sm_at s) ss)))"

record metrics_view =
  mv_recentRows :: "int list"
  mv_live :: bool
  mv_calls :: nat
  mv_rows :: int
  mv_windowMs :: int
  mv_callsPerSecond :: rat
  mv_rowsPerSecond :: rat
  mv_p50 :: "rat option"
  mv_p95 :: "rat option"
  mv_lastWorkAt :: "int option"

definition metrics_status :: "int \<Rightarrow> metrics \<Rightarrow> metrics_view \<times> metrics" where
  "metrics_status t m0 =
     (let m = prune_samples t m0; ss = em_samples m; rows = sum_list (map sm_rows ss);
          w = max 1 (min WINDOW_MS (t - max (em_startedAt m) (case em_truncatedAt m of Some x \<Rightarrow> x | None \<Rightarrow> em_startedAt m)));
          lat = sort (map sm_latency ss)
      in (\<lparr>mv_recentRows = map (recent_bucket t ss) [0..<12], mv_live = (ss \<noteq> []), mv_calls = length ss, mv_rows = rows, mv_windowMs = w,
           mv_callsPerSecond = fl (fl (of_nat (length ss) / of_int w) * 1000), mv_rowsPerSecond = fl (fl (of_int rows / of_int w) * 1000),
           mv_p50 = percentile (fl (1/2)) lat, mv_p95 = percentile (fl (19/20)) lat, mv_lastWorkAt = em_lastWorkAt m\<rparr>, m))"

text \<open>The reference keeps every call ever recorded and looks at the newest of them in the window.\<close>

definition in_window :: "int \<Rightarrow> sample list \<Rightarrow> sample list" where
  "in_window t ss = slice_last MAX_SAMPLES (filter (\<lambda>s. t - sm_at s < WINDOW_MS) ss)"

lemma em_samples_prune: "em_samples (prune_samples t m) = in_window t (em_samples m)"
  by (simp add: prune_samples_def in_window_def slice_last_def Let_def)

text \<open>Cutting a list to its newest entries early does not matter to a cut that keeps the newest entries anyway.\<close>

lemma slice_last_filter:
  assumes "\<And>x y. x \<in> set (take (length xs - n) xs) \<Longrightarrow> y \<in> set (drop (length xs - n) xs) \<Longrightarrow> P x \<Longrightarrow> P y"
  shows "slice_last n (filter P (slice_last n xs @ ys)) = slice_last n (filter P (xs @ ys))"
proof (cases "length xs \<le> n")
  case False
  define pre suf where ps: "pre = take (length xs - n) xs" "suf = drop (length xs - n) xs"
  have xs: "xs = pre @ suf" "slice_last n xs = suf" "length suf = n" using False by (simp_all add: ps slice_last_def)
  show ?thesis
  proof (cases "\<exists>x \<in> set pre. P x")
    case True
    then have "filter P suf = suf" using assms unfolding ps by (metis filter_True)
    then show ?thesis using xs by (simp add: slice_last_def)
  next
    case no: False
    then have "filter P pre = []" by (simp add: filter_empty_conv)
    then show ?thesis using xs by simp
  qed
qed (simp add: slice_last_def)

lemma sorted_parts:
  assumes "sorted (map sm_at ss)" "x \<in> set (take k ss)" "y \<in> set (drop k ss)"
  shows "sm_at x \<le> sm_at y"
proof -
  have "sorted (map sm_at (take k ss) @ map sm_at (drop k ss))" using assms(1) by (metis map_append append_take_drop_id)
  then show ?thesis using assms(2,3) by (auto simp: sorted_append)
qed

lemma in_window_later:
  assumes "sorted (map sm_at ss)" "t \<le> t'"
  shows "in_window t' (in_window t ss @ rest) = in_window t' (ss @ rest)"
proof -
  let ?in = "\<lambda>s. t - sm_at s < WINDOW_MS" and ?in' = "\<lambda>s. t' - sm_at s < WINDOW_MS"
  have "sorted (map sm_at (filter ?in ss))" using assms(1) by (rule sorted_filter)
  then have "slice_last MAX_SAMPLES (filter ?in' (slice_last MAX_SAMPLES (filter ?in ss) @ rest)) =
      slice_last MAX_SAMPLES (filter ?in' (filter ?in ss @ rest))"
    by (intro slice_last_filter) (auto dest: sorted_parts)
  moreover have "filter ?in' (filter ?in ss) = filter ?in' ss" using assms(2) by (auto intro!: filter_cong)
  ultimately show ?thesis by (simp add: in_window_def)
qed

lemma recorded_window:
  assumes "sorted (map sm_at ss)" "ss \<noteq> []"
  shows "em_samples (fold record_call ss (new_metrics t0)) = in_window (sm_at (last ss)) ss"
  using assms
proof (induction ss rule: rev_induct)
  case (snoc s ss)
  show ?case
  proof (cases "ss = []")
    case True
    then show ?thesis by (simp add: record_call_def em_samples_prune new_metrics_def)
  next
    case False
    have "sorted (map sm_at ss)" "sm_at (last ss) \<le> sm_at s" using snoc.prems False by (auto simp: sorted_append)
    then show ?thesis using snoc.IH False in_window_later [of ss "sm_at (last ss)" "sm_at s" "[s]"]
      by (simp add: record_call_def em_samples_prune)
  qed
qed simp

lemma status_samples:
  assumes "sorted (map sm_at ss)" "\<forall>s \<in> set ss. sm_at s \<le> t"
  shows "em_samples (snd (metrics_status t (fold record_call ss (new_metrics t0)))) = in_window t ss"
proof (cases "ss = []")
  case True
  then show ?thesis by (simp add: metrics_status_def em_samples_prune new_metrics_def Let_def)
next
  case False
  then show ?thesis using assms recorded_window [OF assms(1) False, of t0] in_window_later [of ss "sm_at (last ss)" t "[]"]
    by (simp add: metrics_status_def em_samples_prune Let_def)
qed

text \<open>The buckets of five seconds tile the window.\<close>

lemma bucket_unique:
  assumes "t - WINDOW_MS < a" "a \<le> t"
  shows "(\<Sum>i \<leftarrow> [0..<12]. if a \<le> t - (11 - int i) * 5000 \<and> t - (11 - int i) * 5000 - 5000 < a then x else 0) = (x :: int)"
  using assms by (simp add: WINDOW_MS_def upt_rec)

lemma buckets_sum:
  assumes "\<forall>s \<in> set ss. t - WINDOW_MS < sm_at s \<and> sm_at s \<le> t"
  shows "(\<Sum>i \<leftarrow> [0..<12]. recent_bucket t ss i) = sum_list (map sm_rows ss)"
  using assms
proof (induction ss)
  case Nil
  then show ?case by (simp add: recent_bucket_def sum_list_0)
next
  case (Cons s ss)
  have "(\<Sum>i \<leftarrow> [0..<12]. recent_bucket t (s # ss) i) =
      (\<Sum>i \<leftarrow> [0..<12]. (if sm_at s \<le> t - (11 - int i) * 5000 \<and> t - (11 - int i) * 5000 - 5000 < sm_at s then sm_rows s else 0) + recent_bucket t ss i)"
    by (rule arg_cong [where f = sum_list], rule map_cong) (simp_all add: recent_bucket_def Let_def)
  then show ?case using Cons bucket_unique [of t "sm_at s" "sm_rows s"] by (simp add: sum_list_addf)
qed

text \<open>The percentile is always a latency of the window.\<close>

lemma percentile_rank:
  assumes "xs \<noteq> []" "0 < p" "p \<le> 1" "length xs \<le> 2 ^ 53"
  shows "\<exists>i < length xs. percentile p xs = Some (xs ! i) \<and> fl (of_nat (length xs) * p) \<le> of_nat (Suc i) \<and> of_nat i < fl (of_nat (length xs) * p)"
proof -
  let ?n = "of_nat (length xs) :: rat" and ?x = "fl (of_nat (length xs) * p)"
  have n: "0 < ?n" "fl ?n = ?n" using assms(1,4) fl_of_int [of "int (length xs)"] by auto
  then have "0 < ?x" using assms(2) by (intro fl_pos) simp
  moreover have "?x \<le> ?n" using fl_mono [of "?n * p" ?n] n assms(3) by (simp add: mult_left_le)
  ultimately have c: "0 < \<lceil>?x\<rceil>" "\<lceil>?x\<rceil> \<le> int (length xs)" by (simp_all add: ceiling_le_iff)
  define i where "i = nat (\<lceil>?x\<rceil> - 1)"
  have i: "\<lceil>?x\<rceil> = int (Suc i)" "i < length xs" using c unfolding i_def by linarith+
  then have "percentile p xs = Some (xs ! i)" using assms(1) by (simp add: percentile_def Let_def)
  moreover have "?x \<le> of_nat (Suc i)" "of_nat i < ?x" using i(1) by (simp_all add: ceiling_eq_iff)
  ultimately show ?thesis using i(2) by blast
qed

text \<open>The two literals as doubles.\<close>

lemma half_exact: "fl (1/2) = 1/2" "length xs \<le> 2 ^ 53 \<Longrightarrow> fl (of_nat (length xs) * (1/2)) = of_nat (length xs) / 2"
proof -
  show h: "fl (1/2) = 1/2" using fl_exact [of 1 "-1"] by (simp add: power_int_minus)
  assume "length xs \<le> 2 ^ 53"
  then show "fl (of_nat (length xs) * (1/2)) = of_nat (length xs) / 2"
    using fl_exact [of "int (length xs)" "-1"] by (simp add: power_int_minus)
qed

lemma p95_bounds: "0 < fl (19/20)" "fl (19/20) \<le> 1" "1/2 \<le> fl (19/20)"
  using fl_mono [of "19/20" 1] fl_mono [of "1/2" "19/20"] fl_of_int [of 1] half_exact(1) fl_pos [of "19/20"] by simp_all

lemma rank_order:
  assumes "n \<le> 2 ^ 53" "of_nat i < (of_nat n / 2 :: rat)" "fl (of_nat n * fl (19/20)) \<le> of_nat (Suc j)"
  shows "i \<le> j"
proof -
  have "of_nat n * (1/2) \<le> of_nat n * fl (19/20)" using p95_bounds(3) by (intro mult_left_mono) auto
  then have "fl (of_nat n * (1/2)) \<le> of_nat (Suc j)" using fl_mono assms(3) order_trans by blast
  then have "of_nat i < (of_nat (Suc j) :: rat)" using assms(1,2) half_exact(2) [of "replicate n ()"] by simp
  then show ?thesis by (simp only: of_nat_less_iff less_Suc_eq_le)
qed

lemma sorted_rank:
  fixes xs :: "rat list"
  assumes "sorted xs" "i < length xs"
  shows "Suc i \<le> length (filter (\<lambda>x. x \<le> xs ! i) xs)" "length xs - i \<le> length (filter (\<lambda>x. xs ! i \<le> x) xs)"
proof -
  have "{..i} \<subseteq> {k. k < length xs \<and> xs ! k \<le> xs ! i}" using assms by (auto intro: sorted_nth_mono)
  then have "card {..i} \<le> card {k. k < length xs \<and> xs ! k \<le> xs ! i}" by (intro card_mono) auto
  then show "Suc i \<le> length (filter (\<lambda>x. x \<le> xs ! i) xs)" by (simp add: length_filter_conv_card)
  have "{i..<length xs} \<subseteq> {k. k < length xs \<and> xs ! i \<le> xs ! k}" using assms by (auto intro: sorted_nth_mono)
  then have "card {i..<length xs} \<le> card {k. k < length xs \<and> xs ! i \<le> xs ! k}" by (intro card_mono) auto
  then show "length xs - i \<le> length (filter (\<lambda>x. xs ! i \<le> x) xs)" by (simp add: length_filter_conv_card)
qed

lemma in_window_bounds:
  "s \<in> set (in_window t ss) \<Longrightarrow> s \<in> set ss \<and> t - WINDOW_MS < sm_at s" "length (in_window t ss) \<le> MAX_SAMPLES"
  by (auto simp: in_window_def slice_last_def dest!: in_set_dropD)


section \<open>The synthetic benchmark\<close>

text \<open>
  \<open>benchmarkExpert\<close> after its argument checks: a state machine over the events of its socket, its two timers and the
  assignment it watches. \<open>bn_outcome\<close> is the settled promise; the code destroys the socket then, so nothing more arrives.
  \<open>bn_sent\<close> counts the frames written.
\<close>

record bench =
  bn_received :: nat
  bn_completed :: nat
  bn_started :: rat
  bn_tail :: buffer
  bn_latencies :: "rat list"
  bn_sent :: nat
  bn_outcome :: "(string + rat list) option"

datatype bench_event = BConnect | BError | BClose | BTimeout | BWatch | BData buffer

definition new_bench :: bench where
  "new_bench = \<lparr>bn_received = 0, bn_completed = 0, bn_started = 0, bn_tail = [], bn_latencies = [], bn_sent = 0, bn_outcome = None\<rparr>"

text \<open>A little-endian float32 is finite when its exponent bits are not all ones.\<close>

definition finite_float :: "buffer \<Rightarrow> bool" where
  "finite_float b = ((unat (b ! 3) mod 128) * 2 + unat (b ! 2) div 128 \<noteq> 255)"

fun all_finite :: "buffer \<Rightarrow> bool" where
  "all_finite (a # b # c # d # rest) = (finite_float [a, b, c, d] \<and> all_finite rest)"
| "all_finite _ = True"

definition bench_finish :: "string + rat list \<Rightarrow> bench \<Rightarrow> bench" where
  "bench_finish r s = (if bn_outcome s = None then s\<lparr>bn_outcome := Some r\<rparr> else s)"

definition bench_send :: "bool \<Rightarrow> rat \<Rightarrow> bench \<Rightarrow> bench" where
  "bench_send current now s =
     (if \<not> current then bench_finish (Inl ''expert assignment changed'') s
      else s\<lparr>bn_received := 0, bn_started := now, bn_sent := bn_sent s + 1\<rparr>)"

definition bench_data :: "nat \<Rightarrow> nat \<Rightarrow> bool \<Rightarrow> rat \<Rightarrow> buffer \<Rightarrow> bench \<Rightarrow> bench" where
  "bench_data expected iterations current now data s =
     (let values = bn_tail s @ data; full = length values - length values mod 4
      in if \<not> all_finite (take full values) then bench_finish (Inl ''non-finite expert output'') s
         else let s1 = s\<lparr>bn_tail := drop full values, bn_received := bn_received s + length data\<rparr>
              in if \<not> current then bench_finish (Inl ''expert assignment changed'') s1
                 else if expected < bn_received s1 then bench_finish (Inl ''unexpected expert response length'') s1
                 else if bn_received s1 < expected then s1
                 else let s2 = s1\<lparr>bn_completed := bn_completed s1 + 1,
                                  bn_latencies := (if bn_completed s1 = 0 then bn_latencies s1
                                                   else bn_latencies s1 @ [max (fl (1/1000)) (fl (now - bn_started s1))])\<rparr>
                      in if bn_completed s2 \<le> iterations then bench_send current now s2
                         else bench_finish (Inr (sort (bn_latencies s2))) s2)"

definition bench_step :: "nat \<Rightarrow> nat \<Rightarrow> bench_event \<times> bool \<times> rat \<Rightarrow> bench \<Rightarrow> bench" where
  "bench_step expected iterations e s =
     (case e of (ev, current, now) \<Rightarrow>
        if bn_outcome s \<noteq> None then s
        else case ev of
          BConnect \<Rightarrow> bench_send current now s
        | BError \<Rightarrow> bench_finish (Inl ''socket error'') s
        | BClose \<Rightarrow> bench_finish (Inl ''expert worker closed before benchmark completed'') s
        | BTimeout \<Rightarrow> bench_finish (Inl ''expert benchmark timed out'') s
        | BWatch \<Rightarrow> if current then s else bench_finish (Inl ''expert assignment changed'') s
        | BData data \<Rightarrow> bench_data expected iterations current now data s)"

definition bench_ok :: "nat \<Rightarrow> nat \<Rightarrow> bench \<Rightarrow> bool" where
  "bench_ok expected iterations s \<longleftrightarrow> length (bn_latencies s) = bn_completed s - 1 \<and>
     (\<forall>x \<in> set (bn_latencies s). 0 < x) \<and>
     (bn_outcome s = None \<longrightarrow> bn_completed s \<le> iterations) \<and>
     (\<forall>xs. bn_outcome s = Some (Inr xs) \<longrightarrow> bn_completed s = iterations + 1 \<and> xs = sort (bn_latencies s))"

lemma bench_finish_ok: "bench_ok expected iterations s \<Longrightarrow> bn_outcome s = None \<Longrightarrow> bench_ok expected iterations (bench_finish (Inl e) s)"
  by (simp add: bench_ok_def bench_finish_def)

lemma bench_send_ok: "bench_ok expected iterations s \<Longrightarrow> bn_outcome s = None \<Longrightarrow> bench_ok expected iterations (bench_send current now s)"
  using bench_finish_ok [of expected iterations s] by (simp add: bench_send_def) (simp add: bench_ok_def)

lemma bench_data_ok:
  assumes ok: "bench_ok expected iterations s" and none: "bn_outcome s = None"
  shows "bench_ok expected iterations (bench_data expected iterations current now data s)"
proof -
  have pos: "0 < max (fl (1/1000)) (fl (now - bn_started s))" using fl_pos [of "1/1000"] by (simp add: less_max_iff_disj)
  let ?v = "bn_tail s @ data"
  let ?full = "length ?v - length ?v mod 4"
  define s1 where "s1 = s\<lparr>bn_tail := drop ?full ?v, bn_received := bn_received s + length data\<rparr>"
  define s2 where "s2 = s1\<lparr>bn_completed := bn_completed s1 + 1, bn_latencies := (if bn_completed s1 = 0 then bn_latencies s1
      else bn_latencies s1 @ [max (fl (1/1000)) (fl (now - bn_started s1))])\<rparr>"
  have s1: "bench_ok expected iterations s1" "bn_outcome s1 = None" using ok none by (simp_all add: s1_def bench_ok_def)
  have s2: "length (bn_latencies s2) = bn_completed s2 - 1" "\<forall>x \<in> set (bn_latencies s2). 0 < x" "bn_outcome s2 = None" "bn_completed s2 \<le> iterations + 1"
    using s1 pos by (auto simp: s2_def bench_ok_def s1_def)
  have fin: "bench_ok expected iterations (bench_finish (Inr (sort (bn_latencies s2))) s2)" if "\<not> bn_completed s2 \<le> iterations"
    using that s2 by (simp add: bench_ok_def bench_finish_def)
  have snd: "bench_ok expected iterations (bench_send current now s2)" if "bn_completed s2 \<le> iterations"
    by (rule bench_send_ok) (use that s2 in \<open>simp_all add: bench_ok_def\<close>)
  show ?thesis unfolding bench_data_def Let_def s1_def [symmetric] s2_def [symmetric]
    using bench_finish_ok [OF ok none] bench_finish_ok [OF s1] s1(1) fin snd by (simp split del: if_split cong: if_cong) (auto split: if_split)
qed

lemma bench_step_ok: "bench_ok expected iterations s \<Longrightarrow> bench_ok expected iterations (bench_step expected iterations e s)"
proof (cases e)
  case (fields ev current now)
  assume ok: "bench_ok expected iterations s"
  then show ?thesis using bench_data_ok [OF ok]
    by (cases ev) (auto simp: fields bench_step_def bench_ok_def bench_send_def bench_finish_def)
qed

text \<open>
  A benchmark that succeeds measured what it says: under any sequence of events its result consists of exactly the
  configured number of latencies, all positive, sorted, without the first call, and the two ranks it reads are inside it.
\<close>
theorem benchmark_complete:
  assumes "0 < iterations" "iterations \<le> 2 ^ 53" "bn_outcome (fold (bench_step expected iterations) es new_bench) = Some (Inr xs)"
  shows "length xs = iterations \<and> sorted xs \<and> (\<forall>x \<in> set xs. 0 < x) \<and>
    (\<exists>p50 \<in> set xs. percentile (fl (1/2)) xs = Some p50) \<and> (\<exists>p95 \<in> set xs. percentile (fl (19/20)) xs = Some p95)"
proof -
  have "bench_ok expected iterations (fold (bench_step expected iterations) es s)" if "bench_ok expected iterations s" for s
    using that by (induction es arbitrary: s) (simp_all add: bench_step_ok)
  moreover have "bench_ok expected iterations new_bench" by (simp add: bench_ok_def new_bench_def)
  ultimately have "bench_ok expected iterations (fold (bench_step expected iterations) es new_bench)" by blast
  then have xs: "length xs = iterations" "sorted xs" "\<forall>x \<in> set xs. 0 < x" using assms(3) by (auto simp: bench_ok_def)
  then have ne: "xs \<noteq> []" "length xs \<le> 2 ^ 53" using assms(1,2) by auto
  have half_pos: "0 < fl (1/2)" "fl (1/2) \<le> 1" by (simp_all add: half_exact(1))
  show ?thesis using xs percentile_rank [OF ne(1) half_pos ne(2)] percentile_rank [OF ne(1) p95_bounds(1,2) ne(2)] by (auto intro!: bexI [OF _ nth_mem])
qed

section \<open>Witnesses\<close>

definition one_call :: ecall where
  "one_call = \<lparr>ec_mode = 1, ec_rows = 1, ec_pairs = 1, ec_body = replicate 8 7\<rparr>"



theorem benchmark_complete_witness:
  "let xs = [fl (1/1000)] in bn_outcome (fold (bench_step 4 1)
     [(BConnect, True, 0), (BData [0, 0, 0, 0], True, 0), (BData [0, 0, 0], True, 0), (BData [0], True, 0)] new_bench) = Some (Inr xs) \<and>
   length xs = 1 \<and> sorted xs \<and> (\<exists>p50 \<in> set xs. percentile (fl (1/2)) xs = Some p50)"
proof -
  let ?es = "[(BConnect, True, 0), (BData [0, 0, 0, 0], True, 0), (BData [0, 0, 0], True, 0), (BData [0], True, 0 :: rat)]"
  have "0 < fl (1/1000)" by (rule fl_pos) simp
  then have "bn_outcome (fold (bench_step 4 1) ?es new_bench) = Some (Inr [fl (1/1000)])"
    by (simp add: bench_step_def bench_send_def bench_data_def bench_finish_def new_bench_def finite_float_def Let_def)
  then show ?thesis using benchmark_complete [of 1 4 ?es "[fl (1/1000)]"] by (simp add: Let_def)
qed

end
