(* ===== verification/Desktop_Plan.thy ===== *)
theory Desktop_Plan
  imports JS_Number "HOL-Library.Product_Lexorder"
begin

text \<open>
  The plan a desktop node shows its operator (\<^verbatim>\<open>wallet/desktop/electron/networkPlan.cjs\<close>): the round-trip probe, the
  probability that a token needs this node, the expected speed for every number of remote layers, and the choice
  among several backbones. All arithmetic is on doubles. The handshake itself (\<^verbatim>\<open>connectOnce\<close>) is input and output:
  the probe takes the list of its outcomes.
\<close>

section \<open>Round trips\<close>

record rtt_view =
  rt_p50 :: rat
  rt_p90 :: rat
  rt_min :: rat
  rt_samples :: nat
  rt_failed :: nat

definition rank_at :: "rat \<Rightarrow> rat list \<Rightarrow> rat" where
  "rank_at q kept = kept ! min (length kept - 1) (nat \<lfloor>fl (of_nat (length kept) * q)\<rfloor>)"

text \<open>\<open>outcomes\<close> are the results of the handshakes, in order; the first success is dropped when there are spares.\<close>

definition probeRtt :: "(string + rat) list \<Rightarrow> string + rtt_view" where
  "probeRtt outcomes =
     (let times = map projr (filter (\<lambda>x. \<not> isl x) outcomes)
      in if times = [] then Inl ''backbone unreachable''
         else let kept = sort (if 3 < length times then tl times else times)
              in Inr \<lparr>rt_p50 = rank_at (fl (1/2)) kept, rt_p90 = rank_at (fl (9/10)) kept, rt_min = kept ! 0,
                      rt_samples = length kept, rt_failed = length outcomes - length times\<rparr>)"

section \<open>The probability that a token needs this node\<close>

text \<open>The loop over the selected experts; \<open>None\<close> is the NaN of \<open>0 / 0\<close>, met when more experts are used than exist.\<close>

fun miss_loop :: "int \<Rightarrow> int \<Rightarrow> nat \<Rightarrow> nat \<Rightarrow> rat \<Rightarrow> rat option" where
  "miss_loop experts held i 0 miss = Some miss"
| "miss_loop experts held i (Suc n) miss =
     (if experts = int i then None
      else miss_loop experts held (Suc i) n (fl (miss * fl (of_int (max 0 (experts - held - int i)) / of_int (experts - int i)))))"

definition hitProbability :: "int \<Rightarrow> int \<Rightarrow> nat \<Rightarrow> rat option" where
  "hitProbability experts held used =
     (if \<not> 0 < experts \<or> \<not> 0 < held \<or> \<not> 0 < used then Some 0
      else if experts \<le> held then Some 1
      else map_option (\<lambda>miss. fl (1 - miss)) (miss_loop experts held 0 used 1))"

section \<open>The plan\<close>

record plan_input =
  pi_rttMs :: rat
  pi_computeMs :: rat
  pi_baseTps :: rat
  pi_nExpert :: int
  pi_nUsed :: nat
  pi_expertsPerLayer :: int
  pi_nEmbd :: nat
  pi_upload :: rat
  pi_maxLayers :: nat
  pi_targetTps :: rat
  pi_wire :: string

record plan_row =
  pr_layers :: nat
  pr_tokenMs :: "rat option"
  pr_tps :: "rat option"
  pr_meetsTarget :: bool

record plan_view =
  pv_perLayerMs :: rat
  pv_hitProbability :: "rat option"
  pv_rows :: "plan_row list"
  pv_recommendedLayers :: nat

definition transferMs :: "rat option \<Rightarrow> plan_input \<Rightarrow> rat" where
  "transferMs p x =
     (let pairsPerHit = (case p of
            Some h \<Rightarrow> if 0 < h then fl (fl (fl (of_nat (pi_nUsed x) * of_int (pi_expertsPerLayer x)) / of_int (pi_nExpert x)) / h) else 0
          | None \<Rightarrow> 0);
          bytes = (if pi_wire x = ''v2f16'' then of_nat (pi_nEmbd x) * 2 else fl (fl (pairsPerHit * of_nat (pi_nEmbd x)) * 4))
      in fl (fl (bytes / pi_upload x) * 1000))"

definition perLayerMs :: "rat option \<Rightarrow> plan_input \<Rightarrow> rat" where
  "perLayerMs p x = fl (fl (pi_rttMs x + pi_computeMs x) + transferMs p x)"

definition token_ms :: "rat \<Rightarrow> plan_input \<Rightarrow> nat \<Rightarrow> rat" where
  "token_ms h x k = fl (fl (1000 / pi_baseTps x) + fl (fl (of_nat k * h) * perLayerMs (Some h) x))"

definition layer_row :: "rat option \<Rightarrow> plan_input \<Rightarrow> nat \<Rightarrow> plan_row" where
  "layer_row p x k =
     (case p of
        Some h \<Rightarrow> let tps = fl (1000 / token_ms h x k)
                  in \<lparr>pr_layers = k, pr_tokenMs = Some (token_ms h x k), pr_tps = Some tps, pr_meetsTarget = (pi_targetTps x \<le> tps)\<rparr>
      | None \<Rightarrow> \<lparr>pr_layers = k, pr_tokenMs = None, pr_tps = None, pr_meetsTarget = False\<rparr>)"

definition planLayers :: "plan_input \<Rightarrow> plan_view" where
  "planLayers x =
     (let p = hitProbability (pi_nExpert x) (pi_expertsPerLayer x) (pi_nUsed x);
          rows = map (layer_row p x) [0..<Suc (pi_maxLayers x)];
          fits = filter (\<lambda>r. 0 < pr_layers r \<and> pr_meetsTarget r) rows
      in \<lparr>pv_perLayerMs = perLayerMs p x, pv_hitProbability = p, pv_rows = rows,
          pv_recommendedLayers = (if fits = [] then 0 else pr_layers (last fits))\<rparr>)"

section \<open>Candidate backbones\<close>

datatype target_state = TIdle | TMeasuring | TReady rtt_view plan_view | TFailed string

record target =
  tg_id :: string
  tg_serving :: bool
  tg_state :: target_state

fun ready :: "target_state \<Rightarrow> bool" where
  "ready (TReady _ _) = True"
| "ready _ = False"

text \<open>The code sorts by descending score; the key here ascends, so its numbers are negated.\<close>

fun score :: "bool \<Rightarrow> target_state \<Rightarrow> nat \<times> int \<times> rat" where
  "score serving (TReady r v) = ((if serving then 0 else 1), - int (pv_recommendedLayers v), rt_p50 r)"
| "score serving _ = (2, 0, 0)"

definition best :: "target list \<Rightarrow> string option" where
  "best ts =
     (case sort_key (\<lambda>t. score (tg_serving t) (tg_state t)) (filter (\<lambda>t. ready (tg_state t)) ts) of
        [] \<Rightarrow> None | t # _ \<Rightarrow> Some (tg_id t))"

record planner =
  pn_targets :: "target list"
  pn_running :: bool
  pn_probes :: nat

definition selectedId :: "string option \<Rightarrow> planner \<Rightarrow> string option" where
  "selectedId chosen pn =
     (case chosen of
        Some c \<Rightarrow> if \<exists>t \<in> set (pn_targets pn). tg_id t = c then Some c else best (pn_targets pn)
      | None \<Rightarrow> best (pn_targets pn))"

text \<open>
  \<open>refresh\<close> is split where it awaits: the call marks every target as being measured and starts one round of probes
  unless one is running; \<open>refresh_measured\<close> puts the results in place. \<open>pn_probes\<close> counts the rounds in flight.
\<close>

definition refresh_targets :: "planner \<Rightarrow> planner" where
  "refresh_targets pn =
     (if pn_running pn then pn
      else pn\<lparr>pn_targets := map (\<lambda>t. t\<lparr>tg_state := TMeasuring\<rparr>) (pn_targets pn), pn_running := True, pn_probes := pn_probes pn + 1\<rparr>)"

text \<open>One target: the relay's own round trips when it has any, else the probe; a failure is kept with its target.\<close>

definition measure_target :: "plan_input \<Rightarrow> rtt_view option \<Rightarrow> (string + rat) list \<Rightarrow> target_state" where
  "measure_target inp live outcomes =
     (let rtt = (case live of
                   Some l \<Rightarrow> if 0 < rt_samples l then Inr (l\<lparr>rt_min := rt_p50 l, rt_failed := 0\<rparr>) else probeRtt outcomes
                 | None \<Rightarrow> probeRtt outcomes)
      in case rtt of
           Inl e \<Rightarrow> TFailed e
         | Inr r \<Rightarrow> TReady r (planLayers (inp\<lparr>pi_rttMs := rt_p50 r\<rparr>)))"

definition refresh_measured :: "(target \<Rightarrow> target_state) \<Rightarrow> planner \<Rightarrow> planner" where
  "refresh_measured results pn =
     pn\<lparr>pn_targets := map (\<lambda>t. t\<lparr>tg_state := results t\<rparr>) (pn_targets pn), pn_running := False, pn_probes := pn_probes pn - 1\<rparr>"

section \<open>The probe\<close>

lemma rank_at_mem: "kept \<noteq> [] \<Longrightarrow> rank_at q kept \<in> set kept"
  unfolding rank_at_def by (rule nth_mem) (simp add: less_eq_Suc_le [symmetric] min_less_iff_disj)

lemma rank_at_min: "sorted kept \<Longrightarrow> kept \<noteq> [] \<Longrightarrow> kept ! 0 \<le> rank_at q kept"
  unfolding rank_at_def by (intro sorted_nth_mono) (auto simp: min_less_iff_disj)

lemma rank_at_mono:
  assumes "sorted kept" "kept \<noteq> []" "0 \<le> q" "q \<le> q'"
  shows "rank_at q kept \<le> rank_at q' kept"
proof -
  have "fl (of_nat (length kept) * q) \<le> fl (of_nat (length kept) * q')" using assms(4) by (intro fl_mono mult_left_mono) auto
  then have "min (length kept - 1) (nat \<lfloor>fl (of_nat (length kept) * q)\<rfloor>) \<le> min (length kept - 1) (nat \<lfloor>fl (of_nat (length kept) * q')\<rfloor>)"
    by (intro min.mono nat_mono floor_mono) auto
  then show ?thesis unfolding rank_at_def using assms(1,2) by (intro sorted_nth_mono) (auto simp: min_less_iff_disj)
qed

text \<open>
  The probe reports what it measured: it fails only when no handshake succeeded, its three figures are times of
  successful handshakes, in order, and it accounts for every attempt but the one it drops.
\<close>
theorem probe_exact:
  "case probeRtt outcomes of
     Inl _ \<Rightarrow> \<forall>x \<in> set outcomes. isl x
   | Inr r \<Rightarrow> {Inr (rt_min r), Inr (rt_p50 r), Inr (rt_p90 r)} \<subseteq> set outcomes \<and> rt_min r \<le> rt_p50 r \<and> rt_p50 r \<le> rt_p90 r \<and>
       rt_samples r + rt_failed r \<le> length outcomes \<and> length outcomes \<le> rt_samples r + rt_failed r + 1"
proof -
  let ?times = "map projr (filter (\<lambda>x. \<not> isl x) outcomes)"
  let ?kept = "sort (if 3 < length ?times then tl ?times else ?times)"
  have len: "length ?times \<le> length outcomes" by simp
  show ?thesis
  proof (cases "?times = []")
    case True
    then show ?thesis by (simp add: probeRtt_def filter_empty_conv)
  next
    case False
    have len_kept: "length ?kept = (if 3 < length ?times then length ?times - 1 else length ?times)" by simp
    then have "0 < length ?kept" using False by (auto split: if_splits)
    then have k: "sorted ?kept" "?kept \<noteq> []" by (auto simp only: sorted_sort length_greater_0_conv)
    have mem: "Inr x \<in> set outcomes" if "x \<in> set ?kept" for x
    proof -
      have "x \<in> set ?times" using that list.set_sel(2) [OF False, of x] by (simp only: set_sort split: if_splits)
      then show ?thesis by auto
    qed
    have q: "0 \<le> fl (1/2)" "fl (1/2) \<le> fl (9/10)" by (simp_all add: fl_mono dbl.nonneg)
    have "?kept ! 0 \<le> rank_at (fl (1/2)) ?kept" using k by (rule rank_at_min)
    moreover have "?kept ! 0 \<in> set ?kept" using k by (intro nth_mem) auto
    ultimately show ?thesis using False mem rank_at_mem [OF k(2)] rank_at_mono [OF k q] len len_kept
      by (auto simp: probeRtt_def Let_def)
  qed
qed

section \<open>The probability\<close>

definition miss_factor :: "int \<Rightarrow> int \<Rightarrow> nat \<Rightarrow> rat" where
  "miss_factor experts held i = of_int (max 0 (experts - held - int i)) / of_int (experts - int i)"

lemma miss_factor_range: "int i < experts \<Longrightarrow> 0 < held \<Longrightarrow> 0 \<le> miss_factor experts held i \<and> miss_factor experts held i \<le> 1"
  by (auto simp: miss_factor_def)

lemma fl_unit: "0 \<le> x \<Longrightarrow> x \<le> 1 \<Longrightarrow> 0 \<le> fl x \<and> fl x \<le> 1"
  using fl_mono [of x 1] fl_of_int [of 1] dbl.nonneg by auto

lemma miss_step: "int i < experts \<Longrightarrow>
    miss_loop experts held i (Suc n) m = miss_loop experts held (Suc i) n (fl (m * fl (miss_factor experts held i)))"
  by (simp add: miss_factor_def)

lemma miss_loop_range:
  assumes "int (i + n) \<le> experts" "0 < held" "0 \<le> m" "m \<le> 1"
  shows "\<exists>r. miss_loop experts held i n m = Some r \<and> 0 \<le> r \<and> r \<le> 1"
  using assms
proof (induction n arbitrary: i m)
  case (Suc n)
  let ?m = "fl (m * fl (miss_factor experts held i))"
  have i: "int i < experts" using Suc.prems(1) by simp
  have "0 \<le> fl (miss_factor experts held i) \<and> fl (miss_factor experts held i) \<le> 1"
    using miss_factor_range [OF i Suc.prems(2)] fl_unit by blast
  then have "0 \<le> ?m \<and> ?m \<le> 1" using Suc.prems(3,4) by (intro fl_unit) (auto intro: mult_le_one)
  then show ?case using Suc.IH [of "Suc i" ?m] Suc.prems(1,2) miss_step [OF i, of held n m] by simp
qed simp

text \<open>Holding more experts never raises the probability of a miss, roundings included.\<close>

lemma miss_loop_antimono:
  assumes "int (i + n) \<le> experts" "0 < held" "held \<le> held'" "0 \<le> m'" "m' \<le> m"
    "miss_loop experts held i n m = Some r" "miss_loop experts held' i n m' = Some r'"
  shows "r' \<le> r"
  using assms
proof (induction n arbitrary: i m m')
  case (Suc n)
  have i: "int i < experts" using Suc.prems(1) by simp
  have f: "0 \<le> fl (miss_factor experts held' i)" "fl (miss_factor experts held' i) \<le> fl (miss_factor experts held i)"
    using Suc.prems(2,3) i by (auto intro!: dbl.nonneg fl_mono divide_right_mono simp: miss_factor_def)
  then have "fl (m' * fl (miss_factor experts held' i)) \<le> fl (m * fl (miss_factor experts held i))"
    using Suc.prems(4,5) by (intro fl_mono [OF mult_mono]) auto
  moreover have "0 \<le> fl (m' * fl (miss_factor experts held' i))" using f(1) Suc.prems(4) by (intro dbl.nonneg) simp
  ultimately show ?case using Suc.IH [of "Suc i"] Suc.prems(1-3,6,7) unfolding miss_step [OF i] by simp
qed simp

lemma miss_loop_near:
  assumes "int (i + n) \<le> experts" "rel_within 53 k m y"
  shows "\<exists>r. miss_loop experts held i n m = Some r \<and> rel_within 53 (k + 2 * n) r (y * (\<Prod>j = i..<i + n. miss_factor experts held j))"
  using assms
proof (induction n arbitrary: i m k y)
  case (Suc n)
  let ?f = "miss_factor experts held i"
  have i: "int i < experts" using Suc.prems(1) by simp
  have "rel_within 53 (Suc (k + 1)) (fl (m * fl ?f)) (y * ?f)"
    using Suc.prems(2) dbl.within_rnd [OF rel_within_refl, of ?f] by (intro dbl.within_rnd rel_within_mult) auto
  moreover have "int (Suc i + n) \<le> experts" using Suc.prems(1) by simp
  ultimately obtain r where r: "miss_loop experts held (Suc i) n (fl (m * fl ?f)) = Some r"
    "rel_within 53 (Suc (k + 1) + 2 * n) r (y * ?f * (\<Prod>j = Suc i..<Suc i + n. miss_factor experts held j))" using Suc.IH by blast
  have "(\<Prod>j = i..<i + Suc n. miss_factor experts held j) = ?f * (\<Prod>j = Suc i..<Suc i + n. miss_factor experts held j)"
    by (simp add: prod.atLeast_Suc_lessThan del: prod.op_ivl_Suc)
  then show ?case using r unfolding miss_step [OF i] by (auto simp: mult.assoc)
qed simp

text \<open>The product is the ratio of the selections that avoid the held experts to all selections.\<close>

lemma falling_choose: "(\<Prod>i = 0..<k. of_int (max 0 (int n - int i)) :: rat) = of_nat (n choose k) * fact k"
proof (cases "k \<le> n")
  case True
  then have "(\<Prod>i = 0..<k. of_int (max 0 (int n - int i)) :: rat) = (\<Prod>i = 0..<k. of_nat n - of_nat i)"
    by (intro prod.cong) auto
  also have "\<dots> = of_nat (n choose k) * fact k" by (simp add: binomial_gbinomial gbinomial_prod_rev)
  finally show ?thesis .
next
  case False
  then have "\<exists>i \<in> {0..<k}. of_int (max 0 (int n - int i)) = (0 :: rat)" by (intro bexI [of _ n]) auto
  then show ?thesis using False by (simp add: prod_zero binomial_eq_0)
qed

lemma miss_product:
  assumes "int k \<le> experts" "0 < held" "held < experts"
  shows "(\<Prod>j = 0..<k. miss_factor experts held j) = of_nat (nat (experts - held) choose k) / of_nat (nat experts choose k)"
proof -
  have "(\<Prod>j = 0..<k. miss_factor experts held j) =
      (\<Prod>j = 0..<k. of_int (max 0 (int (nat (experts - held)) - int j)) / of_int (max 0 (int (nat experts) - int j)))"
    using assms by (intro prod.cong) (auto simp: miss_factor_def)
  also have "\<dots> = (of_nat (nat (experts - held) choose k) * fact k) / (of_nat (nat experts choose k) * fact k)"
    by (simp only: prod_dividef falling_choose)
  finally show ?thesis by simp
qed

text \<open>
  C30: The hit probability is the one of its documentation: for a node that holds some but not all of the experts, the
  result is a number in the unit interval within a few units of rounding of one minus the share of the
  selections of \<open>used\<close> experts that avoid all of the held ones, and it never falls when the node holds more.
\<close>
theorem hit_probability_correct:
  assumes "0 < held" "held < experts" "0 < used" "int used \<le> experts"
  shows "\<exists>p. hitProbability experts held used = Some p \<and> 0 \<le> p \<and> p \<le> 1 \<and>
    \<bar>p - (1 - of_nat (nat (experts - held) choose used) / of_nat (nat experts choose used))\<bar> \<le> (1 + 1 / 2 ^ 53) ^ (2 * used) - 1 + 1 / 2 ^ 53 \<and>
    (\<forall>held' p'. held \<le> held' \<and> hitProbability experts held' used = Some p' \<longrightarrow> p \<le> p')"
proof -
  let ?e = "of_nat (nat (experts - held) choose used) / of_nat (nat experts choose used) :: rat"
  let ?u = "(1 + 1 / 2 ^ 53 :: rat) ^ (2 * used) - 1"
  obtain m where m: "miss_loop experts held 0 used 1 = Some m" "0 \<le> m" "m \<le> 1"
    using miss_loop_range [of 0 used experts held 1] assms by auto
  have near: "rel_within 53 (2 * used) m ?e"
    using miss_loop_near [of 0 used experts 0 1 1 held] assms m(1) miss_product [of used experts held] by (simp add: rel_within_refl)
  have e: "0 \<le> ?e" "?e \<le> 1"
    using miss_product [of used experts held] assms miss_factor_range
    by (auto intro!: prod_nonneg prod_le_1 simp flip: miss_product)
  have u: "0 \<le> ?u" using one_le_power [of "1 + 1 / 2 ^ 53 :: rat" "2 * used"] by simp
  have "\<bar>m - ?e\<bar> \<le> ?e * ?u" using near e(1) by (simp add: rel_within_def)
  also have "\<dots> \<le> ?u" using e u by (intro mult_left_le_one_le)
  finally have "\<bar>(1 - m) - (1 - ?e)\<bar> \<le> ?u" by simp
  then have "\<bar>fl (1 - m) - (1 - ?e)\<bar> \<le> ?u + 1 / 2 ^ 53" using m(2,3) by (intro dbl.near) auto
  moreover have p: "hitProbability experts held used = Some (fl (1 - m))" using assms m(1) by (simp add: hitProbability_def)
  moreover have "0 \<le> fl (1 - m) \<and> fl (1 - m) \<le> 1" using m by (intro fl_unit) auto
  moreover have "fl (1 - m) \<le> p'" if h: "held \<le> held'" "hitProbability experts held' used = Some p'" for held' p'
  proof (cases "experts \<le> held'")
    case True
    then show ?thesis using h assms calculation(3) by (simp add: hitProbability_def)
  next
    case False
    then obtain m' where m': "miss_loop experts held' 0 used 1 = Some m'" "p' = fl (1 - m')"
      using h assms by (auto simp: hitProbability_def)
    have "m' \<le> m" by (rule miss_loop_antimono [OF _ assms(1) h(1) _ _ m(1) m'(1)]) (use assms(4) in auto)
    then show ?thesis using m'(2) by (simp add: fl_mono)
  qed
  ultimately show ?thesis by blast
qed

section \<open>The recommendation\<close>

lemma last_filter_upto:
  assumes "\<And>j k. 0 < j \<Longrightarrow> j \<le> k \<Longrightarrow> P k \<Longrightarrow> P j" "fits = filter (\<lambda>k. 0 < k \<and> P k) [0..<n]" "rec = (if fits = [] then 0 else last fits)"
  shows "\<forall>k. 0 < k \<and> k < n \<longrightarrow> (P k \<longleftrightarrow> k \<le> rec)" "rec < max 1 n"
proof -
  have "fits = [] \<or> last fits \<in> set fits" using last_in_set by blast
  then have mem: "rec = 0 \<or> 0 < rec \<and> rec < n \<and> P rec" using assms(2,3) by (auto split: if_splits simp del: last_in_set)
  then show "rec < max 1 n" by auto
  have "k \<le> rec" if "0 < k" "k < n" "P k" for k
  proof -
    have k: "k \<in> set fits" using that assms(2) by simp
    have "sorted fits" unfolding assms(2) by (simp add: sorted_wrt_filter)
    moreover have "fits = butlast fits @ [last fits]" using k by (metis append_butlast_last_id empty_iff empty_set)
    ultimately have "k \<le> last fits" using k by (metis Un_iff empty_iff empty_set insert_iff list.simps(15) set_append sorted_append order_refl)
    then show ?thesis using k assms(3) by auto
  qed
  then show "\<forall>k. 0 < k \<and> k < n \<longrightarrow> (P k \<longleftrightarrow> k \<le> rec)" using mem assms(1) by fastforce
qed

definition plan_sane :: "plan_input \<Rightarrow> bool" where
  "plan_sane x \<longleftrightarrow> 0 \<le> pi_rttMs x \<and> 0 \<le> pi_computeMs x \<and> 0 < pi_baseTps x \<and> 0 < pi_upload x \<and>
     0 < pi_expertsPerLayer x \<and> pi_expertsPerLayer x < pi_nExpert x \<and> 0 < pi_nUsed x \<and> int (pi_nUsed x) \<le> pi_nExpert x"

lemma hit_in_unit:
  "plan_sane x \<Longrightarrow> \<exists>h. hitProbability (pi_nExpert x) (pi_expertsPerLayer x) (pi_nUsed x) = Some h \<and> 0 \<le> h"
proof -
  assume x: "plan_sane x"
  then obtain m where "miss_loop (pi_nExpert x) (pi_expertsPerLayer x) 0 (pi_nUsed x) 1 = Some m" "m \<le> 1"
    using miss_loop_range [of 0 "pi_nUsed x" "pi_nExpert x" "pi_expertsPerLayer x" 1] by (auto simp: plan_sane_def)
  then show ?thesis using x by (auto simp: plan_sane_def hitProbability_def intro: dbl.nonneg)
qed

lemma transferMs_nonneg: "plan_sane x \<Longrightarrow> 0 \<le> transferMs p x"
  unfolding transferMs_def plan_sane_def Let_def by (auto intro!: dbl.nonneg mult_nonneg_nonneg divide_nonneg_nonneg split: option.split)

lemma transferMs_rtt [simp]: "transferMs p (x\<lparr>pi_rttMs := r\<rparr>) = transferMs p x"
  by (cases p) (simp_all add: transferMs_def)

lemma perLayerMs_mono:
  assumes "plan_sane x" "pi_rttMs x \<le> r"
  shows "0 \<le> perLayerMs p x" "perLayerMs p x \<le> perLayerMs p (x\<lparr>pi_rttMs := r\<rparr>)"
proof -
  show "0 \<le> perLayerMs p x" using assms(1) transferMs_nonneg by (auto simp: perLayerMs_def plan_sane_def intro!: dbl.nonneg add_nonneg_nonneg)
  show "perLayerMs p x \<le> perLayerMs p (x\<lparr>pi_rttMs := r\<rparr>)" using assms(2) by (auto simp: perLayerMs_def intro!: fl_mono add_mono)
qed

lemma token_ms_mono:
  assumes "plan_sane x" "pi_rttMs x \<le> r" "0 \<le> h" "j \<le> k"
  shows "0 < token_ms h x j" "token_ms h x j \<le> token_ms h (x\<lparr>pi_rttMs := r\<rparr>) k"
proof -
  note pl = perLayerMs_mono [OF assms(1,2), of "Some h"]
  have j: "0 \<le> fl (of_nat j * h)" "fl (of_nat j * h) \<le> fl (of_nat k * h)"
    using assms(3,4) by (auto intro!: dbl.nonneg fl_mono [OF mult_right_mono])
  have "0 \<le> fl (of_nat k * h)" using j by linarith
  then have "fl (fl (of_nat j * h) * perLayerMs (Some h) x) \<le> fl (fl (of_nat k * h) * perLayerMs (Some h) (x\<lparr>pi_rttMs := r\<rparr>))"
    by (rule fl_mono [OF mult_mono [OF j(2) pl(2) _ pl(1)]])
  then show "token_ms h x j \<le> token_ms h (x\<lparr>pi_rttMs := r\<rparr>) k" unfolding token_ms_def by (intro fl_mono) simp
  have "0 < fl (1000 / pi_baseTps x)" using assms(1) by (intro fl_pos) (simp add: plan_sane_def)
  moreover have "0 \<le> fl (fl (of_nat j * h) * perLayerMs (Some h) x)" using j(1) pl(1) by (intro dbl.nonneg) simp
  ultimately show "0 < token_ms h x j" unfolding token_ms_def by (intro fl_pos) simp
qed

definition meets :: "rat \<Rightarrow> plan_input \<Rightarrow> nat \<Rightarrow> bool" where
  "meets h x k = (pi_targetTps x \<le> fl (1000 / token_ms h x k))"

lemma meets_mono:
  assumes "plan_sane x" "pi_rttMs x \<le> r" "0 \<le> h" "j \<le> k" "meets h (x\<lparr>pi_rttMs := r\<rparr>) k"
  shows "meets h x j"
proof -
  have "fl (1000 / token_ms h (x\<lparr>pi_rttMs := r\<rparr>) k) \<le> fl (1000 / token_ms h x j)"
    using token_ms_mono [OF assms(1-4)] by (intro fl_mono frac_le) auto
  then show ?thesis using assms(5) by (simp add: meets_def)
qed

lemma meets_down: "plan_sane x \<Longrightarrow> 0 \<le> h \<Longrightarrow> j \<le> k \<Longrightarrow> meets h x k \<Longrightarrow> meets h x j"
  using meets_mono [of x "pi_rttMs x" h j k] by simp

lemma recommended_last:
  assumes "hitProbability (pi_nExpert x) (pi_expertsPerLayer x) (pi_nUsed x) = Some h"
  shows "pv_recommendedLayers (planLayers x) =
    (let fits = filter (\<lambda>k. 0 < k \<and> meets h x k) [0..<Suc (pi_maxLayers x)] in if fits = [] then 0 else last fits)"
proof -
  let ?row = "layer_row (Some h) x"
  have "filter (\<lambda>r. 0 < pr_layers r \<and> pr_meetsTarget r) (map ?row ks) = map ?row (filter (\<lambda>k. 0 < k \<and> meets h x k) ks)" for ks
    by (simp add: filter_map o_def layer_row_def meets_def Let_def)
  moreover have "pr_layers (?row k) = k" for k by (simp add: layer_row_def Let_def)
  ultimately show ?thesis by (simp add: planLayers_def assms Let_def last_map del: upt_Suc filter_map)
qed

text \<open>
  The recommendation is the greatest number of layers that meets the target: within the limit, exactly the
  positive numbers of layers up to it meet the target speed, and a node with a shorter round trip is never
  recommended fewer layers.
\<close>
theorem plan_recommends_greatest:
  assumes "plan_sane x"
  shows "(\<forall>k. 0 < k \<and> k \<le> pi_maxLayers x \<longrightarrow> (pr_meetsTarget (pv_rows (planLayers x) ! k) \<longleftrightarrow> k \<le> pv_recommendedLayers (planLayers x))) \<and>
    pv_recommendedLayers (planLayers x) \<le> pi_maxLayers x \<and>
    (\<forall>r. 0 \<le> r \<and> r \<le> pi_rttMs x \<longrightarrow> pv_recommendedLayers (planLayers x) \<le> pv_recommendedLayers (planLayers (x\<lparr>pi_rttMs := r\<rparr>)))"
proof -
  have main: "(\<forall>k. 0 < k \<and> k < Suc (pi_maxLayers y) \<longrightarrow> (meets h y k \<longleftrightarrow> k \<le> pv_recommendedLayers (planLayers y)))"
      "pv_recommendedLayers (planLayers y) \<le> pi_maxLayers y"
    if "plan_sane y" "hitProbability (pi_nExpert y) (pi_expertsPerLayer y) (pi_nUsed y) = Some h" "0 \<le> h" for y h
    using last_filter_upto [OF _ refl refl, of "meets h y" "Suc (pi_maxLayers y)"] meets_down [OF that(1,3)] recommended_last [OF that(2)]
    by (auto simp: Let_def simp del: upt_Suc)
  obtain h where h: "hitProbability (pi_nExpert x) (pi_expertsPerLayer x) (pi_nUsed x) = Some h" "0 \<le> h" using hit_in_unit [OF assms] by blast
  have row: "pr_meetsTarget (pv_rows (planLayers x) ! k) = meets h x k" if "k \<le> pi_maxLayers x" for k
    using that by (simp add: planLayers_def h(1) layer_row_def meets_def Let_def del: upt_Suc)
  have "pv_recommendedLayers (planLayers x) \<le> pv_recommendedLayers (planLayers (x\<lparr>pi_rttMs := r\<rparr>))" if r: "0 \<le> r" "r \<le> pi_rttMs x" for r
  proof (cases "pv_recommendedLayers (planLayers x) = 0")
    case False
    let ?y = "x\<lparr>pi_rttMs := r\<rparr>" and ?k = "pv_recommendedLayers (planLayers x)"
    have y: "plan_sane ?y" using assms r(1) by (simp add: plan_sane_def)
    have "meets h x ?k" using main [OF assms h] False by simp
    then have "meets h ?y ?k" using meets_mono [of ?y "pi_rttMs x" h ?k ?k] y h(2) r(2) by simp
    then show ?thesis using main [OF y _ h(2)] h(1) False main(2) [OF assms h] by simp
  qed simp
  then show ?thesis using main [OF assms h] row by (simp add: less_Suc_eq_le)
qed

section \<open>The choice\<close>

lemma best_min:
  assumes "best ts = Some i"
  obtains t where "t \<in> set ts" "ready (tg_state t)" "tg_id t = i"
    "\<And>u. u \<in> set ts \<Longrightarrow> ready (tg_state u) \<Longrightarrow> score (tg_serving t) (tg_state t) \<le> score (tg_serving u) (tg_state u)"
proof -
  let ?k = "\<lambda>t. score (tg_serving t) (tg_state t)"
  let ?s = "sort_key ?k (filter (\<lambda>t. ready (tg_state t)) ts)"
  obtain t rest where s: "?s = t # rest" "tg_id t = i" using assms by (auto simp: best_def split: list.splits)
  have "sorted (map ?k (t # rest))" using sorted_sort_key [of ?k] s(1) by metis
  moreover have set: "set (t # rest) = {t \<in> set ts. ready (tg_state t)}" using s(1) by (metis set_sort set_filter)
  ultimately show ?thesis using that [of t] s(2) by fastforce
qed

text \<open>
  A backbone that only answers is never chosen over one that serves: the chosen target was measured; if any measured
  target serves, it serves; among those with the same answer to that it has the most recommended layers, and among
  those the shortest round trip. Nothing is chosen only when nothing was measured.
\<close>
theorem best_serves:
  "(best ts = None \<longleftrightarrow> (\<forall>t \<in> set ts. \<not> ready (tg_state t))) \<and>
   (\<forall>i. best ts = Some i \<longrightarrow> (\<exists>t \<in> set ts. \<exists>r v. tg_id t = i \<and> tg_state t = TReady r v \<and>
      (\<forall>u \<in> set ts. \<forall>r' v'. tg_state u = TReady r' v' \<longrightarrow>
         (tg_serving u \<longrightarrow> tg_serving t) \<and>
         (tg_serving u = tg_serving t \<longrightarrow> pv_recommendedLayers v' \<le> pv_recommendedLayers v \<and>
            (pv_recommendedLayers v' = pv_recommendedLayers v \<longrightarrow> rt_p50 r \<le> rt_p50 r')))))"
proof (intro conjI allI impI)
  have "best ts = None \<longleftrightarrow> sort_key (\<lambda>t. score (tg_serving t) (tg_state t)) (filter (\<lambda>t. ready (tg_state t)) ts) = []"
    by (simp add: best_def split: list.split)
  also have "\<dots> \<longleftrightarrow> filter (\<lambda>t. ready (tg_state t)) ts = []" by (metis length_0_conv length_sort)
  finally show "best ts = None \<longleftrightarrow> (\<forall>t \<in> set ts. \<not> ready (tg_state t))" by (simp add: filter_empty_conv)
next
  fix i
  assume "best ts = Some i"
  then obtain t where t: "t \<in> set ts" "ready (tg_state t)" "tg_id t = i"
    "\<And>u. u \<in> set ts \<Longrightarrow> ready (tg_state u) \<Longrightarrow> score (tg_serving t) (tg_state t) \<le> score (tg_serving u) (tg_state u)" by (rule best_min) blast
  then obtain r v where rv: "tg_state t = TReady r v" by (cases "tg_state t") auto
  have "(tg_serving u \<longrightarrow> tg_serving t) \<and> (tg_serving u = tg_serving t \<longrightarrow> pv_recommendedLayers v' \<le> pv_recommendedLayers v \<and>
      (pv_recommendedLayers v' = pv_recommendedLayers v \<longrightarrow> rt_p50 r \<le> rt_p50 r'))"
    if "u \<in> set ts" "tg_state u = TReady r' v'" for u r' v'
    using t(4) [OF that(1)] that(2) rv by (auto simp: less_eq_prod_simp split: if_splits)
  then show "\<exists>t \<in> set ts. \<exists>r v. tg_id t = i \<and> tg_state t = TReady r v \<and>
      (\<forall>u \<in> set ts. \<forall>r' v'. tg_state u = TReady r' v' \<longrightarrow> (tg_serving u \<longrightarrow> tg_serving t) \<and>
         (tg_serving u = tg_serving t \<longrightarrow> pv_recommendedLayers v' \<le> pv_recommendedLayers v \<and>
            (pv_recommendedLayers v' = pv_recommendedLayers v \<longrightarrow> rt_p50 r \<le> rt_p50 r')))" using t rv by blast
qed

text \<open>At most one round of probes is in flight, and its results replace what was shown.\<close>

lemma refresh_single_flight:
  assumes "pn_probes pn = (if pn_running pn then 1 else 0)"
  shows "pn_probes (refresh_targets pn) = 1" "pn_probes (refresh_measured r pn) = 0" "map tg_id (pn_targets (refresh_measured r pn)) = map tg_id (pn_targets pn)"
  using assms by (auto simp: refresh_targets_def refresh_measured_def)

section \<open>Witnesses\<close>

theorem probe_exact_witness:
  "\<exists>r. probeRtt [Inr 30, Inl ''timeout'', Inr 20] = Inr r \<and> rt_min r \<le> rt_p50 r \<and> rt_p50 r \<le> rt_p90 r \<and> rt_failed r = 1"
proof -
  have "\<exists>r. probeRtt [Inr 30, Inl ''timeout'', Inr 20] = Inr r \<and> rt_failed r = 1" by (simp add: probeRtt_def Let_def)
  then show ?thesis using probe_exact [of "[Inr 30, Inl ''timeout'', Inr 20]"] by auto
qed

theorem hit_probability_correct_witness:
  "\<exists>p. hitProbability 4 1 2 = Some p \<and> \<bar>p - 1/2\<bar> \<le> (1 + 1 / 2 ^ 53) ^ 4 - 1 + 1 / 2 ^ 53"
proof -
  have c: "(3 choose 2) = 3" "(4 choose 2) = 6" by (simp_all add: numeral_eq_Suc)
  have "\<exists>p. hitProbability 4 1 2 = Some p \<and>
      \<bar>p - (1 - of_nat (nat (4 - 1) choose 2) / of_nat (nat 4 choose 2))\<bar> \<le> (1 + 1 / 2 ^ 53) ^ (2 * 2) - 1 + 1 / 2 ^ 53"
    using hit_probability_correct [of 1 4 2] by auto
  then show ?thesis by (simp add: c)
qed

definition flash_plan :: plan_input where
  "flash_plan = \<lparr>pi_rttMs = 21, pi_computeMs = 2, pi_baseTps = 67/10, pi_nExpert = 288, pi_nUsed = 8, pi_expertsPerLayer = 64, pi_nEmbd = 4096,
     pi_upload = 5000000, pi_maxLayers = 8, pi_targetTps = 5, pi_wire = ''v1''\<rparr>"

theorem plan_recommends_greatest_witness:
  "plan_sane flash_plan \<and> pv_recommendedLayers (planLayers flash_plan) \<le> 8 \<and>
   pv_recommendedLayers (planLayers flash_plan) \<le> pv_recommendedLayers (planLayers (flash_plan\<lparr>pi_rttMs := 5\<rparr>))"
proof -
  have s: "plan_sane flash_plan" "pi_maxLayers flash_plan = 8" "pi_rttMs flash_plan = 21" by (simp_all add: plan_sane_def flash_plan_def)
  then show ?thesis using plan_recommends_greatest [OF s(1)] by auto
qed

definition plan_target :: "string \<Rightarrow> bool \<Rightarrow> nat \<Rightarrow> rat \<Rightarrow> target" where
  "plan_target i srv k ms = \<lparr>tg_id = i, tg_serving = srv,
     tg_state = TReady \<lparr>rt_p50 = ms, rt_p90 = ms, rt_min = ms, rt_samples = 1, rt_failed = 0\<rparr>
       \<lparr>pv_perLayerMs = 0, pv_hitProbability = None, pv_rows = [], pv_recommendedLayers = k\<rparr>\<rparr>"

theorem best_serves_witness:
  "best [plan_target ''fast'' False 8 1, plan_target ''live'' True 1 90] = Some ''live''"
proof -
  let ?ts = "[plan_target ''fast'' False 8 1, plan_target ''live'' True 1 90]"
  have r: "ready (tg_state (plan_target ''live'' True 1 90))" by (simp add: plan_target_def)
  then have "best ?ts \<noteq> None" using conjunct1 [OF best_serves [of ?ts]] by auto
  then obtain i where i: "best ?ts = Some i" by blast
  from mp [OF spec [OF conjunct2 [OF best_serves [of ?ts]], of i] i]
  obtain t where t: "t \<in> set ?ts" "tg_id t = i"
    "\<forall>u \<in> set ?ts. \<forall>r' v'. tg_state u = TReady r' v' \<longrightarrow> tg_serving u \<longrightarrow> tg_serving t" by blast
  obtain r' v' where "tg_state (plan_target ''live'' True 1 90) = TReady r' v'" by (simp add: plan_target_def)
  then have "tg_serving t" using t(3) by (auto simp: plan_target_def)
  then show ?thesis using i t(1,2) by (auto simp: plan_target_def)
qed

end
