(* ===== verification/Desktop_LiveRing.thy ===== *)
theory Desktop_LiveRing
  imports Bridge_Http
begin

text \<open>
  What a desktop node says about its pipeline stages (\<^verbatim>\<open>wallet/desktop/electron/liveRing.cjs\<close>): the report made from the
  agent's last inspection and the contribution feed (\<open>liveRing\<close>), the observation that fetches the feed
  (\<open>observeLiveRing\<close>) and the cache that is read on every poll of the interface. The parsed address of the feed is an
  argument; a field of a feed row is \<open>None\<close> when it is absent or of another type.
\<close>

section \<open>The report\<close>

record ring_node =
  rn_nodeId :: string
  rn_generation :: nat

record agent_view =
  ag_snapshotAt :: "int option"
  ag_running :: bool
  ag_lastError :: bool
  ag_address :: string
  ag_pid :: nat
  ag_nodes :: "ring_node list"

record feed_row =
  fr_node_id :: string
  fr_agent :: "string option"
  fr_perf_tps :: "rat option"
  fr_last_work :: "rat option"
  fr_model :: "string option"

record experts_view =
  ex_servingSlots :: nat
  ex_relayBytes :: "rat list"

datatype ring_state = Unavailable | Stale | Idle | Live

record stage_view =
  sv_nodeId :: string
  sv_model :: "string option"
  sv_lastWorkAt :: "rat option"
  sv_state :: ring_state
  sv_tps :: "rat option"
  sv_reasonCode :: "string option"

record ring_view =
  rv_state :: ring_state
  rv_source :: "string option"
  rv_observedAt :: int
  rv_lastWorkAt :: "rat option"
  rv_relayBytes :: rat
  rv_stages :: "stage_view list"
  rv_reasonCode :: "string option"

definition rate_of :: "feed_row \<Rightarrow> rat option" where
  "rate_of r = (case fr_perf_tps r of Some x \<Rightarrow> if 0 < x then Some x else None | None \<Rightarrow> None)"

definition work_of :: "int \<Rightarrow> feed_row \<Rightarrow> rat option" where
  "work_of now r = (case fr_last_work r of Some x \<Rightarrow> if 0 < x \<and> x \<le> of_int now then Some x else None | None \<Rightarrow> None)"

definition model_of :: "feed_row \<Rightarrow> string option" where
  "model_of r = (case fr_model r of Some m \<Rightarrow> if m = '''' then None else Some m | None \<Rightarrow> None)"

definition row_state :: "int \<Rightarrow> feed_row \<Rightarrow> ring_state" where
  "row_state now r =
     (case work_of now r of
        None \<Rightarrow> Unavailable
      | Some x \<Rightarrow> if model_of r = None then Unavailable else if 60000 < of_int now - x then Stale else if rate_of r = None then Idle else Live)"

definition matching :: "agent_view \<Rightarrow> string \<Rightarrow> feed_row list \<Rightarrow> feed_row list" where
  "matching agent node rows = filter (\<lambda>r. fr_node_id r = node \<and> fr_agent r = Some (ag_address agent)) rows"

definition stage_of :: "agent_view \<Rightarrow> int \<Rightarrow> feed_row list \<Rightarrow> ring_node \<Rightarrow> stage_view" where
  "stage_of agent now rows node =
     (case matching agent (rn_nodeId node) rows of
        [r] \<Rightarrow> \<lparr>sv_nodeId = rn_nodeId node, sv_model = model_of r, sv_lastWorkAt = work_of now r, sv_state = row_state now r,
               sv_tps = (if row_state now r = Live then rate_of r else None),
               sv_reasonCode = (if work_of now r = None \<or> model_of r = None then Some ''missingMetadata'' else None)\<rparr>
      | _ \<Rightarrow> \<lparr>sv_nodeId = rn_nodeId node, sv_model = None, sv_lastWorkAt = None, sv_state = Unavailable, sv_tps = None, sv_reasonCode = Some ''noMatch''\<rparr>)"

definition overall :: "ring_state list \<Rightarrow> ring_state" where
  "overall ss = (if Live \<in> set ss then Live else if Stale \<in> set ss then Stale else if \<forall>s \<in> set ss. s = Idle then Idle else Unavailable)"

definition max_time :: "rat list \<Rightarrow> rat option" where
  "max_time xs = (case xs of [] \<Rightarrow> None | y # ys \<Rightarrow> Some (fold max ys y))"

definition base_view :: "experts_view \<Rightarrow> string option \<Rightarrow> int \<Rightarrow> ring_view" where
  "base_view ex src now =
     \<lparr>rv_state = Unavailable, rv_source = src, rv_observedAt = now, rv_lastWorkAt = None, rv_relayBytes = js_sum (ex_relayBytes ex),
      rv_stages = [], rv_reasonCode = None\<rparr>"

definition liveRing ::
  "agent_view \<Rightarrow> experts_view \<Rightarrow> feed_row list option \<Rightarrow> string option \<Rightarrow> int \<Rightarrow> bool \<Rightarrow> nat option \<Rightarrow> ring_view" where
  "liveRing agent ex contributions src now failed httpStatus =
     (let b = base_view ex src now
      in case ag_snapshotAt agent of
           None \<Rightarrow> b\<lparr>rv_reasonCode := Some ''agentNotInspected''\<rparr>
         | Some snap \<Rightarrow>
             if 15000 < now - snap then b\<lparr>rv_state := Stale, rv_reasonCode := Some ''agentStale''\<rparr>
             else if \<not> ag_running agent \<or> ag_lastError agent then b\<lparr>rv_reasonCode := Some ''agentUnavailable''\<rparr>
             else if ag_nodes agent = [] then
               b\<lparr>rv_state := (if 0 < ex_servingSlots ex then Unavailable else Idle),
                 rv_reasonCode := Some (if 0 < ex_servingSlots ex then ''expertOnly'' else ''noStage'')\<rparr>
             else case (if failed then None else contributions) of
                    None \<Rightarrow> b\<lparr>rv_reasonCode := Some (if httpStatus = None then ''feedUnavailable'' else ''feedHttp'')\<rparr>
                  | Some rows \<Rightarrow>
                      (let stages = map (stage_of agent now rows) (ag_nodes agent)
                       in b\<lparr>rv_stages := stages, rv_state := overall (map sv_state stages),
                            rv_lastWorkAt := max_time (List.map_filter sv_lastWorkAt stages)\<rparr>))"

text \<open>What the fetch of the feed can end in.\<close>

datatype feed_answer = FeedRows "feed_row list" | FeedOther | FeedStatus nat | FeedThrows

definition wants_feed :: "agent_view \<Rightarrow> int \<Rightarrow> bool" where
  "wants_feed agent now \<longleftrightarrow> ag_running agent \<and> \<not> ag_lastError agent \<and> ag_nodes agent \<noteq> [] \<and>
     (case ag_snapshotAt agent of Some snap \<Rightarrow> snap \<noteq> 0 \<and> now - snap \<le> 15000 | None \<Rightarrow> False)"

definition observeLiveRing ::
  "agent_view \<Rightarrow> experts_view \<Rightarrow> string option \<Rightarrow> int \<Rightarrow> feed_answer \<Rightarrow> int \<Rightarrow> ring_view" where
  "observeLiveRing agent ex src t0 answer now =
     (if src = None then liveRing agent ex None None now True None
      else if \<not> wants_feed agent t0 then liveRing agent ex None src t0 False None
      else case answer of
             FeedStatus st \<Rightarrow> liveRing agent ex None src now True (Some st)
           | FeedRows rows \<Rightarrow> liveRing agent ex (Some rows) src now False None
           | FeedOther \<Rightarrow> liveRing agent ex None src now False None
           | FeedThrows \<Rightarrow> liveRing agent ex None src now True None)"

section \<open>The cache\<close>

text \<open>
  The cache entry is an object: a request started for one entry may only fill that same object, so entries carry an
  identity. \<open>rc_pending\<close> are the requests in flight with the entry each was started for, \<open>rc_starts\<close> the times at
  which requests were started, latest first.
\<close>

type_synonym ring_key = "string \<times> string \<times> nat \<times> bool \<times> (string \<times> nat) multiset"

definition ring_key_of :: "string \<Rightarrow> agent_view \<Rightarrow> ring_key" where
  "ring_key_of baseUrl agent =
     (baseUrl, ag_address agent, ag_pid agent, ag_running agent, mset (map (\<lambda>n. (rn_nodeId n, rn_generation n)) (ag_nodes agent)))"

record ring_entry =
  re_id :: nat
  re_key :: ring_key
  re_value :: "ring_view option"

record ring_cache =
  rc_entry :: "ring_entry option"
  rc_inFlight :: bool
  rc_lastStarted :: "int option"
  rc_nextId :: nat
  rc_pending :: "(nat \<times> ring_key) list"
  rc_starts :: "int list"

definition new_ring_cache :: ring_cache where
  "new_ring_cache = \<lparr>rc_entry = None, rc_inFlight = False, rc_lastStarted = None, rc_nextId = 0, rc_pending = [], rc_starts = []\<rparr>"

definition REFRESH_MS :: int where "REFRESH_MS = 10000"

definition entry_for :: "ring_key \<Rightarrow> ring_cache \<Rightarrow> ring_entry \<times> ring_cache" where
  "entry_for key c =
     (case rc_entry c of
        Some e \<Rightarrow> if re_key e = key then (e, c)
                  else (let e' = \<lparr>re_id = rc_nextId c, re_key = key, re_value = None\<rparr> in (e', c\<lparr>rc_entry := Some e', rc_nextId := rc_nextId c + 1\<rparr>))
      | None \<Rightarrow> (let e' = \<lparr>re_id = rc_nextId c, re_key = key, re_value = None\<rparr> in (e', c\<lparr>rc_entry := Some e', rc_nextId := rc_nextId c + 1\<rparr>)))"

definition age_stage :: "int \<Rightarrow> stage_view \<Rightarrow> stage_view" where
  "age_stage t s =
     (case sv_lastWorkAt s of
        Some x \<Rightarrow> if x \<noteq> 0 \<and> 60000 < of_int t - x then s\<lparr>sv_state := Stale, sv_tps := None\<rparr> else s
      | None \<Rightarrow> s)"

definition aged :: "int \<Rightarrow> rat \<Rightarrow> ring_view \<Rightarrow> ring_view" where
  "aged t bytes v =
     (let stages = map (age_stage t) (rv_stages v)
      in v\<lparr>rv_stages := stages, rv_state := (if stages = [] then rv_state v else overall (map sv_state stages)), rv_relayBytes := bytes\<rparr>)"

definition agent_code :: "string option \<Rightarrow> bool" where
  "agent_code code = (case code of Some s \<Rightarrow> starts_with s ''agent'' | None \<Rightarrow> False)"

definition cachedLiveRing ::
  "int \<Rightarrow> agent_view \<Rightarrow> experts_view \<Rightarrow> string \<Rightarrow> string option \<Rightarrow> ring_cache \<Rightarrow> ring_view \<times> ring_cache" where
  "cachedLiveRing t agent ex baseUrl src c0 =
     (case entry_for (ring_key_of baseUrl agent) c0 of (e, c) \<Rightarrow>
        let fallback = liveRing agent ex None src t False None
        in if agent_code (rv_reasonCode fallback) \<or> ag_nodes agent = [] then (fallback, c\<lparr>rc_entry := None\<rparr>)
           else let due = (case rc_lastStarted c of Some s \<Rightarrow> REFRESH_MS \<le> t - s | None \<Rightarrow> True);
                    c1 = (if \<not> rc_inFlight c \<and> due
                          then c\<lparr>rc_inFlight := True, rc_lastStarted := Some t, rc_pending := (re_id e, re_key e) # rc_pending c, rc_starts := t # rc_starts c\<rparr>
                          else c)
                in case re_value e of
                     None \<Rightarrow> (fallback, c1)
                   | Some v \<Rightarrow> (aged t (rv_relayBytes fallback) v, c1))"

text \<open>A request ends: its value goes into the entry it was started for, if that is still the current one.\<close>

definition ring_observed :: "nat \<times> ring_key \<Rightarrow> ring_view \<Rightarrow> ring_cache \<Rightarrow> ring_cache" where
  "ring_observed req v c =
     c\<lparr>rc_entry := (case rc_entry c of Some e \<Rightarrow> if re_id e = fst req then Some (e\<lparr>re_value := Some v\<rparr>) else Some e | None \<Rightarrow> None),
       rc_inFlight := False, rc_pending := remove1 req (rc_pending c)\<rparr>"

inductive cache_step :: "int \<times> ring_cache \<Rightarrow> int \<times> ring_cache \<Rightarrow> bool" where
  read: "t \<le> t' \<Longrightarrow> cache_step (t, c) (t', snd (cachedLiveRing t' agent ex baseUrl src c))"
| settled: "req \<in> set (rc_pending c) \<Longrightarrow> t \<le> t' \<Longrightarrow> t0 \<le> t' \<Longrightarrow> ring_key_of baseUrl agent = snd req \<Longrightarrow>
    cache_step (t, c) (t', ring_observed req (observeLiveRing agent ex src t0 answer t') c)"

section \<open>What is reported is what was fed\<close>

definition evidence :: "agent_view \<Rightarrow> int \<Rightarrow> string \<Rightarrow> rat \<Rightarrow> feed_row list \<Rightarrow> bool" where
  "evidence agent now node x rows \<longleftrightarrow> (\<exists>r. matching agent node rows = [r] \<and> fr_perf_tps r = Some x \<and> 0 < x \<and>
     (\<exists>w. fr_last_work r = Some w \<and> w \<le> of_int now \<and> of_int now - w \<le> 60000) \<and> (\<exists>m. fr_model r = Some m \<and> m \<noteq> ''''))"

lemma row_state_live:
  assumes "row_state now r = Live"
  shows "\<exists>x. fr_perf_tps r = Some x \<and> 0 < x \<and> rate_of r = Some x" "\<exists>w. fr_last_work r = Some w \<and> w \<le> of_int now \<and> of_int now - w \<le> 60000"
    "\<exists>m. fr_model r = Some m \<and> m \<noteq> ''''" "work_of now r \<noteq> None"
  using assms by (auto simp: row_state_def rate_of_def work_of_def model_of_def split: option.splits if_splits)

lemma stage_of_cases:
  obtains (one) r where "matching agent (rn_nodeId node) rows = [r]" "sv_state (stage_of agent now rows node) = row_state now r"
      "sv_tps (stage_of agent now rows node) = (if row_state now r = Live then rate_of r else None)"
      "sv_lastWorkAt (stage_of agent now rows node) = work_of now r" "sv_nodeId (stage_of agent now rows node) = rn_nodeId node"
  | (none) "sv_state (stage_of agent now rows node) = Unavailable" "sv_tps (stage_of agent now rows node) = None"
proof (cases "\<exists>r. matching agent (rn_nodeId node) rows = [r]")
  case True
  then show ?thesis using one by (auto simp: stage_of_def)
next
  case False
  then show ?thesis using none by (auto simp: stage_of_def split: list.split)
qed

lemma stage_of_tps:
  "sv_tps (stage_of agent now rows node) = Some x \<Longrightarrow> evidence agent now (sv_nodeId (stage_of agent now rows node)) x rows"
proof (rule stage_of_cases [of agent node rows now])
  fix r
  assume "sv_tps (stage_of agent now rows node) = Some x" and r: "matching agent (rn_nodeId node) rows = [r]"
    and "sv_tps (stage_of agent now rows node) = (if row_state now r = Live then rate_of r else None)"
    and n: "sv_nodeId (stage_of agent now rows node) = rn_nodeId node"
  then have "row_state now r = Live" "rate_of r = Some x" by (auto split: if_splits)
  then show ?thesis using row_state_live(1-3) [of now r] r n unfolding evidence_def by auto
qed simp

lemma stage_of_live:
  "sv_state (stage_of agent now rows node) = Live \<Longrightarrow>
     sv_tps (stage_of agent now rows node) \<noteq> None \<and> sv_lastWorkAt (stage_of agent now rows node) \<noteq> None"
  by (rule stage_of_cases [of agent node rows now]) (auto dest: row_state_live)

lemma overall_live [simp]: "overall ss = Live \<longleftrightarrow> Live \<in> set ss"
  by (auto simp: overall_def)

lemma liveRing_stages:
  assumes "rv_stages (liveRing agent ex cs src now failed st) \<noteq> []"
  obtains rows where "cs = Some rows" "\<not> failed" "ag_running agent" "\<not> ag_lastError agent"
    "\<exists>snap. ag_snapshotAt agent = Some snap \<and> now - snap \<le> 15000"
    "rv_stages (liveRing agent ex cs src now failed st) = map (stage_of agent now rows) (ag_nodes agent)"
    "rv_state (liveRing agent ex cs src now failed st) = overall (map sv_state (map (stage_of agent now rows) (ag_nodes agent)))"
  using assms by (auto simp: liveRing_def base_view_def Let_def split: option.splits if_splits)

lemma liveRing_no_stages: "rv_stages (liveRing agent ex cs src now failed st) = [] \<Longrightarrow> rv_state (liveRing agent ex cs src now failed st) \<noteq> Live"
  by (auto simp: liveRing_def base_view_def Let_def split: option.splits if_splits)

text \<open>
  Nothing is called live on weak evidence: a throughput figure is shown for a stage only when exactly one row of the feed
  names both the stage and the address of the agent, the figure is that row's, positive, the row names a
  model and work done no more than a minute ago and not in the future, and the agent was inspected within fifteen seconds and
  runs without an error. The whole report is live exactly when a stage is.
\<close>
theorem live_needs_evidence:
  "(\<forall>s \<in> set (rv_stages (liveRing agent ex cs src now failed st)). \<forall>x. sv_tps s = Some x \<longrightarrow>
      ag_running agent \<and> \<not> ag_lastError agent \<and> (\<exists>snap. ag_snapshotAt agent = Some snap \<and> now - snap \<le> 15000) \<and>
      (\<exists>rows. cs = Some rows \<and> evidence agent now (sv_nodeId s) x rows)) \<and>
   (rv_state (liveRing agent ex cs src now failed st) = Live \<longleftrightarrow>
      (\<exists>s \<in> set (rv_stages (liveRing agent ex cs src now failed st)). sv_state s = Live \<and> sv_tps s \<noteq> None))"
proof (cases "rv_stages (liveRing agent ex cs src now failed st) = []")
  case True
  then show ?thesis using liveRing_no_stages by simp
next
  case False
  then obtain rows where rows: "cs = Some rows" "ag_running agent" "\<not> ag_lastError agent"
    "\<exists>snap. ag_snapshotAt agent = Some snap \<and> now - snap \<le> 15000"
    and st: "rv_stages (liveRing agent ex cs src now failed st) = map (stage_of agent now rows) (ag_nodes agent)"
    and ov: "rv_state (liveRing agent ex cs src now failed st) = overall (map sv_state (map (stage_of agent now rows) (ag_nodes agent)))"
    by (rule liveRing_stages) blast
  have "\<exists>rows. cs = Some rows \<and> evidence agent now (sv_nodeId s) x rows" if "s \<in> set (map (stage_of agent now rows) (ag_nodes agent))" "sv_tps s = Some x" for s x
    using that rows(1) stage_of_tps by auto
  moreover have "Live \<in> set (map sv_state (map (stage_of agent now rows) (ag_nodes agent))) \<longleftrightarrow>
      (\<exists>s \<in> set (map (stage_of agent now rows) (ag_nodes agent)). sv_state s = Live)" by (force simp: image_iff)
  moreover have "sv_tps s \<noteq> None" if "s \<in> set (map (stage_of agent now rows) (ag_nodes agent))" "sv_state s = Live" for s
    using that stage_of_live by auto
  ultimately show ?thesis unfolding st ov overall_live using rows(2-4) by (intro conjI ballI allI impI iffI) auto
qed

section \<open>The cache ages what it holds\<close>

definition view_ok :: "ring_view \<Rightarrow> bool" where
  "view_ok v \<longleftrightarrow> (\<forall>s \<in> set (rv_stages v). sv_state s = Live \<longrightarrow> (\<exists>x. sv_lastWorkAt s = Some x \<and> 0 < x)) \<and> (rv_stages v = [] \<longrightarrow> rv_state v \<noteq> Live)"

lemma liveRing_ok: "view_ok (liveRing agent ex cs src now failed st)"
proof (cases "rv_stages (liveRing agent ex cs src now failed st) = []")
  case True
  then show ?thesis using liveRing_no_stages by (simp add: view_ok_def)
next
  case False
  then obtain rows where st: "rv_stages (liveRing agent ex cs src now failed st) = map (stage_of agent now rows) (ag_nodes agent)"
    by (rule liveRing_stages) blast
  have "\<exists>x. sv_lastWorkAt (stage_of agent now rows n) = Some x \<and> 0 < x" if "sv_state (stage_of agent now rows n) = Live" for n
    by (rule stage_of_cases [of agent n rows now]) (use that in \<open>auto simp: row_state_def work_of_def split: option.splits if_splits\<close>)
  then show ?thesis using False by (simp add: view_ok_def st)
qed

lemma observe_ok: "view_ok (observeLiveRing agent ex src t0 answer now)"
  using liveRing_ok by (auto simp: observeLiveRing_def split: feed_answer.split)

lemma aged_live:
  assumes "view_ok v" "rv_state (aged t bytes v) = Live"
  shows "\<exists>s \<in> set (rv_stages (aged t bytes v)). sv_state s = Live \<and> (\<exists>x. sv_lastWorkAt s = Some x \<and> of_int t - x \<le> 60000)"
proof -
  have "rv_stages v \<noteq> []" using assms by (auto simp: aged_def view_ok_def Let_def)
  then obtain s where s: "s \<in> set (rv_stages v)" "sv_state (age_stage t s) = Live" using assms(2) by (force simp: aged_def Let_def)
  then have "sv_state s = Live" by (auto simp: age_stage_def split: option.splits if_splits)
  then obtain x where "sv_lastWorkAt s = Some x" "0 < x" using assms(1) s(1) by (auto simp: view_ok_def)
  then have "of_int t - x \<le> 60000" "sv_lastWorkAt (age_stage t s) = Some x" using s(2) by (auto simp: age_stage_def split: if_splits)
  then show ?thesis using s by (auto simp: aged_def Let_def)
qed

section \<open>The cache asks rarely and never mixes identities\<close>

definition spaced :: "int list \<Rightarrow> bool" where
  "spaced ts = sorted_wrt (\<lambda>later earlier. earlier + REFRESH_MS \<le> later) ts"

definition cache_ok :: "int \<Rightarrow> ring_cache \<Rightarrow> bool" where
  "cache_ok t c \<longleftrightarrow> length (rc_pending c) = (if rc_inFlight c then 1 else 0) \<and> spaced (rc_starts c) \<and>
     rc_lastStarted c = (case rc_starts c of [] \<Rightarrow> None | s # _ \<Rightarrow> Some s) \<and>
     (\<forall>req \<in> set (rc_pending c). fst req < rc_nextId c) \<and>
     (\<forall>e. rc_entry c = Some e \<longrightarrow> re_id e < rc_nextId c \<and> (\<forall>req \<in> set (rc_pending c). fst req = re_id e \<longrightarrow> snd req = re_key e) \<and>
        (\<forall>v. re_value e = Some v \<longrightarrow> view_ok v))"

lemma fresh_entry_ok:
  assumes "cache_ok t c"
  shows "cache_ok t (c\<lparr>rc_entry := Some \<lparr>re_id = rc_nextId c, re_key = key, re_value = None\<rparr>, rc_nextId := rc_nextId c + 1\<rparr>)"
proof -
  have new: "\<forall>req \<in> set (rc_pending c). fst req < rc_nextId c" using assms by (simp add: cache_ok_def)
  then have "\<forall>req \<in> set (rc_pending c). fst req < rc_nextId c + 1" "\<forall>req \<in> set (rc_pending c). fst req = rc_nextId c \<longrightarrow> snd req = key"
    by (auto intro: less_SucI)
  then show ?thesis using assms by (simp add: cache_ok_def)
qed

lemma entry_for_ok:
  assumes "cache_ok t c" "entry_for key c = (e, c')"
  shows "cache_ok t c' \<and> rc_entry c' = Some e \<and> re_key e = key"
  using assms fresh_entry_ok [OF assms(1), of key] by (auto simp: entry_for_def Let_def split: option.splits if_splits)

lemma spaced_Cons: "spaced (s # ts) \<Longrightarrow> s + REFRESH_MS \<le> t \<Longrightarrow> spaced (t # s # ts)"
  by (fastforce simp: spaced_def REFRESH_MS_def)

lemma read_ok:
  assumes "cache_ok t c" "t \<le> t'"
  shows "cache_ok t' (snd (cachedLiveRing t' agent ex baseUrl src c))"
proof -
  obtain e c1 where e: "entry_for (ring_key_of baseUrl agent) c = (e, c1)" by fastforce
  have ok: "cache_ok t c1" "rc_entry c1 = Some e" using entry_for_ok [OF assms(1) e] by simp_all
  have c1: "cache_ok t' c1" using ok(1) by (simp add: cache_ok_def)
  let ?started = "c1\<lparr>rc_inFlight := True, rc_lastStarted := Some t', rc_pending := (re_id e, re_key e) # rc_pending c1, rc_starts := t' # rc_starts c1\<rparr>"
  have drop: "cache_ok t' (c1\<lparr>rc_entry := None\<rparr>)" using c1 by (simp add: cache_ok_def)
  have start: "cache_ok t' ?started" if "\<not> rc_inFlight c1" "case rc_lastStarted c1 of Some s \<Rightarrow> REFRESH_MS \<le> t' - s | None \<Rightarrow> True"
  proof -
    have "spaced (t' # rc_starts c1)"
      using c1 that(2) by (cases "rc_starts c1") (auto simp: cache_ok_def spaced_Cons, simp add: spaced_def)
    then show ?thesis using c1 ok(2) that(1) by (auto simp: cache_ok_def)
  qed
  show ?thesis using drop start c1 by (simp add: cachedLiveRing_def e Let_def split: option.split)
qed

lemma settled_ok:
  assumes "cache_ok t c" "req \<in> set (rc_pending c)" "t \<le> t'" "view_ok v"
  shows "cache_ok t' (ring_observed req v c)"
proof -
  have "length (rc_pending c) = 1" using assms(1,2) by (auto simp: cache_ok_def split: if_splits)
  then have "rc_pending c = [req]" using assms(2) by (cases "rc_pending c") auto
  then show ?thesis using assms by (auto simp: cache_ok_def ring_observed_def split: option.splits if_splits)
qed

lemma cache_step_ok: "cache_step (t, c) (t', c') \<Longrightarrow> cache_ok t c \<Longrightarrow> cache_ok t' c'"
  by (erule cache_step.cases) (auto intro: read_ok settled_ok observe_ok)

text \<open>
  C32: The cache is frugal and truthful: in every state it can reach, at most one request is in flight, any two requests were
  started at least ten seconds apart, the answer of the one in flight can only go into an entry of the identity it was
  started for, and a read reports live work only when a stage of the report did work within the last minute before
  the read, however old the cached answer is.
\<close>
theorem ring_cache_truthful:
  assumes "cache_step\<^sup>*\<^sup>* (t0, new_ring_cache) (t, c)" "t \<le> now"
  shows "length (rc_pending c) \<le> 1 \<and> sorted_wrt (\<lambda>later earlier. earlier + 10000 \<le> later) (rc_starts c) \<and>
    (\<forall>req \<in> set (rc_pending c). \<forall>v e'. rc_entry (ring_observed req v c) = Some e' \<and> rc_entry c \<noteq> Some e' \<longrightarrow> re_key e' = snd req) \<and>
    (rv_state (fst (cachedLiveRing now agent ex baseUrl src c)) = Live \<longrightarrow>
       (\<exists>s \<in> set (rv_stages (fst (cachedLiveRing now agent ex baseUrl src c))).
          sv_state s = Live \<and> (\<exists>x. sv_lastWorkAt s = Some x \<and> of_int now - x \<le> 60000)))"
proof -
  have ok: "cache_ok t c" using assms(1)
  proof (induction "(t, c)" arbitrary: t c rule: rtranclp_induct)
    case base
    show ?case by (simp add: cache_ok_def new_ring_cache_def spaced_def)
  next
    case (step y)
    then show ?case using cache_step_ok by (cases y) blast
  qed
  obtain e c1 where e: "entry_for (ring_key_of baseUrl agent) c = (e, c1)" by fastforce
  have val: "\<forall>v. re_value e = Some v \<longrightarrow> view_ok v" using entry_for_ok [OF ok e] by (auto simp: cache_ok_def)
  have "rv_state (liveRing agent ex None src now False None) \<noteq> Live"
    by (auto simp: liveRing_def base_view_def Let_def split: option.splits)
  then have "rv_state (fst (cachedLiveRing now agent ex baseUrl src c)) = Live \<longrightarrow>
      (\<exists>v. view_ok v \<and> fst (cachedLiveRing now agent ex baseUrl src c) = aged now (rv_relayBytes (liveRing agent ex None src now False None)) v)"
    using val by (auto simp: cachedLiveRing_def e Let_def split: option.splits if_splits)
  moreover have "\<forall>req \<in> set (rc_pending c). \<forall>v e'. rc_entry (ring_observed req v c) = Some e' \<and> rc_entry c \<noteq> Some e' \<longrightarrow> re_key e' = snd req"
    using ok by (auto simp: cache_ok_def ring_observed_def split: option.splits if_splits)
  ultimately show ?thesis using ok aged_live by (fastforce simp: cache_ok_def spaced_def REFRESH_MS_def)
qed

section \<open>Against this bridge\<close>

text \<open>The fields of the bridge's feed that the desktop looks at: it names neither a model nor a time of work.\<close>

definition feed_of :: "contribution_row list \<Rightarrow> feed_row list" where
  "feed_of rows = map (\<lambda>w. \<lparr>fr_node_id = cw_node w, fr_agent = cw_agent w, fr_perf_tps = cw_tps w, fr_last_work = None, fr_model = None\<rparr>) rows"

text \<open>
  With the feed of the bridge of this repository the desktop never claims live work: every stage is unavailable, and no
  throughput is shown, whatever the ledger holds.
\<close>
theorem bridge_feed_never_live:
  "rv_state (liveRing agent ex (Some (feed_of (get_contributions operator t))) src now failed st) \<noteq> Live \<and>
   (\<forall>s \<in> set (rv_stages (liveRing agent ex (Some (feed_of (get_contributions operator t))) src now failed st)). sv_state s = Unavailable \<and> sv_tps s = None)"
proof -
  let ?rows = "feed_of (get_contributions operator t)"
  have "row_state now r = Unavailable" if "r \<in> set ?rows" for r using that by (auto simp: feed_of_def row_state_def work_of_def)
  then have row: "row_state now r = Unavailable" if "matching agent n ?rows = [r]" for r n
    using that by (metis filter_is_subset list.set_intros(1) matching_def subsetD)
  have un: "sv_state (stage_of agent now ?rows n) = Unavailable \<and> sv_tps (stage_of agent now ?rows n) = None" for n
    by (rule stage_of_cases [of agent n ?rows now]) (auto dest: row)
  show ?thesis
  proof (cases "rv_stages (liveRing agent ex (Some ?rows) src now failed st) = []")
    case True
    then show ?thesis using liveRing_no_stages by simp
  next
    case False
    then have "rv_stages (liveRing agent ex (Some ?rows) src now failed st) = map (stage_of agent now ?rows) (ag_nodes agent) \<and>
        rv_state (liveRing agent ex (Some ?rows) src now failed st) = overall (map sv_state (map (stage_of agent now ?rows) (ag_nodes agent)))"
      by (rule liveRing_stages) auto
    then show ?thesis using un by auto
  qed
qed

section \<open>Witnesses\<close>

definition demo_agent :: agent_view where
  "demo_agent = \<lparr>ag_snapshotAt = Some 99000, ag_running = True, ag_lastError = False, ag_address = ''a'', ag_pid = 1,
     ag_nodes = [\<lparr>rn_nodeId = ''n'', rn_generation = 0\<rparr>]\<rparr>"

definition live_row :: feed_row where
  "live_row = \<lparr>fr_node_id = ''n'', fr_agent = Some ''a'', fr_perf_tps = Some 5, fr_last_work = Some 90000, fr_model = Some ''m''\<rparr>"

theorem live_needs_evidence_witness:
  "rv_state (liveRing demo_agent \<lparr>ex_servingSlots = 0, ex_relayBytes = []\<rparr> (Some [live_row]) None 100000 False None) = Live \<and>
   evidence demo_agent 100000 ''n'' 5 [live_row]"
proof -
  let ?v = "liveRing demo_agent \<lparr>ex_servingSlots = 0, ex_relayBytes = []\<rparr> (Some [live_row]) None 100000 False None"
  have v: "rv_stages ?v = [\<lparr>sv_nodeId = ''n'', sv_model = Some ''m'', sv_lastWorkAt = Some 90000, sv_state = Live, sv_tps = Some 5, sv_reasonCode = None\<rparr>]"
    by (simp add: liveRing_def base_view_def demo_agent_def live_row_def stage_of_def matching_def row_state_def rate_of_def work_of_def model_of_def Let_def)
  then show ?thesis
    using live_needs_evidence [of demo_agent "\<lparr>ex_servingSlots = 0, ex_relayBytes = []\<rparr>" "Some [live_row]" None 100000 False None] by simp
qed

theorem ring_cache_truthful_witness:
  "let c = snd (cachedLiveRing 100000 demo_agent \<lparr>ex_servingSlots = 0, ex_relayBytes = []\<rparr> ''u'' (Some ''s'') new_ring_cache)
   in length (rc_pending c) = 1 \<and> rc_starts c = [100000] \<and> sorted_wrt (\<lambda>later earlier. earlier + 10000 \<le> later) (rc_starts c)"
proof -
  let ?ex = "\<lparr>ex_servingSlots = 0, ex_relayBytes = []\<rparr>"
  define c where "c = snd (cachedLiveRing 100000 demo_agent ?ex ''u'' (Some ''s'') new_ring_cache)"
  have "cache_step\<^sup>*\<^sup>* (0, new_ring_cache) (100000, c)" unfolding c_def by (intro r_into_rtranclp read) simp
  note r = ring_cache_truthful [OF this order_refl, of demo_agent ?ex "''u''" "Some ''s''"]
  have c: "rc_pending c = [(0, ring_key_of ''u'' demo_agent)]" "rc_starts c = [100000]"
    by (simp_all add: c_def cachedLiveRing_def new_ring_cache_def entry_for_def liveRing_def base_view_def demo_agent_def agent_code_def starts_with_def Let_def)
  then show ?thesis using r unfolding c_def [symmetric] Let_def by auto
qed

end
