(* ===== verification/Desktop_Relay.thy ===== *)
theory Desktop_Relay
  imports Tunnel_Protocol
begin

text \<open>
  The two connections by which a desktop node is reached: the life cycle of the tunnel client
  (\<^verbatim>\<open>wallet/desktop/electron/relay.cjs\<close>, whose codec is in \<open>Tunnel_Protocol\<close>) and the SSH forward of an
  operator-listed wallet (\<^verbatim>\<open>wallet/desktop/electron/directRelay.cjs\<close>).

  Sockets, timers and processes are numbered in the order they are made. What the code awaits arrives as an event of its
  own, so every interleaving is a sequence of steps. A destroyed socket delivers no more data, and its close event comes
  later: that is what \<open>rt_closing\<close> holds.
\<close>

section \<open>The tunnel client\<close>

record rtunnel =
  rt_socket :: "nat option"
  rt_live :: "nat list"
  rt_closing :: "nat list"
  rt_streams :: "nat list"
  rt_retry :: nat
  rt_timer :: "nat option"
  rt_armed :: "nat list"
  rt_fresh :: nat
  rt_stopped :: bool
  rt_connected :: bool
  rt_registered :: bool
  rt_advertise :: "string option"
  rt_sent :: "(nat \<times> nat \<times> nat) list"

definition RT_RETRY_MIN :: nat where "RT_RETRY_MIN = 1000"
definition RT_RETRY_MAX :: nat where "RT_RETRY_MAX = 60000"

definition new_rtunnel :: rtunnel where
  "new_rtunnel = \<lparr>rt_socket = None, rt_live = [], rt_closing = [], rt_streams = [], rt_retry = RT_RETRY_MIN, rt_timer = None, rt_armed = [], rt_fresh = 0,
     rt_stopped = True, rt_connected = False, rt_registered = False, rt_advertise = None, rt_sent = []\<rparr>"

definition rt_destroy :: "nat \<Rightarrow> rtunnel \<Rightarrow> rtunnel" where
  "rt_destroy s r =
     (if s \<in> set (rt_live r) then r\<lparr>rt_live := filter (\<lambda>x. x \<noteq> s) (rt_live r), rt_closing := rt_closing r @ [s]\<rparr> else r)"

text \<open>\<open>_send\<close>: type and stream of the frame, on the current socket unless it was destroyed.\<close>

definition rt_send :: "nat \<Rightarrow> nat \<Rightarrow> rtunnel \<Rightarrow> rtunnel" where
  "rt_send ty stream r =
     (case rt_socket r of Some s \<Rightarrow> if s \<in> set (rt_live r) then r\<lparr>rt_sent := rt_sent r @ [(s, ty, stream)]\<rparr> else r | None \<Rightarrow> r)"

definition rt_connect :: "rtunnel \<Rightarrow> rtunnel" where
  "rt_connect r =
     (if rt_stopped r then r
      else r\<lparr>rt_socket := Some (rt_fresh r), rt_live := rt_live r @ [rt_fresh r], rt_fresh := rt_fresh r + 1\<rparr>)"

definition rt_stop :: "rtunnel \<Rightarrow> rtunnel" where
  "rt_stop r =
     (let r1 = r\<lparr>rt_stopped := True, rt_connected := False, rt_registered := False, rt_advertise := None, rt_streams := [],
                 rt_armed := (case rt_timer r of Some i \<Rightarrow> filter (\<lambda>x. x \<noteq> i) (rt_armed r) | None \<Rightarrow> rt_armed r), rt_timer := None\<rparr>
      in case rt_socket r1 of Some s \<Rightarrow> (rt_destroy s r1)\<lparr>rt_socket := None\<rparr> | None \<Rightarrow> r1)"

definition rt_start :: "rtunnel \<Rightarrow> rtunnel" where
  "rt_start r = rt_connect ((rt_stop r)\<lparr>rt_stopped := False, rt_retry := RT_RETRY_MIN\<rparr>)"

definition rt_on_connect :: "rtunnel \<Rightarrow> rtunnel" where
  "rt_on_connect r = r\<lparr>rt_connected := True\<rparr>"

text \<open>The frames as the handler sees them; a challenge is answered when the wallet has signed or refused to, by which
  time its socket may be gone.\<close>

datatype rt_frame =
    FChallenge "bool"
  | FWelcome "string option"
  | FOpen nat
  | FClose nat
  | FPing
  | FLost

definition rt_on_frame :: "nat \<Rightarrow> rt_frame \<Rightarrow> rtunnel \<Rightarrow> rtunnel" where
  "rt_on_frame s f r =
     (case f of
        FChallenge ok \<Rightarrow> if ok then rt_send 1 0 r else rt_destroy s r
      | FWelcome None \<Rightarrow> rt_destroy s r
      | FWelcome (Some adv) \<Rightarrow> r\<lparr>rt_registered := True, rt_advertise := Some adv, rt_retry := RT_RETRY_MIN\<rparr>
      | FOpen i \<Rightarrow> r\<lparr>rt_streams := i # filter (\<lambda>x. x \<noteq> i) (rt_streams r)\<rparr>
      | FClose i \<Rightarrow> r\<lparr>rt_streams := filter (\<lambda>x. x \<noteq> i) (rt_streams r)\<rparr>
      | FPing \<Rightarrow> rt_send 7 0 r
      | FLost \<Rightarrow> rt_destroy s r)"

text \<open>The agent's side of a stream ended.\<close>

definition rt_finish :: "nat \<Rightarrow> rtunnel \<Rightarrow> rtunnel" where
  "rt_finish i r = (if i \<in> set (rt_streams r) then rt_send 5 i (r\<lparr>rt_streams := filter (\<lambda>x. x \<noteq> i) (rt_streams r)\<rparr>) else r)"

definition rt_on_close :: "nat \<Rightarrow> rtunnel \<Rightarrow> rtunnel" where
  "rt_on_close s r =
     (let r1 = r\<lparr>rt_socket := (if rt_socket r = Some s then None else rt_socket r), rt_live := filter (\<lambda>x. x \<noteq> s) (rt_live r),
                 rt_closing := filter (\<lambda>x. x \<noteq> s) (rt_closing r), rt_connected := False, rt_registered := False, rt_advertise := None, rt_streams := []\<rparr>
      in if rt_stopped r1 then r1
         else r1\<lparr>rt_timer := Some (rt_fresh r1), rt_armed := rt_armed r1 @ [rt_fresh r1], rt_fresh := rt_fresh r1 + 1,
                 rt_retry := min (rt_retry r1 * 2) RT_RETRY_MAX\<rparr>)"

definition rt_fire :: "nat \<Rightarrow> rtunnel \<Rightarrow> rtunnel" where
  "rt_fire i r = rt_connect (r\<lparr>rt_armed := filter (\<lambda>x. x \<noteq> i) (rt_armed r)\<rparr>)"

inductive rt_event :: "rtunnel \<Rightarrow> rtunnel \<Rightarrow> bool" where
  rt_stops: "rt_event r (rt_stop r)"
| rt_connects: "s \<in> set (rt_live r) \<Longrightarrow> rt_event r (rt_on_connect r)"
| rt_frames: "s \<in> set (rt_live r) \<Longrightarrow> rt_event r (rt_on_frame s f r)"
| rt_signs: "s < rt_fresh r \<Longrightarrow> rt_event r (rt_on_frame s (FChallenge ok) r)"
| rt_finishes: "rt_event r (rt_finish i r)"
| rt_closes: "s \<in> set (rt_live r) \<union> set (rt_closing r) \<Longrightarrow> rt_event r (rt_on_close s r)"
| rt_fires: "i \<in> set (rt_armed r) \<Longrightarrow> rt_event r (rt_fire i r)"

text \<open>The steps of the tunnel, and those in which it is not started again before the close event of its last socket.\<close>

inductive rt_step :: "rtunnel \<Rightarrow> rtunnel \<Rightarrow> bool" where
  any_event: "rt_event r r' \<Longrightarrow> rt_step r r'"
| any_start: "rt_step r (rt_start r)"

inductive rt_calm :: "rtunnel \<Rightarrow> rtunnel \<Rightarrow> bool" where
  calm_event: "rt_event r r' \<Longrightarrow> rt_calm r r'"
| calm_start: "rt_live r = [] \<Longrightarrow> rt_closing r = [] \<Longrightarrow> rt_calm r (rt_start r)"

lemmas rt_defs = rt_destroy_def rt_send_def rt_connect_def rt_stop_def rt_start_def rt_on_connect_def rt_on_frame_def rt_finish_def
  rt_on_close_def rt_fire_def Let_def

section \<open>The tunnel keeps trying\<close>

definition rt_ok :: "rtunnel \<Rightarrow> bool" where
  "rt_ok r \<longleftrightarrow> RT_RETRY_MIN \<le> rt_retry r \<and> rt_retry r \<le> RT_RETRY_MAX \<and>
     (\<not> rt_stopped r \<longrightarrow> rt_live r \<noteq> [] \<or> rt_closing r \<noteq> [] \<or> rt_armed r \<noteq> [])"

lemma rt_destroy_ok: "rt_ok r \<Longrightarrow> rt_ok (rt_destroy s r)"
  by (auto simp: rt_ok_def rt_destroy_def)

lemma rt_send_ok: "rt_ok r \<Longrightarrow> rt_ok (rt_send ty i r)"
  by (auto simp: rt_ok_def rt_send_def split: option.split)

lemma rt_frame_ok: "rt_ok r \<Longrightarrow> rt_ok (rt_on_frame s f r)"
  by (cases f) (auto simp: rt_on_frame_def rt_destroy_ok rt_send_ok split: option.split, auto simp: rt_ok_def RT_RETRY_MIN_def RT_RETRY_MAX_def)

lemma rt_event_ok: "rt_event r r' \<Longrightarrow> rt_ok r \<Longrightarrow> rt_ok r'"
proof (induction rule: rt_event.induct)
  case (rt_finishes r i)
  then have "rt_ok (r\<lparr>rt_streams := filter (\<lambda>x. x \<noteq> i) (rt_streams r)\<rparr>)" by (simp add: rt_ok_def)
  with rt_finishes show ?case by (simp add: rt_finish_def rt_send_ok)
next
  case (rt_closes s r)
  then show ?case by (auto simp: rt_ok_def rt_on_close_def RT_RETRY_MIN_def RT_RETRY_MAX_def Let_def)
qed (auto simp: rt_frame_ok, auto simp: rt_ok_def rt_defs RT_RETRY_MIN_def RT_RETRY_MAX_def split: option.split)

lemma rt_start_ok: "rt_ok (rt_start r)"
  by (auto simp: rt_ok_def rt_defs RT_RETRY_MIN_def RT_RETRY_MAX_def split: option.split)

lemma rt_step_ok: "rt_step r r' \<Longrightarrow> rt_ok r \<Longrightarrow> rt_ok r'"
  by (erule rt_step.cases) (auto intro: rt_event_ok rt_start_ok)

text \<open>
  A node that is switched on stays reachable or keeps trying: in every state the tunnel can reach, the wait before the next
  attempt is between one second and a minute, and unless it was stopped a socket exists or a timer is armed; and
  when its current socket closes, the next attempt is armed and its wait doubles up to the limit.
\<close>
theorem tunnel_keeps_trying:
  assumes "rt_step\<^sup>*\<^sup>* new_rtunnel r"
  shows "1000 \<le> rt_retry r \<and> rt_retry r \<le> 60000 \<and> (\<not> rt_stopped r \<longrightarrow> rt_live r \<noteq> [] \<or> rt_closing r \<noteq> [] \<or> rt_armed r \<noteq> []) \<and>
    (\<not> rt_stopped r \<and> rt_socket r = Some s \<longrightarrow>
       (\<exists>i. rt_timer (rt_on_close s r) = Some i \<and> i \<in> set (rt_armed (rt_on_close s r))) \<and> rt_retry (rt_on_close s r) = min (2 * rt_retry r) 60000)"
proof -
  have "rt_ok r" using assms
  proof (induction rule: rtranclp_induct)
    case base
    show ?case by (simp add: rt_ok_def new_rtunnel_def RT_RETRY_MIN_def RT_RETRY_MAX_def)
  qed (auto intro: rt_step_ok)
  then show ?thesis by (auto simp: rt_ok_def rt_on_close_def RT_RETRY_MIN_def RT_RETRY_MAX_def Let_def)
qed

section \<open>One connection\<close>

definition single :: "rtunnel \<Rightarrow> bool" where
  "single r \<longleftrightarrow> length (rt_live r) + length (rt_closing r) + length (rt_armed r) \<le> 1 \<and>
     (\<forall>s \<in> set (rt_live r). rt_socket r = Some s) \<and> (\<forall>i \<in> set (rt_armed r). rt_timer r = Some i)"

lemma single_cases:
  assumes "single r"
  obtains (live) s where "rt_live r = [s]" "rt_closing r = []" "rt_armed r = []" "rt_socket r = Some s"
  | (closing) s where "rt_live r = []" "rt_closing r = [s]" "rt_armed r = []"
  | (armed) i where "rt_live r = []" "rt_closing r = []" "rt_armed r = [i]" "rt_timer r = Some i"
  | (none) "rt_live r = []" "rt_closing r = []" "rt_armed r = []"
proof -
  have "length xs \<le> 1 \<Longrightarrow> xs = [] \<or> (\<exists>x. xs = [x])" for xs :: "nat list" by (cases xs) auto
  then show ?thesis using assms live closing armed none unfolding single_def
    by (metis One_nat_def add_leD1 add_leD2 add_le_same_cancel1 add_le_same_cancel2 le_zero_eq length_0_conv length_Cons list.set_intros(1) list.size(3))
qed

lemma single_send: "single r \<Longrightarrow> single (rt_send ty i r)"
  by (auto simp: single_def rt_send_def split: option.split)

lemma single_destroy: "single r \<Longrightarrow> single (rt_destroy s r)"
  by (erule single_cases) (auto simp: single_def rt_destroy_def)

lemma single_frame: "single r \<Longrightarrow> single (rt_on_frame s f r)"
  by (cases f) (auto simp: rt_on_frame_def single_destroy single_send split: option.split, auto simp: single_def)

lemma single_event: "rt_event r r' \<Longrightarrow> single r \<Longrightarrow> single r'"
proof (induction rule: rt_event.induct)
  case (rt_stops r)
  then show ?case by (rule single_cases) (auto simp: single_def rt_stop_def rt_destroy_def Let_def split: option.split)
next
  case (rt_finishes r i)
  then have "single (r\<lparr>rt_streams := filter (\<lambda>x. x \<noteq> i) (rt_streams r)\<rparr>)" by (simp add: single_def)
  with rt_finishes show ?case by (simp add: rt_finish_def single_send)
next
  case (rt_closes s r)
  show ?case by (rule single_cases [OF rt_closes(2)]) (use rt_closes(1) in \<open>auto simp: single_def rt_on_close_def Let_def\<close>)
next
  case (rt_fires i r)
  show ?case by (rule single_cases [OF rt_fires(2)]) (use rt_fires(1) in \<open>auto simp: single_def rt_fire_def rt_connect_def\<close>)
qed (auto simp: single_frame, auto simp: single_def rt_on_connect_def)

lemma single_start: "single r \<Longrightarrow> rt_live r = [] \<Longrightarrow> rt_closing r = [] \<Longrightarrow> single (rt_start r)"
  by (erule single_cases) (auto simp: single_def rt_start_def rt_stop_def rt_connect_def rt_destroy_def Let_def split: option.split)

text \<open>
  Started calmly there is one connection: as long as the tunnel is not started again before the close event of its
  last socket, at most one socket or timer exists at any time, frames are sent on the socket they are meant for, and
  stopping it leaves no live socket and no timer behind.
\<close>
theorem calm_single_connection:
  assumes "rt_calm\<^sup>*\<^sup>* new_rtunnel r"
  shows "length (rt_live r) + length (rt_closing r) + length (rt_armed r) \<le> 1 \<and> (\<forall>s \<in> set (rt_live r). rt_socket r = Some s) \<and>
    rt_live (rt_stop r) = [] \<and> rt_armed (rt_stop r) = []"
proof -
  have r: "single r" using assms
  proof (induction rule: rtranclp_induct)
    case base
    show ?case by (simp add: single_def new_rtunnel_def)
  next
    case (step y z)
    from step.hyps(2) step.IH show ?case by (cases rule: rt_calm.cases) (auto intro: single_event single_start)
  qed
  moreover have "rt_live (rt_stop r) = [] \<and> rt_armed (rt_stop r) = []"
    using r by (rule single_cases) (auto simp: rt_stop_def rt_destroy_def Let_def split: option.split)
  ultimately show ?thesis by (simp add: single_def)
qed

text \<open>
  A restart leaks a connection: \<open>start\<close> destroys the old socket and connects at once, and when the close event of the old socket
  arrives its handler, finding the tunnel not stopped, marks the new connection as down, drops its streams and arms another
  attempt. Two connections result, and stopping the tunnel closes only one.
\<close>
theorem restart_leaks_connection:
  "\<exists>r. rt_step\<^sup>*\<^sup>* new_rtunnel r \<and> length (rt_live r) = 2 \<and> rt_stopped (rt_stop r) \<and> rt_live (rt_stop r) \<noteq> []"
proof -
  define a where "a = rt_start new_rtunnel"
  define b where "b = rt_start a"
  define c where "c = rt_on_close 0 b"
  define d where "d = rt_fire 2 c"
  note defs = a_def b_def c_def d_def rt_defs new_rtunnel_def
  have "rt_step new_rtunnel a" "rt_step a b" unfolding a_def b_def by (rule any_start)+
  moreover have "rt_step b c" unfolding c_def by (intro any_event rt_closes) (simp add: a_def b_def rt_defs new_rtunnel_def)
  moreover have "rt_step c d" unfolding d_def by (intro any_event rt_fires) (simp add: a_def b_def c_def rt_defs new_rtunnel_def)
  ultimately have "rt_step\<^sup>*\<^sup>* new_rtunnel d" by (meson converse_rtranclp_into_rtranclp rtranclp.rtrancl_refl)
  moreover have "length (rt_live d) = 2" "rt_stopped (rt_stop d)" "rt_live (rt_stop d) \<noteq> []" by (simp_all add: defs)
  ultimately show ?thesis by blast
qed

section \<open>The SSH forward\<close>

record direct_settings =
  ds_host :: string
  ds_port :: int
  ds_user :: string
  ds_keyPath :: string
  ds_bridgePort :: int

text \<open>The configured object; a field is \<open>None\<close> when it is absent or not of its type.\<close>

record direct_config =
  dc_allow :: "string list"
  dc_host :: "string option"
  dc_port :: "int option"
  dc_user :: "string option"
  dc_keyPath :: "string option"
  dc_bridgePort :: "int option"

definition directRelaySettings :: "direct_config option \<Rightarrow> string \<Rightarrow> direct_settings option" where
  "directRelaySettings config address =
     (case config of
        None \<Rightarrow> None
      | Some d \<Rightarrow>
          if address = '''' \<or> address \<notin> set (dc_allow d) then None
          else (case (dc_host d, dc_user d, dc_keyPath d) of
                  (Some h, Some u, Some k) \<Rightarrow>
                    if h = '''' \<or> u = '''' \<or> k = '''' then None
                    else Some \<lparr>ds_host = h, ds_port = (case dc_port d of Some x \<Rightarrow> x | None \<Rightarrow> 22), ds_user = u, ds_keyPath = k,
                               ds_bridgePort = (case dc_bridgePort d of Some x \<Rightarrow> x | None \<Rightarrow> 19000)\<rparr>
                | _ \<Rightarrow> None))"

datatype direct_state = DOff | DStarting | DUp | DFailed

text \<open>
  \<open>dr_allocating\<close> counts the starts that wait for a free port, \<open>dr_waiting\<close> holds the processes whose forward is being
  awaited with their ports, \<open>dr_alive\<close> the SSH processes that run. \<open>dr_timers\<close> are armed retries, the handle the last one.
\<close>

record direct =
  dr_settings :: "direct_settings option"
  dr_proc :: "nat option"
  dr_port :: "nat option"
  dr_state :: direct_state
  dr_timer :: "nat option"
  dr_timers :: "nat list"
  dr_stopped :: bool
  dr_allocating :: nat
  dr_waiting :: "(nat \<times> nat) list"
  dr_alive :: "nat list"
  dr_fresh :: nat

definition new_direct :: "direct_settings option \<Rightarrow> direct" where
  "new_direct s = \<lparr>dr_settings = s, dr_proc = None, dr_port = None, dr_state = DOff, dr_timer = None, dr_timers = [], dr_stopped = True,
     dr_allocating = 0, dr_waiting = [], dr_alive = [], dr_fresh = 0\<rparr>"

definition dr_base :: "direct \<Rightarrow> nat option" where
  "dr_base d = (if dr_state d = DUp then dr_port d else None)"

definition dr_retry :: "direct \<Rightarrow> direct" where
  "dr_retry d = d\<lparr>dr_timer := Some (dr_fresh d), dr_timers := dr_timers d @ [dr_fresh d], dr_fresh := dr_fresh d + 1\<rparr>"

definition dr_start :: "bool \<Rightarrow> direct \<Rightarrow> direct" where
  "dr_start keyExists d =
     (if dr_settings d = None then d
      else let d1 = d\<lparr>dr_stopped := False\<rparr>
           in if dr_proc d1 \<noteq> None \<or> dr_state d1 = DStarting then d1
              else if \<not> keyExists then d1\<lparr>dr_state := DFailed\<rparr>
              else d1\<lparr>dr_state := DStarting, dr_allocating := dr_allocating d1 + 1\<rparr>)"

text \<open>A free port was found: the process is spawned, and the wait for its forward begins.\<close>

definition dr_allocated :: "nat \<Rightarrow> direct \<Rightarrow> direct" where
  "dr_allocated port d =
     d\<lparr>dr_allocating := dr_allocating d - 1, dr_proc := Some (dr_fresh d), dr_alive := dr_alive d @ [dr_fresh d],
       dr_waiting := dr_waiting d @ [(dr_fresh d, port)], dr_fresh := dr_fresh d + 1\<rparr>"

definition dr_kill :: "nat \<Rightarrow> direct \<Rightarrow> direct" where
  "dr_kill p d = d\<lparr>dr_alive := filter (\<lambda>x. x \<noteq> p) (dr_alive d)\<rparr>"

definition dr_failed :: "direct \<Rightarrow> direct" where
  "dr_failed d =
     (let d1 = d\<lparr>dr_state := DFailed\<rparr>;
          d2 = (case dr_proc d1 of Some p \<Rightarrow> dr_kill p (d1\<lparr>dr_proc := None\<rparr>) | None \<Rightarrow> d1)
      in if \<not> dr_stopped d2 \<and> dr_timer d2 = None then dr_retry d2 else d2)"

definition dr_no_port :: "direct \<Rightarrow> direct" where
  "dr_no_port d = dr_failed (d\<lparr>dr_allocating := dr_allocating d - 1\<rparr>)"

definition dr_opened :: "nat \<times> nat \<Rightarrow> direct \<Rightarrow> direct" where
  "dr_opened w d =
     (let d1 = d\<lparr>dr_waiting := remove1 w (dr_waiting d)\<rparr>
      in if dr_proc d1 \<noteq> Some (fst w) then d1 else d1\<lparr>dr_port := Some (snd w), dr_state := DUp\<rparr>)"

definition dr_timed_out :: "nat \<times> nat \<Rightarrow> direct \<Rightarrow> direct" where
  "dr_timed_out w d = dr_failed (d\<lparr>dr_waiting := remove1 w (dr_waiting d)\<rparr>)"

text \<open>The process ended by itself.\<close>

definition dr_exit :: "nat \<Rightarrow> direct \<Rightarrow> direct" where
  "dr_exit p d =
     (let d1 = dr_kill p d
      in if dr_proc d1 \<noteq> Some p then d1
         else let d2 = d1\<lparr>dr_proc := None, dr_port := None, dr_state := (if dr_stopped d1 then DOff else DFailed)\<rparr>
              in if dr_stopped d2 then d2 else dr_retry d2)"

definition dr_stop :: "direct \<Rightarrow> direct" where
  "dr_stop d =
     (let d1 = d\<lparr>dr_stopped := True, dr_timers := (case dr_timer d of Some i \<Rightarrow> filter (\<lambda>x. x \<noteq> i) (dr_timers d) | None \<Rightarrow> dr_timers d),
                 dr_timer := None, dr_proc := None, dr_port := None, dr_state := DOff\<rparr>
      in case dr_proc d of Some p \<Rightarrow> dr_kill p d1 | None \<Rightarrow> d1)"

definition dr_fire :: "nat \<Rightarrow> bool \<Rightarrow> direct \<Rightarrow> direct" where
  "dr_fire i keyExists d = dr_start keyExists (d\<lparr>dr_timers := filter (\<lambda>x. x \<noteq> i) (dr_timers d), dr_timer := None\<rparr>)"

inductive dr_step :: "direct \<Rightarrow> direct \<Rightarrow> bool" where
  dr_starts: "dr_step d (dr_start key d)"
| dr_stops: "dr_step d (dr_stop d)"
| dr_allocates: "0 < dr_allocating d \<Longrightarrow> dr_step d (dr_allocated port d)"
| dr_unallocated: "0 < dr_allocating d \<Longrightarrow> dr_step d (dr_no_port d)"
| dr_opens: "w \<in> set (dr_waiting d) \<Longrightarrow> dr_step d (dr_opened w d)"
| dr_times_out: "w \<in> set (dr_waiting d) \<Longrightarrow> dr_step d (dr_timed_out w d)"
| dr_exits: "p \<in> set (dr_alive d) \<Longrightarrow> dr_step d (dr_exit p d)"
| dr_fires: "i \<in> set (dr_timers d) \<Longrightarrow> dr_step d (dr_fire i key d)"

lemmas dr_defs = dr_retry_def dr_start_def dr_allocated_def dr_kill_def dr_failed_def dr_no_port_def dr_opened_def dr_timed_out_def
  dr_exit_def dr_stop_def dr_fire_def Let_def

text \<open>
  The process the object holds is one that runs, process numbers are not reused, and a forward that is up has a port and a process.
\<close>

definition dr_ok :: "direct \<Rightarrow> bool" where
  "dr_ok d \<longleftrightarrow> (\<forall>p. dr_proc d = Some p \<longrightarrow> p \<in> set (dr_alive d)) \<and>
     (\<forall>p \<in> set (dr_alive d) \<union> fst ` set (dr_waiting d). p < dr_fresh d) \<and>
     (dr_state d = DUp \<longrightarrow> dr_proc d \<noteq> None \<and> dr_port d \<noteq> None) \<and>
     (dr_settings d = None \<longrightarrow> dr_proc d = None \<and> dr_allocating d = 0)"

lemma dr_kill_ok: "dr_ok d \<Longrightarrow> dr_proc d \<noteq> Some p \<Longrightarrow> dr_ok (dr_kill p d)"
  by (auto simp: dr_ok_def dr_kill_def)

lemma dr_retry_ok: "dr_ok d \<Longrightarrow> dr_ok (dr_retry d)"
  by (auto simp: dr_ok_def dr_retry_def less_Suc_eq)

lemma dr_failed_ok:
  assumes "dr_ok d"
  shows "dr_ok (dr_failed d)"
proof -
  let ?d2 = "case dr_proc d of Some p \<Rightarrow> dr_kill p (d\<lparr>dr_state := DFailed, dr_proc := None\<rparr>) | None \<Rightarrow> d\<lparr>dr_state := DFailed\<rparr>"
  have "dr_ok ?d2" using assms by (auto simp: dr_ok_def dr_kill_def split: option.split)
  then show ?thesis using dr_retry_ok [of ?d2] by (cases "dr_proc d") (auto simp: dr_failed_def Let_def)
qed

lemma dr_start_ok: "dr_ok d \<Longrightarrow> dr_ok (dr_start key d)"
  by (auto simp: dr_ok_def dr_start_def Let_def)

lemma dr_unwait_ok: "dr_ok d \<Longrightarrow> dr_ok (d\<lparr>dr_waiting := remove1 w (dr_waiting d)\<rparr>)"
  using image_mono [OF set_remove1_subset, of fst w "dr_waiting d"] by (simp add: dr_ok_def) blast

lemma dr_step_ok: "dr_step d d' \<Longrightarrow> dr_ok d \<Longrightarrow> dr_ok d'"
proof (induction rule: dr_step.induct)
  case (dr_stops d)
  then show ?case by (auto simp: dr_ok_def dr_stop_def dr_kill_def Let_def split: option.split)
next
  case (dr_allocates d port)
  then show ?case by (auto simp: dr_ok_def dr_allocated_def less_Suc_eq)
next
  case (dr_unallocated d)
  then have "dr_ok (d\<lparr>dr_allocating := dr_allocating d - 1\<rparr>)" by (auto simp: dr_ok_def)
  then show ?case by (simp add: dr_no_port_def dr_failed_ok)
next
  case (dr_opens w d)
  from dr_unwait_ok [OF dr_opens(2), of w] show ?case by (auto simp: dr_opened_def Let_def dr_ok_def)
next
  case (dr_times_out w d)
  then show ?case by (simp add: dr_timed_out_def dr_failed_ok dr_unwait_ok)
next
  case (dr_exits p d)
  let ?d2 = "(dr_kill p d)\<lparr>dr_proc := None, dr_port := None, dr_state := (if dr_stopped d then DOff else DFailed)\<rparr>"
  have "dr_ok ?d2" using dr_exits by (auto simp: dr_ok_def dr_kill_def)
  then show ?case using dr_kill_ok [OF dr_exits(2), of p] dr_retry_ok [of ?d2] by (auto simp: dr_exit_def Let_def, auto simp: dr_kill_def)
next
  case (dr_fires i d key)
  then have "dr_ok (d\<lparr>dr_timers := filter (\<lambda>x. x \<noteq> i) (dr_timers d), dr_timer := None\<rparr>)" by (auto simp: dr_ok_def)
  then show ?case by (simp add: dr_fire_def dr_start_ok)
qed (rule dr_start_ok)

lemma dr_settings_kept: "dr_step d d' \<Longrightarrow> dr_settings d' = dr_settings d"
  by (induction rule: dr_step.induct) (auto simp: dr_defs split: option.split)

text \<open>
  The direct path is used by listed wallets only and offered only while it works: settings exist only for a wallet on the
  operator's list with a host, a user and a key; without them no process is ever held; and in every state the
  forward can reach, an address is offered to the callers only while the SSH process it holds runs.
\<close>
theorem direct_path_guarded:
  assumes "dr_step\<^sup>*\<^sup>* (new_direct (directRelaySettings config address)) d"
  shows "(dr_proc d \<noteq> None \<longrightarrow> (\<exists>c. config = Some c \<and> address \<noteq> '''' \<and> address \<in> set (dc_allow c) \<and> dc_keyPath c \<notin> {None, Some ''''})) \<and>
    (dr_base d \<noteq> None \<longrightarrow> (\<exists>p. dr_proc d = Some p \<and> p \<in> set (dr_alive d)))"
proof -
  have "dr_ok d \<and> dr_settings d = directRelaySettings config address" using assms
  proof (induction rule: rtranclp_induct)
    case base
    show ?case by (simp add: dr_ok_def new_direct_def)
  next
    case (step y z)
    then show ?case using dr_step_ok dr_settings_kept by metis
  qed
  moreover have "\<exists>c. config = Some c \<and> address \<noteq> '''' \<and> address \<in> set (dc_allow c) \<and> dc_keyPath c \<notin> {None, Some ''''}"
    if "directRelaySettings config address \<noteq> None"
    using that by (auto simp: directRelaySettings_def split: option.splits if_splits)
  ultimately show ?thesis unfolding dr_ok_def dr_base_def by (metis option.exhaust)
qed

text \<open>
  Stopping does not stop a start under way: a stop that arrives while a start waits for a free port is forgotten, the process is
  spawned afterwards and the forward comes up although the object was stopped.
\<close>
theorem stop_during_start_lost:
  "\<exists>d. dr_step\<^sup>*\<^sup>* (new_direct (Some s)) d \<and> dr_stopped d \<and> dr_base d = Some 4000 \<and> dr_alive d \<noteq> []"
proof -
  define a where "a = dr_start True (new_direct (Some s))"
  define b where "b = dr_stop a"
  define c where "c = dr_allocated 4000 b"
  define d where "d = dr_opened (0, 4000) c"
  have "dr_step (new_direct (Some s)) a" "dr_step a b" unfolding a_def b_def by (rule dr_starts dr_stops)+
  moreover have "dr_step b c" unfolding c_def by (rule dr_allocates) (simp add: a_def b_def dr_defs new_direct_def)
  moreover have "dr_step c d" unfolding d_def by (rule dr_opens) (simp add: a_def b_def c_def dr_defs new_direct_def)
  ultimately have "dr_step\<^sup>*\<^sup>* (new_direct (Some s)) d" by (meson converse_rtranclp_into_rtranclp rtranclp.rtrancl_refl)
  moreover have "dr_stopped d" "dr_base d = Some 4000" "dr_alive d \<noteq> []"
    by (simp_all add: a_def b_def c_def d_def dr_defs new_direct_def dr_base_def)
  ultimately show ?thesis by blast
qed

section \<open>Witnesses\<close>

theorem tunnel_keeps_trying_witness:
  "rt_retry (rt_start new_rtunnel) \<le> 60000 \<and> rt_retry (rt_on_close 0 (rt_start new_rtunnel)) = 2000"
proof -
  have "rt_step\<^sup>*\<^sup>* new_rtunnel (rt_start new_rtunnel)" by (intro r_into_rtranclp any_start)
  note r = tunnel_keeps_trying [OF this, of 0]
  have "\<not> rt_stopped (rt_start new_rtunnel)" "rt_socket (rt_start new_rtunnel) = Some 0" "rt_retry (rt_start new_rtunnel) = 1000"
    by (simp_all add: rt_defs new_rtunnel_def RT_RETRY_MIN_def)
  then show ?thesis using r by simp
qed

theorem calm_single_connection_witness:
  "rt_live (rt_start new_rtunnel) = [0] \<and> rt_live (rt_stop (rt_start new_rtunnel)) = []"
proof -
  have "rt_calm\<^sup>*\<^sup>* new_rtunnel (rt_start new_rtunnel)" by (intro r_into_rtranclp calm_start) (simp_all add: new_rtunnel_def)
  from calm_single_connection [OF this] show ?thesis by (simp add: rt_defs new_rtunnel_def)
qed

theorem direct_path_guarded_witness:
  "let cfg = \<lparr>dc_allow = [''w''], dc_host = Some ''h'', dc_port = None, dc_user = Some ''u'', dc_keyPath = Some ''k'', dc_bridgePort = None\<rparr>;
       d = dr_opened (0, 4000) (dr_allocated 4000 (dr_start True (new_direct (directRelaySettings (Some cfg) ''w''))))
   in dr_base d = Some 4000 \<and> (\<exists>p. dr_proc d = Some p \<and> p \<in> set (dr_alive d))"
proof -
  let ?cfg = "\<lparr>dc_allow = [''w''], dc_host = Some ''h'', dc_port = None, dc_user = Some ''u'', dc_keyPath = Some ''k'', dc_bridgePort = None\<rparr>"
  define n where "n = new_direct (directRelaySettings (Some ?cfg) ''w'')"
  define a where "a = dr_start True n"
  define b where "b = dr_allocated 4000 a"
  define d where "d = dr_opened (0, 4000) b"
  have "dr_step n a" unfolding a_def by (rule dr_starts)
  moreover have "dr_step a b" unfolding b_def by (rule dr_allocates) (simp add: n_def a_def dr_defs new_direct_def directRelaySettings_def)
  moreover have "dr_step b d" unfolding d_def by (rule dr_opens) (simp add: n_def a_def b_def dr_defs new_direct_def directRelaySettings_def)
  ultimately have "dr_step\<^sup>*\<^sup>* n d" by (meson converse_rtranclp_into_rtranclp rtranclp.rtrancl_refl)
  then have "dr_base d \<noteq> None \<longrightarrow> (\<exists>p. dr_proc d = Some p \<and> p \<in> set (dr_alive d))" using direct_path_guarded [of "Some ?cfg" "''w''" d] by (simp add: n_def)
  moreover have "dr_base d = Some 4000" by (simp add: n_def a_def b_def d_def dr_defs new_direct_def directRelaySettings_def dr_base_def)
  ultimately show ?thesis by (simp add: Let_def n_def [symmetric] a_def [symmetric] b_def [symmetric] d_def [symmetric])
qed

end
