(* ===== verification/Desktop_Shard.thy ===== *)
theory Desktop_Shard
  imports JS_Bytes
begin

text \<open>
  The shard files a desktop node serves (\<^verbatim>\<open>wallet/desktop/electron/expertHost.cjs\<close>): the reader of the GGUF header, the check
  that a file holds the experts that were asked for, and the pruning of the shard cache. The reader works on an offset into the
  first mebibyte of the file; a read outside it is a \<^verbatim>\<open>RangeError\<close>, which the code turns into a refusal of the shard: \<open>None\<close>.
\<close>

section \<open>The header\<close>

datatype gguf_value = GNum rat | GNaN | GBool bool | GStr string | GNull

definition read_at :: "nat \<Rightarrow> buffer \<Rightarrow> nat \<Rightarrow> (nat \<times> nat) option" where
  "read_at k b p = (if p + k \<le> length b then Some (le_val (take k (drop p b)), p + k) else None)"

definition signed_of :: "nat \<Rightarrow> nat \<Rightarrow> int" where
  "signed_of bits v = (if v < 2 ^ (bits - 1) then int v else int v - 2 ^ bits)"

text \<open>The IEEE formats with \<open>e\<close> exponent and \<open>m\<close> fraction bits.\<close>

definition ieee :: "nat \<Rightarrow> nat \<Rightarrow> nat \<Rightarrow> gguf_value" where
  "ieee e m v =
     (let frac = v mod 2 ^ m; ex = v div 2 ^ m mod 2 ^ e; neg = v div 2 ^ (m + e) mod 2 = 1; bias = 2 ^ (e - 1) - 1 :: int
      in if ex = 2 ^ e - 1 then GNaN
         else let x = (if ex = 0 then of_nat frac * 2 powi (1 - bias - int m) else of_nat (2 ^ m + frac) * 2 powi (int ex - bias - int m))
              in GNum (if neg then - x else x))"

definition gg_u64 :: "buffer \<Rightarrow> nat \<Rightarrow> (nat \<times> nat) option" where
  "gg_u64 b p = map_option (\<lambda>(v, q). (to_Number v, q)) (read_at 8 b p)"

text \<open>\<^verbatim>\<open>buf.toString('utf8', o, o + len)\<close> stops at the end of the buffer.\<close>

definition gg_str :: "buffer \<Rightarrow> nat \<Rightarrow> (string \<times> nat) option" where
  "gg_str b p = (case gg_u64 b p of None \<Rightarrow> None | Some (len, q) \<Rightarrow> Some (to_text (take len (drop q b)), q + len))"

fun skip_strs :: "buffer \<Rightarrow> nat \<Rightarrow> nat \<Rightarrow> nat option" where
  "skip_strs b 0 p = Some p"
| "skip_strs b (Suc n) p = (case gg_str b p of None \<Rightarrow> None | Some (_, q) \<Rightarrow> skip_strs b n q)"

definition GGUF_TYPE_SIZE :: "nat \<Rightarrow> nat" where
  "GGUF_TYPE_SIZE t = (if t \<in> {0, 1, 7} then 1 else if t \<in> {2, 3} then 2 else if t \<in> {4, 5, 6} then 4 else if t \<in> {10, 11, 12} then 8 else 0)"

definition gg_array :: "buffer \<Rightarrow> nat \<Rightarrow> (gguf_value \<times> nat) option" where
  "gg_array b p =
     (case read_at 4 b p of
        None \<Rightarrow> None
      | Some (t, q) \<Rightarrow>
          (case gg_u64 b q of
             None \<Rightarrow> None
           | Some (len, r) \<Rightarrow>
               if t = 8 then map_option (\<lambda>s. (GNull, s)) (skip_strs b len r)
               else Some (GNull, r + len * GGUF_TYPE_SIZE t)))"

definition gg_value :: "nat \<Rightarrow> buffer \<Rightarrow> nat \<Rightarrow> (gguf_value \<times> nat) option" where
  "gg_value t b p =
     (let num = (\<lambda>k f. map_option (\<lambda>(v, q). (f v, q)) (read_at k b p))
      in if t = 0 then num 1 (\<lambda>v. GNum (of_nat v))
         else if t = 1 then num 1 (\<lambda>v. GNum (of_int (signed_of 8 v)))
         else if t = 2 then num 2 (\<lambda>v. GNum (of_nat v))
         else if t = 3 then num 2 (\<lambda>v. GNum (of_int (signed_of 16 v)))
         else if t = 4 then num 4 (\<lambda>v. GNum (of_nat v))
         else if t = 5 then num 4 (\<lambda>v. GNum (of_int (signed_of 32 v)))
         else if t = 6 then num 4 (ieee 8 23)
         else if t = 7 then num 1 (\<lambda>v. GBool (v \<noteq> 0))
         else if t = 8 then map_option (\<lambda>(s, q). (GStr s, q)) (gg_str b p)
         else if t = 9 then gg_array b p
         else if t = 10 then map_option (\<lambda>(v, q). (GNum (of_nat v), q)) (gg_u64 b p)
         else if t = 11 then num 8 (\<lambda>v. GNum (let x = signed_of 64 v in if x < 0 then - of_nat (to_Number (nat (- x))) else of_nat (to_Number (nat x))))
         else if t = 12 then num 8 (ieee 11 52)
         else None)"

type_synonym gguf_meta = "gguf_value table"

fun gg_pairs :: "buffer \<Rightarrow> nat \<Rightarrow> nat \<Rightarrow> gguf_meta \<Rightarrow> gguf_meta option" where
  "gg_pairs b 0 p m = Some m"
| "gg_pairs b (Suc n) p m =
     (case gg_str b p of
        None \<Rightarrow> None
      | Some (key, q) \<Rightarrow>
          (case read_at 4 b q of
             None \<Rightarrow> None
           | Some (t, r) \<Rightarrow> (case gg_value t b r of None \<Rightarrow> None | Some (v, s) \<Rightarrow> gg_pairs b n s (put key v m))))"

definition GGUF_MAGIC :: buffer where "GGUF_MAGIC = from_text ''GGUF''"

definition GGUF_HEAD :: nat where "GGUF_HEAD = 2 ^ 20"

definition readGgufMetadata :: "buffer \<Rightarrow> gguf_meta option" where
  "readGgufMetadata file =
     (let b = take GGUF_HEAD file
      in if length b < 24 \<or> take 4 b \<noteq> GGUF_MAGIC then None
         else case gg_u64 b 8 of
                None \<Rightarrow> None
              | Some (_, p) \<Rightarrow> (case gg_u64 b p of None \<Rightarrow> None | Some (n, q) \<Rightarrow> gg_pairs b n q []))"

section \<open>The check\<close>

record want =
  wt_model :: string
  wt_layer :: int
  wt_begin :: int
  wt_end :: int

definition non_null :: "gguf_value option \<Rightarrow> gguf_value option" where
  "non_null v = (if v = Some GNull then None else v)"

definition or_value :: "gguf_value option \<Rightarrow> gguf_value option \<Rightarrow> gguf_value option" where
  "or_value a b = (if non_null a = None then b else a)"

definition checkShard :: "buffer \<Rightarrow> want \<Rightarrow> gguf_meta option" where
  "checkShard file w =
     (case readGgufMetadata file of
        None \<Rightarrow> None
      | Some m \<Rightarrow>
          let layer = non_null (get m ''kvasir.expert_shard.layer'');
              b = or_value (get m ''kvasir.expert_shard.expert_begin'') (get m ''linkcpp.expert_shard.expert_begin'');
              e = or_value (get m ''kvasir.expert_shard.expert_end'') (get m ''linkcpp.expert_shard.expert_end'')
          in if layer \<noteq> None \<and> layer \<noteq> Some (GNum (of_int (wt_layer w))) \<or> b \<noteq> Some (GNum (of_int (wt_begin w))) \<or> e \<noteq> Some (GNum (of_int (wt_end w)))
             then None else Some m)"

section \<open>Pruning the cache\<close>

text \<open>A shard file of the cache with its modification time; \<open>held\<close> are the paths the slots hold.\<close>

record shard_file =
  sf_path :: string
  sf_mtime :: rat

definition pruneShards :: "nat \<Rightarrow> string set \<Rightarrow> shard_file list \<Rightarrow> shard_file list" where
  "pruneShards keepSpare held files =
     (let spare = sort_key (\<lambda>f. - sf_mtime f) (filter (\<lambda>f. sf_path f \<notin> held) files);
          gone = set (drop keepSpare spare)
      in filter (\<lambda>f. f \<notin> gone) files)"

lemma spare_sorted:
  assumes "f \<in> set (take k (sort_key (\<lambda>f. - sf_mtime f) xs))" "g \<in> set (drop k (sort_key (\<lambda>f. - sf_mtime f) xs))"
  shows "sf_mtime g \<le> sf_mtime f"
proof -
  let ?s = "sort_key (\<lambda>f. - sf_mtime f) xs"
  have "sorted (map (\<lambda>f. - sf_mtime f) (take k ?s) @ map (\<lambda>f. - sf_mtime f) (drop k ?s))"
    using sorted_sort_key [of "\<lambda>f. - sf_mtime f" xs] by (metis append_take_drop_id map_append)
  then show ?thesis using assms by (auto simp: sorted_append)
qed

text \<open>
  Pruning never deletes a shard that a slot holds, leaves at most the given number of others, and those are the
  newest: nothing that was deleted is newer than a spare that was kept.
\<close>
theorem prune_keeps_held:
  assumes "distinct files"
  shows "set (filter (\<lambda>f. sf_path f \<in> held) files) \<subseteq> set (pruneShards k held files) \<and>
    length (filter (\<lambda>f. sf_path f \<notin> held) (pruneShards k held files)) \<le> k \<and>
    (\<forall>f \<in> set (pruneShards k held files). \<forall>g \<in> set files - set (pruneShards k held files). sf_path f \<notin> held \<longrightarrow> sf_mtime g \<le> sf_mtime f)"
proof -
  let ?other = "filter (\<lambda>f. sf_path f \<notin> held) files"
  let ?s = "sort_key (\<lambda>f. - sf_mtime f) ?other"
  have d: "distinct ?s" and s: "set ?s = set ?other" using assms by simp_all
  have split: "set ?s = set (take k ?s) \<union> set (drop k ?s)" "set (take k ?s) \<inter> set (drop k ?s) = {}"
    using d by (metis append_take_drop_id set_append, simp add: set_take_disj_set_drop_if_distinct)
  have p: "pruneShards k held files = filter (\<lambda>f. f \<notin> set (drop k ?s)) files" by (simp add: pruneShards_def Let_def)
  have kept: "set (filter (\<lambda>f. sf_path f \<notin> held) (pruneShards k held files)) = set (take k ?s)"
    unfolding p using s split by auto
  have "distinct (filter (\<lambda>f. sf_path f \<notin> held) (pruneShards k held files))" using assms unfolding p by simp
  then have "length (filter (\<lambda>f. sf_path f \<notin> held) (pruneShards k held files)) = card (set (take k ?s))"
    using kept by (metis distinct_card)
  also have "\<dots> \<le> k" using card_length [of "take k ?s"] by simp
  finally have len: "length (filter (\<lambda>f. sf_path f \<notin> held) (pruneShards k held files)) \<le> k" .
  have "set (drop k ?s) \<subseteq> set ?other" using s set_drop_subset [of k ?s] by simp
  then have held: "set (filter (\<lambda>f. sf_path f \<in> held) files) \<subseteq> set (pruneShards k held files)" unfolding p by auto
  have "sf_mtime g \<le> sf_mtime f" if "f \<in> set (pruneShards k held files)" "g \<in> set files - set (pruneShards k held files)" "sf_path f \<notin> held" for f g
  proof (rule spare_sorted)
    show "f \<in> set (take k ?s)" using that(1,3) kept by auto
    show "g \<in> set (drop k ?s)" using that(2) unfolding p by auto
  qed
  then show ?thesis using held len by blast
qed

section \<open>What is written is what is read\<close>

text \<open>A writer of headers: the three kinds of value that occur in shards and, skipped by the reader, arrays.\<close>

datatype gguf_item = IU32 nat | IStr string | IStrs "string list" | INums nat nat buffer

definition enc_str :: "string \<Rightarrow> buffer" where
  "enc_str s = le_bytes 8 (length s) @ from_text s"

fun enc_item :: "gguf_item \<Rightarrow> buffer" where
  "enc_item (IU32 v) = le_bytes 4 4 @ le_bytes 4 v"
| "enc_item (IStr s) = le_bytes 4 8 @ enc_str s"
| "enc_item (IStrs ss) = le_bytes 4 9 @ le_bytes 4 8 @ le_bytes 8 (length ss) @ concat (map enc_str ss)"
| "enc_item (INums t n xs) = le_bytes 4 9 @ le_bytes 4 t @ le_bytes 8 n @ xs"

fun item_value :: "gguf_item \<Rightarrow> gguf_value" where
  "item_value (IU32 v) = GNum (of_nat v)"
| "item_value (IStr s) = GStr s"
| "item_value _ = GNull"

definition str_ok :: "string \<Rightarrow> bool" where
  "str_ok s \<longleftrightarrow> is_text s \<and> length s \<le> 2 ^ 53"

fun item_ok :: "gguf_item \<Rightarrow> bool" where
  "item_ok (IU32 v) = (v < 2 ^ 32)"
| "item_ok (IStr s) = str_ok s"
| "item_ok (IStrs ss) = (list_all str_ok ss \<and> length ss \<le> 2 ^ 53)"
| "item_ok (INums t n xs) = (t \<noteq> 8 \<and> t < 2 ^ 32 \<and> n \<le> 2 ^ 53 \<and> length xs = n * GGUF_TYPE_SIZE t)"

definition gguf_head :: "nat \<Rightarrow> (string \<times> gguf_item) list \<Rightarrow> buffer" where
  "gguf_head tensors kvs =
     GGUF_MAGIC @ le_bytes 4 3 @ le_bytes 8 tensors @ le_bytes 8 (length kvs) @ concat (map (\<lambda>(k, i). enc_str k @ enc_item i) kvs)"

lemma read_at_here: "v < 256 ^ k \<Longrightarrow> read_at k (pre @ le_bytes k v @ post) (length pre) = Some (v, length pre + k)"
  by (simp add: read_at_def le_val_le_bytes)

lemma u64_here: "v \<le> 2 ^ 53 \<Longrightarrow> gg_u64 (pre @ le_bytes 8 v @ post) (length pre) = Some (v, length pre + 8)"
  using read_at_here [of v 8 pre post] by (simp add: gg_u64_def to_Number_exact)

lemma str_here: "str_ok s \<Longrightarrow> gg_str (pre @ enc_str s @ post) (length pre) = Some (s, length pre + length (enc_str s))"
  using u64_here [of "length s" pre "from_text s @ post"]
  by (simp add: gg_str_def enc_str_def str_ok_def to_text_from_text)

lemma skip_here:
  "list_all str_ok ss \<Longrightarrow> skip_strs (pre @ concat (map enc_str ss) @ post) (length ss) (length pre) =
     Some (length pre + length (concat (map enc_str ss)))"
proof (induction ss arbitrary: pre)
  case (Cons s ss)
  have "gg_str (pre @ enc_str s @ concat (map enc_str ss) @ post) (length pre) = Some (s, length pre + length (enc_str s))"
    using Cons.prems by (intro str_here) simp
  then show ?case using Cons.IH [of "pre @ enc_str s"] Cons.prems by (simp add: add.assoc)
qed simp

lemma value_here:
  assumes "item_ok i"
  obtains t where "read_at 4 (pre @ enc_item i @ post) (length pre) = Some (t, length pre + 4)"
    "gg_value t (pre @ enc_item i @ post) (length pre + 4) = Some (item_value i, length pre + length (enc_item i))"
proof (cases i)
  case (IU32 v)
  show ?thesis using that [of 4] read_at_here [of 4 4 pre "le_bytes 4 v @ post"] read_at_here [of v 4 "pre @ le_bytes 4 4" post] assms IU32
    by (simp add: gg_value_def)
next
  case (IStr s)
  show ?thesis using that [of 8] read_at_here [of 8 4 pre "enc_str s @ post"] str_here [of s "pre @ le_bytes 4 8" post] assms IStr
    by (simp add: gg_value_def)
next
  case (IStrs ss)
  let ?n = "le_bytes 8 (length ss)" and ?x = "concat (map enc_str ss)"
  have "gg_array (pre @ enc_item i @ post) (length pre + 4) = Some (GNull, length pre + length (enc_item i))"
    using read_at_here [of 8 4 "pre @ le_bytes 4 9" "?n @ ?x @ post"] u64_here [of "length ss" "pre @ le_bytes 4 9 @ le_bytes 4 8" "?x @ post"]
      skip_here [of ss "pre @ le_bytes 4 9 @ le_bytes 4 8 @ ?n" post] assms IStrs by (simp add: gg_array_def add.commute add.left_commute)
  then show ?thesis using that [of 9] read_at_here [of 9 4 pre "le_bytes 4 8 @ ?n @ ?x @ post"] IStrs by (simp add: gg_value_def)
next
  case (INums t n xs)
  have "gg_array (pre @ enc_item i @ post) (length pre + 4) = Some (GNull, length pre + length (enc_item i))"
    using read_at_here [of t 4 "pre @ le_bytes 4 9" "le_bytes 8 n @ xs @ post"] u64_here [of n "pre @ le_bytes 4 9 @ le_bytes 4 t" "xs @ post"] assms INums
    by (simp add: gg_array_def add.commute add.left_commute)
  then show ?thesis using that [of 9] read_at_here [of 9 4 pre "le_bytes 4 t @ le_bytes 8 n @ xs @ post"] INums by (simp add: gg_value_def)
qed

lemma pairs_here:
  assumes "list_all (\<lambda>(k, i). str_ok k \<and> item_ok i) kvs"
  shows "gg_pairs (pre @ concat (map (\<lambda>(k, i). enc_str k @ enc_item i) kvs) @ post) (length kvs) (length pre) m =
    Some (foldl (\<lambda>m (k, i). put k (item_value i) m) m kvs)"
  using assms
proof (induction kvs arbitrary: pre m)
  case (Cons kv kvs)
  obtain k i where kv: "kv = (k, i)" by fastforce
  let ?r = "concat (map (\<lambda>(k, i). enc_str k @ enc_item i) kvs)"
  have ok: "str_ok k" "item_ok i" using Cons.prems kv by simp_all
  obtain t where t: "read_at 4 ((pre @ enc_str k) @ enc_item i @ ?r @ post) (length (pre @ enc_str k)) = Some (t, length (pre @ enc_str k) + 4)"
    "gg_value t ((pre @ enc_str k) @ enc_item i @ ?r @ post) (length (pre @ enc_str k) + 4) = Some (item_value i, length (pre @ enc_str k) + length (enc_item i))"
    using value_here [OF ok(2), of "pre @ enc_str k" "?r @ post"] by blast
  show ?case using str_here [OF ok(1), of pre "enc_item i @ ?r @ post"] t Cons.IH [of "pre @ enc_str k @ enc_item i"] Cons.prems
    by (simp add: kv add.assoc)
qed simp

lemma header_back:
  assumes "list_all (\<lambda>(k, i). str_ok k \<and> item_ok i) kvs" "tensors \<le> 2 ^ 53" "length kvs \<le> 2 ^ 53" "length (gguf_head tensors kvs) \<le> GGUF_HEAD"
  shows "readGgufMetadata (gguf_head tensors kvs @ rest) = Some (foldl (\<lambda>m (k, i). put k (item_value i) m) [] kvs)"
proof -
  define b where "b = take GGUF_HEAD (gguf_head tensors kvs @ rest)"
  let ?kv = "concat (map (\<lambda>(k, i). enc_str k @ enc_item i) kvs)" and ?m = "GGUF_MAGIC @ le_bytes 4 3"
  obtain post where post: "b = gguf_head tensors kvs @ post" using assms(4) by (simp add: b_def)
  have lm: "length GGUF_MAGIC = 4" by (simp add: GGUF_MAGIC_def)
  then have bb: "\<not> length b < 24" "take 4 b = GGUF_MAGIC" unfolding post by (simp_all add: gguf_head_def)
  have 1: "gg_u64 b 8 = Some (tensors, 16)"
    using u64_here [OF assms(2), of ?m "le_bytes 8 (length kvs) @ ?kv @ post"] lm by (simp add: post gguf_head_def)
  have 2: "gg_u64 b 16 = Some (length kvs, 24)"
    using u64_here [OF assms(3), of "?m @ le_bytes 8 tensors" "?kv @ post"] lm by (simp add: post gguf_head_def)
  have "gg_pairs b (length kvs) 24 [] = Some (foldl (\<lambda>m (k, i). put k (item_value i) m) [] kvs)"
    using pairs_here [OF assms(1), of "?m @ le_bytes 8 tensors @ le_bytes 8 (length kvs)" post "[]"] lm by (simp add: post gguf_head_def)
  then show ?thesis unfolding readGgufMetadata_def b_def [symmetric] Let_def using bb 1 2 by simp
qed

text \<open>
  C22: The reader recovers the metadata of a shard: a header that fits the mebibyte it looks at reads back as the pairs that were
  written, later ones replacing earlier ones of the same name, and arrays as null, whatever follows it.
\<close>
theorem gguf_roundtrip:
  assumes "list_all (\<lambda>(k, i). str_ok k \<and> item_ok i) kvs" "tensors \<le> 2 ^ 53" "length kvs \<le> 2 ^ 53" "length (gguf_head tensors kvs) \<le> GGUF_HEAD"
  shows "readGgufMetadata (gguf_head tensors kvs @ rest) = Some (foldl (\<lambda>m (k, i). put k (item_value i) m) [] kvs)"
  using assms by (rule header_back)

lemma get_foldl_put:
  "distinct (map fst kvs) \<Longrightarrow> get (foldl (\<lambda>m (k, i). put k (item_value i) m) m kvs) x = (case get kvs x of Some i \<Rightarrow> Some (item_value i) | None \<Rightarrow> get m x)"
proof (induction kvs arbitrary: m)
  case (Cons kv kvs)
  obtain k i where kv: "kv = (k, i)" by fastforce
  have "k = x \<Longrightarrow> get kvs x = None" using Cons.prems kv by (auto simp: map_of_eq_None_iff)
  then show ?case using Cons.IH [of "put k (item_value i) m"] Cons.prems kv by (auto simp: update_conv' split: option.split)
qed simp

text \<open>
  A shard is accepted exactly when it is the one that was asked for: the metadata names the layer and the two ends of the range,
  and a file whose header says anything else is refused before a worker is started on it.
\<close>
theorem shard_check_exact:
  assumes "list_all (\<lambda>(k, i). str_ok k \<and> item_ok i) kvs" "distinct (map fst kvs)" "tensors \<le> 2 ^ 53" "length kvs \<le> 2 ^ 53"
    "length (gguf_head tensors kvs) \<le> GGUF_HEAD"
    and "get kvs ''kvasir.expert_shard.layer'' = Some (IU32 l)" "get kvs ''kvasir.expert_shard.expert_begin'' = Some (IU32 a)"
      "get kvs ''kvasir.expert_shard.expert_end'' = Some (IU32 e)"
  shows "checkShard (gguf_head tensors kvs @ rest) w \<noteq> None \<longleftrightarrow> wt_layer w = int l \<and> wt_begin w = int a \<and> wt_end w = int e"
proof -
  have num: "(of_nat x :: rat) = of_int y \<longleftrightarrow> y = int x" for x y by (metis of_int_eq_iff of_int_of_nat_eq)
  show ?thesis using header_back [OF assms(1,3,4,5), of rest] get_foldl_put [OF assms(2), of "[]"] assms(6-8)
    by (auto simp: checkShard_def non_null_def or_value_def num Let_def)
qed

section \<open>The download\<close>

text \<open>
  What one attempt of \<open>fetchTo\<close> meets: a failure before the body (no token, no answer, a status that is not ok, a body that breaks off with an error), or the
  body with the length the gateway announced, if it announced a number. \<open>fa_current\<close> says whether the host still wants this shard before the attempt.
\<close>

record fetch_attempt =
  fa_current :: bool
  fa_answer :: "(nat option \<times> buffer) option"

definition fetchTo :: "(nat option \<times> buffer) option \<Rightarrow> buffer option" where
  "fetchTo answer =
     (case answer of
        None \<Rightarrow> None
      | Some (announced, body) \<Rightarrow> (case announced of Some n \<Rightarrow> if 0 < n \<and> length body \<noteq> n then None else Some body | None \<Rightarrow> Some body))"

definition DOWNLOAD_ATTEMPTS :: nat where "DOWNLOAD_ATTEMPTS = 3"

text \<open>The loop, over what the attempts meet; it returns the file that is renamed into place.\<close>

fun download_loop :: "want \<Rightarrow> nat \<Rightarrow> fetch_attempt list \<Rightarrow> buffer option" where
  "download_loop w 0 as = None"
| "download_loop w (Suc k) [] = None"
| "download_loop w (Suc k) (a # as) =
     (if \<not> fa_current a then None
      else case fetchTo (fa_answer a) of
             None \<Rightarrow> download_loop w k as
           | Some f \<Rightarrow> if checkShard f w = None then download_loop w k as else Some f)"

definition download :: "want \<Rightarrow> buffer option \<Rightarrow> fetch_attempt list \<Rightarrow> buffer option" where
  "download w cached as =
     (case cached of
        Some f \<Rightarrow> if checkShard f w \<noteq> None then Some f else download_loop w DOWNLOAD_ATTEMPTS as
      | None \<Rightarrow> download_loop w DOWNLOAD_ATTEMPTS as)"

definition shard_char :: "char \<Rightarrow> bool" where
  "shard_char c \<longleftrightarrow> (let n = of_char c :: nat in 65 \<le> n \<and> n \<le> 90 \<or> 97 \<le> n \<and> n \<le> 122 \<or> 48 \<le> n \<and> n \<le> 57 \<or> n = 46 \<or> n = 95 \<or> n = 45)"

definition show_whole :: "int \<Rightarrow> string" where
  "show_whole i = (if i < 0 then ''-'' @ show_nat (nat (- i)) else show_nat (nat i))"

text \<open>The folder and the name under the directory of the shards.\<close>

definition shardFile :: "want \<Rightarrow> string \<times> string" where
  "shardFile w = (map (\<lambda>c. if shard_char c then c else CHR ''_'') (wt_model w),
     ''L'' @ show_whole (wt_layer w) @ ''_e'' @ pad_start 3 CHR ''0'' (show_whole (wt_begin w)) @ ''-'' @ pad_start 3 CHR ''0'' (show_whole (wt_end w)) @ ''.gguf'')"

lemma loop_checked: "download_loop w k as = Some f \<Longrightarrow> checkShard f w \<noteq> None \<and>
    (\<exists>a \<in> set (take k as). fa_current a \<and> fetchTo (fa_answer a) = Some f)"
  by (induction w k as rule: download_loop.induct) (auto split: if_splits option.splits)

lemma loop_third:
  "list_all fa_current as \<Longrightarrow> a \<in> set (take k as) \<Longrightarrow> fetchTo (fa_answer a) = Some f \<Longrightarrow> checkShard f w \<noteq> None \<Longrightarrow> \<exists>g. download_loop w k as = Some g"
  by (induction w k as rule: download_loop.induct) (auto split: option.split)

text \<open>
  A download ends with the right file or with none: what it returns passed the check and is either the file that was cached or the whole body of one of the
  first three answers, as long as announced; and while the shard is still wanted, one good answer among the first three, or a good cached file, is enough.
\<close>
theorem download_checked:
  "(download w cached as = Some f \<longrightarrow> checkShard f w \<noteq> None \<and>
      (cached = Some f \<or> (\<exists>a \<in> set (take 3 as). \<exists>n. fa_answer a = Some (n, f) \<and> (\<forall>k. n = Some k \<and> 0 < k \<longrightarrow> length f = k)))) \<and>
   (list_all fa_current as \<and> a \<in> set (take 3 as) \<and> fetchTo (fa_answer a) = Some g \<and> checkShard g w \<noteq> None \<longrightarrow> download w cached as \<noteq> None) \<and>
   (cached = Some g \<and> checkShard g w \<noteq> None \<longrightarrow> download w cached as = Some g)"
proof (intro conjI impI)
  assume d: "download w cached as = Some f"
  then have c: "cached = Some f \<and> checkShard f w \<noteq> None \<or> download_loop w 3 as = Some f"
    by (auto simp: download_def DOWNLOAD_ATTEMPTS_def split: option.splits if_splits)
  then show "checkShard f w \<noteq> None" using loop_checked by blast
  show "cached = Some f \<or> (\<exists>a \<in> set (take 3 as). \<exists>n. fa_answer a = Some (n, f) \<and> (\<forall>k. n = Some k \<and> 0 < k \<longrightarrow> length f = k))"
  proof (cases "cached = Some f")
    case False
    then obtain a where "a \<in> set (take 3 as)" "fetchTo (fa_answer a) = Some f" using c loop_checked by blast
    then show ?thesis by (auto simp: fetchTo_def split: option.splits if_splits intro!: bexI [of _ a])
  qed simp
next
  assume "list_all fa_current as \<and> a \<in> set (take 3 as) \<and> fetchTo (fa_answer a) = Some g \<and> checkShard g w \<noteq> None"
  then obtain h where "download_loop w 3 as = Some h" using loop_third by blast
  then show "download w cached as \<noteq> None" by (auto simp: download_def DOWNLOAD_ATTEMPTS_def split: option.split)
next
  assume "cached = Some g \<and> checkShard g w \<noteq> None"
  then show "download w cached as = Some g" by (simp add: download_def)
qed

text \<open>
  The model is not part of the check: a shard of one model is accepted for another with the same layer and range, and two
  model names that differ only in characters outside the safe ones share one cached file.
\<close>
theorem shard_model_unchecked:
  "checkShard f (w\<lparr>wt_model := x\<rparr>) = checkShard f w \<and> shardFile (w\<lparr>wt_model := ''org/m''\<rparr>) = shardFile (w\<lparr>wt_model := ''org_m''\<rparr>)"
  by (simp add: checkShard_def shardFile_def shard_char_def Let_def split: option.split)

section \<open>Witnesses\<close>

definition demo_shard :: "(string \<times> gguf_item) list" where
  "demo_shard = [(''kvasir.expert_shard.layer'', IU32 3), (''kvasir.expert_shard.expert_begin'', IU32 0), (''kvasir.expert_shard.expert_end'', IU32 64)]"

lemma demo_shard_ok: "list_all (\<lambda>(k, i). str_ok k \<and> item_ok i) demo_shard" "distinct (map fst demo_shard)" "length (gguf_head 0 demo_shard) \<le> GGUF_HEAD"
proof -
  have "is_text ''kvasir.expert_shard.layer''" "is_text ''kvasir.expert_shard.expert_begin''" "is_text ''kvasir.expert_shard.expert_end''"
    by (rule ascii_is_text, code_simp)+
  then show "list_all (\<lambda>(k, i). str_ok k \<and> item_ok i) demo_shard" by (simp add: demo_shard_def str_ok_def)
  show "distinct (map fst demo_shard)" by (simp add: demo_shard_def)
  show "length (gguf_head 0 demo_shard) \<le> GGUF_HEAD"
    by (simp add: demo_shard_def gguf_head_def GGUF_MAGIC_def enc_str_def GGUF_HEAD_def)
qed

lemma demo_shard_checks: "checkShard (gguf_head 0 demo_shard) \<lparr>wt_model = ''m'', wt_layer = 3, wt_begin = 0, wt_end = 64\<rparr> \<noteq> None"
proof -
  have "get demo_shard ''kvasir.expert_shard.layer'' = Some (IU32 3)" "get demo_shard ''kvasir.expert_shard.expert_begin'' = Some (IU32 0)"
    "get demo_shard ''kvasir.expert_shard.expert_end'' = Some (IU32 64)" "length demo_shard \<le> 2 ^ 53" by (simp_all add: demo_shard_def)
  then show ?thesis using header_back [OF demo_shard_ok(1) _ _ demo_shard_ok(3), of "[]"] get_foldl_put [OF demo_shard_ok(2), of "[]"]
    by (auto simp: checkShard_def non_null_def or_value_def Let_def)
qed

theorem gguf_roundtrip_witness:
  "\<exists>m. readGgufMetadata (gguf_head 0 demo_shard @ [1, 2, 3]) = Some m \<and> get m ''kvasir.expert_shard.expert_end'' = Some (GNum 64)"
  using gguf_roundtrip [OF demo_shard_ok(1) _ _ demo_shard_ok(3), of "[1, 2, 3]"] by (simp add: demo_shard_def)

theorem shard_check_exact_witness:
  "checkShard (gguf_head 0 demo_shard) \<lparr>wt_model = ''m'', wt_layer = 3, wt_begin = 0, wt_end = 64\<rparr> \<noteq> None \<and>
   checkShard (gguf_head 0 demo_shard) \<lparr>wt_model = ''m'', wt_layer = 3, wt_begin = 0, wt_end = 65\<rparr> = None"
proof -
  have "get demo_shard ''kvasir.expert_shard.layer'' = Some (IU32 3)" "get demo_shard ''kvasir.expert_shard.expert_begin'' = Some (IU32 0)"
    "get demo_shard ''kvasir.expert_shard.expert_end'' = Some (IU32 64)" by (simp_all add: demo_shard_def)
  moreover have "(0 :: nat) \<le> 2 ^ 53" "length demo_shard \<le> 2 ^ 53" by (simp_all add: demo_shard_def)
  ultimately have "checkShard (gguf_head 0 demo_shard @ []) w \<noteq> None \<longleftrightarrow> wt_layer w = int 3 \<and> wt_begin w = int 0 \<and> wt_end w = int 64" for w
    using demo_shard_ok by (intro shard_check_exact)
  from this [of "\<lparr>wt_model = ''m'', wt_layer = 3, wt_begin = 0, wt_end = 64\<rparr>"] this [of "\<lparr>wt_model = ''m'', wt_layer = 3, wt_begin = 0, wt_end = 65\<rparr>"]
  show ?thesis by (simp del: not_None_eq)
qed

theorem prune_keeps_held_witness:
  "length (filter (\<lambda>f. sf_path f \<notin> {''a''}) (pruneShards 1 {''a''} [\<lparr>sf_path = ''a'', sf_mtime = 1\<rparr>, \<lparr>sf_path = ''b'', sf_mtime = 2\<rparr>, \<lparr>sf_path = ''c'', sf_mtime = 3\<rparr>])) \<le> 1"
  using prune_keeps_held [of "[\<lparr>sf_path = ''a'', sf_mtime = 1\<rparr>, \<lparr>sf_path = ''b'', sf_mtime = 2\<rparr>, \<lparr>sf_path = ''c'', sf_mtime = 3\<rparr>]" "{''a''}" 1] by simp

theorem download_checked_witness:
  "download \<lparr>wt_model = ''m'', wt_layer = 3, wt_begin = 0, wt_end = 64\<rparr> None
     [\<lparr>fa_current = True, fa_answer = None\<rparr>, \<lparr>fa_current = True, fa_answer = Some (None, gguf_head 0 demo_shard)\<rparr>] \<noteq> None"
  using download_checked [of "\<lparr>wt_model = ''m'', wt_layer = 3, wt_begin = 0, wt_end = 64\<rparr>" None
      "[\<lparr>fa_current = True, fa_answer = None\<rparr>, \<lparr>fa_current = True, fa_answer = Some (None, gguf_head 0 demo_shard)\<rparr>]" "[]"
      "\<lparr>fa_current = True, fa_answer = Some (None, gguf_head 0 demo_shard)\<rparr>" "gguf_head 0 demo_shard"] demo_shard_checks
  by (simp add: fetchTo_def)

end
