(* ===== verification/Desktop_Host.thy ===== *)
theory Desktop_Host
  imports Desktop_Shard Desktop_Participation
begin

text \<open>
  Hosting an expert assignment on a desktop node (\<^verbatim>\<open>wallet/desktop/electron/expertHost.cjs\<close>): one host that downloads a shard,
  starts a worker on it and dials the relay (\<open>ExpertHost\<close>), and the pool of hosts that makes a machine several volunteers (\<open>ExpertPool\<close>).

  Every await of the code is a point where the host can be released or given other work. The model keeps, for each
  await, the generation that waits there; the continuation is an operation of its own. Processes, timers and sockets
  are numbered and carry the generation of the closure that made them. A killed process is gone; its exit event finds
  another process in place and does nothing.
\<close>

section \<open>One host\<close>

datatype ephase = PhIdle | PhDownloading | PhStarting | PhServing | PhFailed

text \<open>\<open>hl_file\<close> stands for the path: the contents of the file that was checked.\<close>

record held_shard =
  hl_want :: want
  hl_file :: "buffer option"
  hl_nEmbd :: nat

text \<open>Where a call of \<open>provision\<close> waits; each has a generation of its own.\<close>

datatype econt = CDownload want | CPort | CTurn | CConnect

record ehost =
  eh_phase :: ephase
  eh_held :: "held_shard option"
  eh_proc :: "nat option"
  eh_port :: "nat option"
  eh_session :: "string option"
  eh_generation :: nat
  eh_ws :: "nat option"
  eh_timer :: "nat option"
  eh_dialing :: bool
  eh_retryMs :: nat
  eh_connected :: bool
  eh_alive :: "(nat \<times> nat) list"
  eh_armed :: "(nat \<times> nat) list"
  eh_sockets :: "(nat \<times> nat) list"
  eh_conts :: "(nat \<times> econt) list"
  eh_dials :: "nat list"
  eh_fresh :: nat

definition RELAY_RETRY_MIN :: nat where "RELAY_RETRY_MIN = 5000"
definition RELAY_RETRY_MAX :: nat where "RELAY_RETRY_MAX = 60000"

definition new_ehost :: ehost where
  "new_ehost = \<lparr>eh_phase = PhIdle, eh_held = None, eh_proc = None, eh_port = None, eh_session = None, eh_generation = 0, eh_ws = None, eh_timer = None,
     eh_dialing = False, eh_retryMs = RELAY_RETRY_MIN, eh_connected = False, eh_alive = [], eh_armed = [], eh_sockets = [], eh_conts = [], eh_dials = [], eh_fresh = 0\<rparr>"

definition host_busy :: "ehost \<Rightarrow> bool" where
  "host_busy h = (eh_phase h \<in> {PhDownloading, PhStarting, PhServing})"

definition heldSegments :: "ehost \<Rightarrow> (int \<times> int \<times> int) list" where
  "heldSegments h =
     (case eh_held h of
        Some x \<Rightarrow> if eh_phase h = PhServing then [(wt_layer (hl_want x), wt_begin (hl_want x), wt_end (hl_want x))] else []
      | None \<Rightarrow> [])"

definition coverageUrl :: "ehost \<Rightarrow> string" where
  "coverageUrl h = (case eh_session h of Some s \<Rightarrow> if eh_phase h = PhServing then ''relay:'' @ s else '''' | None \<Rightarrow> '''')"

definition heldExperts :: "ehost \<Rightarrow> int" where
  "heldExperts h = (case eh_held h of Some x \<Rightarrow> wt_end (hl_want x) - wt_begin (hl_want x) | None \<Rightarrow> 0)"

definition closeRelay :: "ehost \<Rightarrow> ehost" where
  "closeRelay h =
     h\<lparr>eh_armed := (case eh_timer h of Some i \<Rightarrow> filter (\<lambda>x. fst x \<noteq> i) (eh_armed h) | None \<Rightarrow> eh_armed h), eh_ws := None, eh_timer := None,
       eh_dialing := False, eh_retryMs := RELAY_RETRY_MIN, eh_connected := False\<rparr>"

definition stopWorker :: "ehost \<Rightarrow> ehost" where
  "stopWorker h = (case eh_proc h of Some p \<Rightarrow> h\<lparr>eh_proc := None, eh_alive := filter (\<lambda>x. fst x \<noteq> p) (eh_alive h)\<rparr> | None \<Rightarrow> h)"

definition host_release :: "ehost \<Rightarrow> ehost" where
  "host_release h =
     (if eh_phase h = PhIdle \<and> eh_proc h = None then h
      else (stopWorker (closeRelay (h\<lparr>eh_generation := eh_generation h + 1\<rparr>)))
             \<lparr>eh_held := None, eh_session := None, eh_port := None, eh_phase := PhIdle\<rparr>)"

definition host_provision :: "want \<Rightarrow> nat \<Rightarrow> string \<Rightarrow> ehost \<Rightarrow> ehost" where
  "host_provision w nEmbd workerId h =
     (if host_busy h \<and> (\<exists>x. eh_held h = Some x \<and> hl_want x = w) then h
      else let h1 = host_release h; g = eh_generation h1 + 1
           in h1\<lparr>eh_generation := g, eh_held := Some \<lparr>hl_want = w, hl_file = None, hl_nEmbd = nEmbd\<rparr>, eh_session := Some (''expert-'' @ workerId),
                 eh_phase := PhDownloading, eh_conts := put g (CDownload w) (eh_conts h1)\<rparr>)"

text \<open>The catch of \<open>provision\<close>: the failure of an older generation is ignored.\<close>

definition host_failed :: "nat \<Rightarrow> ehost \<Rightarrow> ehost" where
  "host_failed g h = (if g \<noteq> eh_generation h then h else (stopWorker h)\<lparr>eh_phase := PhFailed\<rparr>)"

text \<open>The download ended, with the file or without; the shard is checked and the worker is about to be started.\<close>

definition host_downloaded :: "nat \<Rightarrow> want \<Rightarrow> buffer option \<Rightarrow> bool \<Rightarrow> ehost \<Rightarrow> ehost" where
  "host_downloaded g w file hasBinary h =
     (let h1 = h\<lparr>eh_conts := del g (eh_conts h)\<rparr>
      in case file of
           None \<Rightarrow> host_failed g h1
         | Some f \<Rightarrow>
             if g \<noteq> eh_generation h1 then h1
             else let h2 = h1\<lparr>eh_held := map_option (\<lambda>x. x\<lparr>hl_file := Some f\<rparr>) (eh_held h1)\<rparr>
                  in if checkShard f w = None then host_failed g h2
                     else let h3 = h2\<lparr>eh_phase := PhStarting\<rparr>
                          in if \<not> hasBinary then host_failed g h3 else h3\<lparr>eh_conts := put g CPort (eh_conts h3)\<rparr>)"

text \<open>
  \<^verbatim>\<open>this.port = await freePort()\<close> and what follows it: the assignment and the spawning do not look at the generation, but a released
  host has no held shard to name and throws.
\<close>

definition port_found :: "nat \<Rightarrow> nat \<Rightarrow> ehost \<Rightarrow> ehost" where
  "port_found g port h =
     (let h1 = h\<lparr>eh_conts := del g (eh_conts h), eh_port := Some port\<rparr>
      in if eh_held h1 = None then host_failed g h1
         else h1\<lparr>eh_proc := Some (eh_fresh h1), eh_alive := eh_alive h1 @ [(eh_fresh h1, g)], eh_conts := put g CTurn (eh_conts h1), eh_fresh := eh_fresh h1 + 1\<rparr>)"

definition no_port :: "nat \<Rightarrow> ehost \<Rightarrow> ehost" where
  "no_port g h = host_failed g (h\<lparr>eh_conts := del g (eh_conts h)\<rparr>)"

text \<open>One turn of the loop that waits for the worker's port, and the answer of its probe.\<close>

definition wait_turn :: "nat \<Rightarrow> bool \<Rightarrow> ehost \<Rightarrow> ehost" where
  "wait_turn g expired h =
     (if expired \<or> g \<noteq> eh_generation h \<or> eh_proc h = None then host_failed g (h\<lparr>eh_conts := del g (eh_conts h)\<rparr>)
      else h\<lparr>eh_conts := put g CConnect (eh_conts h)\<rparr>)"

definition probe_answered :: "nat \<Rightarrow> bool \<Rightarrow> ehost \<Rightarrow> ehost" where
  "probe_answered g ok h =
     (if \<not> ok then h\<lparr>eh_conts := put g CTurn (eh_conts h)\<rparr>
      else let h1 = h\<lparr>eh_conts := del g (eh_conts h)\<rparr>
           in if g \<noteq> eh_generation h1 then h1 else h1\<lparr>eh_phase := PhServing\<rparr>)"

definition worker_exit :: "nat \<times> nat \<Rightarrow> ehost \<Rightarrow> ehost" where
  "worker_exit pg h =
     (let h1 = h\<lparr>eh_alive := filter (\<lambda>x. fst x \<noteq> fst pg) (eh_alive h)\<rparr>
      in if eh_proc h1 \<noteq> Some (fst pg) then h1
         else let h2 = h1\<lparr>eh_proc := None\<rparr>
              in if snd pg = eh_generation h2 \<and> eh_phase h2 = PhServing then (closeRelay h2)\<lparr>eh_phase := PhFailed\<rparr> else h2)"

subsection \<open>Its relay\<close>

definition dialRelay :: "nat \<Rightarrow> ehost \<Rightarrow> ehost" where
  "dialRelay g h =
     (let h1 = h\<lparr>eh_timer := None\<rparr>
      in if g \<noteq> eh_generation h1 \<or> eh_phase h1 \<noteq> PhServing then h1
         else h1\<lparr>eh_dialing := True, eh_dials := eh_dials h1 @ [g]\<rparr>)"

definition host_wired :: "ehost \<Rightarrow> ehost" where
  "host_wired h =
     (if eh_phase h \<noteq> PhServing \<or> eh_ws h \<noteq> None \<or> eh_timer h \<noteq> None \<or> eh_dialing h then h else dialRelay (eh_generation h) h)"

definition scheduleRelay :: "nat \<Rightarrow> ehost \<Rightarrow> ehost" where
  "scheduleRelay g h =
     (if g \<noteq> eh_generation h \<or> eh_phase h \<noteq> PhServing then h
      else h\<lparr>eh_retryMs := min RELAY_RETRY_MAX (eh_retryMs h * 2),
             eh_armed := (case eh_timer h of Some i \<Rightarrow> filter (\<lambda>x. fst x \<noteq> i) (eh_armed h) | None \<Rightarrow> eh_armed h) @ [(eh_fresh h, g)],
             eh_timer := Some (eh_fresh h), eh_fresh := eh_fresh h + 1\<rparr>)"

definition token_got :: "nat \<Rightarrow> bool \<Rightarrow> ehost \<Rightarrow> ehost" where
  "token_got g ok h =
     (let h1 = h\<lparr>eh_dials := remove1 g (eh_dials h), eh_dialing := False\<rparr>
      in if \<not> ok then scheduleRelay g h1
         else if g \<noteq> eh_generation h1 \<or> eh_phase h1 \<noteq> PhServing then h1
         else h1\<lparr>eh_ws := Some (eh_fresh h1), eh_sockets := eh_sockets h1 @ [(eh_fresh h1, g)], eh_fresh := eh_fresh h1 + 1\<rparr>)"

text \<open>A message or a pong of the current socket.\<close>

definition relay_heard :: "nat \<times> nat \<Rightarrow> ehost \<Rightarrow> ehost" where
  "relay_heard s h = (if snd s = eh_generation h \<and> eh_ws h = Some (fst s) then h\<lparr>eh_connected := True, eh_retryMs := RELAY_RETRY_MIN\<rparr> else h)"

definition relay_closed :: "nat \<times> nat \<Rightarrow> ehost \<Rightarrow> ehost" where
  "relay_closed s h =
     (let h1 = h\<lparr>eh_sockets := remove1 s (eh_sockets h)\<rparr>
      in if \<not> (snd s = eh_generation h1 \<and> eh_ws h1 = Some (fst s)) then h1
         else scheduleRelay (snd s) (h1\<lparr>eh_connected := False, eh_ws := None\<rparr>))"

definition relay_fire :: "nat \<times> nat \<Rightarrow> ehost \<Rightarrow> ehost" where
  "relay_fire i h = dialRelay (snd i) (h\<lparr>eh_armed := remove1 i (eh_armed h)\<rparr>)"

subsection \<open>Its steps\<close>

text \<open>What happens by itself, apart from a process that ends; then the calls of its owner and the end of a process.\<close>

inductive host_event :: "ehost \<Rightarrow> ehost \<Rightarrow> bool" where
  "get (eh_conts h) g = Some (CDownload w) \<Longrightarrow> host_event h (host_downloaded g w file hasBinary h)"
| "get (eh_conts h) g = Some CPort \<Longrightarrow> host_event h (port_found g port h)"
| "get (eh_conts h) g = Some CPort \<Longrightarrow> host_event h (no_port g h)"
| "get (eh_conts h) g = Some CTurn \<Longrightarrow> host_event h (wait_turn g expired h)"
| "get (eh_conts h) g = Some CConnect \<Longrightarrow> host_event h (probe_answered g ok h)"
| "g \<in> set (eh_dials h) \<Longrightarrow> host_event h (token_got g ok h)"
| "s \<in> set (eh_sockets h) \<Longrightarrow> host_event h (relay_heard s h)"
| "s \<in> set (eh_sockets h) \<Longrightarrow> host_event h (relay_closed s h)"
| "i \<in> set (eh_armed h) \<Longrightarrow> host_event h (relay_fire i h)"
| "host_event h (host_wired h)"
| "host_event h (host_release h)"

inductive host_step :: "ehost \<Rightarrow> ehost \<Rightarrow> bool" where
  by_itself: "host_event h h' \<Longrightarrow> host_step h h'"
| provisioned: "host_step h (host_provision w n i h)"
| exited: "pg \<in> set (eh_alive h) \<Longrightarrow> host_step h (worker_exit pg h)"

section \<open>What is reported was checked\<close>

fun cont_fits :: "econt \<Rightarrow> ephase \<Rightarrow> held_shard option \<Rightarrow> bool" where
  "cont_fits (CDownload w) ph hl = (ph = PhDownloading \<and> (\<exists>x. hl = Some x \<and> hl_want x = w))"
| "cont_fits _ ph hl = (ph = PhStarting)"

fun shard_fits :: "ephase \<Rightarrow> held_shard option \<Rightarrow> bool" where
  "shard_fits PhStarting hl = (\<exists>x f. hl = Some x \<and> hl_file x = Some f \<and> checkShard f (hl_want x) \<noteq> None)"
| "shard_fits PhServing hl = (\<exists>x f. hl = Some x \<and> hl_file x = Some f \<and> checkShard f (hl_want x) \<noteq> None)"
| "shard_fits PhDownloading hl = (hl \<noteq> None)"
| "shard_fits _ hl = True"

definition host_ok :: "ehost \<Rightarrow> bool" where
  "host_ok h \<longleftrightarrow> (\<forall>g c. get (eh_conts h) g = Some c \<longrightarrow> g \<le> eh_generation h) \<and>
     (\<forall>c. get (eh_conts h) (eh_generation h) = Some c \<longrightarrow> cont_fits c (eh_phase h) (eh_held h)) \<and>
     shard_fits (eh_phase h) (eh_held h) \<and> (host_busy h \<longrightarrow> eh_session h \<noteq> None) \<and>
     (eh_ws h \<noteq> None \<or> eh_timer h \<noteq> None \<longrightarrow> eh_phase h = PhServing) \<and>
     RELAY_RETRY_MIN \<le> eh_retryMs h \<and> eh_retryMs h \<le> RELAY_RETRY_MAX"

lemma closeRelay_simps [simp]:
  "eh_phase (closeRelay h) = eh_phase h" "eh_held (closeRelay h) = eh_held h" "eh_proc (closeRelay h) = eh_proc h" "eh_session (closeRelay h) = eh_session h"
  "eh_generation (closeRelay h) = eh_generation h" "eh_ws (closeRelay h) = None" "eh_timer (closeRelay h) = None" "eh_retryMs (closeRelay h) = RELAY_RETRY_MIN"
  "eh_conts (closeRelay h) = eh_conts h"
  "eh_alive (closeRelay h) = eh_alive h" "eh_fresh (closeRelay h) = eh_fresh h"
  by (simp_all add: closeRelay_def)

lemma stopWorker_simps [simp]:
  "eh_phase (stopWorker h) = eh_phase h" "eh_held (stopWorker h) = eh_held h" "eh_proc (stopWorker h) = None" "eh_session (stopWorker h) = eh_session h"
  "eh_generation (stopWorker h) = eh_generation h" "eh_ws (stopWorker h) = eh_ws h" "eh_timer (stopWorker h) = eh_timer h" "eh_retryMs (stopWorker h) = eh_retryMs h"
  "eh_conts (stopWorker h) = eh_conts h"
  "eh_fresh (stopWorker h) = eh_fresh h"
  by (simp_all add: stopWorker_def split: option.split)

lemma retry_bounds_ok [simp]: "RELAY_RETRY_MIN \<le> RELAY_RETRY_MAX" "RELAY_RETRY_MIN \<le> n \<Longrightarrow> RELAY_RETRY_MIN \<le> min RELAY_RETRY_MAX (n * 2)"
  by (simp_all add: RELAY_RETRY_MIN_def RELAY_RETRY_MAX_def)

lemma cont_settled [simp]: "\<not> cont_fits c PhServing hl" "\<not> cont_fits c PhFailed hl" "\<not> cont_fits c PhIdle hl"
  by (cases c; simp)+

text \<open>A continuation of the current generation that fails finds the host on its way, not serving.\<close>

lemma host_failed_ok:
  assumes "host_ok h" "g = eh_generation h \<longrightarrow> eh_phase h \<noteq> PhServing \<and> get (eh_conts h) g = None"
  shows "host_ok (host_failed g h)"
  using assms by (auto simp: host_ok_def host_failed_def host_busy_def)

lemma del_cont_ok: "host_ok h \<Longrightarrow> host_ok (h\<lparr>eh_conts := del g (eh_conts h)\<rparr>)"
  by (auto simp: host_ok_def host_busy_def delete_conv' split: if_splits)

lemma cont_phase:
  assumes "host_ok h" "get (eh_conts h) g = Some c" "g = eh_generation h"
  shows "cont_fits c (eh_phase h) (eh_held h)" "eh_phase h \<noteq> PhServing" "eh_ws h = None" "eh_timer h = None"
  using assms by (cases c; auto simp: host_ok_def)+

lemma host_release_ok:
  assumes "host_ok h"
  shows "host_ok (host_release h)" "eh_ws (host_release h) = None" "eh_timer (host_release h) = None"
proof -
  have "\<forall>c. get (eh_conts h) (eh_generation h + 1) \<noteq> Some c" using assms by (fastforce simp: host_ok_def)
  then have "host_ok ((stopWorker (closeRelay (h\<lparr>eh_generation := eh_generation h + 1\<rparr>)))\<lparr>eh_held := None, eh_session := None, eh_port := None, eh_phase := PhIdle\<rparr>)"
    using assms by (auto simp: host_ok_def host_busy_def le_SucI)
  then show "host_ok (host_release h)" using assms by (simp add: host_release_def)
  show "eh_ws (host_release h) = None" "eh_timer (host_release h) = None"
    using assms by (auto simp: host_release_def host_ok_def)
qed

lemma host_provision_ok:
  assumes "host_ok h"
  shows "host_ok (host_provision w n i h)"
proof (cases "host_busy h \<and> (\<exists>x. eh_held h = Some x \<and> hl_want x = w)")
  case True
  then show ?thesis using assms by (simp add: host_provision_def)
next
  case False
  define r where "r = host_release h"
  note ok = host_release_ok [OF assms, folded r_def]
  let ?h = "r\<lparr>eh_generation := eh_generation r + 1, eh_held := Some \<lparr>hl_want = w, hl_file = None, hl_nEmbd = n\<rparr>, eh_session := Some (''expert-'' @ i),
      eh_phase := PhDownloading, eh_conts := put (eh_generation r + 1) (CDownload w) (eh_conts r)\<rparr>"
  have "host_ok ?h" using ok by (auto simp: host_ok_def table_simps le_SucI update_conv')
  then show ?thesis using False by (simp only: host_provision_def Let_def r_def [symmetric] if_False)
qed

lemma downloaded_ok:
  assumes ok: "host_ok h" and d: "get (eh_conts h) g = Some (CDownload w)"
  shows "host_ok (host_downloaded g w file bin h)"
proof -
  define h1 where "h1 = h\<lparr>eh_conts := del g (eh_conts h)\<rparr>"
  have h1: "host_ok h1" "get (eh_conts h1) g = None" using del_cont_ok [OF ok] by (simp_all add: h1_def table_simps)
  have same: "eh_generation h1 = eh_generation h" "eh_phase h1 = eh_phase h" "eh_held h1 = eh_held h" "eh_ws h1 = eh_ws h" "eh_timer h1 = eh_timer h" by (simp_all add: h1_def)
  have fail: "host_ok (host_failed g h1)" using h1 cont_phase(2) [OF ok d] by (intro host_failed_ok) (auto simp: same)
  show ?thesis
  proof (cases "\<exists>f. file = Some f \<and> g = eh_generation h1")
    case False
    then show ?thesis unfolding host_downloaded_def h1_def [symmetric] Let_def using h1(1) fail by (auto split: option.split)
  next
    case True
    then obtain f where f: "file = Some f" "g = eh_generation h1" by blast
    obtain x where x: "eh_held h = Some x" "hl_want x = w" "eh_phase h = PhDownloading" "eh_ws h = None" "eh_timer h = None"
      using cont_phase [OF ok d] f(2) same by auto
    define h2 where "h2 = h1\<lparr>eh_held := Some (x\<lparr>hl_file := Some f\<rparr>)\<rparr>"
    have h2: "host_ok h2" "get (eh_conts h2) g = None" "eh_phase h2 = PhDownloading" "eh_generation h2 = g"
      using h1 f x by (auto simp: host_ok_def h2_def host_busy_def same)
    show ?thesis
    proof (cases "checkShard f w = None")
      case True
      then have "host_downloaded g w file bin h = host_failed g h2"
        unfolding host_downloaded_def h1_def [symmetric] Let_def using f x by (simp add: h2_def same)
      then show ?thesis using host_failed_ok [OF h2(1), of g] h2 by simp
    next
      case False
      define h3 where "h3 = h2\<lparr>eh_phase := PhStarting\<rparr>"
      have h3: "host_ok h3" "get (eh_conts h3) g = None" "eh_phase h3 = PhStarting" "eh_generation h3 = g"
        using h2 x False by (auto simp: host_ok_def h3_def h2_def host_busy_def same)
      have "host_ok (h3\<lparr>eh_conts := put g CPort (eh_conts h3)\<rparr>)"
        using h3 by (auto simp: host_ok_def host_busy_def update_conv')
      moreover have "host_downloaded g w file bin h = (if bin then h3\<lparr>eh_conts := put g CPort (eh_conts h3)\<rparr> else host_failed g h3)"
        unfolding host_downloaded_def h1_def [symmetric] Let_def using f x False by (auto simp: h2_def h3_def same)
      ultimately show ?thesis using host_failed_ok [OF h3(1), of g] h3 by simp
    qed
  qed
qed

lemma put_cont_ok:
  assumes "host_ok h" "get (eh_conts h) g = Some c" "c \<noteq> CDownload w" "\<And>w. c \<noteq> CDownload w" "\<And>w. c' \<noteq> CDownload w"
  shows "host_ok (h\<lparr>eh_conts := put g c' (eh_conts h)\<rparr>)"
proof -
  have "cont_fits c' ph hl = cont_fits c ph hl" for ph hl using assms(4,5) by (cases c; cases c') auto
  then show ?thesis using assms(1,2) by (auto simp: host_ok_def host_busy_def update_conv')
qed

lemma cont_failed_ok:
  assumes "host_ok h" "get (eh_conts h) g = Some c"
  shows "host_ok (host_failed g (h\<lparr>eh_conts := del g (eh_conts h)\<rparr>))"
  using del_cont_ok [OF assms(1)] cont_phase(2) [OF assms] by (intro host_failed_ok) (auto simp: delete_conv')

lemma port_found_ok:
  assumes "host_ok h" "get (eh_conts h) g = Some CPort"
  shows "host_ok (port_found g port h)"
proof (cases "eh_held h = None")
  case True
  have "host_ok ((host_failed g (h\<lparr>eh_conts := del g (eh_conts h)\<rparr>))\<lparr>eh_port := Some port\<rparr>)"
    using cont_failed_ok [OF assms] by (simp add: host_ok_def host_busy_def)
  moreover have "(host_failed g (h\<lparr>eh_conts := del g (eh_conts h)\<rparr>))\<lparr>eh_port := Some port\<rparr> = port_found g port h"
    using True by (simp add: port_found_def host_failed_def stopWorker_def Let_def split: option.split)
  ultimately show ?thesis by simp
next
  case False
  have "host_ok (h\<lparr>eh_conts := put g CTurn (eh_conts h)\<rparr>)" using assms by (intro put_cont_ok) auto
  moreover have "get (put g CTurn (del g (eh_conts h))) = get (put g CTurn (eh_conts h))" by (auto simp: update_conv' delete_conv')
  moreover obtain x where "eh_held h = Some x" using False by auto
  ultimately show ?thesis by (simp add: port_found_def host_ok_def host_busy_def Let_def)
qed

lemma probe_ok:
  assumes "host_ok h" "get (eh_conts h) g = Some CConnect"
  shows "host_ok (probe_answered g ok h)"
proof (cases "ok \<and> g = eh_generation h")
  case True
  have "eh_phase h = PhStarting" using cont_phase(1) [OF assms] True by simp
  then show ?thesis using True assms(1)
    by (auto simp: probe_answered_def host_ok_def host_busy_def delete_conv' split: if_splits)
next
  case False
  have "host_ok (h\<lparr>eh_conts := put g CTurn (eh_conts h)\<rparr>)" using assms by (intro put_cont_ok) auto
  then show ?thesis using False del_cont_ok [OF assms(1), of g] by (auto simp: probe_answered_def Let_def)
qed

lemma turn_ok:
  assumes "host_ok h" "get (eh_conts h) g = Some CTurn"
  shows "host_ok (wait_turn g expired h)"
proof -
  have "host_ok (h\<lparr>eh_conts := put g CConnect (eh_conts h)\<rparr>)" using assms by (intro put_cont_ok) auto
  then show ?thesis using cont_failed_ok [OF assms] by (auto simp: wait_turn_def)
qed

lemma exit_ok: "host_ok h \<Longrightarrow> host_ok (worker_exit pg h)"
  by (auto simp: worker_exit_def host_ok_def host_busy_def Let_def)

lemma dial_ok: "host_ok h \<Longrightarrow> host_ok (dialRelay g h)"
  by (auto simp: dialRelay_def host_ok_def host_busy_def Let_def)

lemma schedule_ok: "host_ok h \<Longrightarrow> host_ok (scheduleRelay g h)"
  by (auto simp: scheduleRelay_def host_ok_def host_busy_def)

lemma token_ok:
  assumes "host_ok h"
  shows "host_ok (token_got g ok h)"
proof -
  have "host_ok (h\<lparr>eh_dials := remove1 g (eh_dials h), eh_dialing := False\<rparr>)" using assms by (simp add: host_ok_def host_busy_def)
  from schedule_ok [OF this, of g] this show ?thesis by (auto simp: token_got_def Let_def, auto simp: host_ok_def host_busy_def)
qed

lemma relay_ok:
  assumes "host_ok h"
  shows "host_ok (relay_heard s h)" "host_ok (relay_closed s h)" "host_ok (relay_fire i h)" "host_ok (host_wired h)"
proof -
  show "host_ok (relay_heard s h)" using assms by (auto simp: relay_heard_def host_ok_def host_busy_def)
  have "host_ok (h\<lparr>eh_sockets := remove1 s (eh_sockets h), eh_connected := False, eh_ws := None\<rparr>)" "host_ok (h\<lparr>eh_sockets := remove1 s (eh_sockets h)\<rparr>)"
    using assms by (auto simp: host_ok_def host_busy_def)
  then show "host_ok (relay_closed s h)" using schedule_ok by (simp add: relay_closed_def Let_def)
  have "host_ok (h\<lparr>eh_armed := remove1 i (eh_armed h)\<rparr>)" using assms by (simp add: host_ok_def host_busy_def)
  then show "host_ok (relay_fire i h)" by (simp add: relay_fire_def dial_ok)
  show "host_ok (host_wired h)" using assms by (simp add: host_wired_def dial_ok)
qed

lemma host_event_ok: "host_event h h' \<Longrightarrow> host_ok h \<Longrightarrow> host_ok h'"
  by (induction rule: host_event.induct)
    (auto simp: no_port_def intro: downloaded_ok port_found_ok cont_failed_ok turn_ok probe_ok token_ok relay_ok host_release_ok)

lemma host_step_ok: "host_step h h' \<Longrightarrow> host_ok h \<Longrightarrow> host_ok h'"
  by (erule host_step.cases) (auto intro: host_event_ok host_provision_ok exit_ok)

lemma host_reach_ok: "host_step\<^sup>*\<^sup>* new_ehost h \<Longrightarrow> host_ok h"
proof (induction rule: rtranclp_induct)
  case base
  show ?case by (simp add: host_ok_def new_ehost_def host_busy_def)
qed (auto intro: host_step_ok)

text \<open>
  C18: A host reports only what it was given and checked, under any interleaving of downloads, probes, releases, reassignments and
  relay events: a reported segment is the range of the shard whose file passed the check, its session exists, the relay is dialled and held only
  while the host serves, the wait between dials stays between five seconds and a minute, and neither the late continuation of an older
  generation nor a released host changes or reports anything.
\<close>
theorem host_reports_checked:
  assumes "host_step\<^sup>*\<^sup>* new_ehost h"
  shows "(heldSegments h \<noteq> [] \<longrightarrow> (\<exists>x f. eh_held h = Some x \<and> hl_file x = Some f \<and> checkShard f (hl_want x) \<noteq> None \<and>
       heldSegments h = [(wt_layer (hl_want x), wt_begin (hl_want x), wt_end (hl_want x))]) \<and> coverageUrl h \<noteq> '''') \<and>
    (eh_ws h \<noteq> None \<or> eh_timer h \<noteq> None \<longrightarrow> eh_phase h = PhServing) \<and> 5000 \<le> eh_retryMs h \<and> eh_retryMs h \<le> 60000 \<and>
    heldSegments (host_release h) = [] \<and> (\<forall>g ok. g \<noteq> eh_generation h \<longrightarrow> heldSegments (probe_answered g ok h) = heldSegments h)"
proof -
  have ok: "host_ok h" using assms by (rule host_reach_ok)
  have "heldSegments (host_release h) = []"
    by (auto simp: heldSegments_def host_release_def split: option.split)
  moreover have "heldSegments (probe_answered g ok h) = heldSegments h" if "g \<noteq> eh_generation h" for g ok
    using that by (cases "eh_held h") (simp_all add: probe_answered_def heldSegments_def Let_def)
  moreover have "\<exists>x f. eh_held h = Some x \<and> hl_file x = Some f \<and> checkShard f (hl_want x) \<noteq> None \<and>
       heldSegments h = [(wt_layer (hl_want x), wt_begin (hl_want x), wt_end (hl_want x))]" "coverageUrl h \<noteq> ''''" if "heldSegments h \<noteq> []"
  proof -
    have "eh_phase h = PhServing" using that by (auto simp: heldSegments_def split: option.splits if_splits)
    then show "\<exists>x f. eh_held h = Some x \<and> hl_file x = Some f \<and> checkShard f (hl_want x) \<noteq> None \<and>
       heldSegments h = [(wt_layer (hl_want x), wt_begin (hl_want x), wt_end (hl_want x))]" "coverageUrl h \<noteq> ''''"
      using ok by (auto simp: host_ok_def host_busy_def heldSegments_def coverageUrl_def)
  qed
  moreover have "eh_ws h \<noteq> None \<or> eh_timer h \<noteq> None \<longrightarrow> eh_phase h = PhServing" "5000 \<le> eh_retryMs h" "eh_retryMs h \<le> 60000"
    using ok by (simp_all add: host_ok_def RELAY_RETRY_MIN_def RELAY_RETRY_MAX_def)
  ultimately show ?thesis by blast
qed

section \<open>What is reported is served\<close>

text \<open>
  The steps without two races: the host is not given other work while it waits for a free port, and the worker does not end while the answer
  of a probe of its port is outstanding.
\<close>

inductive calm_step :: "ehost \<Rightarrow> ehost \<Rightarrow> bool" where
  calm_event: "host_event h h' \<Longrightarrow> calm_step h h'"
| calm_provision: "(\<forall>g. get (eh_conts h) g \<noteq> Some CPort) \<Longrightarrow> calm_step h (host_provision w n i h)"
| calm_exit: "pg \<in> set (eh_alive h) \<Longrightarrow> get (eh_conts h) (eh_generation h) \<noteq> Some CConnect \<Longrightarrow> calm_step h (worker_exit pg h)"

definition calm_ok :: "ehost \<Rightarrow> bool" where
  "calm_ok h \<longleftrightarrow> host_ok h \<and> (\<forall>g. get (eh_conts h) g = Some CPort \<longrightarrow> g = eh_generation h \<or> eh_held h = None) \<and>
     (\<forall>p. eh_phase h \<in> {PhStarting, PhServing} \<and> eh_proc h = Some p \<longrightarrow> (p, eh_generation h) \<in> set (eh_alive h)) \<and>
     (get (eh_conts h) (eh_generation h) = Some CConnect \<or> eh_phase h = PhServing \<longrightarrow> eh_proc h \<noteq> None) \<and>
     distinct (map fst (eh_alive h)) \<and> (\<forall>x \<in> set (eh_alive h). fst x < eh_fresh h) \<and>
     (eh_phase h = PhDownloading \<longrightarrow> eh_proc h = None)"

lemma alive_filter: "distinct (map fst xs) \<Longrightarrow> distinct (map fst (filter P xs))"
  by (induction xs) auto

lemma stopWorker_alive: "set (eh_alive (stopWorker h)) \<subseteq> set (eh_alive h)" "distinct (map fst (eh_alive h)) \<Longrightarrow> distinct (map fst (eh_alive (stopWorker h)))"
  by (auto simp: stopWorker_def alive_filter split: option.split)

lemma calm_failed:
  assumes "calm_ok h" "host_ok (host_failed g (h\<lparr>eh_conts := del g (eh_conts h)\<rparr>))"
  shows "calm_ok (host_failed g (h\<lparr>eh_conts := del g (eh_conts h)\<rparr>))"
  using assms stopWorker_alive [of "h\<lparr>eh_conts := del g (eh_conts h)\<rparr>"]
  by (auto simp: calm_ok_def host_failed_def delete_conv' split: if_splits)

lemma calm_release:
  assumes "calm_ok h"
  shows "calm_ok (host_release h)"
proof -
  have ok: "host_ok (host_release h)" using assms host_release_ok by (simp add: calm_ok_def)
  have none: "get (eh_conts h) (eh_generation h + 1) = None" using assms by (fastforce simp: calm_ok_def host_ok_def)
  show ?thesis using ok assms none stopWorker_alive [of "closeRelay (h\<lparr>eh_generation := eh_generation h + 1\<rparr>)"]
    by (auto simp: calm_ok_def host_release_def)
qed

lemma release_idle: "eh_proc (host_release h) = None" "eh_conts (host_release h) = eh_conts h"
  by (simp_all add: host_release_def)

lemma calm_provision_ok:
  assumes "calm_ok h" "\<forall>g. get (eh_conts h) g \<noteq> Some CPort"
  shows "calm_ok (host_provision w n i h)"
proof -
  have ok: "host_ok (host_provision w n i h)" using assms(1) host_provision_ok by (simp add: calm_ok_def)
  show ?thesis
  proof (cases "host_busy h \<and> (\<exists>x. eh_held h = Some x \<and> hl_want x = w)")
    case True
    then show ?thesis using assms(1) by (simp add: host_provision_def)
  next
    case False
    define r where "r = host_release h"
    have r: "calm_ok r" "eh_proc r = None" "eh_conts r = eh_conts h" using calm_release [OF assms(1)] release_idle by (simp_all add: r_def)
    have p: "host_provision w n i h = r\<lparr>eh_generation := eh_generation r + 1, eh_held := Some \<lparr>hl_want = w, hl_file = None, hl_nEmbd = n\<rparr>,
        eh_session := Some (''expert-'' @ i), eh_phase := PhDownloading, eh_conts := put (eh_generation r + 1) (CDownload w) (eh_conts r)\<rparr>"
      using False by (simp only: host_provision_def Let_def r_def [symmetric] if_False)
    show ?thesis using r ok assms(2) unfolding p by (auto simp: calm_ok_def update_conv')
  qed
qed

lemma calm_exit_ok:
  assumes "calm_ok h" "pg \<in> set (eh_alive h)" "get (eh_conts h) (eh_generation h) \<noteq> Some CConnect"
  shows "calm_ok (worker_exit pg h)"
proof -
  have ok: "host_ok (worker_exit pg h)" using assms(1) exit_ok by (simp add: calm_ok_def)
  have d: "distinct (map fst (eh_alive h))" using assms(1) by (simp add: calm_ok_def)
  have mine: "snd pg = eh_generation h" if "eh_phase h = PhServing" "eh_proc h = Some (fst pg)"
  proof -
    have "(fst pg, eh_generation h) \<in> set (eh_alive h)" using assms(1) that by (simp add: calm_ok_def)
    then show ?thesis using d assms(2) by (metis eq_key_imp_eq_value prod.collapse)
  qed
  have dp: "distinct (map fst (filter (\<lambda>x. fst x \<noteq> fst pg) (eh_alive h)))" using d by (rule alive_filter)
  show ?thesis
  proof (cases "eh_proc h = Some (fst pg)")
    case False
    then show ?thesis using ok assms(1) dp by (auto simp: calm_ok_def worker_exit_def Let_def)
  next
    case True
    show ?thesis
    proof (cases "eh_phase h = PhServing")
      case s: True
      have "eh_phase (worker_exit pg h) = PhFailed" "eh_proc (worker_exit pg h) = None" "eh_conts (worker_exit pg h) = eh_conts h"
        "eh_generation (worker_exit pg h) = eh_generation h" "eh_held (worker_exit pg h) = eh_held h" "eh_fresh (worker_exit pg h) = eh_fresh h"
        "eh_alive (worker_exit pg h) = filter (\<lambda>x. fst x \<noteq> fst pg) (eh_alive h)"
        using True s mine by (simp_all add: worker_exit_def Let_def)
      then show ?thesis using ok assms(1,3) dp by (simp add: calm_ok_def)
    next
      case s: False
      have "eh_phase (worker_exit pg h) = eh_phase h" "eh_proc (worker_exit pg h) = None" "eh_conts (worker_exit pg h) = eh_conts h"
        "eh_generation (worker_exit pg h) = eh_generation h" "eh_held (worker_exit pg h) = eh_held h" "eh_fresh (worker_exit pg h) = eh_fresh h"
        "eh_alive (worker_exit pg h) = filter (\<lambda>x. fst x \<noteq> fst pg) (eh_alive h)"
        using True s by (simp_all add: worker_exit_def Let_def)
      then show ?thesis using ok assms(1,3) dp s by (simp add: calm_ok_def)
    qed
  qed
qed

text \<open>The relay's operations touch none of what the worker's discipline is about.\<close>

definition same_work :: "ehost \<Rightarrow> ehost \<Rightarrow> bool" where
  "same_work h h' \<longleftrightarrow> eh_phase h' = eh_phase h \<and> eh_held h' = eh_held h \<and> eh_proc h' = eh_proc h \<and> eh_generation h' = eh_generation h \<and>
     eh_conts h' = eh_conts h \<and> eh_alive h' = eh_alive h \<and> eh_fresh h \<le> eh_fresh h'"

lemma same_work_ok: "calm_ok h \<Longrightarrow> same_work h h' \<Longrightarrow> host_ok h' \<Longrightarrow> calm_ok h'"
  by (fastforce simp: calm_ok_def same_work_def)

lemma relay_same_work:
  "same_work h (token_got g ok h)" "same_work h (relay_heard s h)" "same_work h (relay_closed s h)" "same_work h (relay_fire i h)" "same_work h (host_wired h)"
  by (simp_all add: same_work_def token_got_def relay_heard_def relay_closed_def relay_fire_def host_wired_def scheduleRelay_def dialRelay_def Let_def)

lemma calm_is_ok: "calm_ok h \<Longrightarrow> host_ok h"
  by (simp add: calm_ok_def)

lemma calm_del: "calm_ok h \<Longrightarrow> calm_ok (h\<lparr>eh_conts := del g (eh_conts h)\<rparr>)"
  using del_cont_ok [of h g] by (auto simp: calm_ok_def delete_conv')

lemma calm_downloaded:
  assumes c: "calm_ok h" and d: "get (eh_conts h) g = Some (CDownload w)"
  shows "calm_ok (host_downloaded g w got bin h)"
proof -
  have ok: "host_ok (host_downloaded g w got bin h)" using downloaded_ok [OF calm_is_ok [OF c] d] .
  show ?thesis
  proof (cases "g = eh_generation h")
    case False
    then show ?thesis using calm_del [OF c, of g] by (simp add: host_downloaded_def host_failed_def Let_def split: option.split)
  next
    case True
    have "eh_phase h = PhDownloading" using cont_phase(1) [OF calm_is_ok [OF c] d True] by simp
    then have p: "eh_proc h = None" using c by (simp add: calm_ok_def)
    show ?thesis
    proof (cases got)
      case None
      then show ?thesis using ok calm_failed [OF c, of g] by (simp add: host_downloaded_def)
    next
      case (Some f)
      define r where "r = host_downloaded g w got bin h"
      have same: "eh_proc r = None" "eh_alive r = eh_alive h" "eh_fresh r = eh_fresh h" "eh_generation r = g" "eh_phase r \<in> {PhStarting, PhFailed}"
        "eh_conts r \<in> {del g (eh_conts h), put g CPort (del g (eh_conts h))}"
        using True p Some by (simp_all add: r_def host_downloaded_def host_failed_def stopWorker_def Let_def)
      have held: "eh_held r = None \<longleftrightarrow> eh_held h = None"
        using True p Some by (simp add: r_def host_downloaded_def host_failed_def stopWorker_def Let_def)
      have port: "k = g \<or> get (eh_conts h) k = Some CPort" if "get (eh_conts r) k = Some CPort" for k
        using same(6) that by (cases "eh_conts r = del g (eh_conts h)") (simp_all add: update_conv' delete_conv' split: if_splits)
      have "get (eh_conts r) g \<noteq> Some CConnect" using same(6) by (auto simp: update_conv' delete_conv')
      moreover have "\<forall>k. get (eh_conts r) k = Some CPort \<longrightarrow> k = eh_generation r \<or> eh_held r = None"
        using c port held same(4) True unfolding calm_ok_def by metis
      moreover have "host_ok r" using ok by (simp only: r_def)
      ultimately have "calm_ok r" using c same(1-5) unfolding calm_ok_def by auto
      then show ?thesis by (simp only: r_def)
    qed
  qed
qed

lemma calm_port_found:
  assumes c: "calm_ok h" and d: "get (eh_conts h) g = Some CPort"
  shows "calm_ok (port_found g port h)"
proof -
  have ok: "host_ok (port_found g port h)" using port_found_ok [OF calm_is_ok [OF c] d] .
  have ph: "g = eh_generation h \<Longrightarrow> eh_phase h = PhStarting \<and> eh_held h \<noteq> None"
    using cont_phase(1) [OF calm_is_ok [OF c] d] calm_is_ok [OF c] by (auto simp: host_ok_def)
  show ?thesis
  proof (cases "eh_held h = None")
    case True
    then have "g \<noteq> eh_generation h" using ph by blast
    then have "port_found g port h = h\<lparr>eh_conts := del g (eh_conts h), eh_port := Some port\<rparr>" using True by (simp add: port_found_def host_failed_def Let_def)
    then show ?thesis using ok calm_del [OF c, of g] by (simp add: calm_ok_def)
  next
    case False
    then have g: "g = eh_generation h" "eh_phase h = PhStarting" using c d ph by (auto simp: calm_ok_def)
    define h' where "h' = port_found g port h"
    obtain x where x: "eh_held h = Some x" using False by blast
    have h': "eh_phase h' = PhStarting" "eh_held h' = Some x" "eh_proc h' = Some (eh_fresh h)" "eh_generation h' = g" "eh_fresh h' = Suc (eh_fresh h)"
      "eh_alive h' = eh_alive h @ [(eh_fresh h, g)]" "eh_conts h' = put g CTurn (del g (eh_conts h))"
      using x g by (simp_all add: h'_def port_found_def Let_def)
    have "\<forall>p \<in> set (eh_alive h). fst p < eh_fresh h" using c by (simp add: calm_ok_def)
    then have "eh_fresh h \<notin> fst ` set (eh_alive h)" "\<forall>p \<in> set (eh_alive h). fst p < Suc (eh_fresh h)" by fastforce+
    then show ?thesis using c ok g x unfolding h'_def [symmetric] calm_ok_def h' by (auto simp: update_conv' delete_conv')
  qed
qed

lemma calm_turn:
  assumes c: "calm_ok h" and d: "get (eh_conts h) g = Some CTurn"
  shows "calm_ok (wait_turn g expired h)"
proof (cases "expired \<or> g \<noteq> eh_generation h \<or> eh_proc h = None")
  case True
  then have "wait_turn g expired h = host_failed g (h\<lparr>eh_conts := del g (eh_conts h)\<rparr>)" by (simp only: wait_turn_def if_True)
  then show ?thesis using calm_failed [OF c] cont_failed_ok [OF calm_is_ok [OF c] d] by simp
next
  case False
  then have "wait_turn g expired h = h\<lparr>eh_conts := put g CConnect (eh_conts h)\<rparr>" by (simp only: wait_turn_def if_False)
  then show ?thesis using turn_ok [OF calm_is_ok [OF c] d, of expired] c False by (auto simp: calm_ok_def update_conv')
qed

lemma calm_probe:
  assumes c: "calm_ok h" and d: "get (eh_conts h) g = Some CConnect"
  shows "calm_ok (probe_answered g ok h)"
proof -
  have hok: "host_ok (probe_answered g ok h)" using probe_ok [OF calm_is_ok [OF c] d] .
  show ?thesis
  proof (cases "ok \<and> g = eh_generation h")
    case True
    have "eh_phase h = PhStarting" using cont_phase(1) [OF calm_is_ok [OF c] d] True by simp
    moreover have p: "probe_answered g ok h = h\<lparr>eh_conts := del g (eh_conts h), eh_phase := PhServing\<rparr>" using True by (simp add: probe_answered_def Let_def)
    ultimately show ?thesis using hok c d True unfolding p by (auto simp: calm_ok_def delete_conv')
  next
    case False
    then have "probe_answered g ok h \<in> {h\<lparr>eh_conts := put g CTurn (eh_conts h)\<rparr>, h\<lparr>eh_conts := del g (eh_conts h)\<rparr>}"
      by (auto simp: probe_answered_def Let_def)
    moreover have "calm_ok (h\<lparr>eh_conts := put g CTurn (eh_conts h)\<rparr>)" if "host_ok (h\<lparr>eh_conts := put g CTurn (eh_conts h)\<rparr>)"
      using that c by (auto simp: calm_ok_def update_conv')
    ultimately show ?thesis using hok calm_del [OF c, of g] by auto
  qed
qed

lemma calm_event_ok: "host_event h h' \<Longrightarrow> calm_ok h \<Longrightarrow> calm_ok h'"
proof (induction rule: host_event.induct)
  case (3 h g)
  then show ?case unfolding no_port_def using calm_failed cont_failed_ok calm_is_ok by blast
qed (blast intro: calm_downloaded calm_port_found calm_turn calm_probe calm_release
       same_work_ok relay_same_work token_ok relay_ok calm_is_ok)+

lemma calm_step_ok: "calm_step h h' \<Longrightarrow> calm_ok h \<Longrightarrow> calm_ok h'"
  by (erule calm_step.cases) (auto intro: calm_event_ok calm_provision_ok calm_exit_ok)

lemma calm_reach_ok: "calm_step\<^sup>*\<^sup>* new_ehost h \<Longrightarrow> calm_ok h"
proof (induction rule: rtranclp_induct)
  case base
  show ?case by (simp add: calm_ok_def host_ok_def new_ehost_def host_busy_def)
qed (auto intro: calm_step_ok)

text \<open>
  Outside those two races a segment is reported only while its worker lives: whenever a host that was never given other work while it waited
  for a port, and whose worker never ended under an outstanding probe, reports a segment, its worker is the process it
  started last, for this very assignment, and that process runs.
\<close>
theorem calm_serves_alive:
  assumes "calm_step\<^sup>*\<^sup>* new_ehost h" "heldSegments h \<noteq> []"
  shows "\<exists>p. eh_proc h = Some p \<and> (p, eh_generation h) \<in> set (eh_alive h)"
proof -
  have "eh_phase h = PhServing" using assms(2) by (auto simp: heldSegments_def split: option.splits if_splits)
  then show ?thesis using calm_reach_ok [OF assms(1)] by (auto simp: calm_ok_def)
qed

section \<open>The race of the probe\<close>

definition demo_want :: want where
  "demo_want = \<lparr>wt_model = ''m'', wt_layer = 3, wt_begin = 0, wt_end = 64\<rparr>"

definition demo_file :: buffer where
  "demo_file = gguf_head 0 demo_shard"

lemma demo_file_checks: "checkShard demo_file demo_want \<noteq> None"
  using demo_shard_checks by (simp add: demo_file_def demo_want_def)

definition demo_starting :: ehost where
  "demo_starting = wait_turn 1 False (port_found 1 5000 (host_downloaded 1 demo_want (Some demo_file) True (host_provision demo_want 2048 ''d'' new_ehost)))"

definition demo_given :: ehost where
  "demo_given = new_ehost\<lparr>eh_phase := PhDownloading, eh_held := Some \<lparr>hl_want = demo_want, hl_file = None, hl_nEmbd = 2048\<rparr>,
     eh_session := Some ''expert-d'', eh_generation := 1, eh_conts := [(1, CDownload demo_want)]\<rparr>"

definition demo_fetched :: ehost where
  "demo_fetched = new_ehost\<lparr>eh_phase := PhStarting, eh_held := Some \<lparr>hl_want = demo_want, hl_file = Some demo_file, hl_nEmbd = 2048\<rparr>,
     eh_session := Some ''expert-d'', eh_generation := 1, eh_conts := [(1, CPort)]\<rparr>"

definition demo_spawned :: ehost where
  "demo_spawned = demo_fetched\<lparr>eh_proc := Some 0, eh_port := Some 5000, eh_alive := [(0, 1)], eh_conts := [(1, CTurn)], eh_fresh := 1\<rparr>"

lemma demo_states:
  "host_provision demo_want 2048 ''d'' new_ehost = demo_given" "host_downloaded 1 demo_want (Some demo_file) True demo_given = demo_fetched"
  "port_found 1 5000 demo_fetched = demo_spawned" "wait_turn 1 False demo_spawned = demo_spawned\<lparr>eh_conts := [(1, CConnect)]\<rparr>"
proof -
  obtain m where m: "checkShard demo_file demo_want = Some m" using demo_file_checks by blast
  show "host_provision demo_want 2048 ''d'' new_ehost = demo_given"
    by (simp add: demo_given_def host_provision_def host_release_def host_busy_def new_ehost_def Let_def)
  show "host_downloaded 1 demo_want (Some demo_file) True demo_given = demo_fetched" by (simp add: demo_given_def demo_fetched_def host_downloaded_def m Let_def)
  show "port_found 1 5000 demo_fetched = demo_spawned" by (simp add: demo_spawned_def demo_fetched_def port_found_def Let_def new_ehost_def)
  show "wait_turn 1 False demo_spawned = demo_spawned\<lparr>eh_conts := [(1, CConnect)]\<rparr>" by (simp add: demo_spawned_def demo_fetched_def wait_turn_def)
qed

lemma demo_starting_is:
  "demo_starting = new_ehost\<lparr>eh_phase := PhStarting, eh_held := Some \<lparr>hl_want = demo_want, hl_file = Some demo_file, hl_nEmbd = 2048\<rparr>, eh_proc := Some 0,
     eh_port := Some 5000, eh_session := Some ''expert-d'', eh_generation := 1, eh_alive := [(0, 1)], eh_conts := [(1, CConnect)], eh_fresh := 1\<rparr>"
  unfolding demo_starting_def demo_states by (simp add: demo_spawned_def demo_fetched_def)

lemma demo_reached: "calm_step\<^sup>*\<^sup>* new_ehost demo_starting" "host_step\<^sup>*\<^sup>* new_ehost demo_starting"
proof -
  define a where "a = host_provision demo_want 2048 ''d'' new_ehost"
  define b where "b = host_downloaded 1 demo_want (Some demo_file) True a"
  define c where "c = port_found 1 5000 b"
  have ga: "get (eh_conts a) 1 = Some (CDownload demo_want)" unfolding a_def demo_states by (simp add: demo_given_def)
  have gb: "get (eh_conts b) 1 = Some CPort" unfolding b_def a_def demo_states by (simp add: demo_fetched_def)
  have gc: "get (eh_conts c) 1 = Some CTurn" unfolding c_def b_def a_def demo_states by (simp add: demo_spawned_def)
  have d: "demo_starting = wait_turn 1 False c" by (simp only: demo_starting_def a_def b_def c_def)
  have ev: "host_event a b" "host_event b c" "host_event c demo_starting"
    unfolding d using host_event.intros(1) [OF ga] host_event.intros(2) [OF gb] host_event.intros(4) [OF gc] by (simp_all only: b_def c_def)
  have "calm_step new_ehost a" unfolding a_def by (rule calm_provision) (simp add: new_ehost_def)
  then show "calm_step\<^sup>*\<^sup>* new_ehost demo_starting" using ev
    by (meson calm_event converse_rtranclp_into_rtranclp rtranclp.rtrancl_refl)
  have "host_step new_ehost a" unfolding a_def by (rule provisioned)
  then show "host_step\<^sup>*\<^sup>* new_ehost demo_starting" using ev
    by (meson by_itself converse_rtranclp_into_rtranclp rtranclp.rtrancl_refl)
qed

lemma demo_serving:
  "calm_step\<^sup>*\<^sup>* new_ehost (probe_answered 1 True demo_starting)" "host_step\<^sup>*\<^sup>* new_ehost (probe_answered 1 True demo_starting)"
  "heldSegments (probe_answered 1 True demo_starting) = [(3, 0, 64)]"
proof -
  have "host_event demo_starting (probe_answered 1 True demo_starting)" by (rule host_event.intros(5)) (simp add: demo_starting_is)
  then show "calm_step\<^sup>*\<^sup>* new_ehost (probe_answered 1 True demo_starting)" "host_step\<^sup>*\<^sup>* new_ehost (probe_answered 1 True demo_starting)"
    using demo_reached by (auto intro: rtranclp.rtrancl_into_rtrancl calm_event by_itself)
  show "heldSegments (probe_answered 1 True demo_starting) = [(3, 0, 64)]"
    by (simp add: demo_starting_is probe_answered_def Let_def heldSegments_def demo_want_def)
qed

text \<open>
  The first race is real: a worker that accepts the probe's connection and then ends, its end seen before the probe's answer, leaves a host that
  serves and reports a segment with no worker at all; nothing notices, since the end of the worker came while the host was still starting.
\<close>
theorem serving_without_worker:
  "\<exists>h. host_step\<^sup>*\<^sup>* new_ehost h \<and> heldSegments h = [(3, 0, 64)] \<and> eh_proc h = None \<and> eh_alive h = []"
proof -
  define e where "e = worker_exit (0, 1) demo_starting"
  have e: "e = demo_starting\<lparr>eh_proc := None, eh_alive := []\<rparr>" by (simp add: e_def worker_exit_def demo_starting_is Let_def)
  have "host_step demo_starting e" unfolding e_def by (rule exited) (simp add: demo_starting_is)
  moreover have "host_event e (probe_answered 1 True e)" by (rule host_event.intros(5)) (simp add: e demo_starting_is)
  ultimately have "host_step\<^sup>*\<^sup>* new_ehost (probe_answered 1 True e)"
    using demo_reached(2) by (meson by_itself rtranclp.rtrancl_into_rtrancl)
  moreover have "heldSegments (probe_answered 1 True e) = [(3, 0, 64)] \<and> eh_proc (probe_answered 1 True e) = None \<and> eh_alive (probe_answered 1 True e) = []"
    by (simp add: e demo_starting_is probe_answered_def Let_def heldSegments_def demo_want_def new_ehost_def)
  ultimately show ?thesis by blast
qed

theorem calm_serves_alive_witness:
  "\<exists>p. eh_proc (probe_answered 1 True demo_starting) = Some p \<and>
     (p, eh_generation (probe_answered 1 True demo_starting)) \<in> set (eh_alive (probe_answered 1 True demo_starting))"
  using calm_serves_alive [OF demo_serving(1)] demo_serving(3) by simp

theorem host_reports_checked_witness:
  "coverageUrl (probe_answered 1 True demo_starting) \<noteq> '''' \<and> heldSegments (host_release (probe_answered 1 True demo_starting)) = []"
  using host_reports_checked [OF demo_serving(2)] demo_serving(3) by simp

end
