(* ===== verification/Desktop_Budget.thy ===== *)
theory Desktop_Budget
  imports JS_Number
begin

text \<open>
  How many experts a desktop node may hold (\<^verbatim>\<open>wallet/desktop/electron/executors.cjs\<close>, the memory arithmetic, and the budget in force of
  \<^verbatim>\<open>wallet/desktop/electron/main.cjs\<close>): what one shard's worker costs, what the card is packed with, what to volunteer for next and which slots
  a lowered budget still covers.

  Byte counts are whole numbers, far below the bound of exact doubles; \<open>floor_quotient_exact\<close> shows that there the floor of the
  program's quotient is the whole-number quotient the definitions use.
\<close>

section \<open>The memory model\<close>

record memory_model =
  mm_residentBytesPerExpert :: int
  mm_fixedBytes :: int
  mm_scratchBytes :: int
  mm_headroomBytes :: int

definition MAX_EXPERTS_PER_REQUEST :: int where "MAX_EXPERTS_PER_REQUEST = 64"
definition MAX_SLOTS :: nat where "MAX_SLOTS = 8"
definition VRAM_STEP :: int where "VRAM_STEP = 256 * 1024 * 1024"
definition SYSTEM_VRAM_RESERVE :: int where "SYSTEM_VRAM_RESERVE = 512 * 1024 * 1024"

text \<open>The measured models: a CUDA card, a part whose processor and card share one memory, and Metal.\<close>

definition MIB :: int where "MIB = 1024 * 1024"

definition cuda_discrete :: memory_model where
  "cuda_discrete = \<lparr>mm_residentBytesPerExpert = 9568256, mm_fixedBytes = 128 * MIB, mm_scratchBytes = 160 * MIB, mm_headroomBytes = 128 * MIB\<rparr>"

definition cuda_unified :: memory_model where
  "cuda_unified = \<lparr>mm_residentBytesPerExpert = 9568256, mm_fixedBytes = 352 * MIB, mm_scratchBytes = 288 * MIB, mm_headroomBytes = 256 * MIB\<rparr>"

definition metal_model :: memory_model where
  "metal_model = \<lparr>mm_residentBytesPerExpert = 9499993, mm_fixedBytes = 64 * MIB, mm_scratchBytes = 320 * MIB, mm_headroomBytes = 256 * MIB\<rparr>"

definition slotBytes :: "memory_model \<Rightarrow> int \<Rightarrow> int" where
  "slotBytes m experts = mm_fixedBytes m + mm_scratchBytes m + experts * mm_residentBytesPerExpert m"

text \<open>\<^verbatim>\<open>availableBytes == null ? budget : Math.min(budget, availableBytes)\<close>\<close>

definition usable_of :: "int \<Rightarrow> int option \<Rightarrow> int" where
  "usable_of budget available = (case available of None \<Rightarrow> budget | Some a \<Rightarrow> min budget a)"

definition expertsForBudget :: "int option \<Rightarrow> memory_model option \<Rightarrow> int option \<Rightarrow> int" where
  "expertsForBudget budget model available =
     (case (budget, model) of
        (Some b, Some m) \<Rightarrow>
          let n = (usable_of b available - mm_fixedBytes m - mm_scratchBytes m - mm_headroomBytes m) div mm_residentBytesPerExpert m
          in max 0 (min n MAX_EXPERTS_PER_REQUEST)
      | _ \<Rightarrow> MAX_EXPERTS_PER_REQUEST)"

text \<open>The loop of \<open>capacityForBudget\<close>, with the slots that may still be opened.\<close>

fun pack_slots :: "memory_model \<Rightarrow> nat \<Rightarrow> int \<Rightarrow> int \<Rightarrow> nat \<Rightarrow> int \<times> nat" where
  "pack_slots m 0 left experts slots = (experts, slots)"
| "pack_slots m (Suc k) left experts slots =
     (let n = min MAX_EXPERTS_PER_REQUEST ((left - mm_fixedBytes m - mm_scratchBytes m) div mm_residentBytesPerExpert m)
      in if n < 1 then (experts, slots) else pack_slots m k (left - slotBytes m n) (experts + n) (slots + 1))"

definition capacityForBudget :: "nat \<Rightarrow> int option \<Rightarrow> memory_model option \<Rightarrow> int option \<Rightarrow> int \<times> nat" where
  "capacityForBudget maxSlots budget model available =
     (case (budget, model) of
        (Some b, Some m) \<Rightarrow> pack_slots m maxSlots (usable_of b available - mm_headroomBytes m) 0 0
      | _ \<Rightarrow> (MAX_EXPERTS_PER_REQUEST, 1))"

definition nextSlotWindow :: "nat \<Rightarrow> int option \<Rightarrow> memory_model option \<Rightarrow> int option \<Rightarrow> int list \<Rightarrow> int" where
  "nextSlotWindow maxSlots budget model available heldCounts =
     (if maxSlots \<le> length heldCounts then 0
      else case (budget, model) of
             (Some b, Some m) \<Rightarrow>
               let used = foldl (\<lambda>s n. s + slotBytes m n) 0 heldCounts;
                   n = (usable_of b available - mm_headroomBytes m - used - mm_fixedBytes m - mm_scratchBytes m) div mm_residentBytesPerExpert m
               in max 0 (min n MAX_EXPERTS_PER_REQUEST)
           | _ \<Rightarrow> if heldCounts = [] then MAX_EXPERTS_PER_REQUEST else 0)"

fun fitting_slots :: "memory_model \<Rightarrow> int \<Rightarrow> int \<Rightarrow> int list \<Rightarrow> nat" where
  "fitting_slots m usable used [] = 0"
| "fitting_slots m usable used (n # ns) =
     (let used' = used + slotBytes m n in if usable < used' then 0 else Suc (fitting_slots m usable used' ns))"

definition slotsThatFit :: "int option \<Rightarrow> memory_model option \<Rightarrow> int option \<Rightarrow> int list \<Rightarrow> nat" where
  "slotsThatFit budget model available heldCounts =
     (case (budget, model) of
        (Some b, Some m) \<Rightarrow> fitting_slots m (usable_of b available - mm_headroomBytes m) 0 heldCounts
      | _ \<Rightarrow> length heldCounts)"

text \<open>The copy of \<open>capacityForBudget\<close> in the settings screen (\<^verbatim>\<open>wallet/desktop/src/api.ts\<close>), its loop counting up as written there.\<close>

function preview_loop :: "memory_model \<Rightarrow> int \<Rightarrow> int \<Rightarrow> nat \<Rightarrow> int \<times> nat" where
  "preview_loop m left experts slots =
     (if slots < MAX_SLOTS then
        let n = min MAX_EXPERTS_PER_REQUEST ((left - mm_fixedBytes m - mm_scratchBytes m) div mm_residentBytesPerExpert m)
        in if n < 1 then (experts, slots)
           else preview_loop m (left - (mm_fixedBytes m + mm_scratchBytes m + n * mm_residentBytesPerExpert m)) (experts + n) (slots + 1)
      else (experts, slots))"
  by pat_completeness auto

termination by (relation "measure (\<lambda>(m, left, experts, slots). MAX_SLOTS - slots)") auto

declare preview_loop.simps [simp del]

definition preview_capacity :: "int option \<Rightarrow> memory_model option \<Rightarrow> int option \<Rightarrow> int \<times> nat" where
  "preview_capacity budget model available =
     (case (budget, model) of
        (Some b, Some m) \<Rightarrow> preview_loop m (usable_of b available - mm_headroomBytes m) 0 0
      | _ \<Rightarrow> (MAX_EXPERTS_PER_REQUEST, 1))"

section \<open>The budget in force\<close>

text \<open>\<open>config\<close> is the finite, non-negative number the operator set; \<open>gpuTotal\<close> the size of the card, when it was probed and is not zero.\<close>

definition vramBudgetBytes :: "int option \<Rightarrow> int option \<Rightarrow> int option" where
  "vramBudgetBytes config gpuTotal =
     (case config of
        Some v \<Rightarrow> if 0 \<le> v then Some v else map_option (\<lambda>t. t div 2 div VRAM_STEP * VRAM_STEP) gpuTotal
      | None \<Rightarrow> map_option (\<lambda>t. t div 2 div VRAM_STEP * VRAM_STEP) gpuTotal)"

definition availableGpuBytes :: "int option \<Rightarrow> int \<Rightarrow> int option" where
  "availableGpuBytes gpuFree ownBytes = map_option (\<lambda>f. max 0 (f + ownBytes - SYSTEM_VRAM_RESERVE)) gpuFree"

definition maxExpertsForBudget :: "int option \<Rightarrow> memory_model option \<Rightarrow> int option \<Rightarrow> int" where
  "maxExpertsForBudget budget model available = (if model = None then 0 else fst (capacityForBudget MAX_SLOTS budget model available))"

text \<open>What the pool is given: both refuse when the cost of a slot is not known.\<close>

definition pool_window :: "int option \<Rightarrow> memory_model option \<Rightarrow> int option \<Rightarrow> int list \<Rightarrow> int" where
  "pool_window budget model available heldCounts = (if model = None then 0 else nextSlotWindow MAX_SLOTS budget model available heldCounts)"

definition pool_fits :: "int option \<Rightarrow> memory_model option \<Rightarrow> int option \<Rightarrow> int list \<Rightarrow> nat" where
  "pool_fits budget model available heldCounts = (if model = None then 0 else slotsThatFit budget model available heldCounts)"

section \<open>The arithmetic is exact\<close>

lemma quotient_reaches:
  assumes "0 < (r :: int)"
  shows "k \<le> x div r \<longleftrightarrow> k * r \<le> x"
proof
  assume "k \<le> x div r"
  then have "k * r \<le> x div r * r" using assms by (simp add: mult_right_mono)
  also have "\<dots> \<le> x" using assms by (simp add: minus_mod_eq_div_mult [symmetric])
  finally show "k * r \<le> x" .
next
  assume "k * r \<le> x"
  then have "k * r div r \<le> x div r" using assms by (intro zdiv_mono1)
  then show "k \<le> x div r" using assms by simp
qed

lemma floor_quotient_exact:
  assumes "\<bar>a\<bar> < 2 ^ 53" "0 < b"
  shows "\<lfloor>fl (of_int a / of_int b)\<rfloor> = a div b"
proof (rule floor_unique)
  let ?x = "of_int a / of_int b :: rat" and ?q = "a div b"
  have q: "?q * b \<le> a" "a \<le> ?q * b + b - 1"
    using assms(2) by (simp_all add: minus_mod_eq_div_mult [symmetric])
  have bq: "0 < (of_int b :: rat)" using assms(2) by simp
  have lower: "of_int ?q \<le> ?x" using q(1) bq by (simp add: pos_le_divide_eq flip: of_int_mult)
  have "\<bar>?q\<bar> \<le> 2 ^ 53"
  proof -
    have "- \<bar>a\<bar> \<le> ?q" "?q \<le> \<bar>a\<bar>"
      using assms(2) by (simp_all add: quotient_reaches) (smt (verit) mult_le_cancel_left1 mult_minus_left, smt (verit) q mult_le_cancel_left1 mult_minus_left mult.commute mult_less_cancel_left1)
    then show ?thesis using assms(1) by linarith
  qed
  then show "of_int ?q \<le> fl ?x" using fl_mono [OF lower] by (simp add: fl_of_int)
  have "?x \<le> of_int ?q + 1 - 1 / of_int b"
  proof -
    have "of_int a \<le> (of_int (?q * b + b - 1) :: rat)" using q(2) by (simp only: of_int_le_iff)
    then show ?thesis using bq by (simp add: field_simps)
  qed
  moreover have "\<bar>?x\<bar> / 2 ^ 53 < 1 / of_int b"
  proof -
    have "\<bar>of_int a\<bar> < (2 ^ 53 :: rat)" using assms(1) by (metis of_int_abs of_int_less_iff of_int_numeral of_int_power)
    then show ?thesis using bq by (simp add: abs_divide field_simps)
  qed
  ultimately show "fl ?x < of_int ?q + 1" using fl_error [of ?x] by linarith
qed

section \<open>What fits\<close>

lemma used_is_sum: "foldl (\<lambda>s n. s + slotBytes m n) u xs = u + sum_list (map (slotBytes m) xs)"
  by (induction xs arbitrary: u) auto

lemma fit_le_length: "fitting_slots m U u xs \<le> length xs"
  by (induction xs arbitrary: u) (auto simp: Let_def)

lemma fit_snoc:
  "fitting_slots m U u (xs @ [n]) =
     (if fitting_slots m U u xs = length xs \<and> u + sum_list (map (slotBytes m) (xs @ [n])) \<le> U then Suc (length xs) else fitting_slots m U u xs)"
  by (induction xs arbitrary: u) (auto simp: Let_def add.assoc)

lemma fit_take: "fitting_slots m U u (take k xs) = min k (fitting_slots m U u xs)"
  by (induction xs arbitrary: u k) (auto simp: Let_def take_Cons split: nat.split)

lemma fit_mono: "U \<le> U' \<Longrightarrow> fitting_slots m U u xs \<le> fitting_slots m U' u xs"
  by (induction xs arbitrary: u) (auto simp: Let_def)

lemma fit_sum: "fitting_slots m U u xs = length xs \<Longrightarrow> xs \<noteq> [] \<Longrightarrow> u + sum_list (map (slotBytes m) xs) \<le> U"
proof (induction xs arbitrary: u)
  case (Cons n xs)
  then have "\<not> U < u + slotBytes m n" "fitting_slots m U (u + slotBytes m n) xs = length xs" by (auto simp: Let_def split: if_splits)
  then show ?case using Cons.IH [of "u + slotBytes m n"] by (cases "xs = []") (auto simp: add.assoc)
qed simp

lemma window_reaches:
  assumes "0 < mm_residentBytesPerExpert m" "length held < maxSlots" "1 \<le> k" "k \<le> MAX_EXPERTS_PER_REQUEST"
  shows "k \<le> nextSlotWindow maxSlots (Some b) (Some m) av held \<longleftrightarrow>
    sum_list (map (slotBytes m) (held @ [k])) \<le> usable_of b av - mm_headroomBytes m"
proof -
  let ?x = "usable_of b av - mm_headroomBytes m - sum_list (map (slotBytes m) held) - mm_fixedBytes m - mm_scratchBytes m"
  have "k \<le> nextSlotWindow maxSlots (Some b) (Some m) av held \<longleftrightarrow> k \<le> ?x div mm_residentBytesPerExpert m"
    using assms by (auto simp: nextSlotWindow_def used_is_sum Let_def)
  also have "\<dots> \<longleftrightarrow> k * mm_residentBytesPerExpert m \<le> ?x" using assms(1) by (rule quotient_reaches)
  finally show ?thesis by (auto simp: slotBytes_def)
qed

lemma window_range: "0 \<le> nextSlotWindow maxSlots b m av held" "nextSlotWindow maxSlots b m av held \<le> MAX_EXPERTS_PER_REQUEST"
  by (auto simp: nextSlotWindow_def MAX_EXPERTS_PER_REQUEST_def Let_def split: option.split)

lemma window_greatest:
  assumes "0 < mm_residentBytesPerExpert m" "slotsThatFit (Some b) (Some m) av held = length held" "length held < maxSlots"
    and "1 \<le> k" "k \<le> MAX_EXPERTS_PER_REQUEST"
  shows "k \<le> nextSlotWindow maxSlots (Some b) (Some m) av held \<longleftrightarrow> slotsThatFit (Some b) (Some m) av (held @ [k]) = Suc (length held)"
  using assms(2) window_reaches [OF assms(1,3,4,5), of b av] fit_le_length
  by (auto simp: slotsThatFit_def fit_snoc)

text \<open>
  What a node volunteers for is the most it can hold: while the held slots fit the budget and a slot is left, a shard of so many
  experts, up to the 64 of one request, is within the window exactly when the machine still fits its budget with it. So
  an assignment within the window is never taken back by the trimming under the same budget, and nothing that would fit is
  left out.
\<close>
theorem window_exactly_fits:
  assumes "0 < mm_residentBytesPerExpert m" "slotsThatFit (Some b) (Some m) av held = length held" "length held < maxSlots"
  shows "\<forall>k. 1 \<le> k \<and> k \<le> 64 \<longrightarrow>
    (k \<le> nextSlotWindow maxSlots (Some b) (Some m) av held \<longleftrightarrow> slotsThatFit (Some b) (Some m) av (held @ [k]) = Suc (length held))"
  using window_greatest [OF assms] by (simp add: MAX_EXPERTS_PER_REQUEST_def)

section \<open>The capacity that is shown\<close>

text \<open>A node that volunteers for all it may until it may no more.\<close>

fun fill_slots :: "nat \<Rightarrow> (int list \<Rightarrow> int) \<Rightarrow> int list \<Rightarrow> int list" where
  "fill_slots 0 window held = held"
| "fill_slots (Suc k) window held = (if window held < 1 then held else fill_slots k window (held @ [window held]))"

lemma pack_is_fill:
  assumes "length held + k = maxSlots"
  shows "pack_slots m k (usable_of b av - mm_headroomBytes m - sum_list (map (slotBytes m) held)) (sum_list held) (length held) =
    (let h = fill_slots k (nextSlotWindow maxSlots (Some b) (Some m) av) held in (sum_list h, length h))"
  using assms
proof (induction k arbitrary: held)
  case (Suc k)
  let ?u = "usable_of b av - mm_headroomBytes m - sum_list (map (slotBytes m) held)"
  let ?w = "nextSlotWindow maxSlots (Some b) (Some m) av held"
  let ?n = "min MAX_EXPERTS_PER_REQUEST ((?u - mm_fixedBytes m - mm_scratchBytes m) div mm_residentBytesPerExpert m)"
  have w: "?w = max 0 ?n" using Suc.prems by (simp add: nextSlotWindow_def used_is_sum Let_def min.commute)
  show ?case
  proof (cases "?n < 1")
    case True
    then have "?w < 1" using w by simp
    then show ?thesis using True by (simp add: Let_def)
  next
    case False
    then have wn: "?w = ?n" "\<not> ?w < 1" using w by simp_all
    have "pack_slots m (Suc k) ?u (sum_list held) (length held) = pack_slots m k (?u - slotBytes m ?w) (sum_list held + ?w) (Suc (length held))"
      using False wn by (simp add: Let_def)
    then show ?thesis using wn(2) Suc.IH [of "held @ [?w]"] Suc.prems by (simp add: Let_def diff_diff_eq add.assoc)
  qed
qed (simp add: Let_def)

lemma fill_fits:
  assumes "0 < mm_residentBytesPerExpert m" "slotsThatFit (Some b) (Some m) av held = length held" "length held + k = maxSlots"
  shows "slotsThatFit (Some b) (Some m) av (fill_slots k (nextSlotWindow maxSlots (Some b) (Some m) av) held) =
    length (fill_slots k (nextSlotWindow maxSlots (Some b) (Some m) av) held)"
  using assms(2,3)
proof (induction k arbitrary: held)
  case (Suc k)
  let ?w = "nextSlotWindow maxSlots (Some b) (Some m) av held"
  have "\<not> ?w < 1 \<Longrightarrow> slotsThatFit (Some b) (Some m) av (held @ [?w]) = Suc (length held)"
    using window_greatest [OF assms(1) Suc.prems(1), of maxSlots ?w] window_range(2) [of maxSlots "Some b" "Some m" av held] Suc.prems(2) by simp
  then show ?case using Suc.IH [of "held @ [?w]"] Suc.prems by auto
qed simp

text \<open>
  C37: The capacity the operator is shown is the one the node reaches: packing the budget gives the experts and the slots of a node that
  keeps volunteering for its whole window until the window is empty, also while the budget or the cost of a slot is unknown, and
  what it then holds fits the budget.
\<close>
theorem capacity_is_reached:
  assumes "0 < maxSlots"
  shows "capacityForBudget maxSlots b m av = (let h = fill_slots maxSlots (nextSlotWindow maxSlots b m av) [] in (sum_list h, length h)) \<and>
    (\<forall>x y. b = Some x \<and> m = Some y \<and> 0 < mm_residentBytesPerExpert y \<longrightarrow>
       (let h = fill_slots maxSlots (nextSlotWindow maxSlots b m av) [] in slotsThatFit b m av h = length h))"
proof (cases "b = None \<or> m = None")
  case True
  obtain k where k: "maxSlots = Suc k" using assms by (cases maxSlots) auto
  have "nextSlotWindow maxSlots b m av [] = MAX_EXPERTS_PER_REQUEST" "nextSlotWindow maxSlots b m av [MAX_EXPERTS_PER_REQUEST] = 0"
    using True k by (auto simp: nextSlotWindow_def split: option.split)
  moreover have "fill_slots k w [x] = [x]" if "w [x] = 0" for k and w :: "int list \<Rightarrow> int" and x using that by (cases k) auto
  ultimately have "fill_slots maxSlots (nextSlotWindow maxSlots b m av) [] = [MAX_EXPERTS_PER_REQUEST]"
    unfolding k by (simp add: MAX_EXPERTS_PER_REQUEST_def)
  then show ?thesis using True by (auto simp: capacityForBudget_def Let_def split: option.split)
next
  case False
  then obtain x y where xy: "b = Some x" "m = Some y" by auto
  have "slotsThatFit (Some x) (Some y) av [] = 0" by (simp add: slotsThatFit_def)
  then show ?thesis using pack_is_fill [of "[]" maxSlots maxSlots y x av] fill_fits [of y x av "[]" maxSlots maxSlots] xy
    by (simp add: capacityForBudget_def Let_def)
qed

lemma preview_is_pack: "preview_loop m left experts slots = pack_slots m (MAX_SLOTS - slots) left experts slots"
proof (induction m left experts slots rule: preview_loop.induct)
  case (1 m left experts slots)
  show ?case
  proof (cases "slots < MAX_SLOTS")
    case True
    then have "MAX_SLOTS - slots = Suc (MAX_SLOTS - Suc slots)" by simp
    then show ?thesis using True 1 by (subst preview_loop.simps) (simp add: slotBytes_def Let_def)
  next
    case False
    then show ?thesis by (subst preview_loop.simps) simp
  qed
qed

text \<open>The slider previews what the node offers: the settings screen's copy of the capacity agrees with the node's own on every budget.\<close>
theorem preview_is_offer: "preview_capacity b m av = capacityForBudget MAX_SLOTS b m av"
  by (simp add: preview_capacity_def capacityForBudget_def preview_is_pack split: option.split)

section \<open>Witnesses\<close>

lemmas budget_eval = nextSlotWindow_def slotsThatFit_def capacityForBudget_def usable_of_def slotBytes_def cuda_discrete_def MIB_def MAX_EXPERTS_PER_REQUEST_def Let_def

theorem window_exactly_fits_witness:
  "slotsThatFit (Some 4294967296) (Some cuda_discrete) None [64, 64, 64, 64, 21] = 5"
proof -
  have "nextSlotWindow 8 (Some 4294967296) (Some cuda_discrete) None [64, 64, 64, 64] = 21"
    "slotsThatFit (Some 4294967296) (Some cuda_discrete) None [64, 64, 64, 64] = length [64, 64, 64, 64 :: int]"
    "0 < mm_residentBytesPerExpert cuda_discrete" by (simp_all add: budget_eval)
  then show ?thesis using window_exactly_fits [of cuda_discrete 4294967296 None "[64, 64, 64, 64]" 8, THEN spec [of _ 21]] by simp
qed

theorem capacity_is_reached_witness:
  "capacityForBudget 8 (Some 4294967296) (Some cuda_discrete) None =
     (let h = fill_slots 8 (nextSlotWindow 8 (Some 4294967296) (Some cuda_discrete) None) [] in (sum_list h, length h))"
  using capacity_is_reached [of 8 "Some 4294967296" "Some cuda_discrete" None] by simp

end
