(* ===== verification/Desktop_Pool.thy ===== *)
theory Desktop_Pool
  imports Desktop_Host Desktop_Budget
begin

text \<open>
  The slots of a desktop node (\<open>ExpertPool\<close> of \<^verbatim>\<open>wallet/desktop/electron/expertHost.cjs\<close>): hosts of one shard each, every one a volunteer of its
  own to the bridge. The pool gives an assignment to the first free slot, gives up the newest slots a lowered budget no longer
  covers, and reports its slots.
\<close>

section \<open>The pool\<close>

type_synonym epool = "ehost list"

text \<open>\<open>slot(i)\<close>: the hosts up to the index are made.\<close>

definition slot :: "nat \<Rightarrow> epool \<Rightarrow> epool" where
  "slot i ps = ps @ replicate (Suc i - length ps) new_ehost"

definition slotId :: "string \<Rightarrow> nat \<Rightarrow> string" where
  "slotId base i = (if i = 0 then base else base @ ''-'' @ show_nat (i + 1))"

definition busySlots :: "epool \<Rightarrow> epool" where
  "busySlots ps = filter host_busy ps"

definition heldCounts :: "epool \<Rightarrow> int list" where
  "heldCounts ps = map heldExperts (busySlots ps)"

definition pool_heldExperts :: "epool \<Rightarrow> int" where
  "pool_heldExperts ps = foldl (+) 0 (heldCounts ps)"

definition pool_nextWindow :: "(int list \<Rightarrow> int) \<Rightarrow> epool \<Rightarrow> int" where
  "pool_nextWindow nextWindowFn ps =
     (if list_ex (\<lambda>s. eh_phase s = PhDownloading \<or> eh_phase s = PhStarting) ps then 0 else nextWindowFn (heldCounts ps))"

text \<open>The busy slots from the index \<open>keep\<close> on, counted among the busy ones, are released.\<close>

fun release_from :: "nat \<Rightarrow> epool \<Rightarrow> epool" where
  "release_from keep [] = []"
| "release_from keep (s # ps) =
     (if host_busy s then (if keep = 0 then host_release s # release_from 0 ps else s # release_from (keep - 1) ps) else s # release_from keep ps)"

definition pool_trim :: "(int list \<Rightarrow> nat) \<Rightarrow> epool \<Rightarrow> epool" where
  "pool_trim fitsFn ps = release_from (fitsFn (heldCounts ps)) ps"

definition first_free :: "epool \<Rightarrow> nat" where
  "first_free ps = length (takeWhile host_busy ps)"

definition pool_provision :: "string \<Rightarrow> want \<Rightarrow> nat \<Rightarrow> epool \<Rightarrow> epool" where
  "pool_provision base w nEmbd ps =
     (let i = first_free ps; qs = slot i ps in qs[i := host_provision w nEmbd (slotId base i) (qs ! i)])"

definition pool_wired :: "string \<Rightarrow> string \<Rightarrow> epool \<Rightarrow> epool" where
  "pool_wired base who ps =
     (case filter (\<lambda>k. slotId base k = who) [0..<length ps] of [] \<Rightarrow> ps | i # _ \<Rightarrow> ps[i := host_wired (ps ! i)])"

definition pool_release :: "epool \<Rightarrow> epool" where
  "pool_release ps = map host_release ps"

text \<open>\<open>reports()\<close>; its first line makes the first slot. A report without a shard names no model.\<close>

definition segment_of :: "int \<times> int \<times> int \<Rightarrow> segment" where
  "segment_of = (\<lambda>(l, a, e). (of_int l, of_int a, of_int e))"

definition slot_says :: "string \<Rightarrow> nat \<Rightarrow> ehost \<Rightarrow> slot_report" where
  "slot_says base i s =
     \<lparr>sr_workerId = slotId base i, sr_model = (case eh_held s of Some x \<Rightarrow> wt_model (hl_want x) | None \<Rightarrow> ''''), sr_url = coverageUrl s,
      sr_segments = map segment_of (heldSegments s)\<rparr>"

definition reports :: "string \<Rightarrow> epool \<Rightarrow> slot_report list" where
  "reports base ps =
     (let qs = slot 0 ps in map (\<lambda>i. slot_says base i (qs ! i)) (filter (\<lambda>i. i = 0 \<or> host_busy (qs ! i)) [0..<length qs]))"

definition pool_heldSegments :: "epool \<Rightarrow> (int \<times> int \<times> int) list" where
  "pool_heldSegments ps = concat (map heldSegments ps)"

text \<open>What the poll of the participation client asks of the pool.\<close>

definition pool_shows :: "string \<Rightarrow> bool \<Rightarrow> (int list \<Rightarrow> int) \<Rightarrow> epool \<Rightarrow> pool_view" where
  "pool_shows base canHost nextWindowFn ps =
     \<lparr>pv_canHost = canHost, pv_nextWindow = of_int (pool_nextWindow nextWindowFn ps), pv_busySlots = length (busySlots ps), pv_reports = reports base ps\<rparr>"

text \<open>\<open>ownWorkerGpuBytes\<close> of the main process.\<close>

definition ownWorkerGpuBytes :: "memory_model option \<Rightarrow> epool \<Rightarrow> int" where
  "ownWorkerGpuBytes model ps =
     (case model of None \<Rightarrow> 0 | Some m \<Rightarrow> foldl (\<lambda>sum s. sum + slotBytes m (heldExperts s)) 0 (filter (\<lambda>s. eh_phase s = PhServing) ps))"

section \<open>Its steps\<close>

inductive pool_step :: "string \<Rightarrow> epool \<Rightarrow> epool \<Rightarrow> bool" for base :: string where
  slot_event: "i < length ps \<Longrightarrow> host_event (ps ! i) h \<Longrightarrow> pool_step base ps (ps[i := h])"
| slot_exit: "i < length ps \<Longrightarrow> pg \<in> set (eh_alive (ps ! i)) \<Longrightarrow> pool_step base ps (ps[i := worker_exit pg (ps ! i)])"
| made: "pool_step base ps (slot 0 ps)"
| trimmed: "pool_step base ps (pool_trim fitsFn ps)"
| given: "pool_step base ps (pool_provision base w n ps)"
| told: "pool_step base ps (pool_wired base who ps)"
| let_go: "pool_step base ps (pool_release ps)"

lemma slot_simps [simp]: "length (slot i ps) = max (length ps) (Suc i)" "k < length ps \<Longrightarrow> slot i ps ! k = ps ! k"
  "length ps \<le> k \<Longrightarrow> k \<le> i \<Longrightarrow> slot i ps ! k = new_ehost"
  by (auto simp: slot_def nth_append)

lemma new_not_busy [simp]: "\<not> host_busy new_ehost"
  by (simp add: host_busy_def new_ehost_def)

lemma released_not_busy [simp]: "\<not> host_busy (host_release h)"
  by (auto simp: host_release_def host_busy_def)

lemma length_release_from [simp]: "length (release_from k ps) = length ps"
  by (induction k ps rule: release_from.induct) auto

lemma release_from_nth: "i < length ps \<Longrightarrow> release_from k ps ! i \<in> {ps ! i, host_release (ps ! i)}"
proof (induction k ps arbitrary: i rule: release_from.induct)
  case (2 keep s ps)
  then show ?case by (cases i) auto
qed simp

lemma first_free_le: "first_free ps \<le> length ps"
  unfolding first_free_def by (rule length_takeWhile_le)

text \<open>The slot that is taken is free, and the ones before it are not.\<close>

lemma first_free_free: "\<not> host_busy (slot (first_free ps) ps ! first_free ps)" "i < first_free ps \<Longrightarrow> host_busy (ps ! i)"
proof -
  show "\<not> host_busy (slot (first_free ps) ps ! first_free ps)"
  proof (cases "first_free ps < length ps")
    case True
    then show ?thesis using nth_length_takeWhile [of host_busy ps] by (simp add: first_free_def)
  qed (use first_free_le [of ps] in simp)
  assume "i < first_free ps"
  then show "host_busy (ps ! i)" unfolding first_free_def by (metis nth_mem set_takeWhileD takeWhile_nth)
qed

section \<open>The identities\<close>

lemma slotId_inj: "slotId base i = slotId base j \<longleftrightarrow> i = j"
proof
  assume eq: "slotId base i = slotId base j"
  show "i = j"
  proof (cases "i = 0 \<or> j = 0")
    case True
    then show ?thesis using eq by (auto simp: slotId_def split: if_splits)
  next
    case False
    then have "show_nat (i + 1) = show_nat (j + 1)" using eq by (simp add: slotId_def)
    then show ?thesis by (metis digits_val_show_nat add_right_cancel)
  qed
qed simp

lemma wired_is: "i < length ps \<Longrightarrow> pool_wired base (slotId base i) ps = ps[i := host_wired (ps ! i)]"
proof -
  assume i: "i < length ps"
  have "filter (\<lambda>k. k = i) [0..<length ps] = [i]" using i by (induction ps rule: rev_induct) (auto simp: filter_empty_conv less_Suc_eq)
  then show ?thesis by (simp add: pool_wired_def slotId_inj)
qed

lemma session_kept:
  "eh_session (host_failed g h) = eh_session h" "eh_session (dialRelay g h) = eh_session h" "eh_session (scheduleRelay g h) = eh_session h"
  "eh_session (worker_exit pg h) = eh_session h" "eh_session (host_wired h) = eh_session h" "eh_session (host_release h) \<in> {eh_session h, None}"
  by (simp_all add: host_failed_def dialRelay_def scheduleRelay_def worker_exit_def host_wired_def host_release_def Let_def)

lemma event_session: "host_event h h' \<Longrightarrow> eh_session h' \<in> {eh_session h, None}"
proof (induction rule: host_event.induct)
  case (1 h g w got bin)
  show ?case by (cases got) (simp_all add: host_downloaded_def session_kept Let_def)
qed (simp_all add: port_found_def no_port_def wait_turn_def probe_answered_def token_got_def relay_heard_def relay_closed_def relay_fire_def session_kept Let_def
       session_kept(6) [simplified])

lemma provision_session: "eh_session (host_provision w n i h) \<in> {eh_session h, Some (''expert-'' @ i)}"
  by (simp add: host_provision_def Let_def)

text \<open>Every slot is a host of its own, and its session is named after its own id.\<close>

definition slot_ok :: "string \<Rightarrow> nat \<Rightarrow> ehost \<Rightarrow> bool" where
  "slot_ok base i h \<longleftrightarrow> host_step\<^sup>*\<^sup>* new_ehost h \<and> eh_session h \<in> {None, Some (''expert-'' @ slotId base i)}"

definition pool_ok :: "string \<Rightarrow> epool \<Rightarrow> bool" where
  "pool_ok base ps \<longleftrightarrow> (\<forall>i < length ps. slot_ok base i (ps ! i))"

lemma slot_new_ok: "slot_ok base i new_ehost"
  by (simp add: slot_ok_def new_ehost_def)

lemma slot_event_ok: "slot_ok base i h \<Longrightarrow> host_event h h' \<Longrightarrow> slot_ok base i h'"
  using event_session [of h h'] by (auto simp: slot_ok_def intro: rtranclp.rtrancl_into_rtrancl by_itself)

lemma slot_release_ok: "slot_ok base i h \<Longrightarrow> slot_ok base i (host_release h)"
  by (erule slot_event_ok) (rule host_event.intros)

lemma slot_wired_ok: "slot_ok base i h \<Longrightarrow> slot_ok base i (host_wired h)"
  by (erule slot_event_ok) (rule host_event.intros)

lemma slot_exit_ok: "slot_ok base i h \<Longrightarrow> pg \<in> set (eh_alive h) \<Longrightarrow> slot_ok base i (worker_exit pg h)"
  by (auto simp: slot_ok_def session_kept intro: rtranclp.rtrancl_into_rtrancl exited)

lemma slot_provision_ok: "slot_ok base i h \<Longrightarrow> slot_ok base i (host_provision w n (slotId base i) h)"
  using provision_session [of w n "slotId base i" h] by (auto simp: slot_ok_def intro: rtranclp.rtrancl_into_rtrancl provisioned)

lemma pool_update_ok: "pool_ok base ps \<Longrightarrow> (i < length ps \<Longrightarrow> slot_ok base i h) \<Longrightarrow> pool_ok base (ps[i := h])"
  unfolding pool_ok_def by (metis length_list_update nth_list_update_eq nth_list_update_neq)

lemma pool_slot_ok: "pool_ok base ps \<Longrightarrow> pool_ok base (slot i ps)"
proof -
  assume ok: "pool_ok base ps"
  have "slot_ok base k (slot i ps ! k)" if "k < length (slot i ps)" for k
    using that ok slot_new_ok by (cases "k < length ps") (auto simp: pool_ok_def)
  then show ?thesis by (simp add: pool_ok_def)
qed

lemma pool_wired_ok: "pool_ok base ps \<Longrightarrow> pool_ok base (pool_wired base who ps)"
  using pool_update_ok [of base ps] slot_wired_ok by (auto simp: pool_wired_def pool_ok_def [of _ ps] split: list.split)

lemma pool_step_ok: "pool_step base ps qs \<Longrightarrow> pool_ok base ps \<Longrightarrow> pool_ok base qs"
proof (induction rule: pool_step.induct)
  case (trimmed ps fitsFn)
  have "slot_ok base i (release_from k ps ! i)" if "i < length ps" for i k
    using release_from_nth [OF that, of k] trimmed that slot_release_ok by (auto simp: pool_ok_def)
  then show ?case by (simp add: pool_trim_def pool_ok_def)
next
  case (given ps w n)
  then have "pool_ok base (slot (first_free ps) ps)" by (rule pool_slot_ok)
  then show ?case unfolding pool_provision_def Let_def by (intro pool_update_ok slot_provision_ok) (simp_all add: pool_ok_def)
next
  case (let_go ps)
  then show ?case by (simp add: pool_release_def pool_ok_def slot_release_ok)
next
  case (slot_event i ps h)
  then show ?case by (intro pool_update_ok) (auto simp: pool_ok_def intro: slot_event_ok)
next
  case (slot_exit i ps pg)
  then show ?case by (intro pool_update_ok) (auto simp: pool_ok_def intro: slot_exit_ok)
qed (simp_all add: pool_slot_ok pool_wired_ok)

lemma pool_reach_ok: "(pool_step base)\<^sup>*\<^sup>* [] ps \<Longrightarrow> pool_ok base ps"
  by (induction rule: rtranclp_induct) (auto simp: pool_ok_def [of _ "[]"] intro: pool_step_ok)

section \<open>What the slots report\<close>

lemma reported:
  assumes "r \<in> set (reports base ps)" "sr_segments r \<noteq> []"
  obtains i where "i < length ps" "r = slot_says base i (ps ! i)" "heldSegments (ps ! i) \<noteq> []"
proof -
  obtain i where i: "i < length (slot 0 ps)" "r = slot_says base i (slot 0 ps ! i)" using assms(1) by (auto simp: reports_def Let_def)
  have seg: "heldSegments (slot 0 ps ! i) \<noteq> []" using assms(2) i(2) by (simp add: slot_says_def)
  have "i < length ps"
  proof (rule ccontr)
    assume "\<not> i < length ps"
    then have "slot 0 ps ! i = new_ehost" using i(1) by simp
    then show False using seg by (simp add: heldSegments_def new_ehost_def)
  qed
  then show thesis using that i seg by simp
qed

text \<open>
  The slots of a node are told apart and speak for themselves: under any interleaving of its operations and events no two reports of a tick name
  the same worker, the machine's own id always reports, and a report that names a segment names the range and the model of a shard
  that passed the check, with a relay session that belongs to this very worker id.
\<close>
theorem pool_reports_own:
  assumes "(pool_step base)\<^sup>*\<^sup>* [] ps"
  shows "distinct (map sr_workerId (reports base ps)) \<and> (\<exists>r rs. reports base ps = r # rs \<and> sr_workerId r = base) \<and>
    (\<forall>r \<in> set (reports base ps). sr_segments r \<noteq> [] \<longrightarrow> sr_url r = ''relay:expert-'' @ sr_workerId r \<and>
       (\<exists>x f. checkShard f (hl_want x) \<noteq> None \<and> hl_file x = Some f \<and> Some x \<in> eh_held ` set ps \<and> sr_model r = wt_model (hl_want x) \<and>
          sr_segments r = [segment_of (wt_layer (hl_want x), wt_begin (hl_want x), wt_end (hl_want x))]))"
proof (intro conjI ballI impI)
  have "map sr_workerId (reports base ps) = map (slotId base) (filter (\<lambda>i. i = 0 \<or> host_busy (slot 0 ps ! i)) [0..<length (slot 0 ps)])"
    by (simp add: reports_def slot_says_def Let_def del: slot_simps)
  then show "distinct (map sr_workerId (reports base ps))" by (simp add: distinct_map inj_on_def slotId_inj)
  have "0 < length (slot 0 ps)" by simp
  then show "\<exists>r rs. reports base ps = r # rs \<and> sr_workerId r = base"
    by (simp add: reports_def slot_says_def Let_def upt_conv_Cons slotId_def del: slot_simps)
next
  fix r
  assume "r \<in> set (reports base ps)" "sr_segments r \<noteq> []"
  then obtain i where i: "i < length ps" "r = slot_says base i (ps ! i)" "heldSegments (ps ! i) \<noteq> []" by (rule reported)
  have ok: "host_ok (ps ! i)" "eh_session (ps ! i) \<in> {None, Some (''expert-'' @ slotId base i)}"
    using pool_reach_ok [OF assms] i(1) host_reach_ok by (auto simp: pool_ok_def slot_ok_def)
  have serving: "eh_phase (ps ! i) = PhServing" using i(3) by (auto simp: heldSegments_def split: option.splits if_splits)
  then show "sr_url r = ''relay:expert-'' @ sr_workerId r" using ok i(2) by (auto simp: host_ok_def host_busy_def slot_says_def coverageUrl_def)
  obtain x f where x: "eh_held (ps ! i) = Some x" "hl_file x = Some f" "checkShard f (hl_want x) \<noteq> None" using ok(1) serving by (auto simp: host_ok_def)
  moreover have "Some x \<in> eh_held ` set ps" using x(1) i(1) by (metis image_eqI nth_mem)
  ultimately show "\<exists>x f. checkShard f (hl_want x) \<noteq> None \<and> hl_file x = Some f \<and> Some x \<in> eh_held ` set ps \<and> sr_model r = wt_model (hl_want x) \<and>
      sr_segments r = [segment_of (wt_layer (hl_want x), wt_begin (hl_want x), wt_end (hl_want x))]"
    using i(2) serving by (intro exI [of _ x] exI [of _ f]) (simp add: slot_says_def heldSegments_def)
qed

section \<open>Within the budget\<close>

lemma release_from_busy: "busySlots (release_from k ps) = take k (busySlots ps)"
  by (induction k ps rule: release_from.induct) (auto simp: busySlots_def take_Cons')

lemma release_from_idle: "length (busySlots ps) \<le> k \<Longrightarrow> release_from k ps = ps"
  by (induction k ps rule: release_from.induct) (auto simp: busySlots_def)

lemma trim_counts: "heldCounts (pool_trim f ps) = take (f (heldCounts ps)) (heldCounts ps)"
  by (simp add: heldCounts_def pool_trim_def release_from_busy take_map)

lemma pool_fits_take: "pool_fits b m av (take (pool_fits b m av xs) xs) = min (length xs) (pool_fits b m av xs)"
  by (auto simp: pool_fits_def slotsThatFit_def fit_take split: option.split) (metis fit_le_length min.absorb2)

lemma pool_fits_le: "pool_fits b m av xs \<le> length xs"
  by (auto simp: pool_fits_def slotsThatFit_def fit_le_length split: option.split)

lemma trim_budget:
  assumes k_def: "k = pool_fits b m av (heldCounts ps)" and qs_def: "qs = pool_trim (pool_fits b m av) ps"
  shows "busySlots qs = take k (busySlots ps) \<and> pool_trim (pool_fits b m av) qs = qs \<and>
    (\<forall>x y. b = Some x \<and> m = Some y \<longrightarrow>
       (0 < k \<longrightarrow> sum_list (map (slotBytes y) (heldCounts qs)) \<le> usable_of x av - mm_headroomBytes y) \<and>
       (k < length (heldCounts ps) \<longrightarrow> usable_of x av - mm_headroomBytes y < sum_list (map (slotBytes y) (take (Suc k) (heldCounts ps)))))"
proof (intro conjI allI impI)
  show "busySlots qs = take k (busySlots ps)" by (simp add: qs_def k_def pool_trim_def release_from_busy)
  have counts: "heldCounts qs = take k (heldCounts ps)" by (simp add: qs_def k_def trim_counts)
  have "pool_fits b m av (heldCounts qs) = k"
    unfolding counts k_def using pool_fits_take [of b m av "heldCounts ps"] pool_fits_le [of b m av "heldCounts ps"] by simp
  moreover have "length (busySlots qs) \<le> k" using arg_cong [OF counts, of length] by (simp add: heldCounts_def)
  ultimately show "pool_trim (pool_fits b m av) qs = qs" by (simp add: pool_trim_def release_from_idle)
next
  fix x y
  assume xy: "b = Some x \<and> m = Some y"
  let ?U = "usable_of x av - mm_headroomBytes y"
  have k: "k = fitting_slots y ?U 0 (heldCounts ps)" using xy by (simp add: k_def pool_fits_def slotsThatFit_def)
  have le: "k \<le> length (heldCounts ps)" unfolding k by (rule fit_le_length)
  {
    assume "0 < k"
    moreover from this have "heldCounts ps \<noteq> []" using le by auto
    ultimately show "sum_list (map (slotBytes y) (heldCounts qs)) \<le> ?U"
      using fit_sum [of y ?U 0 "take k (heldCounts ps)"] fit_take [of y ?U 0 k "heldCounts ps"] le k
      by (auto simp: qs_def trim_counts k_def [symmetric])
  next
    assume lt: "k < length (heldCounts ps)"
    have "fitting_slots y ?U 0 (take k (heldCounts ps) @ [heldCounts ps ! k]) = k" "fitting_slots y ?U 0 (take k (heldCounts ps)) = k"
      using fit_take [of y ?U 0 "Suc k" "heldCounts ps"] fit_take [of y ?U 0 k "heldCounts ps"] k lt by (simp_all add: take_Suc_conv_app_nth)
    then show "?U < sum_list (map (slotBytes y) (take (Suc k) (heldCounts ps)))"
      using lt by (auto simp: fit_snoc take_Suc_conv_app_nth split: if_splits)
  }
qed

text \<open>
  Trimming meets the budget and gives up no more than it must: what remains busy is the longest run of the busy slots, in slot order, that the budget covers;
  their cost is within what is usable; the next slot's would not be; and trimming again changes nothing.
\<close>
theorem trim_meets_budget:
  "let k = pool_fits b m av (heldCounts ps); qs = pool_trim (pool_fits b m av) ps
   in busySlots qs = take k (busySlots ps) \<and> pool_trim (pool_fits b m av) qs = qs \<and>
    (\<forall>x y. b = Some x \<and> m = Some y \<longrightarrow>
       (0 < k \<longrightarrow> sum_list (map (slotBytes y) (heldCounts qs)) \<le> usable_of x av - mm_headroomBytes y) \<and>
       (k < length (heldCounts ps) \<longrightarrow> usable_of x av - mm_headroomBytes y < sum_list (map (slotBytes y) (take (Suc k) (heldCounts ps)))))"
  unfolding Let_def by (rule trim_budget) (rule refl)+

text \<open>A list of costs that are not negative fits as a whole exactly when its sum does.\<close>

lemma fit_total:
  assumes "list_all (\<lambda>n. 0 \<le> slotBytes m n) xs" "u + sum_list (map (slotBytes m) xs) \<le> U"
  shows "fitting_slots m U u xs = length xs"
  using assms
proof (induction xs arbitrary: u)
  case (Cons n xs)
  have "0 \<le> sum_list (map (slotBytes m) xs)" using Cons.prems(1) by (intro sum_list_nonneg) (auto simp: list_all_iff)
  then show ?case using Cons.IH [of "u + slotBytes m n"] Cons.prems by (auto simp: Let_def add.assoc)
qed simp

lemma provisioned_host:
  assumes "\<not> host_busy h"
  shows "host_busy (host_provision w n i h)" "heldExperts (host_provision w n i h) = wt_end w - wt_begin w"
  using assms by (simp_all add: host_provision_def host_busy_def heldExperts_def Let_def)

lemma provision_counts:
  "\<exists>xs ys. heldCounts ps = xs @ ys \<and> heldCounts (pool_provision base w n ps) = xs @ (wt_end w - wt_begin w) # ys"
proof -
  let ?i = "first_free ps"
  define h where "h = host_provision w n (slotId base ?i) (slot ?i ps ! ?i)"
  have h: "host_busy h" "heldExperts h = wt_end w - wt_begin w"
    unfolding h_def using provisioned_host first_free_free(1) by blast+
  have p: "pool_provision base w n ps = take ?i ps @ h # drop (Suc ?i) ps"
  proof (cases "?i < length ps")
    case True
    then have "slot ?i ps = ps" by (simp add: slot_def)
    then show ?thesis using True by (simp add: pool_provision_def h_def upd_conv_take_nth_drop Let_def)
  next
    case False
    then have i: "?i = length ps" using first_free_le [of ps] by simp
    then have "slot ?i ps = ps @ [new_ehost]" by (simp add: slot_def)
    then show ?thesis using i by (simp add: pool_provision_def h_def Let_def)
  qed
  have b: "busySlots ps = take ?i ps @ busySlots (drop (Suc ?i) ps)" if "?i < length ps"
  proof -
    have "\<not> host_busy (ps ! ?i)" using first_free_free(1) [of ps] that by simp
    moreover have "\<forall>s \<in> set (take ?i ps). host_busy s" unfolding first_free_def by (metis set_takeWhileD takeWhile_eq_take)
    ultimately show ?thesis using that id_take_nth_drop [OF that] by (metis (no_types, lifting) busySlots_def filter.simps(2) filter_True filter_append)
  qed
  have b': "busySlots ps = take ?i ps @ busySlots (drop (Suc ?i) ps)"
  proof (cases "?i < length ps")
    case False
    then have "takeWhile host_busy ps = ps" using first_free_le [of ps] takeWhile_eq_take [of host_busy ps] by (simp add: first_free_def)
    then have "\<forall>s \<in> set ps. host_busy s" by (metis set_takeWhileD)
    then show ?thesis using False by (simp add: busySlots_def)
  qed (rule b)
  have t: "filter host_busy (take ?i ps) = take ?i ps" unfolding first_free_def by (metis (no_types, lifting) filter_True set_takeWhileD takeWhile_eq_take)
  show ?thesis
  proof (intro exI conjI)
    show "heldCounts ps = map heldExperts (take ?i ps) @ heldCounts (drop (Suc ?i) ps)" by (simp add: heldCounts_def b')
    show "heldCounts (pool_provision base w n ps) = map heldExperts (take ?i ps) @ (wt_end w - wt_begin w) # heldCounts (drop (Suc ?i) ps)"
      by (simp add: p heldCounts_def busySlots_def t h)
  qed
qed

text \<open>
  C31: Growing stays within the budget: an assignment of as many experts as the pool asked for, put in the first free slot, leaves every busy slot of
  the machine covered by the budget it was asked under, so the next trimming gives up nothing; and no slot that was busy is touched.
\<close>
theorem growth_within_budget:
  assumes "0 < mm_residentBytesPerExpert m" "0 \<le> mm_fixedBytes m" "0 \<le> mm_scratchBytes m" "list_all (\<lambda>n. 0 \<le> n) (heldCounts ps)"
    and "1 \<le> wt_end w - wt_begin w" "wt_end w - wt_begin w \<le> pool_nextWindow (pool_window (Some b) (Some m) av) ps"
  shows "pool_trim (pool_fits (Some b) (Some m) av) (pool_provision base w n ps) = pool_provision base w n ps \<and>
    length (heldCounts (pool_provision base w n ps)) = Suc (length (heldCounts ps)) \<and>
    (\<forall>i < length ps. host_busy (ps ! i) \<longrightarrow> pool_provision base w n ps ! i = ps ! i)"
proof (intro conjI allI impI)
  let ?k = "wt_end w - wt_begin w" and ?U = "usable_of b av - mm_headroomBytes m"
  obtain xs ys where c: "heldCounts ps = xs @ ys" "heldCounts (pool_provision base w n ps) = xs @ ?k # ys" using provision_counts by blast
  have win: "?k \<le> nextSlotWindow MAX_SLOTS (Some b) (Some m) av (heldCounts ps)"
    using assms(5,6) by (simp add: pool_nextWindow_def pool_window_def split: if_splits)
  then have room: "length (heldCounts ps) < MAX_SLOTS" using assms(5) by (auto simp: nextSlotWindow_def split: if_splits)
  have "?k \<le> MAX_EXPERTS_PER_REQUEST" using win window_range(2) by (rule order_trans)
  then have total: "sum_list (map (slotBytes m) (heldCounts ps @ [?k])) \<le> ?U"
    using window_reaches [OF assms(1) room assms(5)] win by blast
  have "list_all (\<lambda>n. 0 \<le> slotBytes m n) (xs @ ?k # ys)" using assms(1-5) c(1) by (auto simp: list_all_iff slotBytes_def)
  then have "pool_fits (Some b) (Some m) av (xs @ ?k # ys) = length (xs @ ?k # ys)"
    using fit_total [of m "xs @ ?k # ys" 0 ?U] total c(1) by (simp add: pool_fits_def slotsThatFit_def algebra_simps)
  then show "pool_trim (pool_fits (Some b) (Some m) av) (pool_provision base w n ps) = pool_provision base w n ps"
    unfolding pool_trim_def c(2) by (intro release_from_idle) (metis c(2) heldCounts_def length_map order_refl)
  show "length (heldCounts (pool_provision base w n ps)) = Suc (length (heldCounts ps))" using c by simp
next
  fix i
  assume i: "i < length ps" "host_busy (ps ! i)"
  then have "i \<noteq> first_free ps" using first_free_free(1) [of ps] by auto
  then show "pool_provision base w n ps ! i = ps ! i" using i(1) by (simp add: pool_provision_def Let_def)
qed

section \<open>Which slot is given up\<close>

lemma release_from_at:
  "i < length ps \<Longrightarrow> host_busy (ps ! i) \<Longrightarrow>
    release_from k ps ! i = (if length (busySlots (take i ps)) < k then ps ! i else host_release (ps ! i))"
proof (induction k ps arbitrary: i rule: release_from.induct)
  case (2 keep s ps)
  then show ?case by (cases i) (auto simp: busySlots_def)
qed simp

lemma busy_before_last:
  assumes "j < length qs" "host_busy (qs ! j)" "\<And>i. j < i \<Longrightarrow> i < length qs \<Longrightarrow> \<not> host_busy (qs ! i)"
  shows "length (busySlots qs) = Suc (length (busySlots (take j qs)))"
proof -
  have "\<not> host_busy s" if s: "s \<in> set (drop (Suc j) qs)" for s
  proof -
    obtain i where "i < length (drop (Suc j) qs)" "s = drop (Suc j) qs ! i" using s by (metis in_set_conv_nth)
    then show ?thesis using assms(3) [of "Suc j + i"] by simp
  qed
  then have rest: "filter host_busy (drop (Suc j) qs) = []" by (simp add: filter_empty_conv)
  have "filter host_busy qs = filter host_busy (take j qs @ qs ! j # drop (Suc j) qs)" by (rule arg_cong [OF id_take_nth_drop [OF assms(1)]])
  also have "\<dots> = filter host_busy (take j qs) @ [qs ! j]" using assms(2) by (simp only: filter_append filter.simps rest if_True)
  finally show ?thesis by (simp only: busySlots_def length_append length_Cons list.size(3) add_Suc_right add_0_right)
qed

text \<open>
  The slot that is given up is the last by position, not the newest: when a slot in front is free and is given the next assignment, and the
  budget then covers one slot less, the trimming keeps the shard that is still to be downloaded and releases the last slot, which was already serving.
\<close>
theorem trim_by_position:
  assumes "first_free ps < j" "j < length ps" "host_busy (ps ! j)" "\<forall>i. j < i \<and> i < length ps \<longrightarrow> \<not> host_busy (ps ! i)"
    and "fitsFn (heldCounts (pool_provision base w n ps)) = length (heldCounts ps)"
  shows "eh_phase (pool_trim fitsFn (pool_provision base w n ps) ! first_free ps) = PhDownloading \<and>
    pool_trim fitsFn (pool_provision base w n ps) ! j = host_release (ps ! j)"
proof -
  let ?i = "first_free ps"
  define qs where "qs = pool_provision base w n ps"
  have len: "length qs = length ps" and other: "\<And>i. i \<noteq> ?i \<Longrightarrow> i < length ps \<Longrightarrow> qs ! i = ps ! i"
    using assms(1,2) by (simp_all add: qs_def pool_provision_def Let_def)
  have new: "qs ! ?i = host_provision w n (slotId base ?i) (ps ! ?i)" using assms(1,2) by (simp add: qs_def pool_provision_def Let_def)
  have free: "\<not> host_busy (ps ! ?i)" using first_free_free(1) [of ps] assms(1,2) by simp
  have down: "eh_phase (qs ! ?i) = PhDownloading" "host_busy (qs ! ?i)"
    using free unfolding new by (simp_all add: host_provision_def host_busy_def Let_def)
  have k: "length (busySlots qs) = Suc (length (heldCounts ps))"
    using provision_counts [of ps base w n] unfolding qs_def by (metis add_Suc_right heldCounts_def length_Cons length_append length_map)
  have j: "qs ! j = ps ! j" "host_busy (qs ! j)" using other [of j] assms(1-3) by auto
  have last: "length (busySlots qs) = Suc (length (busySlots (take j qs)))"
    using j(2) assms(1,2,4) len other by (intro busy_before_last) auto
  have "length (busySlots (take ?i qs)) < length (busySlots (take j qs))"
  proof -
    have lt: "?i < length (take j qs)" using assms(1,2) len by simp
    have "filter host_busy (take j qs) = filter host_busy (take ?i (take j qs) @ take j qs ! ?i # drop (Suc ?i) (take j qs))"
      by (rule arg_cong [OF id_take_nth_drop [OF lt]])
    also have "take ?i (take j qs) = take ?i qs" using assms(1) by (simp add: min_def)
    also have "take j qs ! ?i = qs ! ?i" using assms(1) by simp
    also have "filter host_busy (take ?i qs @ qs ! ?i # drop (Suc ?i) (take j qs)) =
        filter host_busy (take ?i qs) @ qs ! ?i # filter host_busy (drop (Suc ?i) (take j qs))" using down(2) by (simp only: filter_append filter.simps if_True)
    finally show ?thesis by (simp only: busySlots_def length_append length_Cons less_add_Suc1 add_Suc_right)
  qed
  then show ?thesis unfolding pool_trim_def qs_def [symmetric] assms(5) [folded qs_def]
    using release_from_at [of ?i qs "length (heldCounts ps)"] release_from_at [of j qs "length (heldCounts ps)"] down j k last len assms(1,2) by simp
qed

section \<open>Witnesses\<close>

definition demo_served :: ehost where
  "demo_served = probe_answered 1 True demo_starting"

lemma demo_served_is: "host_busy demo_served" "heldExperts demo_served = 64" "\<not> list_ex (\<lambda>s. eh_phase s = PhDownloading \<or> eh_phase s = PhStarting) [new_ehost, demo_served]"
  by (simp_all add: demo_served_def demo_starting_is probe_answered_def host_busy_def heldExperts_def demo_want_def new_ehost_def Let_def)

lemma demo_pool_counts: "heldCounts [new_ehost, demo_served] = [64]" "first_free [new_ehost, demo_served] = 0"
  by (simp_all add: heldCounts_def busySlots_def first_free_def demo_served_is)

theorem pool_reports_own_witness:
  "distinct (map sr_workerId (reports ''desktop'' (pool_provision ''desktop'' demo_want 2048 [])))"
proof -
  have "(pool_step ''desktop'')\<^sup>*\<^sup>* [] (pool_provision ''desktop'' demo_want 2048 [])" by (rule r_into_rtranclp) (rule given)
  then show ?thesis using pool_reports_own by blast
qed

theorem trim_meets_budget_witness:
  "busySlots (pool_trim (pool_fits (Some 1073741824) (Some cuda_discrete) None) [demo_served, demo_served]) = [demo_served]"
proof -
  have c: "heldCounts [demo_served, demo_served] = [64, 64]" by (simp add: heldCounts_def busySlots_def demo_served_is)
  have "pool_fits (Some 1073741824) (Some cuda_discrete) None [64, 64] = 1" by (simp add: pool_fits_def budget_eval)
  then show ?thesis
    using trim_meets_budget [of "Some 1073741824" "Some cuda_discrete" None "[demo_served, demo_served]"] c by (simp add: Let_def busySlots_def demo_served_is)
qed

theorem growth_within_budget_witness:
  "pool_trim (pool_fits (Some 4294967296) (Some cuda_discrete) None) (pool_provision ''desktop'' demo_want 2048 [new_ehost, demo_served]) =
     pool_provision ''desktop'' demo_want 2048 [new_ehost, demo_served]"
proof -
  have "pool_nextWindow (pool_window (Some 4294967296) (Some cuda_discrete) None) [new_ehost, demo_served] = 64"
    using demo_served_is(3) by (simp add: pool_nextWindow_def demo_pool_counts pool_window_def MAX_SLOTS_def budget_eval)
  then show ?thesis
    using growth_within_budget [of cuda_discrete "[new_ehost, demo_served]" demo_want 4294967296 None "''desktop''" 2048]
    by (simp add: demo_pool_counts demo_want_def cuda_discrete_def MIB_def)
qed

theorem trim_by_position_witness:
  "pool_trim (\<lambda>_. 1) (pool_provision ''desktop'' demo_want 2048 [new_ehost, demo_served]) ! 1 = host_release demo_served"
proof -
  have "\<forall>i. 1 < i \<and> i < length [new_ehost, demo_served] \<longrightarrow> \<not> host_busy ([new_ehost, demo_served] ! i)" by auto
  then show ?thesis using trim_by_position [of "[new_ehost, demo_served]" 1 "\<lambda>_. 1" "''desktop''" demo_want 2048] demo_pool_counts demo_served_is(1) by simp
qed

end
