(* ===== verification/Spec2Isabelle.thy ===== *)
theory Spec2Isabelle
  imports Gateway_Locks Gateway_Admin Gateway_Openai Bridge_Http Bridge_Relay Tunnel_Relay Admissions Desktop_Participation Desktop_Metrics Desktop_Plan
    Desktop_LiveRing Desktop_Relay Desktop_Pool
begin

text \<open>
  \<^bold>\<open>Kvasir AI Network: a verification library of its services.\<close>

  The program is a network that serves language models on machines of independent operators. A settlement gateway
  (\<^verbatim>\<open>solana/staking-service\<close>) keeps the ledger of rewards, stakes, prepaid credits and paid requests and offers the
  public completion routes. A bridge (\<^verbatim>\<open>p4bridge\<close>) admits nodes, knows which model runs where, talks the ring protocol to the
  agents and streams the answers. Nodes behind NAT are reached through a relay (\<^verbatim>\<open>tools/p4-relay\<close>); new machines ask a small
  admissions desk (\<^verbatim>\<open>tools/kvasir-admissions\<close>) to be let in; the desktop application (\<^verbatim>\<open>wallet/desktop/electron\<close>) is the
  client of all of these on an operator's machine. A completion travels from the gateway to the bridge, over the ring, back as a
  stream, and is billed when the stream ends; a node's work travels back as contribution rows to the gateway's ledger.

  \<^bold>\<open>Conventions.\<close> Code that awaits is cut at its awaits, so an interleaving is a sequence of operations or a step
  relation; a throw or an error status is a value (\<^verbatim>\<open>refusal\<close>, a sum or an option); a JavaScript object used as a
  table is an association list in insertion order with the laws of locale \<open>store\<close>; strings are their UTF-8 bytes. Numbers are
  IEEE doubles as rationals rounded by \<open>fl\<close> (round to nearest even at 53 bits, exponent range unbounded: no value of the code
  comes near its limits) wherever rounding matters, integers where they stay below \<open>2 ^ 53\<close>, words for bytes and masks.
  Code outside the repository is a parameter: cryptography (\<open>crypto\<close>), JSON readers and writers, the Solana RPC and token
  library, the clock, random bytes, the network. What a theorem needs of such a parameter is an assumption of that theorem, and its
  witness gives an instance.

  \<^bold>\<open>Foundations.\<close>
  \<^item> \<open>Prelude\<close>: answers, tables (locale \<open>store\<close>, interpretation \<open>tab\<close>), strings, named collections of simplification rules.
  \<^item> \<open>JS_Number\<close>: rounding to doubles from its definition: monotone, idempotent, exact on representable numbers, relative error
     (locales \<open>rounding\<close> and \<open>accurate_rounding\<close>, interpretation \<open>dbl\<close>); \<^verbatim>\<open>round6\<close> of the ledger.
  \<^item> \<open>JS_Value\<close>, \<open>JS_String\<close>, \<open>JS_Bytes\<close>: conversions, percent-decoding, byte orders, UTF-8, and locale \<open>incremental\<close>: a reader
     that takes one frame at a time off a buffer gives the same result for every cut of its input. The ring client, the WebSocket decoder
     and the tunnel decoder are its three interpretations.
  \<^item> \<open>Base58\<close>: the two base-58 decoders agree.

  \<^bold>\<open>The gateway\<close> (\<^verbatim>\<open>server.js\<close>, \<^verbatim>\<open>gatewayAuth.js\<close>).
  \<^item> \<open>Gateway_State\<close>: rows, \<^verbatim>\<open>loadDB\<close>, \<^verbatim>\<open>saveDB\<close> over an explicit disk; a crash during a save leaves the old or the new ledger; the data upgrade keeps balances.
  \<^item> \<open>Gateway_Auth\<close>, \<open>Gateway_Admin\<close>: challenges, sessions, codes and the guarded routes: no session without the second factor, no price change
     without its four guards.
  \<^item> \<open>Gateway_Rewards\<close>: register, heartbeat, contribution, claim, faucet. The doubles of a row refine integer counters of millionths; untrusted callers
     move nothing; a claim pays what was pending once.
  \<^item> \<open>Gateway_Staking\<close>, \<open>Gateway_Pay\<close>, \<open>Gateway_Credits\<close>: on-chain transfers are verified and used once, positions and accounts balance, a paid
     request settles once and refunds its price when it fails, prices propagate, keys and the audit trail.
  \<^item> \<open>Gateway_Openai\<close>: the completion routes from admission to the debit, reload debouncing, health and watchdog as a step relation.
  \<^item> \<open>Gateway_Locks\<close>: \<^verbatim>\<open>withLock\<close> as a step relation: exclusion, progress, sections of one key refine their sequential execution, and the
     interleaving of two keys that pays a claim twice.

  \<^bold>\<open>The bridge.\<close>
  \<^item> \<open>Bridge_Wire\<close>, \<open>Bridge_Client\<close> (\<^verbatim>\<open>wire.js\<close>): codecs with round trips, the connection, its receive loop (a fuel-free recursion with a proved bound on its
     turns), exchanges that settle once.
  \<^item> \<open>Bridge_Pipeline\<close>, \<open>Bridge_Catalog\<close> (\<^verbatim>\<open>pipeline.js\<close>, \<^verbatim>\<open>catalog.js\<close>): requests over the ring with exact usage; catalogs that load are well formed.
  \<^item> \<open>Bridge_Dial\<close>, \<open>Bridge_Http\<close> (\<^verbatim>\<open>server.js\<close>): dial budgets under interleaved refreshes, routing behind the service gate, chat answers, contributions.
  \<^item> \<open>Bridge_NodeAuth\<close>, \<open>Bridge_Participation\<close> (\<^verbatim>\<open>nodeauth.js\<close>, \<^verbatim>\<open>participation.js\<close>): identities, the census, runs, assignment, relay sessions and their credit.
  \<^item> \<open>Bridge_Relay\<close> (\<^verbatim>\<open>wsrelay.js\<close>): the WebSocket splice carries exactly the payloads.

  \<^bold>\<open>Tunnels and admissions.\<close>
  \<^item> \<open>Tunnel_Protocol\<close>, \<open>Tunnel_Ends\<close>, \<open>Tunnel_Relay\<close> (\<^verbatim>\<open>tools/p4-relay\<close>): frames cut anywhere are read back, streams deliver the bytes that were sent, only a
     proved wallet registers.
  \<^item> \<open>Admissions\<close> (\<^verbatim>\<open>tools/kvasir-admissions/server.mjs\<close>): handlers cut at their awaits over the shared file; locale \<open>ledger_invariant\<close> carries an invariant of single
     writes to every interleaving (interpretations \<open>queue\<close> there and \<open>refused\<close> below).

  \<^bold>\<open>The desktop node\<close> (\<^verbatim>\<open>wallet/desktop/electron\<close>).
  \<^item> \<open>Desktop_Participation\<close> (\<^verbatim>\<open>participation.cjs\<close>): the client side of the participation protocol, also run against the modelled bridge and desk: the handshake
     succeeds, a refused node files its request; the polling loop as a step relation over its timers.
  \<^item> \<open>Desktop_Metrics\<close> (\<^verbatim>\<open>expertMetrics.cjs\<close>): the framing observer equals a byte-wise reference and records whole calls exactly; the pruned window equals
     the window over the full history; the benchmark.
  \<^item> \<open>Desktop_Plan\<close> (\<^verbatim>\<open>networkPlan.cjs\<close>): the hit probability against its combinatorial value, the greatest feasible number of layers, the choice of a backbone.
  \<^item> \<open>Desktop_LiveRing\<close> (\<^verbatim>\<open>liveRing.cjs\<close>): nothing is called live without evidence; the cache as a step relation.
  \<^item> \<open>Desktop_Shard\<close>, \<open>Desktop_Host\<close> (\<^verbatim>\<open>expertHost.cjs\<close>, class \<open>ExpertHost\<close>): the reader of a shard's header gives back what was written, a download ends with a checked file
     or none; a host cut at its awaits, as a step relation over generations: what it reports was checked, and, outside two races, is served by a living worker.
  \<^item> \<open>Desktop_Budget\<close>, \<open>Desktop_Pool\<close> (\<^verbatim>\<open>executors.cjs\<close>, \<^verbatim>\<open>main.cjs\<close>, \<^verbatim>\<open>src/api.ts\<close>, class \<open>ExpertPool\<close>): the window volunteered for is the most that fits, the capacity shown is the one
     reached, growing and trimming stay within the budget; the slots report under distinct identities, each with its own relay session.
  \<^item> \<open>Desktop_Relay\<close> (\<^verbatim>\<open>relay.cjs\<close>, \<^verbatim>\<open>directRelay.cjs\<close>): the life cycles of the tunnel client and of the SSH forward.

  \<^bold>\<open>This theory\<close> holds what spans components: usage reported by the stages is what the wallet is debited, through bridge and gateway; a stream that fails at
  the bridge looks alive to the gateway; approvals of the desk never reach this bridge.

  \<^bold>\<open>Bounds and fuel.\<close> Every loop of the code is a total function with a measure (bytes left, entries left), so there is no fuel; limits such as the pending calls of an
  observer, the challenges outstanding or the frame sizes are the constants of the code. Theorems that speak of doubles bound the integers involved by
  \<open>2 ^ 53\<close> or, for millionths, \<open>2 ^ 50\<close>, far above any amount of tokens the ledger can hold.

  \<^bold>\<open>Not modelled.\<close> Reading and writing of HTTP bodies, static files and log lines; the probing of executors and devices, the CUDA packs, IPC and process
  supervision of the desktop application (\<^verbatim>\<open>main.cjs\<close>, \<^verbatim>\<open>executors.cjs\<close>, \<^verbatim>\<open>cudaPack.cjs\<close>, \<^verbatim>\<open>p4node.cjs\<close>), which are child processes and downloads, and the benchmark and status
  views of its hosts; the React screens of the wallet, thin clients of the modelled routes; the command-line node and the operator tools of the
  bridge, which call modelled operations; the project watch, the token scripts and the web site; the native ring runtime in C++ and the
  vendored inference engine, which the bridge meets only as the peer of its wire protocol.
\<close>

section \<open>A streamed answer is billed for what the stages reported\<close>

lemma scan_one_line:
  assumes "newline \<notin> set x"
  shows "scan_while f (x @ newline # y) u = scan_while f y (scan_line f x u)"
proof -
  have "takeWhile (\<lambda>c. c \<noteq> newline) (x @ newline # y) = x" "tl (dropWhile (\<lambda>c. c \<noteq> newline) (x @ newline # y)) = y"
    using assms by (induction x) auto
  then show ?thesis by (subst scan_while.simps) simp
qed

lemma scan_blank: "scan_line f '''' u = u"
  by (simp add: scan_line_def trim_def starts_with_def)

lemma trim_data:
  assumes "trim j = j" and "j \<noteq> ''''"
  shows "trim (''data: '' @ j) = ''data: '' @ j" "trim (CHR '' '' # j) = j"
proof -
  have strip: "rev (dropWhile is_space (rev j)) = j \<and> dropWhile is_space j = j"
  proof -
    have "length (rev (dropWhile is_space (rev (dropWhile is_space j)))) = length j" using assms(1) by (simp add: trim_def)
    moreover have "length (dropWhile is_space (rev (dropWhile is_space j))) \<le> length (dropWhile is_space j)"
      using length_dropWhile_le [of is_space "rev (dropWhile is_space j)"] by simp
    moreover have "length (dropWhile is_space j) \<le> length j" by (rule length_dropWhile_le)
    ultimately have "length (dropWhile is_space j) = length j" by simp
    then have "dropWhile is_space j = j" by (metis append_eq_conv_conj drop_0 length_0_conv length_append add_cancel_left_left self_append_conv2 takeWhile_dropWhile_id)
    then show ?thesis using assms(1) by (simp add: trim_def)
  qed
  then have "dropWhile is_space (rev j) = rev j" by (metis rev_swap)
  moreover from this have "dropWhile is_space (rev j) \<noteq> []" using assms(2) by simp
  moreover have "\<exists>c \<in> set j. \<not> is_space c" using strip assms(2) by (metis dropWhile_eq_Nil_conv)
  ultimately have d: "dropWhile is_space (rev j @ xs) = rev j @ xs" for xs by (metis dropWhile_append1 set_rev)
  show "trim (''data: '' @ j) = ''data: '' @ j"
    using d [of "rev ''data: ''"] by (simp add: trim_def is_space_def)
  have "is_space (CHR '' '')" by (simp add: is_space_def)
  then show "trim (CHR '' '' # j) = j" using strip by (simp add: trim_def)
qed

lemma scan_frame:
  assumes "newline \<notin> set (stringify f)" and "trim (stringify f) = stringify f" and "stringify f \<noteq> ''''" and "stringify f \<noteq> ''[DONE]''"
  shows "scan_while ui (chunkFrame stringify f @ y) u =
    scan_while ui y (if f = DoneFrame then u else case ui (stringify f) of Some v \<Rightarrow> Some v | None \<Rightarrow> u)"
proof -
  let ?j = "if f = DoneFrame then ''[DONE]'' else stringify f"
  have j: "trim ?j = ?j" "?j \<noteq> ''''" "newline \<notin> set ?j" using assms by (auto simp: trim_def is_space_def newline_def char_of_def)
  have "newline \<notin> set (''data: '' @ ?j)" using j(3) by (simp add: newline_def char_of_def)
  then have "scan_while ui (chunkFrame stringify f @ y) u = scan_while ui (newline # y) (scan_line ui (''data: '' @ ?j) u)"
    using scan_one_line [of "''data: '' @ ?j" ui "newline # y" u] by (simp add: chunkFrame_def)
  also have "\<dots> = scan_while ui y (scan_line ui (''data: '' @ ?j) u)"
    using scan_one_line [of "''''" ui y] by (simp add: scan_blank)
  also have "scan_line ui (''data: '' @ ?j) u = (if f = DoneFrame then u else case ui (stringify f) of Some v \<Rightarrow> Some v | None \<Rightarrow> u)"
    using trim_data [OF j(1,2)] assms(4) by (simp add: scan_line_def starts_with_def)
  finally show ?thesis .
qed

lemma scan_frames:
  assumes json: "\<And>f. newline \<notin> set (stringify f) \<and> trim (stringify f) = stringify f \<and> stringify f \<noteq> '''' \<and> stringify f \<noteq> ''[DONE]''"
    and none: "\<And>f. f \<in> set fs \<Longrightarrow> ui (stringify f) = None"
  shows "scan_while ui (concat (map (chunkFrame stringify) fs) @ y) u = scan_while ui y u"
  using none by (induction fs) (simp_all add: scan_frame json)

text \<open>
  C1: The gateway bills a streamed answer for exactly what the stages reported. Whatever the ring sent while
  the request ran, and however the bridge's event stream is cut up on its way to the gateway, the wallet is
  debited once, for the prefill rows of the distinct observations and the number of output fragments, and the
  content frames spell the text.
\<close>
theorem streamed_usage_is_billed:
  assumes ring: "\<forall>(t, ev) \<in> set es. going_on ev" "r = feed rd i es (new_run True ab)"
    and prompt: "promptFrom body (cm_promptFormat m) (cm_reasoning m) (thinking_open m body) \<noteq> ''''" and stream: "bd_stream body"
    and answer: "fst (chatCompletions m body True (rr_onToken r, Inr (generate_result r))) = EventStream fs"
    and cut: "concat chunks = concat (map (chunkFrame stringify) fs)"
    and json: "\<And>f. newline \<notin> set (stringify f) \<and> trim (stringify f) = stringify f \<and> stringify f \<noteq> '''' \<and> stringify f \<noteq> ''[DONE]''"
    and usage: "\<And>f. ui (stringify f) = (case f of UsageFrame u \<Rightarrow> Some (of_nat (us_prompt u), of_nat (us_completion u)) | _ \<Rightarrow> None)"
  shows "finish_stream w mid (fold (scan ui) chunks \<lparr>sc_buf = '''', sc_usage = None\<rparr>) now d =
      snd (debitCredits w mid
        (of_nat (sum_list (map (prefill_rows i) (first_seen {} (observed rd (map snd es))))))
        (of_nat (length (texts_of rd (map snd es)))) now d) \<and>
    concat (map (\<lambda>f. case f of ContentFrame x \<Rightarrow> x | _ \<Rightarrow> '''') fs) = concat (texts_of rd (map snd es))"
proof -
  let ?xs = "texts_of rd (map snd es)" and ?pt = "sum_list (map (prefill_rows i) (first_seen {} (observed rd (map snd es))))"
  have r: "rr_onToken r = ?xs" "rr_tokenCount r = length ?xs" "rr_promptTokens r = ?pt"
    using feed_adds [of "new_run True ab" es rd i] ring by (simp_all add: new_run_def)
  have u: "us_prompt (chat_usage (generate_result r)) = ?pt" "us_completion (chat_usage (generate_result r)) = length ?xs"
    using r by (simp_all add: chat_usage_def generate_result_def)
  have fs: "fs = RoleFrame # map ContentFrame ?xs @ [FinishFrame (gn_finishReason (generate_result r)), UsageFrame (chat_usage (generate_result r)), DoneFrame]"
    using answer prompt stream r(1) by (simp add: chatCompletions_def)
  let ?v = "Some (rat_of_nat ?pt, rat_of_nat (length ?xs))"
  have scan_all: "scan_while ui (concat (map (chunkFrame stringify) fs)) None = \<lparr>sc_buf = '''', sc_usage = ?v\<rparr>"
  proof -
    have j: "newline \<notin> set (stringify f)" "trim (stringify f) = stringify f" "stringify f \<noteq> ''''" "stringify f \<noteq> ''[DONE]''" for f
      using json by blast+
    let ?pre = "RoleFrame # map ContentFrame ?xs @ [FinishFrame (gn_finishReason (generate_result r))]"
    let ?y = "chunkFrame stringify (UsageFrame (chat_usage (generate_result r))) @ chunkFrame stringify DoneFrame"
    have "concat (map (chunkFrame stringify) fs) = concat (map (chunkFrame stringify) ?pre) @ ?y" by (simp add: fs)
    also have "scan_while ui (concat (map (chunkFrame stringify) ?pre) @ ?y) None = scan_while ui ?y None"
      by (rule scan_frames [OF json]) (use usage in auto)
    finally have "scan_while ui (concat (map (chunkFrame stringify) fs)) None = scan_while ui ?y None" .
    also have "\<dots> = scan_while ui (chunkFrame stringify DoneFrame @ []) ?v"
      using scan_frame [OF j, where f = "UsageFrame (chat_usage (generate_result r))" and ui = ui and y = "chunkFrame stringify DoneFrame" and u = None]
        usage [of "UsageFrame (chat_usage (generate_result r))"] by (simp add: u)
    also have "\<dots> = scan_while ui [] ?v"
      using scan_frame [OF j, where f = DoneFrame and ui = ui and y = "[]" and u = ?v] by simp
    also have "\<dots> = \<lparr>sc_buf = '''', sc_usage = ?v\<rparr>" by (subst scan_while.simps) simp
    finally show ?thesis .
  qed
  have two: "scan f y (scan f x s) = scan f (x @ y) s" for f x y s
    using scan_while_append [of f "sc_buf s @ x" y "sc_usage s"] by (simp add: scan_def)
  have folded: "cs \<noteq> [] \<Longrightarrow> fold (scan ui) cs s = scan ui (concat cs) s" for cs s
    by (induction cs arbitrary: s rule: rev_nonempty_induct) (auto simp: two)
  have "chunks \<noteq> []" using cut by (auto simp: fs chunkFrame_def)
  then have "fold (scan ui) chunks \<lparr>sc_buf = '''', sc_usage = None\<rparr> = \<lparr>sc_buf = '''', sc_usage = ?v\<rparr>"
    using folded scan_all cut by (simp add: scan_def)
  moreover have "concat (map (\<lambda>f. case f of ContentFrame x \<Rightarrow> x | _ \<Rightarrow> '''') fs) = concat ?xs"
    by (simp add: fs comp_def)
  ultimately show ?thesis by (simp add: finish_stream_def)
qed

definition toy_stringify :: "frame \<Rightarrow> string" where
  "toy_stringify f = (case f of UsageFrame u \<Rightarrow> replicate (us_prompt u) (CHR ''p'') @ ''u'' @ replicate (us_completion u) (CHR ''c'') | _ \<Rightarrow> ''x'')"

definition toy_usage :: "string \<Rightarrow> (rat \<times> rat) option" where
  "toy_usage s = (if CHR ''u'' \<in> set s then Some (of_nat (count_list s (CHR ''p'')), of_nat (count_list s (CHR ''c''))) else None)"

definition toy_body :: chat_body where
  "toy_body = \<lparr>bd_prompt = Some ''hi'', bd_messages = [], bd_max_tokens = None, bd_stream = True, bd_thinking_off = True\<rparr>"

lemma toy_stringify_ok:
  "newline \<notin> set (toy_stringify f) \<and> trim (toy_stringify f) = toy_stringify f \<and> toy_stringify f \<noteq> '''' \<and> toy_stringify f \<noteq> ''[DONE]''"
proof -
  have "list_all (\<lambda>c. \<not> is_space c) (toy_stringify f)"
    by (cases f) (auto simp: toy_stringify_def list_all_iff is_space_def)
  moreover have "newline \<notin> set (toy_stringify f)"
    by (cases f) (auto simp: toy_stringify_def newline_def char_of_def)
  moreover have "toy_stringify f \<noteq> ''''" by (cases f) (auto simp: toy_stringify_def)
  moreover have "CHR ''['' \<notin> set (toy_stringify f)" by (cases f) (auto simp: toy_stringify_def)
  then have "toy_stringify f \<noteq> ''[DONE]''" by auto
  ultimately show ?thesis by (simp add: trim_no_space)
qed

lemma toy_usage_ok:
  "toy_usage (toy_stringify f) = (case f of UsageFrame u \<Rightarrow> Some (of_nat (us_prompt u), of_nat (us_completion u)) | _ \<Rightarrow> None)"
proof -
  have "count_list (replicate n x) y = (if x = y then n else 0)" for n and x y :: char by (induction n) auto
  then show ?thesis by (cases f) (auto simp: toy_usage_def toy_stringify_def count_list_append)
qed

theorem streamed_usage_is_billed_witness:
  "\<exists>fs. fst (chatCompletions demo_model toy_body True ([], Inr (generate_result (new_run True True)))) = EventStream fs \<and>
     finish_stream ''w'' ''m'' (fold (scan toy_usage) (map (chunkFrame toy_stringify) fs) \<lparr>sc_buf = '''', sc_usage = None\<rparr>) 5 keyed_db =
       snd (debitCredits ''w'' ''m'' 0 0 5 keyed_db)"
proof -
  have "\<exists>fs. fst (chatCompletions demo_model toy_body True ([], Inr (generate_result (new_run True True)))) = EventStream fs"
    by (simp add: chatCompletions_def toy_body_def promptFrom_def)
  then obtain fs where fs: "fst (chatCompletions demo_model toy_body True (rr_onToken (new_run True True), Inr (generate_result (new_run True True)))) = EventStream fs"
    by (auto simp: new_run_def)
  have p: "promptFrom toy_body (cm_promptFormat demo_model) (cm_reasoning demo_model) (thinking_open demo_model toy_body) \<noteq> ''''" "bd_stream toy_body"
    by (simp_all add: toy_body_def promptFrom_def)
  have r: "new_run True True = feed \<lparr>read_output = (\<lambda>_. None), read_observation = (\<lambda>_. None), read_span = (\<lambda>_. None)\<rparr> ''q'' [] (new_run True True)" by simp
  from streamed_usage_is_billed [OF _ r p fs refl toy_stringify_ok toy_usage_ok, of "''w''" "''m''" 5 keyed_db] fs
  show ?thesis by (auto simp: observed_def texts_of_def new_run_def)
qed

section \<open>The admissions desk and the bridge\<close>

text \<open>What the desk's \<^verbatim>\<open>admitToRing\<close> is told when the bridge's route answers it.\<close>

definition bridge_ring :: bridge_answers where
  "bridge_ring wallet err \<longleftrightarrow>
     (case post_admissions (Some wallet) of Inr _ \<Rightarrow> err = None | Inl _ \<Rightarrow> err = Some ''the ring refused the admission'')"

lemma bridge_refuses: "\<not> bridge_ring wallet None"
  by (simp add: bridge_ring_def post_admissions_def Let_def)

interpretation refused: ledger_invariant cfg bridge_ring "\<lambda>ms db. \<forall>(k, r) \<in> set db. aq_state r \<noteq> Approved" for cfg
proof
  show "\<forall>(k, r) \<in> set (fst (prune cfg t db)). aq_state r \<noteq> Approved" if "\<forall>(k, r) \<in> set db. aq_state r \<noteq> Approved" for t db
    using that prune_sub [of cfg t db] by blast
  show "\<forall>(k, r) \<in> set (put i (desk_new_request cfg b i token t) db'). aq_state r \<noteq> Approved"
    if "\<forall>(k, r) \<in> set db. aq_state r \<noteq> Approved" "prune cfg t db = (db', n)" for db db' n b i token t
  proof -
    have "aq_state (desk_new_request cfg b i token t) \<noteq> Approved" by (simp add: desk_new_request_def)
    then show ?thesis
      using that prune_sub [of cfg t db] set_put_sub [of i "desk_new_request cfg b i token t" db'] by fastforce
  qed
  show "\<forall>(k, v) \<in> set (put i (r\<lparr>aq_state := s, aq_error := e, aq_approvedAt := a\<rparr>) db). aq_state v \<noteq> Approved"
    if "\<forall>(k, r) \<in> set db. aq_state r \<noteq> Approved" "s = MailFailed \<or> s = Approved \<and> bridge_ring (aq_wallet r) None"
    for db i r s e a
    using that set_put_sub [of i "r\<lparr>aq_state := s, aq_error := e, aq_approvedAt := a\<rparr>" db] bridge_refuses by fastforce
qed simp_all

text \<open>
  C35: The desk and this bridge cannot admit anybody: the bridge answers every admission with an error, because the
  function its route calls is not in scope there, so that however many links are mailed and buttons are pressed no
  request ever becomes approved, and every press of a button is answered with 502.
\<close>
theorem approvals_never_land:
  assumes "desk_run cr cfg bridge_ring d"
  shows "(\<forall>(k, r) \<in> set (dk_file d). aq_state r \<noteq> Approved) \<and>
    (\<forall>h db i r err t. get (dk_flights d) h = Some (Ringing db i) \<longrightarrow> get db i = Some r \<longrightarrow> bridge_ring (aq_wallet r) err \<longrightarrow>
       (\<exists>e. fst (ring_answered h err t d) = Some (refuse 502 e)))"
proof
  show "\<forall>(k, r) \<in> set (dk_file d). aq_state r \<noteq> Approved"
    using refused.run_keeps [OF assms, of "dk_file d"] by (simp add: ledgers_def)
  have "\<exists>e. fst (ring_answered h err t d) = Some (refuse 502 e)"
    if "get (dk_flights d) h = Some (Ringing db i)" "get db i = Some r" "bridge_ring (aq_wallet r) err" for h db i r err t
    using that bridge_refuses by (cases err) (auto simp: ring_answered_def)
  then show "\<forall>h db i r err t. get (dk_flights d) h = Some (Ringing db i) \<longrightarrow> get db i = Some r \<longrightarrow> bridge_ring (aq_wallet r) err \<longrightarrow>
       (\<exists>e. fst (ring_answered h err t d) = Some (refuse 502 e))" by blast
qed

theorem approvals_never_land_witness:
  "list_all (\<lambda>(k, r). aq_state r \<noteq> Approved) (dk_file pressed) \<and>
   (\<exists>e. fst (ring_answered 6 (Some ''the ring refused the admission'') 0 pressed) = Some (refuse 502 e))"
  using approvals_never_land [OF pressed_reached] pressed
  by (simp add: bridge_ring_def post_admissions_def list_all_iff)

section \<open>A failed stream and the watchdog\<close>

lemma rtrim_Cons: "rev (dropWhile is_space (rev (c # y))) = (if is_space c \<and> rev (dropWhile is_space (rev y)) = [] then [] else c # rev (dropWhile is_space (rev y)))"
  by (cases "\<exists>x \<in> set y. \<not> is_space x") (auto simp: dropWhile_append dropWhile_eq_Nil_conv)

lemma rtrim_data: "rev (dropWhile is_space (rev (''data:'' @ y))) = ''data:'' @ rev (dropWhile is_space (rev y))"
  by (simp only: append.simps rtrim_Cons) (simp add: is_space_def)

lemma trim_payload: "trim (drop 5 (trim (''data:'' @ y))) = trim y"
proof -
  have comm: "dropWhile is_space (rev (dropWhile is_space (rev y))) = rev (dropWhile is_space (rev (dropWhile is_space y)))" for y
  proof (induction y)
    case (Cons c y)
    then show ?case
      by (cases "is_space c"; cases "rev (dropWhile is_space (rev y)) = []") (auto simp only: rtrim_Cons dropWhile.simps if_True if_False simp_thms)
  qed simp
  have "trim (''data:'' @ y) = ''data:'' @ rev (dropWhile is_space (rev y))"
    using rtrim_data [of y] by (simp add: trim_def is_space_def)
  then have "trim (drop 5 (trim (''data:'' @ y))) = trim (rev (dropWhile is_space (rev y)))" by simp
  also have "\<dots> = trim y" by (simp add: trim_def comm dropWhile_idem)
  finally show ?thesis .
qed

lemma first_line_silent:
  assumes quiet: "\<And>k. js_error js (trim (take k x)) \<in> {None, Some None}" and nl: "newline \<notin> set x"
    and pre: "''data: '' @ x @ newline # rest = p @ p'"
  shows "sseFirstError js p = None"
proof -
  let ?l = "''data: '' @ x"
  have nodata: "newline \<notin> set ''data: ''" by code_simp
  have line: "first_error js (take k ?l # ls) = None" if "ls = [] \<or> 5 \<le> k" for k ls
  proof (cases "5 \<le> k")
    case True
    define z where "z = take (k - 5) (CHR '' '' # x)"
    have z: "take k ?l = ''data:'' @ z" using True by (simp add: take_append z_def numeral_eq_Suc take_Cons')
    have "trim z = trim (take (k - 6) x)" using True by (cases "k = 5") (simp_all add: z_def trim_def is_space_def take_Cons')
    then have "js_error js (trim (drop 5 (trim (take k ?l)))) \<in> {None, Some None}"
      unfolding z trim_payload using quiet by simp
    moreover have "starts_with (trim (take k ?l)) ''data:''"
      unfolding z using rtrim_data [of z] by (simp add: trim_def is_space_def starts_with_def)
    ultimately show ?thesis by (auto simp: Let_def)
  next
    case False
    then have "length (trim (take k ?l)) < 5"
      using length_dropWhile_le [of is_space "rev (dropWhile is_space (take k ?l))"] length_dropWhile_le [of is_space "take k ?l"]
      by (simp add: trim_def)
    then have "\<not> starts_with (trim (take k ?l)) ''data:''" by (auto simp: starts_with_def)
    then show ?thesis using that False by (simp add: Let_def)
  qed
  from pre have "?l @ newline # rest = p @ p'" by simp
  then obtain us where "?l = p @ us \<or> (?l @ us = p \<and> us @ p' = newline # rest)" unfolding append_eq_append_conv2 by metis
  then consider "?l = p @ us" | q where "p = ?l @ newline # q" by (cases us) auto
  then show ?thesis
  proof cases
    case 1
    moreover from this have "newline \<notin> set p" using nl nodata by (metis UnE UnI1 set_append)
    ultimately show ?thesis using line [of "[]" "length p"] by (simp add: sseFirstError_def split_on_absent)
  next
    case 2
    have "newline \<notin> set ?l" using nl nodata by auto
    then have "split_on newline p = ?l # split_on newline q" unfolding 2 by (rule split_on_sep)
    then show ?thesis using line [of "split_on newline q" "length ?l"] by (simp add: sseFirstError_def)
  qed
qed

text \<open>
  C34: A ring that fails while it streams looks alive to the gateway. The bridge opens every stream with the role frame
  and sends its error in a later one, while the gateway looks for an error in the first data line only. However the
  network cuts it, a failed streamed answer is passed on as a success, costs nothing, and is recorded as successful
  traffic of the ring, so that the watchdog does not probe that ring for the whole interval.
\<close>
theorem failed_stream_looks_alive:
  assumes failed: "fst (chatCompletions m body True (tokens, Inl e)) = EventStream fs"
    and cut: "concat chunks = concat (map (chunkFrame stringify) fs)" "'''' \<notin> set chunks"
    and json: "\<And>f. newline \<notin> set (stringify f) \<and> trim (stringify f) = stringify f \<and> stringify f \<noteq> '''' \<and> stringify f \<noteq> ''[DONE]''"
    and usage: "\<And>f. js_usage js (stringify f) = (case f of UsageFrame u \<Rightarrow> Some (of_nat (us_prompt u), of_nat (us_completion u)) | _ \<Rightarrow> None)"
    and role: "\<And>k. js_error js (trim (take k (stringify RoleFrame))) \<in> {None, Some None}"
    and ring: "md_cid gm \<noteq> ''''" "now \<noteq> 0" "later - now < RING_WATCHDOG_MS rc"
  shows "fst (chat_finish rc js w gm True (Reply 200 raw (Some chunks) broke) now now_sec g) = ChatStream chunks \<and>
    gt_db (snd (chat_finish rc js w gm True (Reply 200 raw (Some chunks) broke) now now_sec g)) = gt_db g \<and>
    fst (probe_skips rc gm later (snd (chat_finish rc js w gm True (Reply 200 raw (Some chunks) broke) now now_sec g)))"
proof -
  have fs: "fs = RoleFrame # map ContentFrame tokens @ [ErrorFrame]"
    using failed by (auto simp: chatCompletions_def split: if_splits)
  obtain x xs where ch: "chunks = x # xs" using cut(1) by (cases chunks) (auto simp: fs chunkFrame_def)
  have "sseFirstError js x = None"
    by (rule first_line_silent [OF role, where rest = "newline # concat (map (chunkFrame stringify) (tl fs))" and p' = "concat xs"])
      (use json [of RoleFrame] cut(1) in \<open>simp_all add: ch fs chunkFrame_def\<close>)
  moreover have "filter (\<lambda>x. x \<noteq> '''') chunks = chunks" using cut(2) by (induction chunks) auto
  moreover have "sc_usage (fold (scan (js_usage js)) chunks \<lparr>sc_buf = '''', sc_usage = None\<rparr>) = None"
  proof -
    have "fold (scan (js_usage js)) chunks \<lparr>sc_buf = '''', sc_usage = None\<rparr> = scan_while (js_usage js) (concat (map (chunkFrame stringify) fs) @ []) None"
      using scan_chunks [where f = "js_usage js" and chunks = chunks and s = "\<lparr>sc_buf = '''', sc_usage = None\<rparr>"] cut(1) ch
      by (simp add: scan_def)
    also have "\<dots> = scan_while (js_usage js) [] None"
      by (rule scan_frames [OF json]) (use usage in \<open>auto simp: fs\<close>)
    also have "\<dots> = \<lparr>sc_buf = [], sc_usage = None\<rparr>" by (subst scan_while.simps) simp
    finally show ?thesis by simp
  qed
  ultimately have "chat_finish rc js w gm True (Reply 200 raw (Some chunks) broke) now now_sec g =
      (ChatStream chunks, (markRingOk (md_cid gm) now g)\<lparr>gt_db := gt_db g\<rparr>)"
    by (simp add: chat_finish_def chat_stream_def is_ok_def ch finish_stream_def Let_def)
  then show ?thesis using ring by (simp add: probe_skips_def recent_ok_def markRingOk_def table_simps)
qed

theorem failed_stream_looks_alive_witness:
  "fst (probe_skips toy_ring (toy_model ''u'') 160000 (snd (chat_finish toy_ring (toy_json\<lparr>js_usage := toy_usage\<rparr>) ''w'' (toy_model ''u'') True
     (Reply 200 '''' (Some (map (chunkFrame toy_stringify) [RoleFrame, ErrorFrame])) False) 150000 0 toy_gateway)))"
proof -
  have a: "fst (chatCompletions demo_model toy_body True ([], Inl e)) = EventStream [RoleFrame, ErrorFrame]" for e
    by (simp add: chatCompletions_def promptFrom_def toy_body_def thinking_open_def demo_model_def)
  have "'''' \<notin> set (map (chunkFrame toy_stringify) [RoleFrame, ErrorFrame])" by (simp add: chunkFrame_def)
  moreover have "js_error (toy_json\<lparr>js_usage := toy_usage\<rparr>) x \<in> {None, Some None}" for x by (simp add: toy_json_def)
  moreover have "js_usage (toy_json\<lparr>js_usage := toy_usage\<rparr>) = toy_usage" by simp
  ultimately show ?thesis
    using failed_stream_looks_alive [OF a refl, where stringify = toy_stringify and js = "toy_json\<lparr>js_usage := toy_usage\<rparr>" and gm = "toy_model ''u''"
        and now = 150000 and later = 160000 and rc = toy_ring and w = "''w''" and raw = "''''" and broke = False and now_sec = 0 and g = toy_gateway]
      toy_stringify_ok toy_usage_ok by (simp add: toy_model_def toy_ring_def)
qed

end
